(* ===== verification/Arc_Prelude.thy ===== *)
theory Arc_Prelude
  imports Main "HOL-Library.Word" "HOL-Library.Monad_Syntax"
begin

text \<open>
  The prelude of the arc\_os development.  It fixes the machine types of the C sources, the
  convention for code that does not return, the loop combinators in which the C loops are
  written, and the lemmas on arrays, bits and loops that the component theories share.

  A result of type \<open>'a option\<close> is \<open>None\<close> exactly where the C code does not return a value: it
  halts in \<^verbatim>\<open>KERNEL_PANIC\<close>, spins for ever on a lock it already holds, or touches an array
  outside its bounds.  A theorem that an operation yields \<open>Some\<close> therefore includes that it
  stays inside its arrays and returns.
\<close>

unbundle bit_operations_syntax

section \<open>Machine types and error codes\<close>

type_synonym u8 = "8 word"
type_synonym u16 = "16 word"
type_synonym u32 = "32 word"
type_synonym u64 = "64 word"

text \<open>Error codes of \<^verbatim>\<open>kernel/fs/vfs.h\<close>, as the positive numbers the header defines.\<close>

abbreviation EPERM :: int where "EPERM \<equiv> 1"
abbreviation ENOENT :: int where "ENOENT \<equiv> 2"
abbreviation ESRCH :: int where "ESRCH \<equiv> 3"
abbreviation EIO :: int where "EIO \<equiv> 5"
abbreviation E2BIG :: int where "E2BIG \<equiv> 7"
abbreviation EBADF :: int where "EBADF \<equiv> 9"
abbreviation ECHILD :: int where "ECHILD \<equiv> 10"
abbreviation EAGAIN :: int where "EAGAIN \<equiv> 11"
abbreviation ENOMEM :: int where "ENOMEM \<equiv> 12"
abbreviation EACCES :: int where "EACCES \<equiv> 13"
abbreviation EEXIST :: int where "EEXIST \<equiv> 17"
abbreviation ENOTDIR :: int where "ENOTDIR \<equiv> 20"
abbreviation EISDIR :: int where "EISDIR \<equiv> 21"
abbreviation EINVAL :: int where "EINVAL \<equiv> 22"
abbreviation ENOSPC :: int where "ENOSPC \<equiv> 28"
abbreviation ESPIPE :: int where "ESPIPE \<equiv> 29"
abbreviation EPIPE :: int where "EPIPE \<equiv> 32"
abbreviation ENAMETOOLONG :: int where "ENAMETOOLONG \<equiv> 36"
abbreviation ENOSYS :: int where "ENOSYS \<equiv> 38"
abbreviation ENOTEMPTY :: int where "ENOTEMPTY \<equiv> 39"

section \<open>Arrays\<close>

text \<open>A read or write of a C array; outside its bounds there is no result.\<close>

definition arr_get :: "'a list \<Rightarrow> nat \<Rightarrow> 'a option" where
  "arr_get xs i = (if i < length xs then Some (xs ! i) else None)"

definition arr_set :: "'a list \<Rightarrow> nat \<Rightarrow> 'a \<Rightarrow> 'a list option" where
  "arr_set xs i v = (if i < length xs then Some (xs[i := v]) else None)"

lemma arr_get_in [simp]: "i < length xs \<Longrightarrow> arr_get xs i = Some (xs ! i)"
  by (simp add: arr_get_def)

lemma arr_set_in [simp]: "i < length xs \<Longrightarrow> arr_set xs i v = Some (xs[i := v])"
  by (simp add: arr_set_def)

lemma arr_get_SomeD: "arr_get xs i = Some v \<Longrightarrow> i < length xs \<and> v = xs ! i"
  by (simp add: arr_get_def split: if_splits)

lemma arr_set_SomeD: "arr_set xs i v = Some ys \<Longrightarrow> i < length xs \<and> ys = xs[i := v]"
  by (simp add: arr_set_def split: if_splits)

section \<open>Fields of byte arrays\<close>

text \<open>Fields of a packet or file image in memory, least significant byte first.\<close>

definition le16 :: "u16 \<Rightarrow> u8 list" where
  "le16 v = [ucast v, ucast (drop_bit 8 v)]"

definition le32 :: "u32 \<Rightarrow> u8 list" where
  "le32 v = [ucast v, ucast (drop_bit 8 v), ucast (drop_bit 16 v), ucast (drop_bit 24 v)]"

definition rd16 :: "u8 list \<Rightarrow> nat \<Rightarrow> u16 option" where
  "rd16 d i = do { a \<leftarrow> arr_get d i; b \<leftarrow> arr_get d (i + 1); Some (ucast a OR push_bit 8 (ucast b)) }"

definition rd32 :: "u8 list \<Rightarrow> nat \<Rightarrow> u32 option" where
  "rd32 d i =
     do { a \<leftarrow> arr_get d i; b \<leftarrow> arr_get d (i + 1); c \<leftarrow> arr_get d (i + 2); e \<leftarrow> arr_get d (i + 3);
          Some (ucast a OR push_bit 8 (ucast b) OR push_bit 16 (ucast c) OR push_bit 24 (ucast e)) }"

definition rd64 :: "u8 list \<Rightarrow> nat \<Rightarrow> u64 option" where
  "rd64 d i = do { lo \<leftarrow> rd32 d i; hi \<leftarrow> rd32 d (i + 4); Some (ucast lo OR push_bit 32 (ucast hi)) }"

text \<open>\<open>len\<close> bytes from position \<open>i\<close> of an image.\<close>

definition rd_bytes :: "u8 list \<Rightarrow> nat \<Rightarrow> nat \<Rightarrow> u8 list option" where
  "rd_bytes d i len = (if i + len \<le> length d then Some (take len (drop i d)) else None)"

section \<open>Loops\<close>

text \<open>
  \<open>for_each f xs s\<close> is the C loop that runs \<open>f\<close> on each index in turn; \<open>for_ret\<close> is a loop
  whose body may also execute \<^verbatim>\<open>return\<close> (\<open>Inl\<close>).  The two rules below are the proof rules for
  counting loops: an invariant \<open>I i s\<close> that holds before the iteration with index \<open>i\<close>.
\<close>

fun for_each :: "('a \<Rightarrow> 's \<Rightarrow> 's option) \<Rightarrow> 'a list \<Rightarrow> 's \<Rightarrow> 's option" where
  "for_each f [] s = Some s"
| "for_each f (x # xs) s = do { s' \<leftarrow> f x s; for_each f xs s' }"

fun for_ret :: "('a \<Rightarrow> 's \<Rightarrow> ('r + 's) option) \<Rightarrow> 'a list \<Rightarrow> 's \<Rightarrow> ('r + 's) option" where
  "for_ret f [] s = Some (Inr s)"
| "for_ret f (x # xs) s =
     do { r \<leftarrow> f x s; (case r of Inl v \<Rightarrow> Some (Inl v) | Inr s' \<Rightarrow> for_ret f xs s') }"

lemma for_each_append:
  "for_each f (xs @ ys) s = do { s' \<leftarrow> for_each f xs s; for_each f ys s' }"
  by (induction xs arbitrary: s) (auto split: bind_splits)

lemma for_ret_append:
  "for_ret f (xs @ ys) s =
     do { r \<leftarrow> for_ret f xs s; (case r of Inl v \<Rightarrow> Some (Inl v) | Inr s' \<Rightarrow> for_ret f ys s') }"
  by (induction xs arbitrary: s) (auto split: bind_splits sum.splits)

lemma for_each_upt_rule:
  assumes "lo \<le> hi" and "I lo s"
    and body: "\<And>i s. lo \<le> i \<Longrightarrow> i < hi \<Longrightarrow> I i s \<Longrightarrow> \<exists>s'. f i s = Some s' \<and> I (Suc i) s'"
  shows "\<exists>s'. for_each f [lo..<hi] s = Some s' \<and> I hi s'"
  using assms
proof (induction "hi - lo" arbitrary: lo s)
  case 0
  then show ?case by simp
next
  case (Suc n)
  then obtain s1 where s1: "f lo s = Some s1" "I (Suc lo) s1" by fastforce
  have "\<exists>s'. for_each f [Suc lo..<hi] s1 = Some s' \<and> I hi s'"
    using Suc s1(2) by (intro Suc.hyps(1)) auto
  then show ?case using Suc.hyps(2) s1(1) by (simp add: upt_conv_Cons)
qed

lemma for_ret_upt_rule:
  assumes "lo \<le> hi" and "I lo s"
    and body: "\<And>i s. lo \<le> i \<Longrightarrow> i < hi \<Longrightarrow> I i s \<Longrightarrow>
      (\<exists>r. f i s = Some (Inl r) \<and> Q r) \<or> (\<exists>s'. f i s = Some (Inr s') \<and> I (Suc i) s')"
  shows "(\<exists>r. for_ret f [lo..<hi] s = Some (Inl r) \<and> Q r) \<or>
         (\<exists>s'. for_ret f [lo..<hi] s = Some (Inr s') \<and> I hi s')"
  using assms
proof (induction "hi - lo" arbitrary: lo s)
  case 0
  then show ?case by simp
next
  case (Suc n)
  have step: "(\<exists>r. f lo s = Some (Inl r) \<and> Q r) \<or> (\<exists>s'. f lo s = Some (Inr s') \<and> I (Suc lo) s')"
    using Suc.prems Suc.hyps(2) by fastforce
  have rest: "I (Suc lo) s1 \<Longrightarrow> (\<exists>r. for_ret f [Suc lo..<hi] s1 = Some (Inl r) \<and> Q r) \<or>
         (\<exists>s'. for_ret f [Suc lo..<hi] s1 = Some (Inr s') \<and> I hi s')" for s1
    using Suc by (intro Suc.hyps(1)) auto
  show ?case using step rest Suc.hyps(2) by (fastforce simp: upt_conv_Cons)
qed

section \<open>Bits of words\<close>

text \<open>
  The C idioms \<^verbatim>\<open>w | (1 << n)\<close>, \<^verbatim>\<open>w & ~(1 << n)\<close>, \<^verbatim>\<open>w & (1 << n)\<close> and \<^verbatim>\<open>(w >> n) & 1\<close>.  The
  simplifier writes \<open>push_bit n 1\<close> as \<open>2 ^ n\<close>, so the rules are stated in that form.
\<close>

lemma bit_or_shift [simp]:
  fixes w :: "'a::len word"
  assumes "n < LENGTH('a)"
  shows "bit (w OR 2 ^ n) m \<longleftrightarrow> bit w m \<or> m = n"
  using assms by (auto simp: bit_simps)

lemma bit_and_not_shift [simp]:
  fixes w :: "'a::len word"
  assumes "n < LENGTH('a)"
  shows "bit (w AND NOT (2 ^ n)) m \<longleftrightarrow> bit w m \<and> m \<noteq> n"
  using assms by (auto simp: bit_simps dest: bit_imp_le_length)

lemma bit_two_power: "bit (2 ^ n :: 'a::len word) j \<longleftrightarrow> n < LENGTH('a) \<and> j = n"
  by (auto simp: bit_simps)

lemma and_shift_eq_0_iff [simp]:
  fixes w :: "'a::len word"
  assumes "n < LENGTH('a)"
  shows "w AND 2 ^ n = 0 \<longleftrightarrow> \<not> bit w n"
proof
  assume "w AND 2 ^ n = 0"
  then have "bit (w AND 2 ^ n) n = bit (0 :: 'a word) n" by simp
  then show "\<not> bit w n" using assms by (simp add: bit_simps)
next
  assume "\<not> bit w n"
  then show "w AND 2 ^ n = 0" by (auto intro!: bit_word_eqI simp: bit_simps)
qed

lemma drop_bit_and_1_eq_0_iff [simp]:
  fixes w :: "'a::len word"
  shows "drop_bit n w AND 1 = 0 \<longleftrightarrow> \<not> bit w n"
  by (simp add: and_one_eq bit_iff_odd_drop_bit even_iff_mod_2_eq_zero)

lemma word_eq_minus_1_iff:
  fixes w :: "'a::len word"
  shows "w = - 1 \<longleftrightarrow> (\<forall>n < LENGTH('a). bit w n)"
  by (auto simp: bit_simps intro!: bit_word_eqI)

section \<open>Arithmetic of words\<close>

lemma unat_lt_64: "unat (x :: u64) < 2 ^ 64"
  using unsigned_less [of x, where 'a = nat] by simp

lemma unat_lt_32: "unat (n :: u32) < 4294967296"
  using unsigned_less [of n, where 'a = nat] by simp

lemma unat_ucast_32_64 [simp]: "unat (ucast (n :: u32) :: u64) = unat n"
  using unat_lt_32 [of n] by (simp add: unsigned_ucast_eq take_bit_nat_eq_self)

lemma of_nat_unat_32: "(of_nat (unat (n :: u32)) :: u64) = ucast n"
  by (rule bit_word_eqI) (simp add: bit_simps)

lemma sint_32_small:
  assumes "unat (n :: u32) < 2 ^ 31"
  shows "sint n = int (unat n)"
proof -
  have "n < 2147483648" using assms by (simp add: word_less_nat_alt)
  then have "uint n < 2147483648" by (simp add: word_less_def)
  then show ?thesis by (simp add: sint_uint signed_take_bit_int_eq_self order_trans [of "- 2147483648" 0])
qed

lemma unat_of_nat_less:
  "n < 2 ^ LENGTH('a) \<Longrightarrow> unat (of_nat n :: 'a::len word) = n"
  by (simp add: unat_of_nat take_bit_nat_eq_self)

lemma unat_plus_no_overflow:
  fixes a b :: "'a::len word"
  shows "unat a + unat b < 2 ^ LENGTH('a) \<Longrightarrow> unat (a + b) = unat a + unat b"
  by (simp add: unat_word_ariths)

lemma unat_mult_no_overflow:
  fixes a b :: "'a::len word"
  shows "unat a * unat b < 2 ^ LENGTH('a) \<Longrightarrow> unat (a * b) = unat a * unat b"
  by (simp add: unat_word_ariths)

text \<open>Clearing low bits rounds down, as in the C idiom \<^verbatim>\<open>x & ~(2^n - 1)\<close>.\<close>

lemma unat_and_not_mask:
  fixes x :: "'a::len word"
  shows "unat (x AND NOT (mask n)) = unat x div 2 ^ n * 2 ^ n"
proof -
  have "unat x div 2 ^ n * 2 ^ n = push_bit n (drop_bit n (unat x))"
    by (simp add: drop_bit_eq_div push_bit_eq_mult)
  also have "\<dots> = unat (x AND NOT (mask n))"
    by (rule bit_eqI) (auto simp: bit_simps dest: bit_imp_le_length)
  finally show ?thesis by simp
qed

text \<open>The test \<open>x - c < k\<close> on words is membership in a range that does not wrap.\<close>

lemma bytes_join:
  fixes v :: u32
  shows "ucast (ucast v :: u8) OR push_bit 8 (ucast (ucast (drop_bit 8 v) :: u8)) OR push_bit 16 (ucast (ucast (drop_bit 16 v) :: u8)) OR
     push_bit 24 (ucast (ucast (drop_bit 24 v) :: u8)) = v"
proof (rule bit_word_eqI)
  fix n :: nat
  assume "n < LENGTH(32)"
  then consider "n < 8" | "8 \<le> n" "n < 16" | "16 \<le> n" "n < 24" | "24 \<le> n" "n < 32" by (simp; linarith)
  then show "bit (ucast (ucast v :: u8) OR push_bit 8 (ucast (ucast (drop_bit 8 v) :: u8)) OR push_bit 16 (ucast (ucast (drop_bit 16 v) :: u8)) OR
     push_bit 24 (ucast (ucast (drop_bit 24 v) :: u8)) :: u32) n = bit v n"
    by cases (auto simp: bit_simps)
qed

lemma bytes_join16:
  fixes v :: u16
  shows "ucast (ucast v :: u8) OR push_bit 8 (ucast (ucast (drop_bit 8 v) :: u8)) = v"
proof (rule bit_word_eqI)
  fix n :: nat
  assume "n < LENGTH(16)"
  then consider "n < 8" | "8 \<le> n" "n < 16" by (simp; linarith)
  then show "bit (ucast (ucast v :: u8) OR push_bit 8 (ucast (ucast (drop_bit 8 v) :: u8)) :: u16) n = bit v n"
    by cases (auto simp: bit_simps)
qed

lemma word_range_iff:
  fixes x c k :: u64
  assumes "unat c + unat k \<le> 2 ^ 64"
  shows "x - c < k \<longleftrightarrow> unat c \<le> unat x \<and> unat x < unat c + unat k"
  using assms unat_lt_64 [of c] by (auto simp: word_less_nat_alt unat_sub_if')

end
