(* ===== verification/Lib.thy ===== *)
theory Lib
  imports Arc_Prelude
begin

text \<open>
  The freestanding byte and string routines of \<^verbatim>\<open>kernel/lib/mem.c\<close> and \<^verbatim>\<open>kernel/lib/string.c\<close>
  over a byte-addressed memory \<open>u64 \<Rightarrow> u8\<close>.  Pointers are addresses; the routines that return
  their destination argument return the changed memory here.  A routine that reads on until it
  finds a terminator is a partial function: with no terminator it has no result.

  The block copies are shown equal to one simultaneous copy \<open>block_copy\<close>, and the string
  routines are shown to compute list functions on the bytes \<open>xs\<close> of a terminated string,
  \<open>cstr m p xs\<close>.  The file-system theories work with those lists.
\<close>

type_synonym memory = "u64 \<Rightarrow> u8"

section \<open>Routines of mem.c\<close>

definition copy_byte :: "u64 \<Rightarrow> u64 \<Rightarrow> nat \<Rightarrow> memory \<Rightarrow> memory" where
  "copy_byte d s i m = m(d + of_nat i := m (s + of_nat i))"

definition memcpy :: "u64 \<Rightarrow> u64 \<Rightarrow> u64 \<Rightarrow> memory \<Rightarrow> memory" where
  "memcpy d s n m = fold (copy_byte d s) [0..<unat n] m"

definition memset :: "u64 \<Rightarrow> int \<Rightarrow> u64 \<Rightarrow> memory \<Rightarrow> memory" where
  "memset d c n m = fold (\<lambda>i m. m(d + of_nat i := of_int c)) [0..<unat n] m"

definition memmove :: "u64 \<Rightarrow> u64 \<Rightarrow> u64 \<Rightarrow> memory \<Rightarrow> memory" where
  "memmove d s n m =
     (if d < s then fold (copy_byte d s) [0..<unat n] m
      else if d > s then fold (copy_byte d s) (rev [0..<unat n]) m
      else m)"

definition memcmp :: "memory \<Rightarrow> u64 \<Rightarrow> u64 \<Rightarrow> u64 \<Rightarrow> int" where
  "memcmp m a b n =
     (case List.find (\<lambda>i. m (a + of_nat i) \<noteq> m (b + of_nat i)) [0..<unat n] of
        Some i \<Rightarrow> uint (m (a + of_nat i)) - uint (m (b + of_nat i))
      | None \<Rightarrow> 0)"

section \<open>Routines of string.c\<close>

partial_function (option) strlen_from :: "memory \<Rightarrow> u64 \<Rightarrow> u64 \<Rightarrow> u64 option" where
  "strlen_from m s len = (if m (s + len) \<noteq> 0 then strlen_from m s (len + 1) else Some len)"

definition strlen :: "memory \<Rightarrow> u64 \<Rightarrow> u64 option" where
  "strlen m s = strlen_from m s 0"

partial_function (option) strcmp :: "memory \<Rightarrow> u64 \<Rightarrow> u64 \<Rightarrow> int option" where
  "strcmp m a b =
     (if m a \<noteq> 0 \<and> m a = m b then strcmp m (a + 1) (b + 1)
      else Some (uint (m a) - uint (m b)))"

fun strncmp_from :: "memory \<Rightarrow> u64 \<Rightarrow> u64 \<Rightarrow> nat list \<Rightarrow> int" where
  "strncmp_from m a b [] = 0"
| "strncmp_from m a b (i # is) =
     (if m (a + of_nat i) \<noteq> m (b + of_nat i) then uint (m (a + of_nat i)) - uint (m (b + of_nat i))
      else if m (a + of_nat i) = 0 then 0
      else strncmp_from m a b is)"

definition strncmp :: "memory \<Rightarrow> u64 \<Rightarrow> u64 \<Rightarrow> u64 \<Rightarrow> int" where
  "strncmp m a b n = strncmp_from m a b [0..<unat n]"

text \<open>The two loops of \<^verbatim>\<open>strncpy\<close>: copy up to the terminator, then pad.\<close>

fun strncpy_copy :: "u64 \<Rightarrow> u64 \<Rightarrow> nat list \<Rightarrow> memory \<Rightarrow> nat list \<times> memory" where
  "strncpy_copy d s [] m = ([], m)"
| "strncpy_copy d s (i # is) m =
     (if m (s + of_nat i) \<noteq> 0 then strncpy_copy d s is (copy_byte d s i m) else (i # is, m))"

definition strncpy :: "u64 \<Rightarrow> u64 \<Rightarrow> u64 \<Rightarrow> memory \<Rightarrow> memory" where
  "strncpy d s n m =
     (let (rest, m) = strncpy_copy d s [0..<unat n] m
      in fold (\<lambda>i m. m(d + of_nat i := 0)) rest m)"

partial_function (option) strchr_from :: "memory \<Rightarrow> u64 \<Rightarrow> u8 \<Rightarrow> u64 option" where
  "strchr_from m s ch =
     (if m s \<noteq> 0 then (if m s = ch then Some s else strchr_from m (s + 1) ch)
      else Some (if ch = 0 then s else 0))"

definition strchr :: "memory \<Rightarrow> u64 \<Rightarrow> int \<Rightarrow> u64 option" where
  "strchr m s c = strchr_from m s (of_int c)"

section \<open>Block operations\<close>

text \<open>All bytes of the source are read before any byte of the destination is written.\<close>

definition block_copy :: "u64 \<Rightarrow> u64 \<Rightarrow> u64 \<Rightarrow> memory \<Rightarrow> memory" where
  "block_copy d s n m = (\<lambda>a. if a - d < n then m (a - d + s) else m a)"

lemma unat_offset:
  "i < unat (n :: u64) \<Longrightarrow> unat (of_nat i :: u64) = i"
  using unat_lt_64 [of n] by (simp add: unat_of_nat_less)

lemma offset_eq_iff:
  "i < unat (n :: u64) \<Longrightarrow> (a :: u64) = d + of_nat i \<longleftrightarrow> unat (a - d) = i"
proof -
  assume "i < unat n"
  then have "unat (a - d) = i \<longleftrightarrow> a - d = of_nat i" 
    using unat_offset [of i n] by (simp only: word_unat_eq_iff)
  then show ?thesis by (auto simp: algebra_simps)
qed

lemma fold_forward:
  fixes d s n :: u64
  assumes "k \<le> unat n" and "\<And>i j. i < j \<Longrightarrow> j < unat n \<Longrightarrow> d + of_nat i \<noteq> s + of_nat j"
  shows "fold (copy_byte d s) [0..<k] m = (\<lambda>a. if unat (a - d) < k then m (a - d + s) else m a)"
  using assms(1)
proof (induction k)
  case (Suc k)
  let ?f = "\<lambda>a. if unat (a - d) < k then m (a - d + s) else m a"
  have "?f (s + of_nat k) = m (s + of_nat k)"
  proof (cases "unat (s + of_nat k - d) < k")
    case True
    then have "s + of_nat k = d + of_nat (unat (s + of_nat k - d))" by simp
    then show ?thesis using assms(2) [OF True] Suc.prems by simp
  qed simp
  moreover have "d + of_nat k - d = (of_nat k :: u64)" by simp
  moreover have "a = d + of_nat k \<longleftrightarrow> unat (a - d) = k" for a using offset_eq_iff [of k n] Suc.prems by simp
  ultimately show ?case using Suc unat_offset [of k n]
    by (auto simp: copy_byte_def fun_eq_iff less_Suc_eq add.commute)
qed auto

lemma fold_backward:
  fixes d s n :: u64
  assumes "k \<le> unat n" and "\<And>i j. i < j \<Longrightarrow> j < unat n \<Longrightarrow> d + of_nat j \<noteq> s + of_nat i"
  shows "fold (copy_byte d s) (rev [0..<k]) m = (\<lambda>a. if unat (a - d) < k then m (a - d + s) else m a)"
  using assms(1)
proof (induction k arbitrary: m)
  case (Suc k)
  let ?m = "copy_byte d s k m"
  have k: "a = d + of_nat k \<longleftrightarrow> unat (a - d) = k" for a using offset_eq_iff [of k n] Suc.prems by simp
  have "?m (a - d + s) = m (a - d + s)" if "unat (a - d) < k" for a
    using assms(2) [OF that] Suc.prems by (auto simp: copy_byte_def add.commute)
  moreover have "?m a = (if unat (a - d) = k then m (s + of_nat k) else m a)" for a
    by (simp add: copy_byte_def k)
  moreover have "s + of_nat k = a - d + s" if "unat (a - d) = k" for a
    using k [of a] that by (simp add: algebra_simps)
  moreover have "fold (copy_byte d s) (rev [0..<Suc k]) m a =
      (if unat (a - d) < k then ?m (a - d + s) else ?m a)" for a using Suc by simp
  ultimately show ?case by (auto simp: fun_eq_iff less_Suc_eq add.commute [of s])
qed auto

lemma offset_lt_iff: "unat (a - d) < unat n \<longleftrightarrow> a - d < (n :: u64)"
  by (simp add: word_less_nat_alt)

lemma no_wrap_offset:
  fixes d n :: u64
  assumes "unat d + unat n \<le> 2 ^ 64" and "i < unat n"
  shows "unat (d + of_nat i) = unat d + i"
  using assms unat_offset [OF assms(2)] by (subst unat_plus_no_overflow) auto

text \<open>
  Moving a block copies it as if through a separate buffer, whether or not source and
  destination overlap, and changes nothing outside the destination; neither block may wrap
  around the end of the address space.
\<close>

lemma memmove_correct:
  assumes "unat d + unat n \<le> 2 ^ 64" and "unat s + unat n \<le> 2 ^ 64"
  shows "memmove d s n m = block_copy d s n m"
proof -
  have w: "unat (d + of_nat i) = unat d + i" "unat (s + of_nat i) = unat s + i" if "i < unat n" for i
    using no_wrap_offset assms that by auto
  consider "d < s" | "s < d" | "d = s" by fastforce
  then show ?thesis
  proof cases
    case 1
    have "d + of_nat i \<noteq> s + of_nat j" if "i < j" "j < unat n" for i j
      using w(1) [of i] w(2) [of j] 1 that by (auto simp: word_less_nat_alt)
    then show ?thesis using 1 fold_forward [of "unat n" n d s m]
      by (simp add: memmove_def block_copy_def offset_lt_iff)
  next
    case 2
    have "d + of_nat j \<noteq> s + of_nat i" if "i < j" "j < unat n" for i j
      using w(1) [of j] w(2) [of i] 2 that by (auto simp: word_less_nat_alt)
    then show ?thesis using 2 less_not_sym [OF 2] fold_backward [of "unat n" n d s m]
      by (simp add: memmove_def block_copy_def offset_lt_iff)
  qed (auto simp: memmove_def block_copy_def)
qed

lemma memcpy_apart:
  assumes "unat d + unat n \<le> 2 ^ 64" and "unat s + unat n \<le> 2 ^ 64"
    and "unat d + unat n \<le> unat s \<or> unat s + unat n \<le> unat d \<or> d \<le> s"
  shows "memcpy d s n m = block_copy d s n m"
proof -
  have "d + of_nat i \<noteq> s + of_nat j" if "i < j" "j < unat n" for i j
    using no_wrap_offset [OF assms(1), of i] no_wrap_offset [OF assms(2), of j] assms(3) that
    by (auto simp: word_le_nat_alt)
  then show ?thesis using fold_forward [of "unat n" n d s m]
    by (simp add: memcpy_def block_copy_def offset_lt_iff)
qed

lemma memset_fill:
  "memset d c n m = (\<lambda>a. if a - d < n then of_int c else m a)"
proof -
  have "k \<le> unat n \<Longrightarrow> fold (\<lambda>i m. m(d + of_nat i := of_int c)) [0..<k] m =
          (\<lambda>a. if unat (a - d) < k then of_int c else m a)" for k
  proof (induction k)
    case (Suc k)
    then show ?case using offset_eq_iff [of k n _ d] by (auto simp: fun_eq_iff less_Suc_eq)
  qed simp
  then show ?thesis by (simp add: memset_def offset_lt_iff)
qed

section \<open>Strings\<close>

fun cstr :: "memory \<Rightarrow> u64 \<Rightarrow> u8 list \<Rightarrow> bool" where
  "cstr m p [] \<longleftrightarrow> m p = 0"
| "cstr m p (x # xs) \<longleftrightarrow> m p = x \<and> x \<noteq> 0 \<and> cstr m (p + 1) xs"

fun strcmp_list :: "u8 list \<Rightarrow> u8 list \<Rightarrow> int" where
  "strcmp_list [] [] = 0"
| "strcmp_list [] (y # ys) = - uint y"
| "strcmp_list (x # xs) [] = uint x"
| "strcmp_list (x # xs) (y # ys) = (if x = y then strcmp_list xs ys else uint x - uint y)"

lemma strlen_from_cstr:
  "cstr m (s + len) xs \<Longrightarrow> strlen_from m s len = Some (len + of_nat (length xs))"
proof (induction xs arbitrary: len)
  case Nil
  then show ?case by (subst strlen_from.simps) simp
next
  case (Cons x xs)
  then show ?case using Cons.IH [of "len + 1"] by (subst strlen_from.simps) (simp add: ac_simps)
qed

lemma strlen_cstr: "cstr m s xs \<Longrightarrow> strlen m s = Some (of_nat (length xs))"
  using strlen_from_cstr [of m s 0 xs] by (simp add: strlen_def)

lemma strcmp_cstr:
  "cstr m a xs \<Longrightarrow> cstr m b ys \<Longrightarrow> strcmp m a b = Some (strcmp_list xs ys)"
  by (induction xs ys arbitrary: a b rule: strcmp_list.induct) (subst strcmp.simps, simp)+

lemma strcmp_list_eq_0: "0 \<notin> set xs \<Longrightarrow> 0 \<notin> set ys \<Longrightarrow> strcmp_list xs ys = 0 \<longleftrightarrow> xs = ys"
  by (induction xs ys rule: strcmp_list.induct) (auto simp: word_uint_eq_iff)

lemma uint_pos: "y \<noteq> 0 \<Longrightarrow> 0 < uint (y :: u8)"
  using uint_0_iff [of y] by (simp add: order_less_le)

lemma strcmp_list_less:
  "0 \<notin> set xs \<Longrightarrow> 0 \<notin> set ys \<Longrightarrow> strcmp_list xs ys < 0 \<longleftrightarrow> (xs, ys) \<in> lexord {(x, y). x < y}"
  by (induction xs ys rule: strcmp_list.induct) (auto simp: word_less_def uint_pos)

lemma cstr_nonzero: "cstr m p xs \<Longrightarrow> 0 \<notin> set xs"
  by (induction xs arbitrary: p) auto

text \<open>
  Comparing two terminated strings returns, gives 0 exactly when they are equal, and a
  negative number exactly when the first is smaller in the lexicographic order of unsigned bytes.
\<close>

lemma strcmp_correct:
  assumes "cstr m a xs" and "cstr m b ys"
  shows "\<exists>r. strcmp m a b = Some r \<and> (r = 0 \<longleftrightarrow> xs = ys) \<and> (r < 0 \<longleftrightarrow> (xs, ys) \<in> lexord {(x, y). x < y})"
  using strcmp_cstr [OF assms] strcmp_list_eq_0 strcmp_list_less assms [THEN cstr_nonzero] by blast

lemma strncmp_from_cstr:
  "cstr m (a + of_nat k) xs \<Longrightarrow> cstr m (b + of_nat k) ys \<Longrightarrow>
   strncmp_from m a b [k..<k + n] = strcmp_list (take n xs) (take n ys)"
proof (induction n arbitrary: k xs ys)
  case (Suc n)
  have c: "[k..<k + Suc n] = k # [Suc k..<Suc k + n]" by (simp add: upt_conv_Cons)
  have "cstr m (a + of_nat (Suc k)) (tl xs)" "cstr m (b + of_nat (Suc k)) (tl ys)" if "xs \<noteq> []" "ys \<noteq> []"
    using Suc.prems that by (cases xs; simp add: ac_simps; cases ys; simp add: ac_simps)+
  then show ?case using Suc.IH [of "Suc k" "tl xs" "tl ys"] Suc.prems unfolding c
    by (cases xs; cases ys) auto
qed simp

lemma strncmp_cstr:
  "cstr m a xs \<Longrightarrow> cstr m b ys \<Longrightarrow> strncmp m a b n = strcmp_list (take (unat n) xs) (take (unat n) ys)"
  using strncmp_from_cstr [of m a 0 xs b ys "unat n"] by (simp add: strncmp_def)

lemma strchr_cstr:
  "cstr m s xs \<Longrightarrow> ch \<noteq> 0 \<Longrightarrow>
   strchr_from m s ch = Some (if ch \<in> set xs then s + of_nat (length (takeWhile (\<lambda>x. x \<noteq> ch) xs)) else 0)"
proof (induction xs arbitrary: s)
  case Nil
  then show ?case by (subst strchr_from.simps) simp
next
  case (Cons x xs)
  then show ?case by (subst strchr_from.simps) (auto simp: ac_simps)
qed

end
