(* ===== verification/Spinlock.thy ===== *)
theory Spinlock
  imports Arc_Prelude
begin

text \<open>
  Spinlocks of \<^verbatim>\<open>kernel/proc/spinlock.h\<close> on one CPU.  Acquiring saves RFLAGS in the lock and
  clears the interrupt flag; with interrupts off nobody else runs, so a lock that is already
  held is waited for without end and there is no result.  Releasing restores the saved flags.
\<close>

record Spinlock =
  locked :: u32
  saved_flags :: u64

definition SPINLOCK_INIT :: Spinlock where
  "SPINLOCK_INIT = \<lparr>locked = 0, saved_flags = 0\<rparr>"

definition RFLAGS_IF :: u64 where
  "RFLAGS_IF = push_bit 9 1"

definition interrupts_on :: "u64 \<Rightarrow> bool" where
  "interrupts_on rflags \<longleftrightarrow> rflags AND RFLAGS_IF \<noteq> 0"

definition spinlock_acquire :: "Spinlock \<Rightarrow> u64 \<Rightarrow> (Spinlock \<times> u64) option" where
  "spinlock_acquire lock rflags =
     (if locked lock \<noteq> 0 then None
      else Some (lock\<lparr>locked := 1, saved_flags := rflags\<rparr>, rflags AND NOT RFLAGS_IF))"

definition spinlock_release :: "Spinlock \<Rightarrow> u64 \<Rightarrow> Spinlock \<times> u64" where
  "spinlock_release lock rflags = (lock\<lparr>locked := 0\<rparr>, saved_flags lock)"

lemma spinlock_acquire_free [simp]:
  "locked lk = 0 \<Longrightarrow> spinlock_acquire lk fl =
     Some (lk\<lparr>locked := 1, saved_flags := fl\<rparr>, fl AND NOT RFLAGS_IF)"
  by (simp add: spinlock_acquire_def)

lemma spinlock_acquire_held [simp]: "locked lk \<noteq> 0 \<Longrightarrow> spinlock_acquire lk fl = None"
  by (simp add: spinlock_acquire_def)

lemma interrupts_off_inside:
  "spinlock_acquire lk fl = Some (lk', fl') \<Longrightarrow> \<not> interrupts_on fl'"
  by (auto simp: spinlock_acquire_def interrupts_on_def and.assoc split: if_splits)

text \<open>A critical section gives the interrupt state back: acquire, then release.\<close>

lemma spinlock_section:
  "spinlock_acquire lk fl = Some (lk', fl') \<Longrightarrow>
   spinlock_release lk' fl' = (lk\<lparr>locked := 0, saved_flags := fl\<rparr>, fl)"
  by (auto simp: spinlock_acquire_def spinlock_release_def split: if_splits)

end
