(* ===== verification/Pmm.thy ===== *)
theory Pmm
  imports Spinlock
begin

text \<open>
  The physical memory manager, \<^verbatim>\<open>kernel/mm/pmm.c\<close>: a bitmap with one bit per 4 KiB page frame
  (1 = allocated), a count of free pages, and a lock.  The static variables of the file are the
  fields of \<open>pmm\<close>, with the CPU's RFLAGS register beside them because the lock saves it.

  The bitmap is an array of 64-bit words.  Its abstraction is \<open>free_set\<close>, the set of free page
  numbers; each operation is shown to refine an operation on that set.
\<close>

section \<open>Boot information\<close>

record MemoryMapEntry =
  base :: u64
  me_length :: u64
  me_type :: u32

abbreviation MEMMAP_USABLE :: u32 where "MEMMAP_USABLE \<equiv> 0"

text \<open>
  The fields of \<^verbatim>\<open>BootInfo\<close> that the memory managers read; \<open>memory_map\<close> holds the first
  \<^verbatim>\<open>memory_map_count\<close> entries of the C array.
\<close>

record BootInfo =
  memory_map :: "MemoryMapEntry list"
  bi_hhdm_offset :: u64
  kernel_phys_base :: u64

section \<open>State\<close>

record pmm =
  rflags :: u64
  pmm_lock :: Spinlock
  bitmap :: "u64 list"
  bitmap_ptr :: u64
  bitmap_size :: u64
  total_pages :: u64
  free_pages :: u64
  highest_addr :: u64
  pmm_hhdm_offset :: u64

abbreviation PAGE_SIZE :: u64 where "PAGE_SIZE \<equiv> 4096"
abbreviation BITS_PER_QWORD :: u64 where "BITS_PER_QWORD \<equiv> 64"

definition PAGE_ALIGN_UP :: "u64 \<Rightarrow> u64" where
  "PAGE_ALIGN_UP x = (x + PAGE_SIZE - 1) AND NOT (PAGE_SIZE - 1)"

definition PAGE_ALIGN_DOWN :: "u64 \<Rightarrow> u64" where
  "PAGE_ALIGN_DOWN x = x AND NOT (PAGE_SIZE - 1)"

section \<open>Bitmap helpers\<close>

definition pmm_bitmap_set :: "u64 list \<Rightarrow> u64 \<Rightarrow> u64 list option" where
  "pmm_bitmap_set bm b =
     do { w \<leftarrow> arr_get bm (unat (b div BITS_PER_QWORD));
          arr_set bm (unat (b div BITS_PER_QWORD)) (w OR push_bit (unat (b mod BITS_PER_QWORD)) 1) }"

definition pmm_bitmap_clear :: "u64 list \<Rightarrow> u64 \<Rightarrow> u64 list option" where
  "pmm_bitmap_clear bm b =
     do { w \<leftarrow> arr_get bm (unat (b div BITS_PER_QWORD));
          arr_set bm (unat (b div BITS_PER_QWORD)) (w AND NOT (push_bit (unat (b mod BITS_PER_QWORD)) 1)) }"

definition pmm_bitmap_test :: "u64 list \<Rightarrow> u64 \<Rightarrow> bool option" where
  "pmm_bitmap_test bm b =
     do { w \<leftarrow> arr_get bm (unat (b div BITS_PER_QWORD));
          Some (drop_bit (unat (b mod BITS_PER_QWORD)) w AND 1 \<noteq> 0) }"

section \<open>Searching the bitmap\<close>

text \<open>The inner loop of the search: the first clear bit of one word, or \<open>total\<close> past the end.\<close>

definition scan_qword :: "u64 \<Rightarrow> u64 \<Rightarrow> nat \<Rightarrow> (u64 + unit) option" where
  "scan_qword tot w qword_idx =
     for_ret (\<lambda>bit_idx _.
        let page = of_nat qword_idx * BITS_PER_QWORD + of_nat bit_idx in
        if page \<ge> tot then Some (Inl tot)
        else if w AND push_bit bit_idx 1 = 0 then Some (Inl page)
        else Some (Inr ())) [0..<64] ()"

definition bitmap_find_first_free :: "pmm \<Rightarrow> u64 option" where
  "bitmap_find_first_free s =
     do { r \<leftarrow> for_ret (\<lambda>qword_idx _.
             do { w \<leftarrow> arr_get (bitmap s) qword_idx;
                  if w \<noteq> - 1 then scan_qword (total_pages s) w qword_idx else Some (Inr ()) })
             [0..<unat (bitmap_size s div 8)] ();
          Some (case r of Inl page \<Rightarrow> page | Inr _ \<Rightarrow> total_pages s) }"

definition bitmap_find_contiguous :: "pmm \<Rightarrow> u64 \<Rightarrow> u64 option" where
  "bitmap_find_contiguous s count =
     do { r \<leftarrow> for_ret (\<lambda>i (run_start, run_length).
             do { used \<leftarrow> pmm_bitmap_test (bitmap s) (of_nat i);
                  if \<not> used then
                    let run_start = (if run_length = 0 then of_nat i else run_start);
                        run_length = run_length + 1
                    in if run_length \<ge> count then Some (Inl run_start)
                       else Some (Inr (run_start, run_length))
                  else Some (Inr (run_start, 0)) })
             [0..<unat (total_pages s)] (0 :: u64, 0 :: u64);
          Some (case r of Inl start \<Rightarrow> start | Inr _ \<Rightarrow> total_pages s) }"

section \<open>Initialisation\<close>

fun pmm_find_bitmap_region :: "MemoryMapEntry list \<Rightarrow> u64 \<Rightarrow> u64" where
  "pmm_find_bitmap_region [] sz = 0"
| "pmm_find_bitmap_region (e # es) sz =
     (if me_type e = MEMMAP_USABLE \<and> me_length e \<ge> sz \<and>
         PAGE_ALIGN_UP (base e) + sz \<le> base e + me_length e
      then PAGE_ALIGN_UP (base e)
      else pmm_find_bitmap_region es sz)"

fun highest_top :: "MemoryMapEntry list \<Rightarrow> u64 \<Rightarrow> u64" where
  "highest_top [] h = h"
| "highest_top (e # es) h =
     highest_top es (if base e + me_length e > h then base e + me_length e else h)"

text \<open>Pass 3, one memory map entry: clear the bit of every page wholly inside it.\<close>

definition free_entry :: "MemoryMapEntry \<Rightarrow> u64 list \<times> u64 \<Rightarrow> (u64 list \<times> u64) option" where
  "free_entry e st =
     (if me_type e \<noteq> MEMMAP_USABLE then Some st
      else
        let start_page = (base e + PAGE_SIZE - 1) div PAGE_SIZE;
            end_page = (base e + me_length e) div PAGE_SIZE
        in for_each (\<lambda>p (bm, free).
             do { bm' \<leftarrow> pmm_bitmap_clear bm (of_nat p); Some (bm', free + 1) })
             [unat start_page..<unat end_page] st)"

text \<open>Mark a page allocated if it lies below \<open>total\<close> and is free (the two final passes).\<close>

definition reserve_page :: "u64 \<Rightarrow> u64 \<Rightarrow> u64 list \<times> u64 \<Rightarrow> (u64 list \<times> u64) option" where
  "reserve_page tot page st =
     (let (bm, free) = st in
      if page < tot then
        do { used \<leftarrow> pmm_bitmap_test bm page;
             if \<not> used then do { bm' \<leftarrow> pmm_bitmap_set bm page; Some (bm', free - 1) }
             else Some (bm, free) }
      else Some (bm, free))"

definition pmm_init :: "BootInfo \<Rightarrow> pmm \<Rightarrow> pmm option" where
  "pmm_init info s =
     (let highest = highest_top (memory_map info) 0;
          tot = highest div PAGE_SIZE;
          bm_size = (tot + BITS_PER_QWORD - 1) div BITS_PER_QWORD * 8;
          bitmap_phys = pmm_find_bitmap_region (memory_map info) bm_size
      in if bitmap_phys = 0 then None
         else
           do { (bm, free) \<leftarrow> for_each free_entry (memory_map info)
                  (replicate (unat (bm_size div 8)) (- 1), 0);
                (bm, free) \<leftarrow> reserve_page tot 0 (bm, free);
                (bm, free) \<leftarrow> for_each (\<lambda>p. reserve_page tot (bitmap_phys div PAGE_SIZE + of_nat p))
                  [0..<unat ((bm_size + PAGE_SIZE - 1) div PAGE_SIZE)] (bm, free);
                Some (s\<lparr>bitmap := bm, bitmap_ptr := bitmap_phys + bi_hhdm_offset info,
                        bitmap_size := bm_size, total_pages := tot, free_pages := free,
                        highest_addr := highest, pmm_hhdm_offset := bi_hhdm_offset info\<rparr>) })"

section \<open>Operations\<close>

definition lock_pmm :: "pmm \<Rightarrow> pmm option" where
  "lock_pmm s = do { (lk, fl) \<leftarrow> spinlock_acquire (pmm_lock s) (rflags s);
                     Some (s\<lparr>pmm_lock := lk, rflags := fl\<rparr>) }"

definition unlock_pmm :: "pmm \<Rightarrow> pmm" where
  "unlock_pmm s = (let (lk, fl) = spinlock_release (pmm_lock s) (rflags s)
                   in s\<lparr>pmm_lock := lk, rflags := fl\<rparr>)"

definition pmm_alloc_page :: "pmm \<Rightarrow> (u64 \<times> pmm) option" where
  "pmm_alloc_page s =
     do { s \<leftarrow> lock_pmm s;
          if free_pages s = 0 then Some (0, unlock_pmm s)
          else
            do { page \<leftarrow> bitmap_find_first_free s;
                 if page \<ge> total_pages s then Some (0, unlock_pmm s)
                 else
                   do { bm \<leftarrow> pmm_bitmap_set (bitmap s) page;
                        let s = s\<lparr>bitmap := bm, free_pages := free_pages s - 1\<rparr>;
                        Some (page * PAGE_SIZE, unlock_pmm s) } } }"

definition pmm_free_page :: "u64 \<Rightarrow> pmm \<Rightarrow> pmm option" where
  "pmm_free_page phys_addr s =
     (let page = phys_addr div PAGE_SIZE in
      if page = 0 \<or> page \<ge> total_pages s then Some s
      else
        do { s \<leftarrow> lock_pmm s;
             used \<leftarrow> pmm_bitmap_test (bitmap s) page;
             if used then
               do { bm \<leftarrow> pmm_bitmap_clear (bitmap s) page;
                    Some (unlock_pmm (s\<lparr>bitmap := bm, free_pages := free_pages s + 1\<rparr>)) }
             else Some (unlock_pmm s) })"

definition pmm_alloc_contiguous :: "u64 \<Rightarrow> pmm \<Rightarrow> (u64 \<times> pmm) option" where
  "pmm_alloc_contiguous count s =
     do { s \<leftarrow> lock_pmm s;
          if count = 0 \<or> free_pages s < count then Some (0, unlock_pmm s)
          else
            do { start \<leftarrow> bitmap_find_contiguous s count;
                 if start \<ge> total_pages s then Some (0, unlock_pmm s)
                 else
                   do { s \<leftarrow> for_each (\<lambda>i s.
                               do { bm \<leftarrow> pmm_bitmap_set (bitmap s) (start + of_nat i);
                                    Some (s\<lparr>bitmap := bm, free_pages := free_pages s - 1\<rparr>) })
                               [0..<unat count] s;
                        Some (start * PAGE_SIZE, unlock_pmm s) } } }"

definition pmm_get_total_pages :: "pmm \<Rightarrow> u64" where
  "pmm_get_total_pages s = total_pages s"

definition pmm_get_free_pages :: "pmm \<Rightarrow> u64" where
  "pmm_get_free_pages s = free_pages s"

section \<open>Abstraction and invariant\<close>

definition page_used :: "u64 list \<Rightarrow> nat \<Rightarrow> bool" where
  "page_used bm p = bit (bm ! (p div 64)) (p mod 64)"

definition free_in :: "u64 list \<Rightarrow> nat \<Rightarrow> nat set" where
  "free_in bm n = {p. p < n \<and> \<not> page_used bm p}"

definition free_set :: "pmm \<Rightarrow> nat set" where
  "free_set s = free_in (bitmap s) (unat (total_pages s))"

definition pmm_shape :: "pmm \<Rightarrow> bool" where
  "pmm_shape s \<longleftrightarrow>
     unat (total_pages s) \<le> 2 ^ 52 \<and>
     unat (total_pages s) \<le> 64 * length (bitmap s) \<and>
     length (bitmap s) \<le> 2 ^ 47 \<and>
     unat (bitmap_size s) = 8 * length (bitmap s)"

definition pmm_inv :: "pmm \<Rightarrow> bool" where
  "pmm_inv s \<longleftrightarrow>
     pmm_shape s \<and> locked (pmm_lock s) = 0 \<and> 0 \<notin> free_set s \<and>
     unat (free_pages s) = card (free_set s)"

lemma finite_free_in [simp]: "finite (free_in bm n)"
  by (simp add: free_in_def)

lemma finite_free_set [simp]: "finite (free_set s)"
  by (simp add: free_set_def)

lemma page_used_update:
  assumes "p div 64 < length bm"
  shows "page_used (bm[p div 64 := bm ! (p div 64) OR 2 ^ (p mod 64)]) q
           \<longleftrightarrow> page_used bm q \<or> q = p"
    and "page_used (bm[p div 64 := bm ! (p div 64) AND NOT (2 ^ (p mod 64))]) q
           \<longleftrightarrow> page_used bm q \<and> q \<noteq> p"
proof -
  have eq: "q = p" if "q div 64 = p div 64" "q mod 64 = p mod 64"
    using that by (metis div_mult_mod_eq)
  have nth: "bm[p div 64 := w] ! (q div 64) = (if q div 64 = p div 64 then w else bm ! (q div 64))" for w
    using assms by (simp add: nth_list_update)
  have lt: "p mod 64 < LENGTH(64)" by simp
  show "page_used (bm[p div 64 := bm ! (p div 64) OR 2 ^ (p mod 64)]) q
           \<longleftrightarrow> page_used bm q \<or> q = p"
    unfolding page_used_def nth using eq by (auto simp: bit_or_shift [OF lt])
  show "page_used (bm[p div 64 := bm ! (p div 64) AND NOT (2 ^ (p mod 64))]) q
           \<longleftrightarrow> page_used bm q \<and> q \<noteq> p"
    unfolding page_used_def nth using eq by (auto simp: bit_and_not_shift [OF lt])
qed

text \<open>The three bitmap helpers in terms of page numbers.\<close>

lemma bitmap_helpers:
  fixes b :: u64
  assumes "unat b < 64 * length bm"
  shows "pmm_bitmap_test bm b = Some (page_used bm (unat b))"
    and "\<exists>bm'. pmm_bitmap_set bm b = Some bm' \<and> length bm' = length bm \<and>
           (\<forall>q. page_used bm' q \<longleftrightarrow> page_used bm q \<or> q = unat b)"
    and "\<exists>bm'. pmm_bitmap_clear bm b = Some bm' \<and> length bm' = length bm \<and>
           (\<forall>q. page_used bm' q \<longleftrightarrow> page_used bm q \<and> q \<noteq> unat b)"
proof -
  have *: "unat (b div 64) = unat b div 64" "unat (b mod 64) = unat b mod 64"
    by (simp_all add: unat_div unat_mod)
  have l: "unat b div 64 < length bm"
    using assms by (simp add: less_mult_imp_div_less mult.commute)
  show "pmm_bitmap_test bm b = Some (page_used bm (unat b))"
    using l by (simp add: pmm_bitmap_test_def * page_used_def)
  show "\<exists>bm'. pmm_bitmap_set bm b = Some bm' \<and> length bm' = length bm \<and>
           (\<forall>q. page_used bm' q \<longleftrightarrow> page_used bm q \<or> q = unat b)"
    using l by (simp add: pmm_bitmap_set_def * page_used_update)
  show "\<exists>bm'. pmm_bitmap_clear bm b = Some bm' \<and> length bm' = length bm \<and>
           (\<forall>q. page_used bm' q \<longleftrightarrow> page_used bm q \<and> q \<noteq> unat b)"
    using l by (simp add: pmm_bitmap_clear_def * page_used_update)
qed

section \<open>The searches find the first fit\<close>

text \<open>\<open>first_free bm n p\<close>: all pages below \<open>p\<close> are used and \<open>p\<close> is free, unless it is \<open>n\<close>.\<close>

definition first_free :: "u64 list \<Rightarrow> nat \<Rightarrow> nat \<Rightarrow> bool" where
  "first_free bm n p \<longleftrightarrow> p \<le> n \<and> (\<forall>q < p. page_used bm q) \<and> (p < n \<longrightarrow> \<not> page_used bm p)"

lemma first_free_Min:
  assumes "first_free bm n p"
  shows "p < n \<longleftrightarrow> free_in bm n \<noteq> {}" and "p < n \<Longrightarrow> p = Min (free_in bm n)"
proof -
  have low: "p \<le> q" if "q \<in> free_in bm n" for q
    using assms that by (auto simp: first_free_def free_in_def not_less [symmetric])
  have mem: "p < n \<Longrightarrow> p \<in> free_in bm n"
    using assms by (simp add: first_free_def free_in_def)
  show "p < n \<longleftrightarrow> free_in bm n \<noteq> {}"
    using low mem by (force simp: free_in_def)
  show "p < n \<Longrightarrow> p = Min (free_in bm n)"
    using low mem by (intro Min_eqI [symmetric]) auto
qed

lemma page_number_unat:
  "q < 2 ^ 47 \<Longrightarrow> b < 64 \<Longrightarrow> unat (of_nat q * 64 + of_nat b :: u64) = 64 * q + b"
proof -
  assume a: "q < 2 ^ 47" "b < 64"
  then have "unat (of_nat (64 * q + b) :: u64) = 64 * q + b"
    by (intro unat_of_nat_less) simp
  then show ?thesis by (simp add: mult.commute)
qed

lemma scan_qword_spec:
  assumes "q < length bm" "length bm \<le> 2 ^ 47" "\<forall>p < min (unat tot) (64 * q). page_used bm p"
  shows "(\<exists>r. scan_qword tot (bm ! q) q = Some (Inl r) \<and> first_free bm (unat tot) (unat r)) \<or>
         scan_qword tot (bm ! q) q = Some (Inr ()) \<and>
           (\<forall>p < min (unat tot) (64 * Suc q). page_used bm p)"
proof -
  let ?I = "\<lambda>i (_ :: unit). \<forall>p < min (unat tot) (64 * q + i). page_used bm p"
  let ?f = "\<lambda>bit_idx (_ :: unit).
        let page = of_nat q * BITS_PER_QWORD + of_nat bit_idx in
        if page \<ge> tot then Some (Inl tot)
        else if bm ! q AND push_bit bit_idx 1 = 0 then Some (Inl page)
        else Some (Inr ())"
  have "(\<exists>r. for_ret ?f [0..<64] () = Some (Inl r) \<and> first_free bm (unat tot) (unat r)) \<or>
        (\<exists>u. for_ret ?f [0..<64] () = Some (Inr u) \<and> ?I 64 u)"
  proof (rule for_ret_upt_rule [where I = ?I])
    show "?I 0 ()" using assms by simp
  next
    fix i u assume i: "i < (64::nat)" and I: "?I i u"
    have pg: "unat (of_nat q * 64 + of_nat i :: u64) = 64 * q + i"
      using i assms by (intro page_number_unat) auto
    have used: "page_used bm (64 * q + i) \<longleftrightarrow> bit (bm ! q) i"
      using i by (simp add: page_used_def)
    show "(\<exists>r. ?f i u = Some (Inl r) \<and> first_free bm (unat tot) (unat r)) \<or>
        (\<exists>u'. ?f i u = Some (Inr u') \<and> ?I (Suc i) u')"
      using I i pg used
      by (auto simp: Let_def word_le_nat_alt first_free_def less_Suc_eq)
  qed simp
  then show ?thesis by (auto simp: scan_qword_def)
qed

lemma bitmap_find_first_free_spec:
  assumes "pmm_shape s"
  shows "\<exists>r. bitmap_find_first_free s = Some r \<and>
             first_free (bitmap s) (unat (total_pages s)) (unat r)"
proof -
  let ?bm = "bitmap s" and ?n = "unat (total_pages s)"
  let ?f = "\<lambda>q (_ :: unit). do { w \<leftarrow> arr_get ?bm q;
               if w \<noteq> - 1 then scan_qword (total_pages s) w q else Some (Inr ()) }"
  let ?I = "\<lambda>i (_ :: unit). \<forall>p < min ?n (64 * i). page_used ?bm p"
  have q: "unat (bitmap_size s div 8) = length ?bm"
    using assms by (simp add: pmm_shape_def unat_div)
  have len: "length ?bm \<le> 2 ^ 47" "?n \<le> 64 * length ?bm"
    using assms by (simp_all add: pmm_shape_def)
  have "(\<exists>r. for_ret ?f [0..<length ?bm] () = Some (Inl r) \<and> first_free ?bm ?n (unat r)) \<or>
        (\<exists>u. for_ret ?f [0..<length ?bm] () = Some (Inr u) \<and> ?I (length ?bm) u)"
  proof (rule for_ret_upt_rule [where I = ?I])
    fix i u assume i: "i < length ?bm" and I: "?I i u"
    show "(\<exists>r. ?f i u = Some (Inl r) \<and> first_free ?bm ?n (unat r)) \<or>
          (\<exists>u'. ?f i u = Some (Inr u') \<and> ?I (Suc i) u')"
    proof (cases "?bm ! i = - 1")
      case True
      have "page_used ?bm p" if "p < ?n" "p < 64 * Suc i" for p
      proof (cases "p < 64 * i")
        case False
        then have "p div 64 = i" using that by (simp add: div_nat_eqI)
        then show ?thesis using True by (simp add: page_used_def)
      qed (use I that in simp)
      then show ?thesis using True i by simp
    qed (use scan_qword_spec [of i ?bm "total_pages s"] i I len in auto)
  qed simp_all
  then show ?thesis
    using len by (auto simp: bitmap_find_first_free_def q first_free_def)
qed

section \<open>Specification on sets of free pages\<close>

definition spec_alloc_page :: "nat set \<Rightarrow> nat \<times> nat set" where
  "spec_alloc_page F = (if F = {} then (0, F) else (4096 * Min F, F - {Min F}))"

definition spec_free_page :: "nat \<Rightarrow> nat \<Rightarrow> nat set \<Rightarrow> nat set" where
  "spec_free_page n addr F =
     (if addr div 4096 = 0 \<or> addr div 4096 \<ge> n then F else insert (addr div 4096) F)"

text \<open>What no operation changes: the layout of managed memory and the interrupt flag.\<close>

definition same_layout :: "pmm \<Rightarrow> pmm \<Rightarrow> bool" where
  "same_layout s s' \<longleftrightarrow>
     total_pages s' = total_pages s \<and> bitmap_ptr s' = bitmap_ptr s \<and>
     bitmap_size s' = bitmap_size s \<and> highest_addr s' = highest_addr s \<and>
     pmm_hhdm_offset s' = pmm_hhdm_offset s \<and> rflags s' = rflags s"

lemma same_layout_refl [simp]: "same_layout s s"
  by (simp add: same_layout_def)

lemma same_layout_trans: "same_layout s t \<Longrightarrow> same_layout t u \<Longrightarrow> same_layout s u"
  by (simp add: same_layout_def)

lemma lock_pmm_free [simp]:
  "locked (pmm_lock s) = 0 \<Longrightarrow> lock_pmm s =
     Some (s\<lparr>pmm_lock := (pmm_lock s)\<lparr>locked := 1, saved_flags := rflags s\<rparr>,
             rflags := rflags s AND NOT RFLAGS_IF\<rparr>)"
  by (simp add: lock_pmm_def)

lemma lock_pmm_held [simp]: "locked (pmm_lock s) \<noteq> 0 \<Longrightarrow> lock_pmm s = None"
  by (simp add: lock_pmm_def)

lemma unlock_pmm_simps [simp]:
  "unlock_pmm s = s\<lparr>pmm_lock := (pmm_lock s)\<lparr>locked := 0\<rparr>, rflags := saved_flags (pmm_lock s)\<rparr>"
  by (simp add: unlock_pmm_def spinlock_release_def)

lemma free_in_set:
  "(\<forall>q. page_used bm' q \<longleftrightarrow> page_used bm q \<or> q = p) \<Longrightarrow> free_in bm' n = free_in bm n - {p}"
  by (auto simp: free_in_def)

lemma free_in_clear:
  "(\<forall>q. page_used bm' q \<longleftrightarrow> page_used bm q \<and> q \<noteq> p) \<Longrightarrow> p < n \<Longrightarrow>
   free_in bm' n = insert p (free_in bm n)"
  by (auto simp: free_in_def)

lemma card_free_in_le: "card (free_in bm n) \<le> n"
  using card_mono [of "{..<n}" "free_in bm n"] by (auto simp: free_in_def)

lemma shape_page_bounds:
  assumes "pmm_shape s" "p < unat (total_pages s)"
  shows "p < 64 * length (bitmap s)" "p < 2 ^ 52"
  using assms by (simp_all add: pmm_shape_def)

lemma unat_page_address:
  fixes page :: u64
  shows "unat page < 2 ^ 52 \<Longrightarrow> unat (page * PAGE_SIZE) = 4096 * unat page"
  by (subst unat_mult_no_overflow) simp_all

lemma unat_dec: "(x :: u64) \<noteq> 0 \<Longrightarrow> unat (x - 1) = unat x - 1"
  by (simp add: unat_minus_one)

lemma pmm_alloc_page_spec:
  assumes inv: "pmm_inv s"
  shows "\<exists>r s'. pmm_alloc_page s = Some (r, s') \<and> pmm_inv s' \<and> same_layout s s' \<and>
           (unat r, free_set s') = spec_alloc_page (free_set s)"
proof -
  let ?lk = "(pmm_lock s)\<lparr>locked := 1, saved_flags := rflags s\<rparr>"
  let ?s1 = "s\<lparr>pmm_lock := ?lk, rflags := rflags s AND NOT RFLAGS_IF\<rparr>"
  have shape: "pmm_shape ?s1" using inv by (simp add: pmm_inv_def pmm_shape_def)
  have lk: "lock_pmm s = Some ?s1" using inv by (simp add: pmm_inv_def)
  have card: "unat (free_pages s) = card (free_set s)" using inv by (simp add: pmm_inv_def)
  show ?thesis
  proof (cases "free_set s = {}")
    case True
    then have "free_pages s = 0" using card by (simp add: unat_eq_0)
    then show ?thesis using inv lk True
      by (simp add: pmm_alloc_page_def spec_alloc_page_def same_layout_def pmm_inv_def
          pmm_shape_def free_set_def)
  next
    case False
    then have nz: "free_pages s \<noteq> 0" using card by (auto simp: card_eq_0_iff)
    obtain page where page: "bitmap_find_first_free ?s1 = Some page"
      "first_free (bitmap s) (unat (total_pages s)) (unat page)"
      using bitmap_find_first_free_spec [OF shape] by auto
    have lt: "unat page < unat (total_pages s)" and mn: "unat page = Min (free_set s)"
      using first_free_Min [OF page(2)] False by (auto simp: free_set_def)
    obtain bm where bm: "pmm_bitmap_set (bitmap s) page = Some bm" "length bm = length (bitmap s)"
      "\<forall>q. page_used bm q \<longleftrightarrow> page_used (bitmap s) q \<or> q = unat page"
      using bitmap_helpers(2) [of page "bitmap s"] lt inv by (auto simp: pmm_inv_def pmm_shape_def)
    let ?s' = "unlock_pmm (?s1\<lparr>bitmap := bm, free_pages := free_pages s - 1\<rparr>)"
    have run: "pmm_alloc_page s = Some (page * PAGE_SIZE, ?s')"
      using lk nz page(1) lt bm(1)
      by (simp add: pmm_alloc_page_def word_le_nat_alt not_le [symmetric])
    have F: "free_set ?s' = free_set s - {Min (free_set s)}"
      using free_in_set [OF bm(3)] mn by (simp add: free_set_def)
    have "pmm_inv ?s'"
      using inv F bm(2) card nz False
      by (simp add: pmm_inv_def pmm_shape_def unat_dec card_Diff_singleton)
    moreover have "same_layout s ?s'" by (simp add: same_layout_def)
    moreover have "unat (page * PAGE_SIZE) = 4096 * Min (free_set s)"
      using mn lt inv by (subst unat_page_address) (auto simp: pmm_inv_def pmm_shape_def)
    ultimately show ?thesis using run F False by (auto simp: spec_alloc_page_def)
  qed
qed

lemma pmm_free_page_spec:
  assumes inv: "pmm_inv s"
  shows "\<exists>s'. pmm_free_page a s = Some s' \<and> pmm_inv s' \<and> same_layout s s' \<and>
           free_set s' = spec_free_page (unat (total_pages s)) (unat a) (free_set s)"
proof -
  let ?p = "a div PAGE_SIZE" and ?n = "unat (total_pages s)"
  let ?lk = "(pmm_lock s)\<lparr>locked := 1, saved_flags := rflags s\<rparr>"
  let ?s1 = "s\<lparr>pmm_lock := ?lk, rflags := rflags s AND NOT RFLAGS_IF\<rparr>"
  have up: "unat ?p = unat a div 4096" by (simp add: unat_div)
  have lk: "lock_pmm s = Some ?s1" using inv by (simp add: pmm_inv_def)
  show ?thesis
  proof (cases "?p = 0 \<or> total_pages s \<le> ?p")
    case True
    then show ?thesis using inv up
      by (auto simp: pmm_free_page_def spec_free_page_def word_le_nat_alt unat_eq_0 [symmetric])
  next
    case False
    then have lt: "unat ?p < ?n" and nz: "unat ?p \<noteq> 0"
      by (auto simp: word_le_nat_alt unat_eq_0)
    have b: "unat ?p < 64 * length (bitmap s)"
      using lt inv by (simp add: pmm_inv_def pmm_shape_def)
    obtain bm where bm: "pmm_bitmap_clear (bitmap s) ?p = Some bm" "length bm = length (bitmap s)"
      "\<forall>q. page_used bm q \<longleftrightarrow> page_used (bitmap s) q \<and> q \<noteq> unat ?p"
      using bitmap_helpers(3) [OF b] by auto
    have F: "free_in bm ?n = insert (unat ?p) (free_set s)"
      using free_in_clear [OF bm(3) lt] by (simp add: free_set_def)
    have spec: "spec_free_page ?n (unat a) (free_set s) = insert (unat ?p) (free_set s)"
      using lt nz by (simp add: spec_free_page_def up)
    show ?thesis
    proof (cases "page_used (bitmap s) (unat ?p)")
      case True
      then have new: "unat ?p \<notin> free_set s" by (simp add: free_set_def free_in_def)
      let ?s' = "unlock_pmm (?s1\<lparr>bitmap := bm, free_pages := free_pages s + 1\<rparr>)"
      have run: "pmm_free_page a s = Some ?s'"
        using False lk bitmap_helpers(1) [OF b] bm(1) True by (simp add: pmm_free_page_def)
      have "card (insert (unat ?p) (free_set s)) \<le> ?n"
        using F card_free_in_le [of bm ?n] by simp
      then have "unat (free_pages s + 1) = card (insert (unat ?p) (free_set s))"
        using new inv by (subst unat_plus_no_overflow) (auto simp: pmm_inv_def pmm_shape_def)
      then have "pmm_inv ?s'"
        using inv F bm(2) nz by (simp add: pmm_inv_def pmm_shape_def free_set_def)
      then show ?thesis using run F spec by (simp add: same_layout_def free_set_def)
    next
      case unused: False
      then have "pmm_free_page a s = Some (unlock_pmm ?s1)"
        using False lk bitmap_helpers(1) [OF b] by (simp add: pmm_free_page_def)
      moreover have "insert (unat ?p) (free_set s) = free_set s"
        using unused lt by (auto simp: free_set_def free_in_def)
      ultimately show ?thesis
        using inv spec by (simp add: same_layout_def pmm_inv_def pmm_shape_def free_set_def)
    qed
  qed
qed

section \<open>Contiguous runs\<close>

definition run_at :: "nat set \<Rightarrow> nat \<Rightarrow> nat \<Rightarrow> bool" where
  "run_at F c q \<longleftrightarrow> {q..<q + c} \<subseteq> F"

definition spec_alloc_contiguous :: "nat \<Rightarrow> nat set \<Rightarrow> nat \<times> nat set" where
  "spec_alloc_contiguous c F =
     (if c = 0 \<or> (\<forall>q. \<not> run_at F c q) then (0, F)
      else let q = (LEAST q. run_at F c q) in (4096 * q, F - {q..<q + c}))"

text \<open>
  The invariant of the run search before page \<open>i\<close>: the current run is the maximal one that ends
  at \<open>i\<close>, it is too short, and no run of \<open>c\<close> pages ends at or before \<open>i\<close>.
\<close>

definition run_search :: "nat set \<Rightarrow> nat \<Rightarrow> nat \<Rightarrow> nat \<Rightarrow> nat \<Rightarrow> bool" where
  "run_search F c i start len \<longleftrightarrow>
     len < c \<and> len \<le> i \<and> (len > 0 \<longrightarrow> start = i - len) \<and> run_at F len (i - len) \<and>
     (len < i \<longrightarrow> i - len - 1 \<notin> F) \<and> (\<forall>q. q + c \<le> i \<longrightarrow> \<not> run_at F c q)"

lemma run_search_used:
  "run_search F c i start len \<Longrightarrow> i \<notin> F \<Longrightarrow> run_search F c (Suc i) start' 0"
  by (auto simp: run_search_def run_at_def le_Suc_eq subset_iff)

lemma run_search_extend:
  assumes "run_search F c i start len" "i \<in> F" "Suc len < c"
  shows "run_search F c (Suc i) (if len = 0 then i else start) (Suc len)"
proof -
  have "\<not> run_at F c q" if "q + c = Suc i" for q
  proof -
    have "i - len - 1 \<in> {q..<q + c}" "len < i" using that assms(3) by auto
    then show ?thesis using assms(1) by (auto simp: run_search_def run_at_def)
  qed
  moreover have "run_at F (Suc len) (i - len)"
    using assms(1,2) by (auto simp: run_search_def run_at_def subset_iff le_less less_Suc_eq)
  ultimately show ?thesis
    using assms by (auto simp: run_search_def le_Suc_eq)
qed

lemma run_search_hit:
  assumes "run_search F c i start len" "i \<in> F" "c \<le> Suc len"
  shows "run_at F c (if len = 0 then i else start)"
    and "\<forall>q < (if len = 0 then i else start). \<not> run_at F c q"
proof -
  have c: "c = Suc len" using assms(1,3) by (simp add: run_search_def)
  have s: "(if len = 0 then i else start) = i - len" using assms(1) by (simp add: run_search_def)
  show "run_at F c (if len = 0 then i else start)"
    unfolding s using assms(1,2) c
    by (auto simp: run_search_def run_at_def subset_iff le_less less_Suc_eq)
  show "\<forall>q < (if len = 0 then i else start). \<not> run_at F c q"
    unfolding s using assms(1) c by (auto simp: run_search_def)
qed

lemma bitmap_find_contiguous_spec:
  assumes shape: "pmm_shape s" and c: "count \<noteq> 0"
  shows "\<exists>r. bitmap_find_contiguous s count = Some r \<and>
     (if \<exists>q. run_at (free_set s) (unat count) q
      then unat r = (LEAST q. run_at (free_set s) (unat count) q) \<and> run_at (free_set s) (unat count) (unat r)
      else r = total_pages s)"
proof -
  let ?F = "free_set s" and ?c = "unat count" and ?n = "unat (total_pages s)"
  let ?I = "\<lambda>i (a :: u64, l :: u64). run_search ?F ?c i (unat a) (unat l)"
  let ?Q = "\<lambda>r :: u64. run_at ?F ?c (unat r) \<and> (\<forall>q < unat r. \<not> run_at ?F ?c q)"
  let ?f = "\<lambda>i (run_start, run_length).
             do { used \<leftarrow> pmm_bitmap_test (bitmap s) (of_nat i);
                  if \<not> used then
                    let run_start = (if run_length = 0 then of_nat i else run_start);
                        run_length = run_length + 1
                    in if run_length \<ge> count then Some (Inl run_start)
                       else Some (Inr (run_start, run_length))
                  else Some (Inr (run_start, 0)) }"
  have step: "(\<exists>r. ?f i st = Some (Inl r) \<and> ?Q r) \<or> (\<exists>st'. ?f i st = Some (Inr st') \<and> ?I (Suc i) st')"
    if i: "i < ?n" and I: "?I i st" for i st
  proof -
    obtain a l where st: "st = (a, l)" by (cases st)
    have rs: "run_search ?F ?c i (unat a) (unat l)" using I st by simp
    have ui: "unat (of_nat i :: u64) = i"
      using i shape by (intro unat_of_nat_less) (simp add: pmm_shape_def)
    have test: "pmm_bitmap_test (bitmap s) (of_nat i) = Some (i \<notin> ?F)"
      using bitmap_helpers(1) [of "of_nat i" "bitmap s"] ui i shape
      by (simp add: pmm_shape_def free_set_def free_in_def)
    have ul: "unat (l + 1) = Suc (unat l)"
      using rs i shape by (subst unat_plus_no_overflow) (auto simp: pmm_shape_def run_search_def)
    have if_unat: "unat (if l = 0 then of_nat i else a) = (if unat l = 0 then i else unat a)"
      by (simp add: ui unat_eq_0)
    show ?thesis
    proof (cases "i \<in> ?F")
      case False
      then show ?thesis using run_search_used [OF rs] st test by simp
    next
      case True
      show ?thesis
      proof (cases "count \<le> l + 1")
        case le: True
        then have "?c \<le> Suc (unat l)" by (simp add: word_le_nat_alt ul)
        from run_search_hit [OF rs True this] show ?thesis
          using st test True le by (simp add: Let_def if_unat [symmetric] del: if_split)
      next
        case gt: False
        then have "Suc (unat l) < ?c" by (simp add: word_le_nat_alt ul)
        from run_search_extend [OF rs True this] show ?thesis
          using st test True gt by (simp add: Let_def if_unat [symmetric] ul del: if_split)
      qed
    qed
  qed
  have c0: "0 < ?c" using c by (simp add: unat_gt_0)
  then have base: "?I 0 (0, 0)" by (auto simp: run_search_def run_at_def)
  have in_n: "q + ?c \<le> ?n" if "run_at ?F ?c q" for q
  proof -
    have "q + ?c - 1 \<in> ?F" using that c0 by (auto simp: run_at_def)
    then show ?thesis using c0 by (auto simp: free_set_def free_in_def)
  qed
  have "(\<exists>r. for_ret ?f [0..<?n] (0, 0) = Some (Inl r) \<and> ?Q r) \<or>
        (\<exists>st. for_ret ?f [0..<?n] (0, 0) = Some (Inr st) \<and> ?I ?n st)"
    by (rule for_ret_upt_rule) (use base step in auto)
  then show ?thesis
  proof (elim disjE exE conjE)
    fix r :: u64
    assume r: "for_ret ?f [0..<?n] (0, 0) = Some (Inl r)" and Q: "run_at ?F ?c (unat r)"
      "\<forall>q < unat r. \<not> run_at ?F ?c q"
    have "(LEAST q. run_at ?F ?c q) = unat r"
      using Q by (intro Least_equality) (auto simp: not_less [symmetric])
    moreover have "bitmap_find_contiguous s count = Some r"
      unfolding bitmap_find_contiguous_def r by simp
    ultimately show ?thesis using Q by auto
  next
    fix st assume r: "for_ret ?f [0..<?n] (0, 0) = Some (Inr st)" and I: "?I ?n st"
    then have "\<nexists>q. run_at ?F ?c q" using in_n by (auto simp: run_search_def split: prod.splits)
    moreover have "bitmap_find_contiguous s count = Some (total_pages s)"
      unfolding bitmap_find_contiguous_def r by simp
    ultimately show ?thesis by simp
  qed
qed

lemma mark_run_spec:
  assumes shape: "pmm_shape s" and card: "unat (free_pages s) = card (free_set s)"
    and run: "run_at (free_set s) c (unat start)"
  shows "\<exists>bm fp. for_each (\<lambda>i s. do { bm \<leftarrow> pmm_bitmap_set (bitmap s) (start + of_nat i);
                       Some (s\<lparr>bitmap := bm, free_pages := free_pages s - 1\<rparr>) }) [0..<c] s
             = Some (s\<lparr>bitmap := bm, free_pages := fp\<rparr>) \<and> length bm = length (bitmap s) \<and>
           free_in bm (unat (total_pages s)) = free_set s - {unat start..<unat start + c} \<and>
           unat fp = card (free_set s - {unat start..<unat start + c})"
proof -
  let ?F = "free_set s" and ?n = "unat (total_pages s)" and ?a = "unat start"
  let ?f = "\<lambda>i s. do { bm \<leftarrow> pmm_bitmap_set (bitmap s) (start + of_nat i);
                       Some (s\<lparr>bitmap := bm, free_pages := free_pages s - 1\<rparr>) }"
  let ?P = "\<lambda>i bm fp. length bm = length (bitmap s) \<and> free_in bm ?n = ?F - {?a..<?a + i} \<and>
              unat fp = card (?F - {?a..<?a + i})"
  let ?I = "\<lambda>i t. \<exists>bm fp. t = s\<lparr>bitmap := bm, free_pages := fp\<rparr> \<and> ?P i bm fp"
  have "\<exists>t. for_each ?f [0..<c] s = Some t \<and> ?I c t"
  proof (rule for_each_upt_rule)
    show "?I 0 s" using card by (intro exI [of _ "bitmap s"] exI [of _ "free_pages s"])
        (simp add: free_set_def)
  next
    fix i t assume i: "0 \<le> i" "i < c" and "?I i t"
    then obtain bm fp where t: "t = s\<lparr>bitmap := bm, free_pages := fp\<rparr>" and P: "?P i bm fp" by auto
    have inF: "?a + i \<in> ?F" using run i by (auto simp: run_at_def)
    then have lt: "?a + i < ?n" by (simp add: free_set_def free_in_def)
    then have b: "?a + i < 64 * length bm" "?a + i < 2 ^ 52"
      using shape P by (simp_all add: pmm_shape_def)
    have u: "unat (start + of_nat i) = ?a + i"
      using b(2) by (subst unat_plus_no_overflow) (simp_all add: unat_of_nat_less)
    obtain bm' where bm': "pmm_bitmap_set bm (start + of_nat i) = Some bm'" "length bm' = length bm"
      "\<forall>q. page_used bm' q \<longleftrightarrow> page_used bm q \<or> q = ?a + i"
      using bitmap_helpers(2) [of "start + of_nat i" bm] b(1) u by auto
    have D: "?F - {?a..<?a + Suc i} = (?F - {?a..<?a + i}) - {?a + i}" by auto
    have F': "free_in bm' ?n = ?F - {?a..<?a + Suc i}"
      using free_in_set [OF bm'(3), of ?n] P D by simp
    have mem: "?a + i \<in> ?F - {?a..<?a + i}" using inF by simp
    then have "card (?F - {?a..<?a + i}) > 0" by (intro card_gt_0_iff [THEN iffD2]) auto
    then have "fp \<noteq> 0" using P by (metis less_irrefl unat_0)
    then have "unat (fp - 1) = card (?F - {?a..<?a + Suc i})"
      unfolding D using P mem by (simp add: unat_dec card_Diff_singleton)
    then have "?P (Suc i) bm' (fp - 1)" using bm'(2) P F' by simp
    then show "\<exists>t'. ?f i t = Some t' \<and> ?I (Suc i) t'"
      using bm'(1) t by (intro exI [of _ "s\<lparr>bitmap := bm', free_pages := fp - 1\<rparr>"]) auto
  qed simp
  then show ?thesis by auto
qed

lemma pmm_alloc_contiguous_spec:
  assumes inv: "pmm_inv s"
  shows "\<exists>r s'. pmm_alloc_contiguous count s = Some (r, s') \<and> pmm_inv s' \<and> same_layout s s' \<and>
           (unat r, free_set s') = spec_alloc_contiguous (unat count) (free_set s)"
proof -
  let ?lk = "(pmm_lock s)\<lparr>locked := 1, saved_flags := rflags s\<rparr>"
  let ?s1 = "s\<lparr>pmm_lock := ?lk, rflags := rflags s AND NOT RFLAGS_IF\<rparr>"
  let ?F = "free_set s" and ?c = "unat count"
  have shape: "pmm_shape ?s1" using inv by (simp add: pmm_inv_def pmm_shape_def)
  have lk: "lock_pmm s = Some ?s1" using inv by (simp add: pmm_inv_def)
  have F1: "free_set ?s1 = ?F" by (simp add: free_set_def)
  have card: "unat (free_pages s) = card ?F" using inv by (simp add: pmm_inv_def)
  have give_up: "\<exists>r s'. Some (0, unlock_pmm ?s1) = Some (r, s') \<and> pmm_inv s' \<and> same_layout s s' \<and>
           (unat r, free_set s') = (0, ?F)"
    using inv by (simp add: pmm_inv_def pmm_shape_def free_set_def same_layout_def)
  have few: "\<not> run_at ?F ?c q" if "count \<noteq> 0" "free_pages s < count" for q
    using that card card_mono [of ?F "{q..<q + ?c}"] by (auto simp: run_at_def word_less_nat_alt)
  consider "count = 0 \<or> free_pages s < count"
    | "count \<noteq> 0" "\<not> free_pages s < count" "\<nexists>q. run_at ?F ?c q"
    | q where "count \<noteq> 0" "\<not> free_pages s < count" "run_at ?F ?c q" by blast
  then show ?thesis
  proof cases
    case 1
    then have "spec_alloc_contiguous ?c ?F = (0, ?F)"
      using few by (cases "count = 0") (auto simp: spec_alloc_contiguous_def)
    then show ?thesis using give_up lk 1 by (simp add: pmm_alloc_contiguous_def)
  next
    case 2
    then have "bitmap_find_contiguous ?s1 count = Some (total_pages s)"
      using bitmap_find_contiguous_spec [OF shape 2(1)] F1 by auto
    moreover have "spec_alloc_contiguous ?c ?F = (0, ?F)"
      using 2 by (simp add: spec_alloc_contiguous_def)
    ultimately show ?thesis using give_up lk 2 by (simp add: pmm_alloc_contiguous_def)
  next
    case 3
    then obtain r where r: "bitmap_find_contiguous ?s1 count = Some r"
      "unat r = (LEAST q. run_at ?F ?c q)" "run_at ?F ?c (unat r)"
      using bitmap_find_contiguous_spec [OF shape 3(1), unfolded F1] by (auto split: if_splits)
    have c0: "0 < ?c" using 3(1) by (simp add: unat_gt_0)
    then have "unat r \<in> ?F" using r(3) by (auto simp: run_at_def)
    then have lt: "unat r < unat (total_pages s)" by (simp add: free_set_def free_in_def)
    obtain bm fp where loop: "for_each (\<lambda>i s. do { bm \<leftarrow> pmm_bitmap_set (bitmap s) (r + of_nat i);
                       Some (s\<lparr>bitmap := bm, free_pages := free_pages s - 1\<rparr>) }) [0..<?c] ?s1
             = Some (?s1\<lparr>bitmap := bm, free_pages := fp\<rparr>)" "length bm = length (bitmap s)"
      "free_in bm (unat (total_pages s)) = ?F - {unat r..<unat r + ?c}"
      "unat fp = card (?F - {unat r..<unat r + ?c})"
      using mark_run_spec [of ?s1 ?c r] shape card r(3) F1 by auto
    let ?s' = "unlock_pmm (?s1\<lparr>bitmap := bm, free_pages := fp\<rparr>)"
    have "pmm_alloc_contiguous count s = Some (r * PAGE_SIZE, ?s')"
      using lk 3(1,2) r(1) lt loop(1)
      by (simp add: pmm_alloc_contiguous_def word_le_nat_alt not_le)
    moreover have "spec_alloc_contiguous ?c ?F = (4096 * unat r, ?F - {unat r..<unat r + ?c})"
      using r 3 c0 by (auto simp: spec_alloc_contiguous_def Let_def)
    moreover have "unat (r * PAGE_SIZE) = 4096 * unat r"
      using lt inv by (subst unat_page_address) (auto simp: pmm_inv_def pmm_shape_def)
    moreover have "pmm_inv ?s'" "free_set ?s' = ?F - {unat r..<unat r + ?c}"
      using inv loop by (simp_all add: pmm_inv_def pmm_shape_def free_set_def)
    ultimately show ?thesis by (simp add: same_layout_def)
  qed
qed

section \<open>Initialisation\<close>

text \<open>
  The pages that lie wholly inside a usable entry, and the memory maps a boot loader hands
  over: no entry reaches the end of the address space and no page is usable twice.
\<close>

definition entry_pages :: "MemoryMapEntry \<Rightarrow> nat set" where
  "entry_pages e =
     (if me_type e = MEMMAP_USABLE
      then {(unat (base e) + 4095) div 4096..<(unat (base e) + unat (me_length e)) div 4096} else {})"

definition usable_pages :: "MemoryMapEntry list \<Rightarrow> nat set" where
  "usable_pages es = (\<Union>e \<in> set es. entry_pages e)"

fun memory_map_ok :: "MemoryMapEntry list \<Rightarrow> bool" where
  "memory_map_ok [] = True"
| "memory_map_ok (e # es) \<longleftrightarrow>
     unat (base e) + unat (me_length e) < 2 ^ 64 \<and> unat (base e) + 4095 < 2 ^ 64 \<and>
     entry_pages e \<inter> usable_pages es = {} \<and> memory_map_ok es"

lemma memory_map_ok_entry:
  "memory_map_ok es \<Longrightarrow> e \<in> set es \<Longrightarrow> unat (base e) + unat (me_length e) < 2 ^ 64"
  by (induction es rule: memory_map_ok.induct) auto

text \<open>\<open>bm_state n l F (bm, free)\<close>: a bitmap of \<open>l\<close> words whose free pages are \<open>F\<close>, counted by \<open>free\<close>.\<close>

definition bm_state :: "nat \<Rightarrow> nat \<Rightarrow> nat set \<Rightarrow> u64 list \<times> u64 \<Rightarrow> bool" where
  "bm_state n l F st \<longleftrightarrow> n \<le> 64 * l \<and> n \<le> 2 ^ 52 \<and>
     (case st of (bm, free) \<Rightarrow> length bm = l \<and> free_in bm n = F \<and> unat free = card F)"

lemma bm_state_clear:
  assumes "bm_state n l F (bm, free)" "p < n" "p \<notin> F"
  shows "\<exists>bm'. pmm_bitmap_clear bm (of_nat p) = Some bm' \<and> bm_state n l (insert p F) (bm', free + 1)"
proof -
  have u: "unat (of_nat p :: u64) = p"
    using assms by (intro unat_of_nat_less) (simp add: bm_state_def)
  obtain bm' where bm': "pmm_bitmap_clear bm (of_nat p) = Some bm'" "length bm' = length bm"
    "\<forall>q. page_used bm' q \<longleftrightarrow> page_used bm q \<and> q \<noteq> p"
    using bitmap_helpers(3) [of "of_nat p" bm] u assms by (auto simp: bm_state_def)
  have F: "free_in bm n = F" "free_in bm' n = insert p F"
    using free_in_clear [OF bm'(3) assms(2)] assms(1) by (auto simp: bm_state_def)
  then have "finite F" "card (insert p F) \<le> n" by (metis finite_free_in) (metis F(2) card_free_in_le)
  then have "unat (free + 1) = card (insert p F)"
    using assms by (subst unat_plus_no_overflow) (auto simp: bm_state_def)
  then show ?thesis using assms(1) bm' F by (auto simp: bm_state_def)
qed

lemma free_entry_spec:
  assumes st: "bm_state n l F st" and ok: "unat (base e) + unat (me_length e) < 2 ^ 64"
      "unat (base e) + 4095 < 2 ^ 64"
    and new: "entry_pages e \<inter> F = {}"
    and top: "(unat (base e) + unat (me_length e)) div 4096 \<le> n"
  shows "\<exists>st'. free_entry e st = Some st' \<and> bm_state n l (F \<union> entry_pages e) st'"
proof (cases "me_type e = MEMMAP_USABLE")
  case False
  then show ?thesis using st by (simp add: free_entry_def entry_pages_def)
next
  case True
  let ?a = "(unat (base e) + 4095) div 4096"
  let ?b = "(unat (base e) + unat (me_length e)) div 4096"
  have u: "unat ((base e + PAGE_SIZE - 1) div PAGE_SIZE) = ?a"
    "unat ((base e + me_length e) div PAGE_SIZE) = ?b"
    using ok unat_plus_no_overflow [of "base e" "4095"]
      unat_plus_no_overflow [of "base e" "me_length e"]
    by (simp_all add: unat_div add.commute [of 4095])
  let ?f = "\<lambda>p (bm, free). do { bm' \<leftarrow> pmm_bitmap_clear bm (of_nat p); Some (bm', free + 1 :: u64) }"
  let ?I = "\<lambda>i. bm_state n l (F \<union> {?a..<i})"
  have "\<exists>st'. for_each ?f [?a..<?b] st = Some st' \<and> ?I ?b st'" if "?a \<le> ?b"
  proof (rule for_each_upt_rule [OF that])
    fix i st assume i: "?a \<le> i" "i < ?b" "?I i st"
    obtain bm free where "st = (bm, free)" by (cases st)
    moreover have "i \<notin> F \<union> {?a..<i}" using new i True by (auto simp: entry_pages_def)
    moreover have "F \<union> {?a..<Suc i} = insert i (F \<union> {?a..<i})" using i by auto
    ultimately show "\<exists>st'. ?f i st = Some st' \<and> ?I (Suc i) st'"
      using bm_state_clear [of n l "F \<union> {?a..<i}" bm free i] i top by auto
  qed (use st in simp)
  moreover have "\<exists>st'. for_each ?f [?a..<?b] st = Some st' \<and> bm_state n l (F \<union> {?a..<?b}) st'"
    if "?b < ?a" using st that by simp
  ultimately show ?thesis
    using True unfolding free_entry_def Let_def u entry_pages_def
    by (cases "?a \<le> ?b") simp_all
qed

lemma free_entries_spec:
  assumes "bm_state n l F st" "memory_map_ok es" "usable_pages es \<inter> F = {}"
    and "\<forall>e \<in> set es. (unat (base e) + unat (me_length e)) div 4096 \<le> n"
  shows "\<exists>st'. for_each free_entry es st = Some st' \<and> bm_state n l (F \<union> usable_pages es) st'"
  using assms
proof (induction es arbitrary: F st)
  case Nil
  then show ?case by (simp add: usable_pages_def)
next
  case (Cons e es)
  have U: "usable_pages (e # es) = entry_pages e \<union> usable_pages es" by (simp add: usable_pages_def)
  obtain st' where st': "free_entry e st = Some st'" "bm_state n l (F \<union> entry_pages e) st'"
    using free_entry_spec [of n l F st e] Cons.prems U by auto
  have "\<exists>st''. for_each free_entry es st' = Some st'' \<and>
          bm_state n l (F \<union> entry_pages e \<union> usable_pages es) st''"
    using Cons.prems U by (intro Cons.IH st'(2)) auto
  then show ?case using st' U by (auto simp: Un_assoc)
qed

lemma reserve_page_spec:
  assumes st: "bm_state (unat tot) l F st"
  shows "\<exists>st'. reserve_page tot page st = Some st' \<and> bm_state (unat tot) l (F - {unat page}) st'"
proof -
  obtain bm free where [simp]: "st = (bm, free)" by (cases st)
  have F: "free_in bm (unat tot) = F" and card: "unat free = card F" using st by (simp_all add: bm_state_def)
  show ?thesis
  proof (cases "page < tot")
    case False
    then have "unat page \<notin> F" using F by (auto simp: free_in_def word_less_nat_alt)
    then show ?thesis using False st by (simp add: reserve_page_def)
  next
    case True
    then have b: "unat page < 64 * length bm" using st by (simp add: bm_state_def word_less_nat_alt)
    obtain bm' where bm': "pmm_bitmap_set bm page = Some bm'" "length bm' = length bm"
      "\<forall>q. page_used bm' q \<longleftrightarrow> page_used bm q \<or> q = unat page"
      using bitmap_helpers(2) [OF b] by auto
    have iff: "unat page \<in> F \<longleftrightarrow> \<not> page_used bm (unat page)"
      using F True by (auto simp: free_in_def word_less_nat_alt)
    have "unat page \<in> F \<Longrightarrow> unat (free - 1) = card (F - {unat page})"
      using card F finite_free_in [of bm "unat tot"]
      by (subst unat_dec) (auto simp: card_Diff_singleton card_gt_0_iff dest: arg_cong [of _ _ unat])
    then show ?thesis
      using True st bm' iff bitmap_helpers(1) [OF b] free_in_set [OF bm'(3), of "unat tot"]
      by (auto simp: reserve_page_def bm_state_def)
  qed
qed

lemma highest_top_ge: "h \<le> highest_top es h"
proof (induction es arbitrary: h)
  case (Cons e es)
  show ?case
    using Cons [of "base e + me_length e"] Cons [of h] by (cases "h < base e + me_length e") auto
qed simp

lemma highest_top_upper: "e \<in> set es \<Longrightarrow> base e + me_length e \<le> highest_top es h"
proof (induction es arbitrary: h)
  case (Cons a es)
  then show ?case
    using highest_top_ge [of "base a + me_length a" es] highest_top_ge [of h es]
    by (cases "h < base a + me_length a") auto
qed simp

lemma bitmap_words:
  fixes tot :: u64
  assumes "unat tot < 2 ^ 52"
  shows "unat ((tot + BITS_PER_QWORD - 1) div BITS_PER_QWORD * 8 div 8) = (unat tot + 63) div 64"
    and "unat ((tot + BITS_PER_QWORD - 1) div BITS_PER_QWORD * 8) = 8 * ((unat tot + 63) div 64)"
proof -
  have "unat (tot + BITS_PER_QWORD - 1) = unat tot + 63"
    using assms unat_plus_no_overflow [of tot 63] by (simp add: add.commute [of 63])
  then have q: "unat ((tot + BITS_PER_QWORD - 1) div BITS_PER_QWORD) = (unat tot + 63) div 64"
    by (simp add: unat_div)
  then show w: "unat ((tot + BITS_PER_QWORD - 1) div BITS_PER_QWORD * 8) = 8 * ((unat tot + 63) div 64)"
    using assms by (subst unat_mult_no_overflow) auto
  show "unat ((tot + BITS_PER_QWORD - 1) div BITS_PER_QWORD * 8 div 8) = (unat tot + 63) div 64"
    unfolding unat_div w by simp
qed

text \<open>The page numbers the bitmap itself occupies.\<close>

definition bitmap_pages :: "u64 \<Rightarrow> u64 \<Rightarrow> nat set" where
  "bitmap_pages bitmap_phys bm_size =
     (\<lambda>p. unat (bitmap_phys div PAGE_SIZE + of_nat p)) ` {..<unat ((bm_size + PAGE_SIZE - 1) div PAGE_SIZE)}"

lemma reserve_pages_spec:
  assumes st: "bm_state (unat tot) l F st"
  shows "\<exists>st'. for_each (\<lambda>p. reserve_page tot (start + of_nat p)) [0..<k] st = Some st' \<and>
           bm_state (unat tot) l (F - (\<lambda>p. unat (start + of_nat p)) ` {..<k}) st'"
proof (rule for_each_upt_rule
    [where I = "\<lambda>i. bm_state (unat tot) l (F - (\<lambda>p. unat (start + of_nat p)) ` {..<i})"])
  fix i st assume "bm_state (unat tot) l (F - (\<lambda>p. unat (start + of_nat p)) ` {..<i}) st"
  from reserve_page_spec [OF this, of "start + of_nat i"]
  show "\<exists>st'. reserve_page tot (start + of_nat i) st = Some st' \<and>
          bm_state (unat tot) l (F - (\<lambda>p. unat (start + of_nat p)) ` {..<Suc i}) st'"
    by (simp add: lessThan_Suc Diff_insert [of F])
qed (use st in simp_all)

definition map_bitmap_size :: "MemoryMapEntry list \<Rightarrow> u64" where
  "map_bitmap_size es =
     (highest_top es 0 div PAGE_SIZE + BITS_PER_QWORD - 1) div BITS_PER_QWORD * 8"

lemma pmm_init_spec:
  assumes ok: "memory_map_ok (memory_map info)"
    and found: "pmm_find_bitmap_region (memory_map info) (map_bitmap_size (memory_map info)) \<noteq> 0"
    and lk: "locked (pmm_lock s) = 0"
  shows "\<exists>s'. pmm_init info s = Some s' \<and> pmm_inv s' \<and>
     free_set s' = usable_pages (memory_map info) - {0} -
       bitmap_pages (pmm_find_bitmap_region (memory_map info) (map_bitmap_size (memory_map info)))
                    (map_bitmap_size (memory_map info))"
proof -
  let ?es = "memory_map info"
  define tot where "tot = highest_top ?es 0 div PAGE_SIZE"
  define bs where "bs = (tot + BITS_PER_QWORD - 1) div BITS_PER_QWORD * 8"
  define ph where "ph = pmm_find_bitmap_region ?es bs"
  let ?n = "unat tot" and ?l = "(unat tot + 63) div 64"
  have sz: "map_bitmap_size ?es = bs" by (simp add: map_bitmap_size_def bs_def tot_def)
  have ut: "?n = unat (highest_top ?es 0) div 4096" by (simp add: tot_def unat_div)
  have n: "?n < 2 ^ 52"
    using unat_lt_64 [of "highest_top ?es 0"] by (simp add: ut div_less_iff_less_mult)
  have words: "unat (bs div 8) = ?l" "unat bs = 8 * ?l"
    unfolding bs_def by (rule bitmap_words [OF n])+
  have all_used: "free_in (replicate ?l (- 1)) ?n = {}"
    by (auto simp: free_in_def page_used_def)
  have st0: "bm_state ?n ?l {} (replicate ?l (- 1), 0)"
    using n all_used by (auto simp: bm_state_def)
  have tops: "(unat (base e) + unat (me_length e)) div 4096 \<le> ?n" if "e \<in> set ?es" for e
  proof -
    have "unat (base e) + unat (me_length e) < 2 ^ 64" by (rule memory_map_ok_entry [OF ok that])
    then show ?thesis
      using highest_top_upper [OF that, of 0] unat_plus_no_overflow [of "base e" "me_length e"]
      by (simp add: ut word_le_nat_alt div_le_mono)
  qed
  obtain st1 where st1: "for_each free_entry ?es (replicate ?l (- 1), 0) = Some st1"
    "bm_state ?n ?l (usable_pages ?es) st1"
    using free_entries_spec [OF st0 ok] tops by auto
  obtain st2 where st2: "reserve_page tot 0 st1 = Some st2"
    "bm_state ?n ?l (usable_pages ?es - {0}) st2"
    using reserve_page_spec [OF st1(2), of 0] by auto
  obtain st3 where st3: "for_each (\<lambda>p. reserve_page tot (ph div PAGE_SIZE + of_nat p))
      [0..<unat ((bs + PAGE_SIZE - 1) div PAGE_SIZE)] st2 = Some st3"
    "bm_state ?n ?l (usable_pages ?es - {0} - bitmap_pages ph bs) st3"
    unfolding bitmap_pages_def using reserve_pages_spec [OF st2(2)] by blast
  obtain bm fp where bm: "st3 = (bm, fp)" by (cases st3)
  let ?s' = "s\<lparr>bitmap := bm, bitmap_ptr := ph + bi_hhdm_offset info, bitmap_size := bs,
      total_pages := tot, free_pages := fp, highest_addr := highest_top ?es 0,
      pmm_hhdm_offset := bi_hhdm_offset info\<rparr>"
  have "pmm_init info s = Some ?s'"
    unfolding pmm_init_def Let_def tot_def [symmetric] bs_def [symmetric] ph_def [symmetric] words(1)
    using found [folded ph_def, unfolded sz, folded ph_def] st1(1) st2(1) st3(1) bm
    by (cases st1; cases st2) simp
  moreover have "free_set ?s' = usable_pages ?es - {0} - bitmap_pages ph bs"
    using st3(2) bm by (simp add: bm_state_def free_set_def)
  moreover have "pmm_inv ?s'"
    using st3(2) bm n words(2) lk calculation(2)
    by (auto simp: bm_state_def pmm_inv_def pmm_shape_def free_set_def)
  ultimately show ?thesis using sz ph_def by metis
qed

section \<open>The page allocator as an interface\<close>

text \<open>
  What the page-table code and the heap rely on: a request either fails with address 0 and
  changes nothing, or hands out an aligned page that was free and is not free any more; giving
  a page back makes it free again.  \<open>avail\<close> is the set of free page numbers.
\<close>

locale page_source =
  fixes alloc :: "'s \<Rightarrow> (u64 \<times> 's) option"
    and release :: "u64 \<Rightarrow> 's \<Rightarrow> 's option"
    and inv :: "'s \<Rightarrow> bool"
    and avail :: "'s \<Rightarrow> nat set"
    and limit :: "'s \<Rightarrow> nat"
  assumes alloc_some: "inv s \<Longrightarrow> avail s \<noteq> {} \<Longrightarrow>
      \<exists>p s'. alloc s = Some (p, s') \<and> inv s' \<and> limit s' = limit s \<and> p \<noteq> 0 \<and> 4096 dvd unat p \<and>
        unat p div 4096 \<in> avail s \<and> avail s' = avail s - {unat p div 4096}"
    and alloc_empty: "inv s \<Longrightarrow> avail s = {} \<Longrightarrow>
      \<exists>s'. alloc s = Some (0, s') \<and> inv s' \<and> limit s' = limit s \<and> avail s' = {}"
    and release_page: "inv s \<Longrightarrow> unat p div 4096 \<noteq> 0 \<Longrightarrow> unat p div 4096 < limit s \<Longrightarrow>
      \<exists>s'. release p s = Some s' \<and> inv s' \<and> limit s' = limit s \<and>
        avail s' = insert (unat p div 4096) (avail s)"
    and avail_finite: "inv s \<Longrightarrow> finite (avail s)"
    and avail_range: "inv s \<Longrightarrow> avail s \<subseteq> {0<..<limit s}"
begin

text \<open>Take \<open>k\<close> pages one after the other, stopping at the first failure.\<close>

fun take_pages :: "nat \<Rightarrow> 's \<Rightarrow> (u64 list \<times> 's) option" where
  "take_pages 0 s = Some ([], s)"
| "take_pages (Suc k) s =
     do { (p, s) \<leftarrow> alloc s;
          if p = 0 then Some ([], s) else do { (ps, s) \<leftarrow> take_pages k s; Some (p # ps, s) } }"

lemma take_pages_distinct:
  "inv s \<Longrightarrow> \<exists>ps s'. take_pages k s = Some (ps, s') \<and> inv s' \<and>
     length ps = min k (card (avail s)) \<and> distinct ps \<and> 0 \<notin> set ps \<and>
     (\<forall>p \<in> set ps. 4096 dvd unat p) \<and>
     (\<lambda>p. unat p div 4096) ` set ps \<subseteq> avail s \<and>
     avail s' = avail s - (\<lambda>p. unat p div 4096) ` set ps"
proof (induction k arbitrary: s)
  case 0
  then show ?case by simp
next
  case (Suc k)
  show ?case
  proof (cases "avail s = {}")
    case True
    then show ?thesis using alloc_empty [OF Suc.prems] by auto
  next
    case False
    then obtain p s1 where p: "alloc s = Some (p, s1)" "inv s1" "p \<noteq> 0" "4096 dvd unat p"
      "unat p div 4096 \<in> avail s" "avail s1 = avail s - {unat p div 4096}"
      using alloc_some [OF Suc.prems] by auto
    obtain ps s2 where ps: "take_pages k s1 = Some (ps, s2)" "inv s2"
      "length ps = min k (card (avail s1))" "distinct ps" "0 \<notin> set ps" "\<forall>p \<in> set ps. 4096 dvd unat p"
      "(\<lambda>p. unat p div 4096) ` set ps \<subseteq> avail s1"
      "avail s2 = avail s1 - (\<lambda>p. unat p div 4096) ` set ps"
      using Suc.IH [OF p(2)] by auto
    have "p \<notin> set ps" using ps(7) p(6) by auto
    moreover have "card (avail s) = Suc (card (avail s1))"
      unfolding p(6) by (rule card.remove [OF avail_finite [OF Suc.prems] p(5)])
    moreover have "take_pages (Suc k) s = Some (p # ps, s2)" using p(1,3) ps(1) by simp
    moreover have "(\<lambda>p. unat p div 4096) ` set (p # ps) \<subseteq> avail s"
      "avail s2 = avail s - (\<lambda>p. unat p div 4096) ` set (p # ps)"
      using p(5,6) ps(7,8) by auto
    ultimately show ?thesis
      using p(3,4) ps(2,3,4,5,6) by (intro exI [of _ "p # ps"] exI [of _ s2]) auto
  qed
qed

lemma release_after_alloc:
  assumes "inv s" "alloc s = Some (p, s')" "p \<noteq> 0"
  shows "\<exists>s''. release p s' = Some s'' \<and> inv s'' \<and> avail s'' = avail s"
proof -
  have ne: "avail s \<noteq> {}" using alloc_empty [OF assms(1)] assms(2,3) by auto
  have p: "inv s'" "limit s' = limit s" "unat p div 4096 \<in> avail s"
    "avail s' = avail s - {unat p div 4096}"
    using alloc_some [OF assms(1) ne] assms(2) by auto
  have "unat p div 4096 \<in> {0<..<limit s}" using p(3) avail_range [OF assms(1)] by blast
  then show ?thesis
    using release_page [OF p(1), of p] p by (auto simp: insert_absorb)
qed

end

lemma pmm_inv_range: "pmm_inv s \<Longrightarrow> free_set s \<subseteq> {0<..<unat (total_pages s)}"
  by (auto simp: pmm_inv_def free_set_def free_in_def intro!: gr0I)

interpretation pages: page_source pmm_alloc_page pmm_free_page pmm_inv free_set "\<lambda>s. unat (total_pages s)"
proof
  fix s assume inv: "pmm_inv s" and ne: "free_set s \<noteq> {}"
  obtain r s' where r: "pmm_alloc_page s = Some (r, s')" "pmm_inv s'" "same_layout s s'"
    "(unat r, free_set s') = spec_alloc_page (free_set s)"
    using pmm_alloc_page_spec [OF inv] by auto
  have m: "Min (free_set s) \<in> free_set s" by (rule Min_in) (simp_all add: ne)
  then have "Min (free_set s) \<noteq> 0" using inv by (metis pmm_inv_def)
  moreover have ur: "unat r = 4096 * Min (free_set s)" "free_set s' = free_set s - {Min (free_set s)}"
    using r(4) ne by (simp_all add: spec_alloc_page_def)
  ultimately have "unat r \<noteq> 0" by simp
  then have "r \<noteq> 0" by (metis unat_0)
  then show "\<exists>p s'. pmm_alloc_page s = Some (p, s') \<and> pmm_inv s' \<and>
      unat (total_pages s') = unat (total_pages s) \<and> p \<noteq> 0 \<and> 4096 dvd unat p \<and>
      unat p div 4096 \<in> free_set s \<and> free_set s' = free_set s - {unat p div 4096}"
    using r(1-3) ur m by (intro exI [of _ r] exI [of _ s'] conjI)
      (simp_all add: same_layout_def unat_eq_0 del: Min_in)
next
  fix s assume "pmm_inv s" "free_set s = {}"
  then show "\<exists>s'. pmm_alloc_page s = Some (0, s') \<and> pmm_inv s' \<and>
      unat (total_pages s') = unat (total_pages s) \<and> free_set s' = {}"
    using pmm_alloc_page_spec [of s] by (auto simp: spec_alloc_page_def same_layout_def unat_eq_0)
next
  fix s and p :: u64
  assume "pmm_inv s" "unat p div 4096 \<noteq> 0" "unat p div 4096 < unat (total_pages s)"
  then show "\<exists>s'. pmm_free_page p s = Some s' \<and> pmm_inv s' \<and>
      unat (total_pages s') = unat (total_pages s) \<and> free_set s' = insert (unat p div 4096) (free_set s)"
    using pmm_free_page_spec [of s p] by (auto simp: spec_free_page_def same_layout_def)
qed (simp_all add: pmm_inv_range)

section \<open>Properties\<close>

text \<open>
  The instance the witnesses use: 70 pages, of which 3, 5, 6, 7 and 69 are free, interrupts on.
\<close>

definition pmm_example :: pmm where
  "pmm_example =
     \<lparr>rflags = 0x202, pmm_lock = SPINLOCK_INIT, bitmap = [0xFFFFFFFFFFFFFF17, 0xFFFFFFFFFFFFFFDF],
      bitmap_ptr = 0xFFFF800000001000, bitmap_size = 16, total_pages = 70, free_pages = 5,
      highest_addr = 70 * 4096, pmm_hhdm_offset = 0xFFFF800000000000\<rparr>"

lemma free_in_code [code]: "free_in bm n = set (filter (\<lambda>p. \<not> page_used bm p) [0..<n])"
  by (auto simp: free_in_def)

lemma free_set_example: "free_set pmm_example = {3, 5, 6, 7, 69}"
  by code_simp

lemma pmm_inv_example: "pmm_inv pmm_example"
  unfolding pmm_inv_def free_set_example by (simp add: pmm_example_def pmm_shape_def SPINLOCK_INIT_def)

text \<open>
  C12.  Allocating a page refines the set specification: with no free page it returns 0, otherwise
  it returns the address of the lowest free page and takes exactly that page out of the free
  set.  On every path the call returns with the lock released, the interrupt flag as before, the
  layout unchanged and the invariant (free counter = number of clear bits, page 0 reserved) intact.
\<close>

theorem pmm_alloc_page_refines:
  assumes "pmm_inv s"
  shows "\<exists>r s'. pmm_alloc_page s = Some (r, s') \<and> pmm_inv s' \<and> same_layout s s' \<and>
           (unat r, free_set s') = spec_alloc_page (free_set s)"
  by (rule pmm_alloc_page_spec [OF assms])

theorem pmm_alloc_page_refines_witness:
  "\<exists>r s'. pmm_alloc_page pmm_example = Some (r, s') \<and> pmm_inv s' \<and> unat r = 3 * 4096 \<and>
     free_set s' = {5, 6, 7, 69}"
  using pmm_alloc_page_refines [OF pmm_inv_example]
  by (auto simp: spec_alloc_page_def free_set_example)

text \<open>
  C13.  Freeing a page refines the set specification: the page of any address in range becomes
  free (a second free of it changes nothing), page 0 and addresses past the end of memory are
  ignored, and the invariant, the layout and the interrupt flag are kept.
\<close>

theorem pmm_free_page_refines:
  assumes "pmm_inv s"
  shows "\<exists>s'. pmm_free_page a s = Some s' \<and> pmm_inv s' \<and> same_layout s s' \<and>
           free_set s' = spec_free_page (unat (total_pages s)) (unat a) (free_set s)"
  by (rule pmm_free_page_spec [OF assms])

theorem pmm_free_page_refines_witness:
  "\<exists>s'. pmm_free_page 0x4123 pmm_example = Some s' \<and> pmm_inv s' \<and> free_set s' = {3, 4, 5, 6, 7, 69}"
proof -
  have "spec_free_page (unat (total_pages pmm_example)) (unat (0x4123 :: u64)) {3, 5, 6, 7, 69} = {3, 4, 5, 6, 7, 69}"
    by (auto simp: spec_free_page_def pmm_example_def)
  then show ?thesis
    using pmm_free_page_refines [OF pmm_inv_example, of "0x4123"] by (auto simp: free_set_example)
qed

text \<open>
  C15.  A contiguous allocation of \<open>count\<close> pages is first fit: it returns the address of the least
  page that starts a run of \<open>count\<close> free pages and takes exactly that run; for \<open>count = 0\<close>, or when
  no run exists, it returns 0 and takes nothing.
\<close>

theorem pmm_alloc_contiguous_refines:
  assumes "pmm_inv s"
  shows "\<exists>r s'. pmm_alloc_contiguous count s = Some (r, s') \<and> pmm_inv s' \<and> same_layout s s' \<and>
           (unat r, free_set s') = spec_alloc_contiguous (unat count) (free_set s)"
  by (rule pmm_alloc_contiguous_spec [OF assms])

theorem pmm_alloc_contiguous_refines_witness:
  "\<exists>r s'. pmm_alloc_contiguous 2 pmm_example = Some (r, s') \<and> pmm_inv s' \<and> unat r = 5 * 4096 \<and>
     free_set s' = {3, 7, 69}"
proof -
  have "run_at F 2 q \<longleftrightarrow> q \<in> F \<and> Suc q \<in> F" for F q
    by (auto simp: run_at_def subset_iff less_Suc_eq_le le_Suc_eq)
  then have least: "(LEAST q. run_at {3, 5, 6, 7, 69} 2 q) = 5"
    by (intro Least_equality) auto
  have "run_at {3, 5, 6, 7, 69} 2 5" by (auto simp: run_at_def)
  then have "spec_alloc_contiguous 2 {3, 5, 6, 7, 69} = (4096 * 5, {3, 5, 6, 7, 69} - {5..<5 + 2})"
    using least by (auto simp: spec_alloc_contiguous_def)
  also have "\<dots> = (20480, {3, 7, 69})" by auto
  finally show ?thesis
    using pmm_alloc_contiguous_refines [OF pmm_inv_example, of 2] by (auto simp: free_set_example)
qed

text \<open>
  C14.  Initialisation on a memory map whose entries do not wrap and share no usable page: if a
  region for the bitmap is found, it returns, the invariant holds, and the free pages are the
  pages wholly inside usable entries except page 0 and the pages of the bitmap.
\<close>

theorem pmm_init_establishes:
  assumes "memory_map_ok (memory_map info)"
    and "pmm_find_bitmap_region (memory_map info) (map_bitmap_size (memory_map info)) \<noteq> 0"
    and "locked (pmm_lock s) = 0"
  shows "\<exists>s'. pmm_init info s = Some s' \<and> pmm_inv s' \<and>
     free_set s' = usable_pages (memory_map info) - {0} -
       bitmap_pages (pmm_find_bitmap_region (memory_map info) (map_bitmap_size (memory_map info)))
                    (map_bitmap_size (memory_map info))"
  by (rule pmm_init_spec [OF assms])

definition boot_example :: BootInfo where
  "boot_example =
     \<lparr>memory_map = [\<lparr>base = 0, me_length = 0x500, me_type = 1\<rparr>,
                    \<lparr>base = 0x1800, me_length = 0x5000, me_type = 0\<rparr>,
                    \<lparr>base = 0x8000, me_length = 0x2000, me_type = 1\<rparr>],
      bi_hhdm_offset = 0xFFFF800000000000, kernel_phys_base = 0x100000\<rparr>"

theorem pmm_init_establishes_witness:
  "\<exists>s'. pmm_init boot_example pmm_example = Some s' \<and> pmm_inv s' \<and> free_set s' = {3, 4, 5}"
proof -
  have ok: "memory_map_ok (memory_map boot_example)"
    by (simp add: boot_example_def usable_pages_def entry_pages_def)
  have sz: "map_bitmap_size (memory_map boot_example) = 8"
    by (simp add: boot_example_def map_bitmap_size_def)
  have reg: "pmm_find_bitmap_region (memory_map boot_example) 8 = 0x2000"
    by code_simp
  have "usable_pages (memory_map boot_example) = {2..<6}"
    by (simp add: boot_example_def usable_pages_def entry_pages_def)
  moreover have "bitmap_pages 0x2000 8 = {2}" by (simp add: bitmap_pages_def lessThan_Suc)
  ultimately have free: "usable_pages (memory_map boot_example) - {0} - bitmap_pages 0x2000 8 = {3, 4, 5}"
    by auto
  show ?thesis
    using pmm_init_establishes [of boot_example pmm_example] ok sz reg free
    by (simp add: pmm_example_def SPINLOCK_INIT_def)
qed

end
