(* ===== verification/Vmm.thy ===== *)
theory Vmm
  imports Pmm "HOL-Library.Sublist"
begin

text \<open>
  The virtual memory manager (\<^verbatim>\<open>kernel/mm/vmm.c\<close>, \<^verbatim>\<open>kernel/arch/x86_64/paging.h\<close>): four-level page
  tables built in physical memory and reached through the higher-half direct map (HHDM).

  Physical memory is \<open>pmem\<close>, the 64-bit word stored at each 8-byte aligned physical address.
  The manager only accesses memory in such words (table entries) and in whole pages (\<^verbatim>\<open>memset\<close>
  and \<^verbatim>\<open>memcpy\<close> of a page).  A C pointer is a virtual address; a dereference goes through the HHDM,
  that is, it subtracts the offset that \<^verbatim>\<open>phys_to_virt\<close> adds.

  The specification is a lookup in the tree of tables, as the MMU performs it.  The invariant says
  that the tables of an address space form a tree of allocated pages.  Under it, mapping a page
  changes the translation of that page and of no other, unmapping removes it, a new address space
  shares the kernel half and maps nothing in the user half, and tearing an address space down
  returns exactly its pages to the page allocator.
\<close>

section \<open>Page table entries\<close>

abbreviation PTE_PRESENT :: u64 where "PTE_PRESENT \<equiv> 0x1"
abbreviation PTE_WRITABLE :: u64 where "PTE_WRITABLE \<equiv> 0x2"
abbreviation PTE_USER :: u64 where "PTE_USER \<equiv> 0x4"
abbreviation PTE_HUGE :: u64 where "PTE_HUGE \<equiv> 0x80"
abbreviation PTE_NX :: u64 where "PTE_NX \<equiv> 0x8000000000000000"
abbreviation PTE_ADDR_MASK :: u64 where "PTE_ADDR_MASK \<equiv> 0x000FFFFFFFFFF000"
abbreviation PTE_ADDR_MASK_2MB :: u64 where "PTE_ADDR_MASK_2MB \<equiv> 0x000FFFFFFFE00000"
abbreviation PAGE_OFFSET_MASK :: u64 where "PAGE_OFFSET_MASK \<equiv> 0xFFF"
abbreviation PAGE_SIZE_2MB :: u64 where "PAGE_SIZE_2MB \<equiv> 0x200000"
abbreviation PAGE_MASK_2MB :: u64 where "PAGE_MASK_2MB \<equiv> 0x1FFFFF"
abbreviation PAGE_MASK_1GB :: u64 where "PAGE_MASK_1GB \<equiv> 0x3FFFFFFF"
abbreviation VMM_FLAG_WRITABLE :: u32 where "VMM_FLAG_WRITABLE \<equiv> 1"
abbreviation VMM_FLAG_USER :: u32 where "VMM_FLAG_USER \<equiv> 2"
abbreviation VMM_FLAG_NOEXEC :: u32 where "VMM_FLAG_NOEXEC \<equiv> 4"
abbreviation PT_ENTRIES :: nat where "PT_ENTRIES \<equiv> 512"
abbreviation PML4_KERNEL_START :: nat where "PML4_KERNEL_START \<equiv> 256"
abbreviation USER_STACK_TOP :: u64 where "USER_STACK_TOP \<equiv> 0x00007FFFFFFFE000"
abbreviation USER_STACK_PAGES :: nat where "USER_STACK_PAGES \<equiv> 4"

definition PML4_INDEX :: "u64 \<Rightarrow> u64" where "PML4_INDEX va = drop_bit 39 va AND 0x1FF"
definition PDPT_INDEX :: "u64 \<Rightarrow> u64" where "PDPT_INDEX va = drop_bit 30 va AND 0x1FF"
definition PD_INDEX :: "u64 \<Rightarrow> u64" where "PD_INDEX va = drop_bit 21 va AND 0x1FF"
definition PT_INDEX :: "u64 \<Rightarrow> u64" where "PT_INDEX va = drop_bit 12 va AND 0x1FF"

definition pte_present :: "u64 \<Rightarrow> bool" where "pte_present e \<longleftrightarrow> e AND PTE_PRESENT \<noteq> 0"
definition pte_huge :: "u64 \<Rightarrow> bool" where "pte_huge e \<longleftrightarrow> e AND PTE_HUGE \<noteq> 0"
definition pte_addr :: "u64 \<Rightarrow> u64" where "pte_addr e = e AND PTE_ADDR_MASK"

section \<open>State and memory access\<close>

record vmm =
  vmm_pmm :: pmm
  vmm_lock :: Spinlock
  pmem :: "u64 \<Rightarrow> u64"
  kernel_pml4_phys :: u64
  hhdm_offset :: u64
  cr3 :: u64
  invlpg_log :: "u64 list"

definition phys_to_virt :: "vmm \<Rightarrow> u64 \<Rightarrow> u64" where
  "phys_to_virt s phys = phys + hhdm_offset s"

text \<open>\<open>t[i]\<close> for a pointer \<open>t\<close> to 64-bit words, and a page-sized \<^verbatim>\<open>memset\<close> to 0 and \<^verbatim>\<open>memcpy\<close>.\<close>

definition tbl_get :: "vmm \<Rightarrow> u64 \<Rightarrow> u64 \<Rightarrow> u64" where
  "tbl_get s t i = pmem s (t + 8 * i - hhdm_offset s)"

definition tbl_set :: "u64 \<Rightarrow> u64 \<Rightarrow> u64 \<Rightarrow> vmm \<Rightarrow> vmm" where
  "tbl_set t i e s = s\<lparr>pmem := (pmem s)(t + 8 * i - hhdm_offset s := e)\<rparr>"

definition zero_page :: "u64 \<Rightarrow> vmm \<Rightarrow> vmm" where
  "zero_page v s = s\<lparr>pmem := \<lambda>a. if a - (v - hhdm_offset s) < PAGE_SIZE then 0 else pmem s a\<rparr>"

definition copy_page :: "u64 \<Rightarrow> u64 \<Rightarrow> vmm \<Rightarrow> vmm" where
  "copy_page d v s = s\<lparr>pmem := \<lambda>a. if a - (d - hhdm_offset s) < PAGE_SIZE
     then pmem s (a - d + v) else pmem s a\<rparr>"

definition vmm_alloc_page :: "vmm \<Rightarrow> (u64 \<times> vmm) option" where
  "vmm_alloc_page s = do { (p, pm) \<leftarrow> pmm_alloc_page (vmm_pmm s); Some (p, s\<lparr>vmm_pmm := pm\<rparr>) }"

definition vmm_free_page :: "u64 \<Rightarrow> vmm \<Rightarrow> vmm option" where
  "vmm_free_page a s = do { pm \<leftarrow> pmm_free_page a (vmm_pmm s); Some (s\<lparr>vmm_pmm := pm\<rparr>) }"

definition lock_vmm :: "vmm \<Rightarrow> vmm option" where
  "lock_vmm s = do { (lk, fl) \<leftarrow> spinlock_acquire (vmm_lock s) (rflags (vmm_pmm s));
                     Some (s\<lparr>vmm_lock := lk, vmm_pmm := (vmm_pmm s)\<lparr>rflags := fl\<rparr>\<rparr>) }"

definition unlock_vmm :: "vmm \<Rightarrow> vmm" where
  "unlock_vmm s = (let (lk, fl) = spinlock_release (vmm_lock s) (rflags (vmm_pmm s))
                   in s\<lparr>vmm_lock := lk, vmm_pmm := (vmm_pmm s)\<lparr>rflags := fl\<rparr>\<rparr>)"

section \<open>Operations\<close>

definition alloc_table_page :: "vmm \<Rightarrow> (u64 \<times> vmm) option" where
  "alloc_table_page s =
     do { (phys, s) \<leftarrow> vmm_alloc_page s;
          if phys = 0 then None else Some (phys, zero_page (phys_to_virt s phys) s) }"

definition vmm_flags_to_pte :: "u32 \<Rightarrow> u64" where
  "vmm_flags_to_pte flags =
     (let pte = PTE_PRESENT;
          pte = (if flags AND VMM_FLAG_WRITABLE \<noteq> 0 then pte OR PTE_WRITABLE else pte);
          pte = (if flags AND VMM_FLAG_USER \<noteq> 0 then pte OR PTE_USER else pte)
      in if flags AND VMM_FLAG_NOEXEC \<noteq> 0 then pte OR PTE_NX else pte)"

definition pte_to_vmm_flags :: "u64 \<Rightarrow> u32" where
  "pte_to_vmm_flags pte_flags =
     (let flags = 0;
          flags = (if pte_flags AND PTE_WRITABLE \<noteq> 0 then flags OR VMM_FLAG_WRITABLE else flags);
          flags = (if pte_flags AND PTE_USER \<noteq> 0 then flags OR VMM_FLAG_USER else flags)
      in if pte_flags AND PTE_NX \<noteq> 0 then flags OR VMM_FLAG_NOEXEC else flags)"

definition ensure_table :: "u64 \<Rightarrow> u64 \<Rightarrow> vmm \<Rightarrow> (u64 \<times> vmm) option" where
  "ensure_table table index s =
     do { s \<leftarrow> (if \<not> pte_present (tbl_get s table index) then
                   do { (new_table, s) \<leftarrow> alloc_table_page s;
                        Some (tbl_set table index (new_table OR PTE_PRESENT OR PTE_WRITABLE OR PTE_USER) s) }
                 else Some s);
          Some (phys_to_virt s (pte_addr (tbl_get s table index)), s) }"

text \<open>The pointer to the PT entry, as table pointer and index; \<open>None\<close> is \<^verbatim>\<open>NULL\<close>.\<close>

definition walk_to_pt_entry :: "vmm \<Rightarrow> u64 \<Rightarrow> u64 \<Rightarrow> (u64 \<times> u64) option" where
  "walk_to_pt_entry s pml4_phys virt =
     (let pml4 = phys_to_virt s pml4_phys in
      if \<not> pte_present (tbl_get s pml4 (PML4_INDEX virt)) then None else
      let pdpt = phys_to_virt s (pte_addr (tbl_get s pml4 (PML4_INDEX virt))) in
      if \<not> pte_present (tbl_get s pdpt (PDPT_INDEX virt)) then None else
      let pd = phys_to_virt s (pte_addr (tbl_get s pdpt (PDPT_INDEX virt))) in
      if \<not> pte_present (tbl_get s pd (PD_INDEX virt)) then None else
      let pt = phys_to_virt s (pte_addr (tbl_get s pd (PD_INDEX virt))) in
      Some (pt, PT_INDEX virt))"

definition free_pd_entries :: "u64 \<Rightarrow> vmm \<Rightarrow> vmm option" where
  "free_pd_entries pd s =
     for_each (\<lambda>i s. let e = tbl_get s pd (of_nat i) in
        if \<not> pte_present e \<or> pte_huge e then Some s else vmm_free_page (pte_addr e) s)
       [0..<PT_ENTRIES] s"

definition vmm_map_page_in :: "u64 \<Rightarrow> u64 \<Rightarrow> u64 \<Rightarrow> u32 \<Rightarrow> vmm \<Rightarrow> vmm option" where
  "vmm_map_page_in pml4_phys virt phys flags s =
     do { let pml4 = phys_to_virt s pml4_phys;
          (pdpt, s) \<leftarrow> ensure_table pml4 (PML4_INDEX virt) s;
          (pd, s) \<leftarrow> ensure_table pdpt (PDPT_INDEX virt) s;
          (pt, s) \<leftarrow> ensure_table pd (PD_INDEX virt) s;
          Some (tbl_set pt (PT_INDEX virt) (phys OR vmm_flags_to_pte flags) s) }"

definition vmm_unmap_page_in :: "u64 \<Rightarrow> u64 \<Rightarrow> vmm \<Rightarrow> vmm" where
  "vmm_unmap_page_in pml4_phys virt s =
     (case walk_to_pt_entry s pml4_phys virt of
        None \<Rightarrow> s
      | Some (pt, i) \<Rightarrow> (tbl_set pt i 0 s)\<lparr>invlpg_log := invlpg_log s @ [virt]\<rparr>)"

definition vmm_get_phys_in :: "vmm \<Rightarrow> u64 \<Rightarrow> u64 \<Rightarrow> u64" where
  "vmm_get_phys_in s pml4_phys virt =
     (case walk_to_pt_entry s pml4_phys virt of
        None \<Rightarrow> 0
      | Some (pt, i) \<Rightarrow>
          if \<not> pte_present (tbl_get s pt i) then 0
          else pte_addr (tbl_get s pt i) + (virt AND PAGE_OFFSET_MASK))"

definition vmm_map_page :: "u64 \<Rightarrow> u64 \<Rightarrow> u32 \<Rightarrow> vmm \<Rightarrow> vmm option" where
  "vmm_map_page virt phys flags s =
     do { s \<leftarrow> lock_vmm s;
          s \<leftarrow> vmm_map_page_in (kernel_pml4_phys s) virt phys flags s;
          Some (unlock_vmm s) }"

definition vmm_unmap_page :: "u64 \<Rightarrow> vmm \<Rightarrow> vmm option" where
  "vmm_unmap_page virt s =
     do { s \<leftarrow> lock_vmm s;
          Some (unlock_vmm (vmm_unmap_page_in (kernel_pml4_phys s) virt s)) }"

definition vmm_get_phys :: "vmm \<Rightarrow> u64 \<Rightarrow> u64" where
  "vmm_get_phys s virt =
     (let pml4 = phys_to_virt s (kernel_pml4_phys s); e4 = tbl_get s pml4 (PML4_INDEX virt) in
      if \<not> pte_present e4 then 0 else
      let pdpt = phys_to_virt s (pte_addr e4); e3 = tbl_get s pdpt (PDPT_INDEX virt) in
      if \<not> pte_present e3 then 0 else
      if pte_huge e3 then pte_addr e3 + (virt AND PAGE_MASK_1GB) else
      let pd = phys_to_virt s (pte_addr e3); e2 = tbl_get s pd (PD_INDEX virt) in
      if \<not> pte_present e2 then 0 else
      if pte_huge e2 then (e2 AND PTE_ADDR_MASK_2MB) + (virt AND PAGE_MASK_2MB) else
      let pt = phys_to_virt s (pte_addr e2); e1 = tbl_get s pt (PT_INDEX virt) in
      if \<not> pte_present e1 then 0 else
      pte_addr e1 + (virt AND PAGE_OFFSET_MASK))"

definition vmm_get_kernel_pml4 :: "vmm \<Rightarrow> u64" where
  "vmm_get_kernel_pml4 s = kernel_pml4_phys s"

definition vmm_get_hhdm_offset :: "vmm \<Rightarrow> u64" where
  "vmm_get_hhdm_offset s = hhdm_offset s"

partial_function (option) map_range_2mb_from ::
    "u64 \<Rightarrow> u64 \<Rightarrow> u64 \<Rightarrow> u32 \<Rightarrow> u64 \<Rightarrow> vmm \<Rightarrow> vmm option" where
  "map_range_2mb_from virt_start phys_start sz flags offset s =
     (if offset < sz then
        let virt = virt_start + offset; phys = phys_start + offset; remaining = sz - offset in
        if virt AND PAGE_MASK_2MB = 0 \<and> phys AND PAGE_MASK_2MB = 0 \<and> remaining \<ge> PAGE_SIZE_2MB then
          do { let pml4 = phys_to_virt s (kernel_pml4_phys s);
               (pdpt, s) \<leftarrow> ensure_table pml4 (PML4_INDEX virt) s;
               (pd, s) \<leftarrow> ensure_table pdpt (PDPT_INDEX virt) s;
               map_range_2mb_from virt_start phys_start sz flags (offset + PAGE_SIZE_2MB)
                 (tbl_set pd (PD_INDEX virt) (phys OR vmm_flags_to_pte flags OR PTE_HUGE) s) }
        else
          do { s \<leftarrow> vmm_map_page virt phys flags s;
               map_range_2mb_from virt_start phys_start sz flags (offset + PAGE_SIZE) s }
      else Some s)"

definition map_range_2mb :: "u64 \<Rightarrow> u64 \<Rightarrow> u64 \<Rightarrow> u32 \<Rightarrow> vmm \<Rightarrow> vmm option" where
  "map_range_2mb virt_start phys_start sz flags s =
     map_range_2mb_from virt_start phys_start sz flags 0 s"

definition vmm_create_user_pml4 :: "vmm \<Rightarrow> (u64 \<times> vmm) option" where
  "vmm_create_user_pml4 s =
     do { (pml4_phys, s) \<leftarrow> alloc_table_page s;
          let new_pml4 = phys_to_virt s pml4_phys;
          let kern_pml4 = phys_to_virt s (kernel_pml4_phys s);
          s \<leftarrow> for_each (\<lambda>i s. Some (tbl_set new_pml4 (of_nat i) (tbl_get s kern_pml4 (of_nat i)) s))
                 [PML4_KERNEL_START..<PT_ENTRIES] s;
          Some (pml4_phys, s) }"

definition vmm_destroy_user_pml4 :: "u64 \<Rightarrow> vmm \<Rightarrow> vmm option" where
  "vmm_destroy_user_pml4 pml4_phys s =
     do { let pml4 = phys_to_virt s pml4_phys;
          s \<leftarrow> for_each (\<lambda>i s.
                 let e4 = tbl_get s pml4 (of_nat i) in
                 if \<not> pte_present e4 then Some s else
                 do { let pdpt = phys_to_virt s (pte_addr e4);
                      s \<leftarrow> for_each (\<lambda>j s.
                             let e3 = tbl_get s pdpt (of_nat j) in
                             if \<not> pte_present e3 \<or> pte_huge e3 then Some s else
                             do { s \<leftarrow> free_pd_entries (phys_to_virt s (pte_addr e3)) s;
                                  vmm_free_page (pte_addr e3) s })
                           [0..<PT_ENTRIES] s;
                      vmm_free_page (pte_addr e4) s })
               [0..<PML4_KERNEL_START] s;
          vmm_free_page pml4_phys s }"

definition fork_copy_page :: "u64 \<Rightarrow> u64 \<Rightarrow> u64 \<Rightarrow> vmm \<Rightarrow> (int \<times> vmm) option" where
  "fork_copy_page src_pte dst_pml4 vaddr s =
     do { let src_phys = pte_addr src_pte;
          let flags = src_pte AND NOT PTE_ADDR_MASK;
          (dst_phys, s) \<leftarrow> vmm_alloc_page s;
          if dst_phys = 0 then Some (- 1, s) else
          do { let s = copy_page (phys_to_virt s dst_phys) (phys_to_virt s src_phys) s;
               s \<leftarrow> vmm_map_page_in dst_pml4 vaddr dst_phys (pte_to_vmm_flags flags) s;
               Some (0, s) } }"

text \<open>
  The four nested loops of the fork, from the inside out.  A failed copy destroys the new space
  and returns 0 from the function (\<open>Inl\<close>).
\<close>

definition user_vaddr :: "nat \<Rightarrow> nat \<Rightarrow> nat \<Rightarrow> nat \<Rightarrow> u64" where
  "user_vaddr i4 i3 i2 i1 =
     push_bit 39 (of_nat i4) OR push_bit 30 (of_nat i3) OR push_bit 21 (of_nat i2) OR push_bit 12 (of_nat i1)"

definition fork_pt :: "u64 \<Rightarrow> u64 \<Rightarrow> nat \<Rightarrow> nat \<Rightarrow> nat \<Rightarrow> vmm \<Rightarrow> ((u64 \<times> vmm) + vmm) option" where
  "fork_pt dst src_pt i4 i3 i2 s =
     for_ret (\<lambda>i1 s.
        let e1 = tbl_get s src_pt (of_nat i1) in
        if \<not> pte_present e1 then Some (Inr s) else
        do { (rc, s) \<leftarrow> fork_copy_page e1 dst (user_vaddr i4 i3 i2 i1) s;
             if rc \<noteq> 0 then do { s \<leftarrow> vmm_destroy_user_pml4 dst s; Some (Inl (0, s)) }
             else Some (Inr s) }) [0..<PT_ENTRIES] s"

definition fork_pd :: "u64 \<Rightarrow> u64 \<Rightarrow> nat \<Rightarrow> nat \<Rightarrow> vmm \<Rightarrow> ((u64 \<times> vmm) + vmm) option" where
  "fork_pd dst src_pd i4 i3 s =
     for_ret (\<lambda>i2 s.
        let e2 = tbl_get s src_pd (of_nat i2) in
        if \<not> pte_present e2 then Some (Inr s) else
        if pte_huge e2 then Some (Inr s) else
        fork_pt dst (phys_to_virt s (pte_addr e2)) i4 i3 i2 s) [0..<PT_ENTRIES] s"

definition fork_pdpt :: "u64 \<Rightarrow> u64 \<Rightarrow> nat \<Rightarrow> vmm \<Rightarrow> ((u64 \<times> vmm) + vmm) option" where
  "fork_pdpt dst src_pdpt i4 s =
     for_ret (\<lambda>i3 s.
        let e3 = tbl_get s src_pdpt (of_nat i3) in
        if \<not> pte_present e3 then Some (Inr s) else
        if pte_huge e3 then Some (Inr s) else
        fork_pd dst (phys_to_virt s (pte_addr e3)) i4 i3 s) [0..<PT_ENTRIES] s"

definition vmm_fork_address_space :: "u64 \<Rightarrow> vmm \<Rightarrow> (u64 \<times> vmm) option" where
  "vmm_fork_address_space src_pml4_phys s =
     do { (dst, s) \<leftarrow> vmm_create_user_pml4 s;
          if dst = 0 then Some (0, s) else
          do { let src_pml4 = phys_to_virt s src_pml4_phys;
               r \<leftarrow> for_ret (\<lambda>i4 s.
                      let e4 = tbl_get s src_pml4 (of_nat i4) in
                      if \<not> pte_present e4 then Some (Inr s) else
                      fork_pdpt dst (phys_to_virt s (pte_addr e4)) i4 s) [0..<PML4_KERNEL_START] s;
               Some (case r of Inl res \<Rightarrow> res | Inr s \<Rightarrow> (dst, s)) } }"

definition free_pt_and_leaves :: "u64 \<Rightarrow> vmm \<Rightarrow> vmm option" where
  "free_pt_and_leaves pt_phys s =
     do { let pt = phys_to_virt s pt_phys;
          s \<leftarrow> for_each (\<lambda>i s. let e = tbl_get s pt (of_nat i) in
                 if pte_present e then vmm_free_page (pte_addr e) s else Some s) [0..<PT_ENTRIES] s;
          vmm_free_page pt_phys s }"

definition free_pd_and_children :: "u64 \<Rightarrow> vmm \<Rightarrow> vmm option" where
  "free_pd_and_children pd_phys s =
     do { let pd = phys_to_virt s pd_phys;
          s \<leftarrow> for_each (\<lambda>i s. let e = tbl_get s pd (of_nat i) in
                 if \<not> pte_present e \<or> pte_huge e then Some s else free_pt_and_leaves (pte_addr e) s)
                 [0..<PT_ENTRIES] s;
          vmm_free_page pd_phys s }"

definition vmm_free_user_pages :: "u64 \<Rightarrow> vmm \<Rightarrow> vmm option" where
  "vmm_free_user_pages pml4_phys s =
     do { let pml4 = phys_to_virt s pml4_phys;
          s \<leftarrow> for_each (\<lambda>i s.
                 let e4 = tbl_get s pml4 (of_nat i) in
                 if \<not> pte_present e4 then Some s else
                 do { let pdpt = phys_to_virt s (pte_addr e4);
                      s \<leftarrow> for_each (\<lambda>j s.
                             let e3 = tbl_get s pdpt (of_nat j) in
                             if \<not> pte_present e3 \<or> pte_huge e3 then Some s
                             else free_pd_and_children (pte_addr e3) s) [0..<PT_ENTRIES] s;
                      vmm_free_page (pte_addr e4) s })
               [0..<PML4_KERNEL_START] s;
          vmm_free_page pml4_phys s }"

definition vmm_map_user_stack :: "u64 \<Rightarrow> vmm \<Rightarrow> (int \<times> vmm) option" where
  "vmm_map_user_stack pml4_phys s =
     (let stack_bottom = USER_STACK_TOP - of_nat USER_STACK_PAGES * PAGE_SIZE in
      do { r \<leftarrow> for_ret (\<lambda>k s.
             do { let vaddr = stack_bottom + of_nat k * PAGE_SIZE;
                  (phys, s) \<leftarrow> vmm_alloc_page s;
                  if phys = 0 then Some (Inl (- ENOMEM, s)) else
                  do { let s = zero_page (phys_to_virt s phys) s;
                       s \<leftarrow> vmm_map_page_in pml4_phys vaddr phys (VMM_FLAG_USER OR VMM_FLAG_WRITABLE) s;
                       Some (Inr s) } }) [0..<USER_STACK_PAGES] s;
           Some (case r of Inl res \<Rightarrow> res | Inr s \<Rightarrow> (0, s)) })"

text \<open>
  Boot-time construction; \<open>kernel_start\<close> and \<open>kernel_end\<close> are the addresses of the linker symbols.
  The framebuffer step of the C code only logs.
\<close>

definition vmm_init :: "BootInfo \<Rightarrow> u64 \<Rightarrow> u64 \<Rightarrow> vmm \<Rightarrow> vmm option" where
  "vmm_init info kernel_start kernel_end s =
     do { let s = s\<lparr>hhdm_offset := bi_hhdm_offset info\<rparr>;
          (pml4, s) \<leftarrow> alloc_table_page s;
          let s = s\<lparr>kernel_pml4_phys := pml4\<rparr>;
          let highest_phys = highest_top (memory_map info) 0;
          let highest_phys = (highest_phys + PAGE_MASK_2MB) AND NOT PAGE_MASK_2MB;
          s \<leftarrow> map_range_2mb (hhdm_offset s) 0 highest_phys (VMM_FLAG_WRITABLE OR VMM_FLAG_NOEXEC) s;
          let kernel_size = PAGE_ALIGN_UP (kernel_end - kernel_start);
          s \<leftarrow> for_each (\<lambda>k. vmm_map_page (kernel_start + of_nat k * PAGE_SIZE)
                                (kernel_phys_base info + of_nat k * PAGE_SIZE) VMM_FLAG_WRITABLE)
                 [0..<unat (kernel_size div PAGE_SIZE)] s;
          Some (s\<lparr>cr3 := kernel_pml4_phys s\<rparr>) }"

section \<open>Pages, entries and paths\<close>

text \<open>A page address that fits the address field of an entry.\<close>

definition page_addr :: "u64 \<Rightarrow> bool" where
  "page_addr t \<longleftrightarrow> unat t mod 4096 = 0 \<and> unat t < 2 ^ 52"

lemma aligned_upper: "unat (t :: u64) mod 4096 = 0 \<Longrightarrow> unat t + 4096 \<le> 2 ^ 64"
  using unat_lt_64 [of t] by (auto simp: mod_eq_0_iff_dvd elim!: dvdE)

lemma unat_entry:
  fixes t i :: u64
  assumes "unat t mod 4096 = 0" "i < 512"
  shows "unat (t + 8 * i) = unat t + 8 * unat i"
proof -
  have i: "unat i < 512" using assms(2) by (simp add: word_less_nat_alt)
  then have "unat (8 * i) = 8 * unat i" by (subst unat_mult_no_overflow) simp_all
  then show ?thesis using aligned_upper [OF assms(1)] i by (subst unat_plus_no_overflow) simp_all
qed

lemma entry_in_page:
  fixes t p i :: u64
  assumes t: "unat t mod 4096 = 0" and p: "unat p mod 4096 = 0" and i: "i < 512"
  shows "t + 8 * i - p < 4096 \<longleftrightarrow> t = p"
proof -
  have u: "unat (t + 8 * i) = unat t + 8 * unat i" by (rule unat_entry [OF t i])
  have i': "unat i < 512" using i by (simp add: word_less_nat_alt)
  obtain a b where ab: "unat t = 4096 * a" "unat p = 4096 * b" using t p by (auto elim!: dvdE simp: mod_eq_0_iff_dvd)
  consider "a = b" | "a < b" | "b < a" by linarith
  then show ?thesis
  proof cases
    case 1
    then have "t = p" using ab by (simp add: word_unat_eq_iff)
    then show ?thesis using i' by (simp add: word_less_nat_alt unat_mult_no_overflow)
  next
    case 2
    then have "4096 * a + 4096 \<le> 4096 * b" by simp
    then show ?thesis using ab i' u aligned_upper [OF p] 2
      by (auto simp: word_less_nat_alt unat_sub_if')
  next
    case 3
    then have "4096 * b + 4096 \<le> 4096 * a" by simp
    then show ?thesis using ab i' u 3 by (auto simp: word_less_nat_alt unat_sub_if')
  qed
qed

lemma entry_inj:
  fixes t u i j :: u64
  assumes "unat t mod 4096 = 0" "unat u mod 4096 = 0" "i < 512" "j < 512" "t + 8 * i = u + 8 * j"
  shows "t = u \<and> i = j"
proof -
  have "u = t"
    using entry_in_page [OF assms(2) assms(1) assms(4)] entry_in_page [OF assms(1) assms(1) assms(3)] assms(5)
    by simp
  moreover from this have "8 * unat i = 8 * unat j"
    using unat_entry [OF assms(1,3)] unat_entry [OF assms(2,4)] assms(5) by simp
  ultimately show ?thesis by (simp add: word_unat_eq_iff)
qed

lemma page_addr_bits: "page_addr t \<Longrightarrow> bit t j \<Longrightarrow> 12 \<le> j \<and> j < 52"
proof -
  assume a: "page_addr t" and b: "bit t j"
  have b': "bit (unat t) j" using b by (simp add: bit_unsigned_iff bit_imp_le_length)
  have "take_bit 12 (unat t) = 0" using a by (simp add: page_addr_def take_bit_eq_mod)
  then have "12 \<le> j" using b' by (metis bit_0_eq bit_take_bit_iff bot_apply bot_bool_def not_le)
  moreover have "take_bit 52 (unat t) = unat t" using a by (simp add: page_addr_def take_bit_nat_eq_self)
  then have "j < 52" using b' by (metis bit_take_bit_iff)
  ultimately show ?thesis by simp
qed

lemma pte_addr_mask: "PTE_ADDR_MASK = push_bit 12 (mask 40)"
  by (simp add: mask_eq_exp_minus_1)

lemma pte_addr_bit: "bit (pte_addr e) j \<longleftrightarrow> bit e j \<and> 12 \<le> j \<and> j < 52"
  unfolding pte_addr_def pte_addr_mask
  by (auto simp: bit_and_iff bit_push_bit_iff bit_mask_iff dest: bit_imp_le_length)

lemma pte_addr_or:
  "page_addr t \<Longrightarrow> (\<forall>j. bit f j \<longrightarrow> j < 12 \<or> 52 \<le> j) \<Longrightarrow> pte_addr (t OR f) = t"
  by (rule bit_word_eqI) (auto simp: pte_addr_bit bit_or_iff dest: page_addr_bits)

lemma page_addr_pte_addr: "page_addr (pte_addr e)"
proof -
  have b: "bit (unat (pte_addr e)) j \<Longrightarrow> 12 \<le> j \<and> j < 52" for j
    by (simp add: bit_unsigned_iff pte_addr_bit)
  have "take_bit 12 (unat (pte_addr e)) = 0"
    by (rule bit_eqI) (auto simp: bit_take_bit_iff dest!: b)
  moreover have "take_bit 52 (unat (pte_addr e)) = unat (pte_addr e)"
    by (rule bit_eqI) (auto simp: bit_take_bit_iff dest: b)
  then have "unat (pte_addr e) < 2 ^ 52" by (metis take_bit_nat_less_exp)
  ultimately show ?thesis by (simp add: page_addr_def take_bit_eq_mod)
qed

section \<open>The tree of tables\<close>

text \<open>
  \<open>walk m t p\<close> follows the indices \<open>p\<close> from table \<open>t\<close> through present entries that are not large
  pages.  \<open>lookup m t p\<close> is the MMU's walk: the first leaf entry on the path, with the indices that
  are left (none for a 4K page, one for 2 MB, two for 1 GB), or \<open>None\<close> when nothing is mapped.
\<close>

fun walk :: "(u64 \<Rightarrow> u64) \<Rightarrow> u64 \<Rightarrow> u64 list \<Rightarrow> u64 option" where
  "walk m t [] = Some t"
| "walk m t (i # p) =
     (let e = m (t + 8 * i) in if pte_present e \<and> \<not> pte_huge e then walk m (pte_addr e) p else None)"

fun lookup :: "(u64 \<Rightarrow> u64) \<Rightarrow> u64 \<Rightarrow> u64 list \<Rightarrow> (u64 \<times> u64 list) option" where
  "lookup m t [] = None"
| "lookup m t (i # p) =
     (let e = m (t + 8 * i) in
      if \<not> pte_present e then None
      else if p = [] \<or> pte_huge e then Some (e, p)
      else lookup m (pte_addr e) p)"

definition path :: "u64 \<Rightarrow> u64 list" where
  "path v = [PML4_INDEX v, PDPT_INDEX v, PD_INDEX v, PT_INDEX v]"

definition translate :: "vmm \<Rightarrow> u64 \<Rightarrow> u64 \<Rightarrow> (u64 \<times> u64 list) option" where
  "translate s r v = lookup (pmem s) r (path v)"

lemma walk_append:
  "walk m t (p @ q) = Option.bind (walk m t p) (\<lambda>u. walk m u q)"
  by (induction p arbitrary: t) (auto simp: Let_def)

lemma walk_append_Some: "walk m t p = Some u \<Longrightarrow> walk m t (p @ q) = walk m u q"
  by (simp add: walk_append)

lemma lookup_append:
  "walk m t p = Some u \<Longrightarrow> q \<noteq> [] \<Longrightarrow> lookup m t (p @ q) = lookup m u q"
  by (induction p arbitrary: t) (auto simp: Let_def split: if_splits)

text \<open>Two memories that agree on the entries read along a path give the same walk and lookup.\<close>

definition agree :: "(u64 \<Rightarrow> u64) \<Rightarrow> (u64 \<Rightarrow> u64) \<Rightarrow> u64 \<Rightarrow> u64 list \<Rightarrow> bool" where
  "agree m m' r p \<longleftrightarrow>
     (\<forall>q j t. prefix (q @ [j]) p \<and> walk m r q = Some t \<longrightarrow> m' (t + 8 * j) = m (t + 8 * j))"

lemma agree_Cons:
  assumes "agree m m' r (i # p)"
  shows "m' (r + 8 * i) = m (r + 8 * i)"
    and "pte_present (m (r + 8 * i)) \<Longrightarrow> \<not> pte_huge (m (r + 8 * i)) \<Longrightarrow> agree m m' (pte_addr (m (r + 8 * i))) p"
proof -
  show "m' (r + 8 * i) = m (r + 8 * i)"
    using assms [unfolded agree_def, rule_format, of "[]" i r] by simp
  assume e: "pte_present (m (r + 8 * i))" "\<not> pte_huge (m (r + 8 * i))"
  show "agree m m' (pte_addr (m (r + 8 * i))) p"
    unfolding agree_def
  proof (intro allI impI, elim conjE)
    fix q j t assume "prefix (q @ [j]) p" "walk m (pte_addr (m (r + 8 * i))) q = Some t"
    then show "m' (t + 8 * j) = m (t + 8 * j)"
      using assms [unfolded agree_def, rule_format, of "i # q" j t] e by simp
  qed
qed

lemma agree_walk: "agree m m' r p \<Longrightarrow> walk m' r p = walk m r p"
  by (induction p arbitrary: r) (auto simp: Let_def agree_Cons)

lemma agree_lookup: "agree m m' r p \<Longrightarrow> lookup m' r p = lookup m r p"
  by (induction p arbitrary: r) (auto simp: Let_def agree_Cons)

section \<open>The invariant\<close>

text \<open>
  \<open>R\<close> is the set of live top-level tables and \<open>k\<close> the kernel's.  A user address space owns the paths
  through its lower half; the upper half belongs to the kernel.  Every owned table is an allocated
  page, and no two owned paths lead to the same table.
\<close>

definition owned :: "u64 \<Rightarrow> u64 \<Rightarrow> u64 list \<Rightarrow> bool" where
  "owned k r p \<longleftrightarrow> (\<forall>i \<in> set p. i < 512) \<and> (p = [] \<or> r = k \<or> hd p < 256)"

definition tables :: "(u64 \<Rightarrow> u64) \<Rightarrow> u64 \<Rightarrow> u64 set \<Rightarrow> u64 set" where
  "tables m k R = {t. \<exists>r \<in> R. \<exists>p. owned k r p \<and> length p \<le> 3 \<and> walk m r p = Some t}"

definition tree :: "(u64 \<Rightarrow> u64) \<Rightarrow> u64 \<Rightarrow> u64 set \<Rightarrow> bool" where
  "tree m k R \<longleftrightarrow>
     (\<forall>r \<in> R. \<forall>r' \<in> R. \<forall>p q t. owned k r p \<and> length p \<le> 3 \<and> owned k r' q \<and> length q \<le> 3 \<and>
        walk m r p = Some t \<and> walk m r' q = Some t \<longrightarrow> r = r' \<and> p = q)"

definition in_use :: "pmm \<Rightarrow> u64 \<Rightarrow> bool" where
  "in_use pm t \<longleftrightarrow> page_addr t \<and> unat t div 4096 < unat (total_pages pm) \<and> unat t div 4096 \<notin> free_set pm"

definition vmm_ok :: "u64 set \<Rightarrow> vmm \<Rightarrow> bool" where
  "vmm_ok R s \<longleftrightarrow>
     pmm_inv (vmm_pmm s) \<and> unat (total_pages (vmm_pmm s)) \<le> 2 ^ 40 \<and>
     tree (pmem s) (kernel_pml4_phys s) R \<and>
     (\<forall>t \<in> tables (pmem s) (kernel_pml4_phys s) R. in_use (vmm_pmm s) t)"

lemma owned_prefix: "prefix p q \<Longrightarrow> owned k r q \<Longrightarrow> owned k r p"
  by (cases p; cases q) (auto simp: owned_def dest: set_mono_prefix)

lemma tablesI: "r \<in> R \<Longrightarrow> owned k r p \<Longrightarrow> length p \<le> 3 \<Longrightarrow> walk m r p = Some t \<Longrightarrow> t \<in> tables m k R"
  by (auto simp: tables_def)

lemma index_bounds [simp]:
  "PML4_INDEX v < 512" "PDPT_INDEX v < 512" "PD_INDEX v < 512" "PT_INDEX v < 512"
proof -
  have "x AND 0x1FF < (512 :: u64)" for x
  proof -
    have "x AND 0x1FF = take_bit 9 x" by (simp add: take_bit_eq_mask mask_eq_exp_minus_1)
    then show ?thesis by (simp add: take_bit_eq_mod word_less_nat_alt unat_mod)
  qed
  then show "PML4_INDEX v < 512" "PDPT_INDEX v < 512" "PD_INDEX v < 512" "PT_INDEX v < 512"
    by (simp_all add: PML4_INDEX_def PDPT_INDEX_def PD_INDEX_def PT_INDEX_def)
qed

lemma same_walks:
  assumes "\<And>r p. r \<in> R \<Longrightarrow> owned k r p \<Longrightarrow> length p \<le> 3 \<Longrightarrow> walk m' r p = walk m r p"
  shows "tables m' k R = tables m k R" "tree m' k R = tree m k R"
  by (simp_all add: tables_def tree_def assms cong: ball_cong bex_cong conj_cong)

text \<open>Changing one entry of an owned table is seen only on the paths through that entry.\<close>

lemma agree_write:
  assumes t: "tree m k R" and pg: "\<forall>t \<in> tables m k R. page_addr t"
    and r0: "r0 \<in> R" "owned k r0 p0" "length p0 \<le> 3" "walk m r0 p0 = Some t0" "i0 < 512"
    and r: "r \<in> R" "owned k r p" "length p \<le> 4" and off: "\<not> (r = r0 \<and> prefix (p0 @ [i0]) p)"
  shows "agree m (m(t0 + 8 * i0 := e)) r p"
  unfolding agree_def
proof (intro allI impI, elim conjE)
  fix q j u assume q: "prefix (q @ [j]) p" "walk m r q = Some u"
  have len: "length q \<le> 3" using prefix_length_le [OF q(1)] r(3) by simp
  have ow: "owned k r (q @ [j])" "owned k r q"
    using q(1) r(2) by (auto intro: owned_prefix dest: append_prefixD)
  have "\<not> u + 8 * j = t0 + 8 * i0"
  proof
    assume eq: "u + 8 * j = t0 + 8 * i0"
    have "u = t0 \<and> j = i0"
    proof (rule entry_inj [OF _ _ _ r0(5) eq])
      show "unat u mod 4096 = 0" using pg tablesI [OF r(1) ow(2) len q(2)] by (simp add: page_addr_def)
      show "unat t0 mod 4096 = 0" using pg tablesI [OF r0(1-4)] by (simp add: page_addr_def)
      show "j < 512" using ow(1) by (simp add: owned_def)
    qed
    then have "r = r0 \<and> q = p0 \<and> j = i0" using t ow(2) len q(2) r0 r(1) unfolding tree_def by blast
    then show False using off q(1) by simp
  qed
  then show "(m(t0 + 8 * i0 := e)) (u + 8 * j) = m (u + 8 * j)" by simp
qed

text \<open>Filling a page that is no table is not seen by any walk.\<close>

lemma agree_fill:
  assumes pg: "\<forall>t \<in> tables m k R. page_addr t" and n: "page_addr n" "n \<notin> tables m k R"
    and r: "r \<in> R" "owned k r p" "length p \<le> 4"
  shows "agree m (\<lambda>a. if a - n < PAGE_SIZE then f a else m a) r p"
  unfolding agree_def
proof (intro allI impI, elim conjE)
  fix q j u assume q: "prefix (q @ [j]) p" "walk m r q = Some u"
  have len: "length q \<le> 3" using prefix_length_le [OF q(1)] r(3) by simp
  have ow: "owned k r (q @ [j])" "owned k r q"
    using q(1) r(2) by (auto intro: owned_prefix dest: append_prefixD)
  have u: "u \<in> tables m k R" by (rule tablesI [OF r(1) ow(2) len q(2)])
  have "j < 512" using ow(1) by (simp add: owned_def)
  then have "\<not> u + 8 * j - n < PAGE_SIZE"
    using entry_in_page [of u n j] u n pg by (auto simp: page_addr_def)
  then show "(if u + 8 * j - n < PAGE_SIZE then f (u + 8 * j) else m (u + 8 * j)) = m (u + 8 * j)" by simp
qed

text \<open>Filling a fresh page: tables, tree and lookups of all spaces are as before.\<close>

lemma fill_tables:
  assumes "\<forall>t \<in> tables m k R. page_addr t" "page_addr n" "n \<notin> tables m k R"
  shows "tables (\<lambda>a. if a - n < PAGE_SIZE then f a else m a) k R = tables m k R"
    and "tree (\<lambda>a. if a - n < PAGE_SIZE then f a else m a) k R = tree m k R"
proof -
  have w: "walk (\<lambda>a. if a - n < PAGE_SIZE then f a else m a) r p = walk m r p"
    if "r \<in> R" "owned k r p" "length p \<le> 3" for r p
    using agree_walk [OF agree_fill [OF assms that(1,2)]] that(3) by simp
  show "tables (\<lambda>a. if a - n < PAGE_SIZE then f a else m a) k R = tables m k R"
    by (rule same_walks(1)) (use w in blast)
  show "tree (\<lambda>a. if a - n < PAGE_SIZE then f a else m a) k R = tree m k R"
    by (rule same_walks(2)) (use w in blast)
qed

text \<open>Linking an empty table \<open>n\<close> into a free entry: one more table, the same lookups.\<close>

lemma link_table:
  fixes m :: "u64 \<Rightarrow> u64" and e :: u64
  assumes t: "tree m k R" and pg: "\<forall>t \<in> tables m k R. page_addr t"
    and r0: "r0 \<in> R" "length p0 \<le> 2" "walk m r0 p0 = Some t0" "owned k r0 (p0 @ [i0])"
    and free: "\<not> pte_present (m (t0 + 8 * i0))"
    and n: "page_addr n" "n \<notin> tables m k R" "\<And>i. i < 512 \<Longrightarrow> m (n + 8 * i) = 0"
    and e: "pte_present e" "\<not> pte_huge e" "pte_addr e = n"
  defines "m' \<equiv> m(t0 + 8 * i0 := e)"
  shows "walk m' r0 (p0 @ [i0]) = Some n"
    and "tables m' k R \<subseteq> insert n (tables m k R)"
    and "tree m' k R"
    and "\<And>r p. r \<in> R \<Longrightarrow> owned k r p \<Longrightarrow> length p = 4 \<Longrightarrow> lookup m' r p = lookup m r p"
proof -
  have i0: "i0 < 512" "owned k r0 p0" using r0(4) by (auto intro: owned_prefix simp: owned_def)
  have ag: "agree m m' r p" if "r \<in> R" "owned k r p" "length p \<le> 4" "\<not> (r = r0 \<and> prefix (p0 @ [i0]) p)" for r p
    unfolding m'_def using r0 i0 by (intro agree_write [OF t pg, of r0 p0]) (use that in auto)
  have t0': "walk m' r0 p0 = Some t0"
    using ag [OF r0(1) i0(2)] r0(2,3) agree_walk [of m m' r0 p0] by (auto dest: prefix_length_le)
  show wn: "walk m' r0 (p0 @ [i0]) = Some n"
    using e walk_append_Some [OF t0', of "[i0]"] by (simp add: m'_def Let_def)
  have t0_pg: "unat t0 mod 4096 = 0"
    using pg tablesI [OF r0(1) i0(2) _ r0(3)] r0(2) by (auto simp: page_addr_def)
  have n_ne: "n \<noteq> t0" using n(2) tablesI [OF r0(1) i0(2) _ r0(3)] r0(2) by auto
  have zero: "m' (n + 8 * i) = 0" if "i < 512" for i
    using n(3) [OF that] entry_inj [OF _ t0_pg that i0(1)] n(1) n_ne by (auto simp: m'_def page_addr_def)
  have below: "walk m' r0 (p0 @ [i0] @ q) = (if q = [] then Some n else None)"
    if "\<forall>i \<in> set q. i < 512" for q
    using that zero walk_append_Some [OF wn, of q] by (cases q) (auto simp: Let_def pte_present_def)
  have cases_walk: "walk m r p = Some u \<and> \<not> (r = r0 \<and> prefix (p0 @ [i0]) p) \<or> (r = r0 \<and> p = p0 @ [i0] \<and> u = n)"
    if "r \<in> R" "owned k r p" "length p \<le> 3" "walk m' r p = Some u" for r p u
  proof (cases "r = r0 \<and> prefix (p0 @ [i0]) p")
    case True
    then obtain q where "p = p0 @ [i0] @ q" by (auto elim!: prefixE)
    then show ?thesis using that True below [of q] by (auto simp: owned_def split: if_splits)
  next
    case False
    then have "agree m m' r p" using ag [OF that(1,2)] that(3) by simp
    then show ?thesis using that(4) False agree_walk [of m m' r p] by simp
  qed
  show "tables m' k R \<subseteq> insert n (tables m k R)"
    using cases_walk by (fastforce simp: tables_def)
  show "tree m' k R"
    unfolding tree_def
  proof (intro ballI allI impI, elim conjE)
    fix r r' p q u assume a: "r \<in> R" "r' \<in> R" "owned k r p" "length p \<le> 3" "owned k r' q" "length q \<le> 3"
      "walk m' r p = Some u" "walk m' r' q = Some u"
    have "u \<in> tables m k R" if "walk m r p = Some u \<or> walk m r' q = Some u"
      using a that by (auto intro: tablesI)
    then show "r = r' \<and> p = q"
      using cases_walk [OF a(1,3,4,7)] cases_walk [OF a(2,5,6,8)] n(2) t a unfolding tree_def by blast
  qed
  show "lookup m' r p = lookup m r p" if "r \<in> R" "owned k r p" "length p = 4" for r p
  proof (cases "r = r0 \<and> prefix (p0 @ [i0]) p")
    case True
    then obtain q where q: "p = (p0 @ [i0]) @ q" by (auto elim!: prefixE)
    then have q': "q \<noteq> []" using that r0(2) by auto
    then have "hd q < 512" using that q by (simp add: owned_def)
    note q' = q' this
    then have "lookup m' r p = None"
      using True q lookup_append [OF wn q'(1)] zero by (cases q) (auto simp: Let_def pte_present_def)
    moreover have "lookup m r p = None"
      using True q free lookup_append [OF r0(3), of "[i0] @ q"] by (simp add: Let_def)
    ultimately show ?thesis by simp
  next
    case False
    then have "agree m m' r p" using ag [OF that(1,2)] that(3) by simp
    then show ?thesis by (rule agree_lookup)
  qed
qed

section \<open>Adding tables\<close>

text \<open>What stays the same around every operation on page tables.\<close>

definition same_env :: "vmm \<Rightarrow> vmm \<Rightarrow> bool" where
  "same_env s s' \<longleftrightarrow>
     kernel_pml4_phys s' = kernel_pml4_phys s \<and> hhdm_offset s' = hhdm_offset s \<and>
     vmm_lock s' = vmm_lock s \<and> cr3 s' = cr3 s \<and> same_layout (vmm_pmm s) (vmm_pmm s')"

lemma same_env_refl [simp]: "same_env s s"
  by (simp add: same_env_def)

lemma same_env_trans: "same_env s t \<Longrightarrow> same_env t u \<Longrightarrow> same_env s u"
  by (auto simp: same_env_def intro: same_layout_trans)

abbreviation frees :: "vmm \<Rightarrow> nat set" where
  "frees s \<equiv> free_set (vmm_pmm s)"

text \<open>Building tables takes at most \<open>c\<close> pages and changes no translation.\<close>

definition grows :: "u64 set \<Rightarrow> nat \<Rightarrow> vmm \<Rightarrow> vmm \<Rightarrow> bool" where
  "grows R c s s' \<longleftrightarrow>
     vmm_ok R s' \<and> same_env s s' \<and> frees s' \<subseteq> frees s \<and> card (frees s) \<le> card (frees s') + c \<and>
     (\<forall>r \<in> R. \<forall>p. owned (kernel_pml4_phys s) r p \<and> length p = 4 \<longrightarrow> lookup (pmem s') r p = lookup (pmem s) r p)"

lemma grows_trans: "grows R c s t \<Longrightarrow> grows R d t u \<Longrightarrow> grows R (c + d) s u"
  by (auto simp: grows_def same_env_def intro: same_layout_trans)

text \<open>Allocated pages that are no tables hold data; table operations leave their contents alone.\<close>

definition data_page :: "u64 set \<Rightarrow> vmm \<Rightarrow> u64 \<Rightarrow> bool" where
  "data_page R s t \<longleftrightarrow> in_use (vmm_pmm s) t \<and> t \<notin> tables (pmem s) (kernel_pml4_phys s) R"

definition keeps_data :: "u64 set \<Rightarrow> vmm \<Rightarrow> vmm \<Rightarrow> bool" where
  "keeps_data R s s' \<longleftrightarrow>
     (\<forall>t. data_page R s t \<longrightarrow> data_page R s' t \<and> (\<forall>a. a - t < PAGE_SIZE \<longrightarrow> pmem s' a = pmem s a))"

lemma keeps_data_refl [simp]: "keeps_data R s s"
  by (simp add: keeps_data_def)

lemma keeps_data_trans: "keeps_data R s t \<Longrightarrow> keeps_data R t u \<Longrightarrow> keeps_data R s u"
  unfolding keeps_data_def by metis

lemma page_unique:
  fixes t n a :: u64
  assumes "unat t mod 4096 = 0" "unat n mod 4096 = 0" "a - t < PAGE_SIZE" "a - n < PAGE_SIZE"
  shows "t = n"
proof -
  have "unat t \<le> unat a \<and> unat a < unat t + 4096" "unat n \<le> unat a \<and> unat a < unat n + 4096"
    using word_range_iff [of t PAGE_SIZE a] word_range_iff [of n PAGE_SIZE a] aligned_upper [OF assms(1)] aligned_upper [OF assms(2)] assms(3,4)
    by simp_all
  moreover have "unat x = 4096 * (unat a div 4096)" if x: "unat x mod 4096 = 0" "unat x \<le> unat a" "unat a < unat x + 4096" for x :: u64
  proof -
    obtain k where "unat x = 4096 * k" using x(1) by (auto elim!: dvdE simp: mod_eq_0_iff_dvd)
    moreover from this have "unat a div 4096 = k" using x(2,3) by (intro div_nat_eqI) simp_all
    ultimately show ?thesis by simp
  qed
  ultimately show ?thesis using assms(1,2) by (metis word_unat_eq_iff)
qed

lemma in_use_mono:
  "in_use pm t \<Longrightarrow> total_pages pm' = total_pages pm \<Longrightarrow> free_set pm' \<subseteq> free_set pm \<Longrightarrow> in_use pm' t"
  by (auto simp: in_use_def)

lemma vmm_alloc_page_spec:
  assumes ok: "vmm_ok R s" and ne: "frees s \<noteq> {}"
  shows "\<exists>n pm. vmm_alloc_page s = Some (n, s\<lparr>vmm_pmm := pm\<rparr>) \<and> n \<noteq> 0 \<and> page_addr n \<and>
     unat n div 4096 \<in> frees s \<and> n \<notin> tables (pmem s) (kernel_pml4_phys s) R \<and>
     pmm_inv pm \<and> same_layout (vmm_pmm s) pm \<and> free_set pm = frees s - {unat n div 4096} \<and>
     in_use pm n \<and> grows R 1 s (s\<lparr>vmm_pmm := pm\<rparr>)"
proof -
  have inv: "pmm_inv (vmm_pmm s)" and lim: "unat (total_pages (vmm_pmm s)) \<le> 2 ^ 40"
    and use: "\<forall>t \<in> tables (pmem s) (kernel_pml4_phys s) R. in_use (vmm_pmm s) t"
    using ok by (simp_all add: vmm_ok_def)
  obtain n pm where n: "pmm_alloc_page (vmm_pmm s) = Some (n, pm)" "pmm_inv pm" "n \<noteq> 0"
      "4096 dvd unat n" "unat n div 4096 \<in> frees s" "free_set pm = frees s - {unat n div 4096}"
    using pages.alloc_some [OF inv ne] by auto
  have lay: "same_layout (vmm_pmm s) pm" using pmm_alloc_page_spec [OF inv] n(1) by auto
  then have tot: "total_pages pm = total_pages (vmm_pmm s)" by (simp add: same_layout_def)
  have page: "unat n div 4096 < unat (total_pages (vmm_pmm s))"
    using n(5) by (simp add: free_set_def free_in_def)
  have pn: "page_addr n"
    using n(4) page lim by (auto simp: page_addr_def elim!: dvdE)
  have nt: "n \<notin> tables (pmem s) (kernel_pml4_phys s) R" using use n(5) by (auto simp: in_use_def)
  have "card (frees s) \<le> card (free_set pm) + 1" using n(5,6) by (simp add: card_Diff_singleton)
  then have "grows R 1 s (s\<lparr>vmm_pmm := pm\<rparr>)"
    using ok lay n(2,6) tot by (auto simp: grows_def vmm_ok_def same_env_def intro: in_use_mono)
  then show ?thesis
    using n lay pn nt page tot by (auto simp: vmm_alloc_page_def in_use_def)
qed

text \<open>Overwriting a page that is no table.\<close>

lemma fill_page_grows:
  assumes ok: "vmm_ok R s" and n: "page_addr n" "n \<notin> tables (pmem s) (kernel_pml4_phys s) R"
  shows "grows R 0 s (s\<lparr>pmem := \<lambda>a. if a - n < PAGE_SIZE then f a else pmem s a\<rparr>)"
    and "tables (\<lambda>a. if a - n < PAGE_SIZE then f a else pmem s a) (kernel_pml4_phys s) R =
         tables (pmem s) (kernel_pml4_phys s) R"
proof -
  have pg: "\<forall>t \<in> tables (pmem s) (kernel_pml4_phys s) R. page_addr t"
    using ok by (auto simp: vmm_ok_def in_use_def)
  show eq: "tables (\<lambda>a. if a - n < PAGE_SIZE then f a else pmem s a) (kernel_pml4_phys s) R =
         tables (pmem s) (kernel_pml4_phys s) R"
    by (rule fill_tables(1) [OF pg n])
  have "lookup (\<lambda>a. if a - n < PAGE_SIZE then f a else pmem s a) r p = lookup (pmem s) r p"
    if "r \<in> R" "owned (kernel_pml4_phys s) r p" "length p = 4" for r p
    by (rule agree_lookup [OF agree_fill [OF pg n that(1,2)]]) (simp add: that(3))
  then show "grows R 0 s (s\<lparr>pmem := \<lambda>a. if a - n < PAGE_SIZE then f a else pmem s a\<rparr>)"
    using ok eq fill_tables(2) [OF pg n] by (auto simp: grows_def vmm_ok_def same_env_def)
qed

lemma alloc_table_page_spec:
  assumes ok: "vmm_ok R s" and ne: "frees s \<noteq> {}"
  shows "\<exists>n s'. alloc_table_page s = Some (n, s') \<and> n \<noteq> 0 \<and> page_addr n \<and>
     unat n div 4096 \<in> frees s \<and> frees s' = frees s - {unat n div 4096} \<and>
     n \<notin> tables (pmem s') (kernel_pml4_phys s) R \<and> in_use (vmm_pmm s') n \<and> grows R 1 s s' \<and>
     pmem s' = (\<lambda>a. if a - n < PAGE_SIZE then 0 else pmem s a)"
proof -
  obtain n pm where n: "vmm_alloc_page s = Some (n, s\<lparr>vmm_pmm := pm\<rparr>)" "n \<noteq> 0" "page_addr n"
    "unat n div 4096 \<in> frees s" "n \<notin> tables (pmem s) (kernel_pml4_phys s) R"
    "free_set pm = frees s - {unat n div 4096}" "in_use pm n" and g: "grows R 1 s (s\<lparr>vmm_pmm := pm\<rparr>)"
    using vmm_alloc_page_spec [OF assms] by blast
  let ?s1 = "s\<lparr>vmm_pmm := pm\<rparr>"
  let ?s' = "?s1\<lparr>pmem := \<lambda>a. if a - n < PAGE_SIZE then 0 else pmem ?s1 a\<rparr>"
  have ok1: "vmm_ok R ?s1" using g by (simp add: grows_def)
  have fill: "grows R 0 ?s1 ?s'" "tables (pmem ?s') (kernel_pml4_phys s) R = tables (pmem s) (kernel_pml4_phys s) R"
    using fill_page_grows [OF ok1 n(3), of "\<lambda>_. 0"] n(5) by simp_all
  have "alloc_table_page s = Some (n, ?s')"
    using n(1,2) by (simp add: alloc_table_page_def zero_page_def phys_to_virt_def)
  moreover have "grows R 1 s ?s'" using grows_trans [OF g fill(1)] by simp
  ultimately show ?thesis using n fill(2) by (intro exI [of _ n] exI [of _ ?s']) (simp cong: if_cong)
qed

lemma pte_flag_bits: "pte_present e \<longleftrightarrow> bit e 0" "pte_huge e \<longleftrightarrow> bit e 7"
  using and_shift_eq_0_iff [of 0 e] and_shift_eq_0_iff [of 7 e]
  by (simp_all add: pte_present_def pte_huge_def)

lemma link_entry:
  assumes "page_addr n"
  defines "e \<equiv> n OR PTE_PRESENT OR PTE_WRITABLE OR PTE_USER"
  shows "pte_present e" "\<not> pte_huge e" "pte_addr e = n"
proof -
  have e: "e = n OR mask 3" unfolding e_def by (simp add: or.assoc mask_eq_exp_minus_1)
  have low: "bit n j \<Longrightarrow> 12 \<le> j" for j using page_addr_bits [OF assms(1)] by blast
  show "pte_present e" "\<not> pte_huge e"
    using low [of 7] by (auto simp: e pte_flag_bits bit_or_iff bit_mask_iff)
  show "pte_addr e = n" unfolding e by (rule pte_addr_or [OF assms(1)]) (auto simp: bit_mask_iff)
qed

lemma ensure_table_spec:
  assumes ok: "vmm_ok R s" and r: "r \<in> R" "length p \<le> 2" "walk (pmem s) r p = Some t"
      "owned (kernel_pml4_phys s) r (p @ [i])"
    and small: "pte_present (pmem s (t + 8 * i)) \<Longrightarrow> \<not> pte_huge (pmem s (t + 8 * i))"
    and ne: "frees s \<noteq> {}"
  shows "\<exists>u s'. ensure_table (t + hhdm_offset s) i s = Some (u + hhdm_offset s', s') \<and>
           walk (pmem s') r (p @ [i]) = Some u \<and> grows R 1 s s' \<and> keeps_data R s s'"
proof (cases "pte_present (pmem s (t + 8 * i))")
  case True
  then have "walk (pmem s) r (p @ [i]) = Some (pte_addr (pmem s (t + 8 * i)))"
    using small walk_append_Some [OF r(3), of "[i]"] by (simp add: Let_def)
  moreover have "grows R 1 s s" using ok by (simp add: grows_def)
  ultimately show ?thesis
    using True by (simp add: ensure_table_def tbl_get_def phys_to_virt_def algebra_simps)
next
  case False
  let ?k = "kernel_pml4_phys s"
  have i: "i < 512" "owned ?k r p" using r(4) by (auto intro: owned_prefix simp: owned_def)
  obtain n s1 where n: "alloc_table_page s = Some (n, s1)" "page_addr n"
    "n \<notin> tables (pmem s1) ?k R" "in_use (vmm_pmm s1) n" and g: "grows R 1 s s1"
    and m1: "pmem s1 = (\<lambda>a. if a - n < PAGE_SIZE then 0 else pmem s a)"
    using alloc_table_page_spec [OF ok ne] by blast
  have ok1: "vmm_ok R s1" and env: "same_env s s1" using g by (simp_all add: grows_def)
  have k1: "kernel_pml4_phys s1 = ?k" and h1: "hhdm_offset s1 = hhdm_offset s"
    using env by (simp_all add: same_env_def)
  have pg: "\<forall>t \<in> tables (pmem s) ?k R. page_addr t" "\<forall>t \<in> tables (pmem s1) ?k R. page_addr t"
    using ok ok1 k1 by (auto simp: vmm_ok_def in_use_def)
  have tb: "t \<in> tables (pmem s) ?k R" using tablesI [OF r(1) i(2) _ r(3)] r(2) by simp
  have t_use: "in_use (vmm_pmm s) t" using ok tb by (simp add: vmm_ok_def)
  have n_out: "n \<notin> tables (pmem s) ?k R"
    using alloc_table_page_spec [OF ok ne] n(1) ok by (fastforce simp: vmm_ok_def in_use_def)
  have w1: "walk (pmem s1) r p = Some t"
    using agree_walk [OF agree_fill [OF pg(1) n(2) n_out r(1) i(2)]] r(2,3) by (simp add: m1)
  have same: "pmem s1 (t + 8 * i) = pmem s (t + 8 * i)"
    using entry_in_page [of t n i] pg(1) tb n(2) n_out i(1) by (auto simp: m1 page_addr_def)
  have zero: "pmem s1 (n + 8 * j) = 0" if "j < 512" for j
    using entry_in_page [of n n j] n(2) that by (simp add: m1 page_addr_def)
  define e where "e = n OR PTE_PRESENT OR PTE_WRITABLE OR PTE_USER"
  let ?s' = "s1\<lparr>pmem := (pmem s1)(t + 8 * i := e)\<rparr>"
  have tr: "tree (pmem s1) ?k R" using ok1 k1 by (simp add: vmm_ok_def)
  note link = link_table [OF tr pg(2) r(1,2) w1 r(4) _ n(2,3) zero link_entry [OF n(2), folded e_def],
      unfolded same, OF False]
  have "vmm_ok R ?s'"
    using ok1 link(2,3) n(4) k1 by (auto simp: vmm_ok_def)
  then have "grows R 0 s1 ?s'" using link(4) k1 by (simp add: grows_def same_env_def)
  then have "grows R 1 s ?s'" using grows_trans [OF g] by fastforce
  moreover have "ensure_table (t + hhdm_offset s) i s = Some (n + hhdm_offset ?s', ?s')"
    using False n(1) h1 link_entry(3) [OF n(2)]
    by (simp add: ensure_table_def tbl_get_def tbl_set_def phys_to_virt_def algebra_simps e_def)
  moreover have "keeps_data R s ?s'"
    unfolding keeps_data_def
  proof (intro allI impI)
    fix d assume d: "data_page R s d"
    have dn: "d \<noteq> n" "page_addr d" using d alloc_table_page_spec [OF ok ne] n(1) by (auto simp: data_page_def in_use_def)
    have "tables (pmem ?s') ?k R \<subseteq> insert n (tables (pmem s) ?k R)"
      using link(2) fill_tables(1) [OF pg(1) n(2) n_out, of "\<lambda>_. 0"] by (simp add: m1)
    then have "data_page R ?s' d"
      using d dn(1) g k1 by (auto simp: data_page_def grows_def same_env_def same_layout_def intro: in_use_mono)
    moreover have "pmem ?s' a = pmem s a" if a: "a - d < PAGE_SIZE" for a
    proof -
      have "a \<noteq> t + 8 * i" using a entry_in_page [of t d i] d tb t_use dn(2) i(1) by (auto simp: data_page_def in_use_def page_addr_def)
      moreover have "\<not> a - n < PAGE_SIZE" using page_unique [of d n a] a dn n(2) by (auto simp: page_addr_def)
      ultimately show ?thesis by (simp add: m1)
    qed
    ultimately show "data_page R ?s' d \<and> (\<forall>a. a - d < PAGE_SIZE \<longrightarrow> pmem ?s' a = pmem s a)" by blast
  qed
  ultimately show ?thesis using link(1) by (intro exI [of _ n] exI [of _ ?s']) simp
qed

section \<open>Mapping and unmapping\<close>

definition visible :: "u64 \<Rightarrow> u64 \<Rightarrow> u64 \<Rightarrow> bool" where
  "visible k r v \<longleftrightarrow> r = k \<or> PML4_INDEX v < 256"

definition small_page :: "vmm \<Rightarrow> u64 \<Rightarrow> u64 \<Rightarrow> bool" where
  "small_page s r v \<longleftrightarrow> (case translate s r v of None \<Rightarrow> True | Some (_, rest) \<Rightarrow> rest = [])"

lemma owned_path: "visible k r v \<Longrightarrow> owned k r (path v)"
  by (simp add: owned_def path_def visible_def)

lemma length_path [simp]: "length (path v) = 4"
  by (simp add: path_def)

lemma leaf_write:
  fixes e :: u64
  assumes ok: "vmm_ok R s" and r: "r \<in> R" "length p = 3" "walk (pmem s) r p = Some t"
      "owned (kernel_pml4_phys s) r (p @ [i])"
  defines "s' \<equiv> s\<lparr>pmem := (pmem s)(t + 8 * i := e)\<rparr>"
  shows "vmm_ok R s'"
    and "\<And>r' q. r' \<in> R \<Longrightarrow> owned (kernel_pml4_phys s) r' q \<Longrightarrow> length q = 4 \<Longrightarrow>
       lookup (pmem s') r' q =
         (if r' = r \<and> q = p @ [i] then if pte_present e then Some (e, []) else None
          else lookup (pmem s) r' q)"
    and "keeps_data R s s'"
proof -
  let ?k = "kernel_pml4_phys s"
  have i: "i < 512" "owned ?k r p" using r(4) by (auto intro: owned_prefix simp: owned_def)
  have pg: "\<forall>t \<in> tables (pmem s) ?k R. page_addr t" and tr: "tree (pmem s) ?k R"
    using ok by (auto simp: vmm_ok_def in_use_def)
  have ag: "agree (pmem s) (pmem s') r' q"
    if "r' \<in> R" "owned ?k r' q" "length q \<le> 4" "\<not> (r' = r \<and> prefix (p @ [i]) q)" for r' q
    using agree_write [OF tr pg r(1) i(2) _ r(3) i(1) that] r(2) by (simp add: s'_def)
  have short: "\<not> prefix (p @ [i]) q" if "length q \<le> 3" for q
    using prefix_length_le [of "p @ [i]" q] that r(2) by auto
  have w: "walk (pmem s') r' q = walk (pmem s) r' q" if "r' \<in> R" "owned ?k r' q" "length q \<le> 3" for r' q
    using agree_walk [OF ag [OF that(1,2)]] that(3) short by simp
  show "vmm_ok R s'"
    using ok same_walks [of R ?k "pmem s'" "pmem s"] w by (simp add: vmm_ok_def s'_def)
  have tb: "t \<in> tables (pmem s) ?k R" using tablesI [OF r(1) i(2) _ r(3)] r(2) by simp
  have same: "tables (pmem s') ?k R = tables (pmem s) ?k R" using same_walks(1) [of R ?k "pmem s'" "pmem s"] w by simp
  show "keeps_data R s s'"
    unfolding keeps_data_def
  proof (intro allI impI)
    fix d assume d: "data_page R s d"
    then have "unat d mod 4096 = 0" "d \<noteq> t" using tb by (auto simp: data_page_def in_use_def page_addr_def)
    then have "a \<noteq> t + 8 * i" if "a - d < PAGE_SIZE" for a
      using that entry_in_page [of t d i] tb pg i(1) by (auto simp: page_addr_def)
    then show "data_page R s' d \<and> (\<forall>a. a - d < PAGE_SIZE \<longrightarrow> pmem s' a = pmem s a)"
      using d same by (simp add: data_page_def s'_def)
  qed
  fix r' q assume q: "r' \<in> R" "owned ?k r' q" "length q = 4"
  have pre: "prefix (p @ [i]) q \<longleftrightarrow> q = p @ [i]"
    using q(3) r(2) by (auto elim!: prefixE)
  have wr: "walk (pmem s') r p = Some t" using w [OF r(1) i(2)] r(2,3) by simp
  have "lookup (pmem s') r (p @ [i]) = (if pte_present e then Some (e, []) else None)"
    using lookup_append [OF wr, of "[i]"] by (simp add: s'_def Let_def)
  then show "lookup (pmem s') r' q =
         (if r' = r \<and> q = p @ [i] then if pte_present e then Some (e, []) else None
          else lookup (pmem s) r' q)"
    using ag [OF q(1,2)] q(3) pre agree_lookup by auto
qed

lemma small_entry:
  assumes "lookup m r (p @ i # j # q) = lookup m' r (p @ i # j # q)"
    and "case lookup m' r (p @ i # j # q) of None \<Rightarrow> True | Some (_, rest) \<Rightarrow> rest = []"
    and "walk m r p = Some t" "pte_present (m (t + 8 * i))"
  shows "\<not> pte_huge (m (t + 8 * i))"
  using assms(2) [folded assms(1)] assms(4) lookup_append [OF assms(3), of "i # j # q"]
  by (auto simp: Let_def)

lemma vmm_flags_to_pte_bits:
  "bit (vmm_flags_to_pte f) j \<longleftrightarrow>
     j = 0 \<or> j = 1 \<and> bit f 0 \<or> j = 2 \<and> bit f 1 \<or> j = 63 \<and> bit f 2"
proof -
  have b: "bit PTE_PRESENT j \<longleftrightarrow> j = 0" "bit PTE_WRITABLE j \<longleftrightarrow> j = 1" "bit PTE_USER j \<longleftrightarrow> j = 2"
    "bit PTE_NX j \<longleftrightarrow> j = 63"
    using bit_two_power [of 0 j, where 'a = 64] bit_two_power [of 1 j, where 'a = 64]
      bit_two_power [of 2 j, where 'a = 64] bit_two_power [of 63 j, where 'a = 64]
    by simp_all
  have f: "f AND VMM_FLAG_WRITABLE = 0 \<longleftrightarrow> \<not> bit f 0" "f AND VMM_FLAG_USER = 0 \<longleftrightarrow> \<not> bit f 1"
    "f AND VMM_FLAG_NOEXEC = 0 \<longleftrightarrow> \<not> bit f 2"
    using and_shift_eq_0_iff [of 0 f] and_shift_eq_0_iff [of 1 f] and_shift_eq_0_iff [of 2 f] by simp_all
  show ?thesis
    unfolding vmm_flags_to_pte_def Let_def f not_not
    by (cases "bit f 0"; cases "bit f 1"; cases "bit f 2") (simp_all only: if_True if_False bit_or_iff b, blast+)
qed

text \<open>
  Mapping one page: it becomes the leaf of \<open>v\<close>, every other translation of every address space stays,
  and at most three pages are taken for tables.
\<close>

lemma vmm_map_page_in_data:
  assumes ok: "vmm_ok R s" and r: "r \<in> R" and vis: "visible (kernel_pml4_phys s) r v"
    and small: "small_page s r v" and mem: "3 \<le> card (frees s)"
  shows "\<exists>s'. vmm_map_page_in r v phys flags s = Some s' \<and> vmm_ok R s' \<and> same_env s s' \<and>
     frees s' \<subseteq> frees s \<and> card (frees s) \<le> card (frees s') + 3 \<and>
     (\<forall>r' \<in> R. \<forall>v'. visible (kernel_pml4_phys s) r' v' \<longrightarrow>
        translate s' r' v' = (if r' = r \<and> path v' = path v then Some (phys OR vmm_flags_to_pte flags, [])
                              else translate s r' v')) \<and>
     keeps_data R s s'"
proof -
  note [simp del] = lookup.simps(2) walk.simps(2)
  let ?k = "kernel_pml4_phys s" and ?e = "phys OR vmm_flags_to_pte flags"
  obtain a b c d where pv: "PML4_INDEX v = a" "PDPT_INDEX v = b" "PD_INDEX v = c" "PT_INDEX v = d" by blast
  then have path: "path v = [a, b, c, d]" by (simp add: path_def)
  have ow: "owned ?k r [a, b, c, d]" using owned_path [OF vis] path by simp
  then have ows: "owned ?k r [a]" "owned ?k r [a, b]" "owned ?k r [a, b, c]"
    by (simp_all add: owned_def)
  have sm: "case lookup (pmem s) r [a, b, c, d] of None \<Rightarrow> True | Some (_, rest) \<Rightarrow> rest = []"
    using small by (simp add: small_page_def translate_def path)
  have keep: "lookup (pmem s') r [a, b, c, d] = lookup (pmem s) r [a, b, c, d]" if "grows R n s s'" for s' n
    using that r ow by (simp add: grows_def)
  have envk: "kernel_pml4_phys s' = ?k" "vmm_ok R s'" "hhdm_offset s' = hhdm_offset s"
    if "grows R n s s'" for s' n
    using that by (simp_all add: grows_def same_env_def)
  have left: "frees s' \<noteq> {}" if "grows R n s s'" "n \<le> 2" for s' n
    using that mem by (auto simp: grows_def)
  have g0: "grows R 0 s s" using ok by (simp add: grows_def)
  obtain t3 s1 where s1: "ensure_table (r + hhdm_offset s) a s = Some (t3 + hhdm_offset s1, s1)"
    "walk (pmem s1) r [a] = Some t3" and g1: "grows R 1 s s1" and d1: "keeps_data R s s1"
    using ensure_table_spec [OF ok r, of "[]" r a] ows(1) left [OF g0]
      small_entry [of "pmem s" r "[]" a b "[c, d]" "pmem s" r] sm by auto
  obtain t2 s2 where s2: "ensure_table (t3 + hhdm_offset s1) b s1 = Some (t2 + hhdm_offset s2, s2)"
    "walk (pmem s2) r [a, b] = Some t2" and "grows R 1 s1 s2" and d2: "keeps_data R s1 s2"
    using ensure_table_spec [OF envk(2) [OF g1] r, of "[a]" t3 b] ows(2) left [OF g1] s1(2) envk(1) [OF g1]
      small_entry [of "pmem s1" r "[a]" b c "[d]" "pmem s" t3] sm keep [OF g1] by auto
  then have g2: "grows R 2 s s2" using grows_trans [OF g1, of 1 s2] by (simp add: numeral_2_eq_2)
  obtain t1 s3 where s3: "ensure_table (t2 + hhdm_offset s2) c s2 = Some (t1 + hhdm_offset s3, s3)"
    "walk (pmem s3) r [a, b, c] = Some t1" and "grows R 1 s2 s3" and d3: "keeps_data R s2 s3"
    using ensure_table_spec [OF envk(2) [OF g2] r, of "[a, b]" t2 c] ows(3) left [OF g2] s2(2) envk(1) [OF g2]
      small_entry [of "pmem s2" r "[a, b]" c d "[]" "pmem s" t2] sm keep [OF g2] by auto
  then have g3: "grows R 3 s s3" using grows_trans [OF g2, of 1 s3] by (simp add: numeral_3_eq_3)
  let ?s' = "s3\<lparr>pmem := (pmem s3)(t1 + 8 * d := ?e)\<rparr>"
  note lw = leaf_write [where e = ?e and i = d, OF envk(2) [OF g3] r _ s3(2), unfolded envk(1) [OF g3], simplified, OF ow]
  have "vmm_map_page_in r v phys flags s = Some ?s'"
    using s1(1) s2(1) s3(1) by (simp add: vmm_map_page_in_def phys_to_virt_def pv tbl_set_def algebra_simps)
  moreover have "same_env s ?s'" "frees ?s' \<subseteq> frees s" "card (frees s) \<le> card (frees ?s') + 3"
    using g3 by (simp_all add: grows_def same_env_def)
  moreover have "pte_present ?e" by (simp add: pte_flag_bits bit_or_iff vmm_flags_to_pte_bits)
  then have "\<forall>r' \<in> R. \<forall>v'. visible ?k r' v' \<longrightarrow>
        translate ?s' r' v' = (if r' = r \<and> path v' = path v then Some (?e, []) else translate s r' v')"
    using lw(2) g3 path by (auto simp: translate_def owned_path grows_def)
  moreover have "keeps_data R s ?s'"
    using keeps_data_trans [OF keeps_data_trans [OF keeps_data_trans [OF d1 d2] d3] lw(3)] .
  ultimately show ?thesis using lw(1) by blast
qed

lemma vmm_map_page_in_spec:
  assumes "vmm_ok R s" "r \<in> R" "visible (kernel_pml4_phys s) r v" "small_page s r v" "3 \<le> card (frees s)"
  shows "\<exists>s'. vmm_map_page_in r v phys flags s = Some s' \<and> vmm_ok R s' \<and> same_env s s' \<and>
     frees s' \<subseteq> frees s \<and> card (frees s) \<le> card (frees s') + 3 \<and>
     (\<forall>r' \<in> R. \<forall>v'. visible (kernel_pml4_phys s) r' v' \<longrightarrow>
        translate s' r' v' = (if r' = r \<and> path v' = path v then Some (phys OR vmm_flags_to_pte flags, [])
                              else translate s r' v'))"
  using vmm_map_page_in_data [OF assms, of phys flags] by blast

text \<open>The page-table entry that the code finds is the last table of the walk.\<close>

lemma walk_to_pt_entry_walk:
  assumes small: "small_page s r v"
  shows "walk_to_pt_entry s r v =
           map_option (\<lambda>t. (t + hhdm_offset s, PT_INDEX v)) (walk (pmem s) r [PML4_INDEX v, PDPT_INDEX v, PD_INDEX v])"
  using small
  by (auto simp: walk_to_pt_entry_def phys_to_virt_def tbl_get_def small_page_def translate_def path_def
      Let_def algebra_simps split: if_splits)

lemma translate_walk:
  assumes small: "small_page s r v"
  shows "translate s r v =
     (case walk (pmem s) r [PML4_INDEX v, PDPT_INDEX v, PD_INDEX v] of
        None \<Rightarrow> None
      | Some t \<Rightarrow> if pte_present (pmem s (t + 8 * PT_INDEX v)) then Some (pmem s (t + 8 * PT_INDEX v), []) else None)"
  using small by (auto simp: small_page_def translate_def path_def Let_def split: if_splits)

lemma vmm_get_phys_in_translate:
  assumes "small_page s r v"
  shows "vmm_get_phys_in s r v =
     (case translate s r v of None \<Rightarrow> 0 | Some (e, _) \<Rightarrow> pte_addr e + (v AND PAGE_OFFSET_MASK))"
  unfolding vmm_get_phys_in_def walk_to_pt_entry_walk [OF assms] translate_walk [OF assms]
  by (auto simp: tbl_get_def algebra_simps split: option.splits)

definition mmu_phys :: "u64 \<Rightarrow> (u64 \<times> u64 list) option \<Rightarrow> u64" where
  "mmu_phys v tr =
     (case tr of
        None \<Rightarrow> 0
      | Some (e, rest) \<Rightarrow>
          if length rest = 2 then pte_addr e + (v AND PAGE_MASK_1GB)
          else if length rest = 1 then (e AND PTE_ADDR_MASK_2MB) + (v AND PAGE_MASK_2MB)
          else pte_addr e + (v AND PAGE_OFFSET_MASK))"

lemma vmm_get_phys_translate:
  assumes "\<not> pte_huge (pmem s (kernel_pml4_phys s + 8 * PML4_INDEX v))"
  shows "vmm_get_phys s v = mmu_phys v (translate s (kernel_pml4_phys s) v)"
  using assms by (simp add: vmm_get_phys_def mmu_phys_def translate_def path_def Let_def
      phys_to_virt_def tbl_get_def algebra_simps)

lemma vmm_unmap_page_in_spec:
  assumes ok: "vmm_ok R s" and r: "r \<in> R" and vis: "visible (kernel_pml4_phys s) r v"
    and small: "small_page s r v"
  defines "s' \<equiv> vmm_unmap_page_in r v s"
  shows "vmm_ok R s'" "same_env s s'" "frees s' = frees s"
    and "\<forall>r' \<in> R. \<forall>v'. visible (kernel_pml4_phys s) r' v' \<longrightarrow>
           translate s' r' v' = (if r' = r \<and> path v' = path v then None else translate s r' v')"
    and "translate s r v \<noteq> None \<Longrightarrow> invlpg_log s' = invlpg_log s @ [v]"
proof -
  note [simp del] = walk.simps(2)
  let ?k = "kernel_pml4_phys s" and ?p = "[PML4_INDEX v, PDPT_INDEX v, PD_INDEX v]"
  have "vmm_ok R s' \<and> same_env s s' \<and> frees s' = frees s \<and>
    (\<forall>r' \<in> R. \<forall>v'. visible ?k r' v' \<longrightarrow>
       translate s' r' v' = (if r' = r \<and> path v' = path v then None else translate s r' v')) \<and>
    (translate s r v \<noteq> None \<longrightarrow> invlpg_log s' = invlpg_log s @ [v])"
  proof (cases "walk (pmem s) r ?p")
    case None
    then have "s' = s" "translate s r v = None"
      using walk_to_pt_entry_walk [OF small] translate_walk [OF small] by (simp_all add: s'_def vmm_unmap_page_in_def)
    then show ?thesis using ok by (simp add: translate_def)
  next
    case (Some t)
    have ow: "owned ?k r (?p @ [PT_INDEX v])" using owned_path [OF vis] by (simp add: path_def)
    note lw = leaf_write [where e = 0 and i = "PT_INDEX v", OF ok r _ Some ow, simplified]
    have s': "s' = (s\<lparr>pmem := (pmem s)(t + 8 * PT_INDEX v := 0)\<rparr>)\<lparr>invlpg_log := invlpg_log s @ [v]\<rparr>"
      using walk_to_pt_entry_walk [OF small] Some
      by (simp add: s'_def vmm_unmap_page_in_def tbl_set_def algebra_simps)
    have "vmm_ok R s'" using lw(1) by (simp add: s' vmm_ok_def)
    moreover have "\<forall>r' \<in> R. \<forall>v'. visible ?k r' v' \<longrightarrow>
       translate s' r' v' = (if r' = r \<and> path v' = path v then None else translate s r' v')"
      using lw(2) by (auto simp: s' translate_def owned_path path_def [of v] pte_present_def)
    ultimately show ?thesis by (simp add: s' same_env_def)
  qed
  then show "vmm_ok R s'" "same_env s s'" "frees s' = frees s"
    "\<forall>r' \<in> R. \<forall>v'. visible ?k r' v' \<longrightarrow>
       translate s' r' v' = (if r' = r \<and> path v' = path v then None else translate s r' v')"
    "translate s r v \<noteq> None \<Longrightarrow> invlpg_log s' = invlpg_log s @ [v]" by simp_all
qed

section \<open>Creating and freeing address spaces\<close>

lemma create_copy_loop:
  fixes s1 :: vmm
  assumes n: "page_addr n" and kn: "page_addr k" "k \<noteq> n"
    and zero: "\<And>i. i < 512 \<Longrightarrow> pmem s1 (n + 8 * i) = 0"
  shows "\<exists>m. for_each (\<lambda>i s. Some (tbl_set (n + hhdm_offset s1) (of_nat i)
                 (tbl_get s (k + hhdm_offset s1) (of_nat i)) s)) [256..<512] s1 = Some (s1\<lparr>pmem := m\<rparr>) \<and>
     (\<forall>a. \<not> a - n < PAGE_SIZE \<longrightarrow> m a = pmem s1 a) \<and>
     (\<forall>i < 512. m (n + 8 * i) = (if i < 256 then 0 else pmem s1 (k + 8 * i)))"
proof -
  let ?f = "\<lambda>i s. Some (tbl_set (n + hhdm_offset s1) (of_nat i) (tbl_get s (k + hhdm_offset s1) (of_nat i)) s)"
  let ?P = "\<lambda>j m. (\<forall>a. \<not> a - n < PAGE_SIZE \<longrightarrow> m a = pmem s1 a) \<and>
     (\<forall>i :: u64. i < 512 \<longrightarrow> m (n + 8 * i) = (if 256 \<le> i \<and> unat i < j then pmem s1 (k + 8 * i) else 0))"
  let ?I = "\<lambda>j s. \<exists>m. s = s1\<lparr>pmem := m\<rparr> \<and> ?P j m"
  have al: "unat n mod 4096 = 0" "unat k mod 4096 = 0" using n kn(1) by (simp_all add: page_addr_def)
  have "\<exists>s'. for_each ?f [256..<512] s1 = Some s' \<and> ?I 512 s'"
  proof (rule for_each_upt_rule)
    have "?P 256 (pmem s1)" using zero by (auto simp: word_le_nat_alt)
    then show "?I 256 s1" by (intro exI [of _ "pmem s1"]) simp
  next
    fix j s assume j: "256 \<le> j" "j < 512" and "?I j s"
    then obtain m where s: "s = s1\<lparr>pmem := m\<rparr>" and P: "?P j m" by auto
    let ?j = "of_nat j :: u64"
    have uj: "unat ?j = j" using j by (simp add: unat_of_nat_less)
    then have j512: "?j < 512" using j by (simp add: word_less_nat_alt)
    have kj: "m (k + 8 * ?j) = pmem s1 (k + 8 * ?j)"
      using P entry_in_page [OF al(2,1) j512] kn(2) by simp
    let ?m = "m(n + 8 * ?j := pmem s1 (k + 8 * ?j))"
    have step: "?f j s = Some (s1\<lparr>pmem := ?m\<rparr>)"
      using kj by (simp add: s tbl_set_def tbl_get_def algebra_simps)
    have "?P (Suc j) ?m"
    proof (intro conjI allI impI)
      fix a :: u64 assume "\<not> a - n < PAGE_SIZE"
      moreover have "n + 8 * ?j - n < PAGE_SIZE" using entry_in_page [OF al(1,1) j512] by simp
      ultimately show "?m a = pmem s1 a" using P by auto
    next
      fix i :: u64 assume i: "i < 512"
      show "?m (n + 8 * i) = (if 256 \<le> i \<and> unat i < Suc j then pmem s1 (k + 8 * i) else 0)"
      proof (cases "i = ?j")
        case True
        then show ?thesis using uj j by (simp add: word_le_nat_alt)
      next
        case False
        then have "n + 8 * i \<noteq> n + 8 * ?j" "unat i \<noteq> j"
          using entry_inj [OF al(1,1) i j512] uj by (auto simp: word_unat_eq_iff)
        then show ?thesis using P i by (simp add: less_Suc_eq)
      qed
    qed
    then show "\<exists>s'. ?f j s = Some s' \<and> ?I (Suc j) s'" using step by blast
  qed simp
  then obtain m where m: "for_each ?f [256..<512] s1 = Some (s1\<lparr>pmem := m\<rparr>)" and P: "?P 512 m" by blast
  have "m (n + 8 * i) = (if i < 256 then 0 else pmem s1 (k + 8 * i))" if "i < 512" for i
    using P that by (auto simp: word_less_nat_alt word_le_nat_alt)
  then show ?thesis using m P by blast
qed

lemma tree_insert_root:
  assumes t: "tree m k R" and n: "n \<notin> tables m k R" "n \<noteq> k" and zero: "\<And>i. i < 256 \<Longrightarrow> m (n + 8 * i) = 0"
  shows "tree m k (insert n R)" "tables m k (insert n R) = insert n (tables m k R)"
proof -
  have w: "owned k n p \<Longrightarrow> walk m n p = (if p = [] then Some n else None)" for p
    using n(2) zero by (cases p) (auto simp: owned_def Let_def pte_present_def)
  show "tables m k (insert n R) = insert n (tables m k R)"
  proof (intro equalityI subsetI)
    fix t assume "t \<in> tables m k (insert n R)"
    then show "t \<in> insert n (tables m k R)"
      using w by (fastforce simp: tables_def split: if_splits)
  next
    fix t assume "t \<in> insert n (tables m k R)"
    moreover have "n \<in> tables m k (insert n R)"
      by (rule tablesI [of n _ _ "[]"]) (simp_all add: owned_def)
    ultimately show "t \<in> tables m k (insert n R)" by (auto simp: tables_def)
  qed
  show "tree m k (insert n R)"
    unfolding tree_def
  proof (intro ballI allI impI, elim conjE)
    fix r r' p q t
    assume a: "r \<in> insert n R" "r' \<in> insert n R" "owned k r p" "length p \<le> 3" "owned k r' q" "length q \<le> 3"
      "walk m r p = Some t" "walk m r' q = Some t"
    have "r \<in> R \<Longrightarrow> t \<in> tables m k R" "r' \<in> R \<Longrightarrow> t \<in> tables m k R"
      using a by (auto intro: tablesI)
    moreover have "r = n \<Longrightarrow> t = n \<and> p = []" "r' = n \<Longrightarrow> t = n \<and> q = []"
      using a w by (auto split: if_splits)
    ultimately show "r = r' \<and> p = q"
      using a t n(1) unfolding tree_def by (metis insertE)
  qed
qed

lemma vmm_create_user_pml4_spec:
  assumes ok: "vmm_ok R s" and kR: "kernel_pml4_phys s \<in> R" and ne: "frees s \<noteq> {}"
  shows "\<exists>n s'. vmm_create_user_pml4 s = Some (n, s') \<and> n \<noteq> 0 \<and> n \<notin> R \<and> vmm_ok (insert n R) s' \<and>
     same_env s s' \<and> frees s' = frees s - {unat n div 4096} \<and> unat n div 4096 \<in> frees s \<and>
     (\<forall>r \<in> R. \<forall>v. visible (kernel_pml4_phys s) r v \<longrightarrow> translate s' r v = translate s r v) \<and>
     (\<forall>v. PML4_INDEX v < 256 \<longrightarrow> translate s' n v = None) \<and>
     (\<forall>v. \<not> PML4_INDEX v < 256 \<longrightarrow> translate s' n v = translate s (kernel_pml4_phys s) v)"
proof -
  let ?k = "kernel_pml4_phys s"
  obtain n s1 where n: "alloc_table_page s = Some (n, s1)" "n \<noteq> 0" "page_addr n"
    "unat n div 4096 \<in> frees s" "frees s1 = frees s - {unat n div 4096}"
    "n \<notin> tables (pmem s1) ?k R" "in_use (vmm_pmm s1) n" and g: "grows R 1 s s1"
    and m1: "pmem s1 = (\<lambda>a. if a - n < PAGE_SIZE then 0 else pmem s a)"
    using alloc_table_page_spec [OF ok ne] by blast
  have ok1: "vmm_ok R s1" and k1: "kernel_pml4_phys s1 = ?k" and h1: "hhdm_offset s1 = hhdm_offset s"
    using g by (simp_all add: grows_def same_env_def)
  have root: "r \<in> tables m ?k R" if "r \<in> R" for r m
    by (rule tablesI [OF that, of _ "[]"]) (simp_all add: owned_def)
  have kn: "page_addr ?k" "?k \<noteq> n" and nR: "n \<notin> R"
    using ok1 root [OF kR, of "pmem s1"] root n(6) k1 by (auto simp: vmm_ok_def in_use_def)
  have zero1: "pmem s1 (n + 8 * i) = 0" if "i < 512" for i
    using entry_in_page [of n n i] n(3) that by (simp add: m1 page_addr_def)
  obtain m where m: "for_each (\<lambda>i s. Some (tbl_set (n + hhdm_offset s1) (of_nat i)
                 (tbl_get s (?k + hhdm_offset s1) (of_nat i)) s)) [256..<512] s1 = Some (s1\<lparr>pmem := m\<rparr>)"
    and out: "\<And>a. \<not> a - n < PAGE_SIZE \<Longrightarrow> m a = pmem s1 a"
    and inn: "\<And>i. i < 512 \<Longrightarrow> m (n + 8 * i) = (if i < 256 then 0 else pmem s1 (?k + 8 * i))"
    using create_copy_loop [OF n(3) kn zero1] by blast
  let ?s' = "s1\<lparr>pmem := m\<rparr>"
  have m_eq: "m = (\<lambda>a. if a - n < PAGE_SIZE then m a else pmem s1 a)" using out by auto
  have fill: "grows R 0 s1 ?s'" "tables m ?k R = tables (pmem s1) ?k R"
    using fill_page_grows [OF ok1 n(3), of m] n(6) m_eq k1 by auto
  have g': "grows R 1 s ?s'" using grows_trans [OF g fill(1)] by simp
  have ok': "vmm_ok R ?s'" using fill(1) by (simp add: grows_def)
  have low: "m (n + 8 * i) = 0" if "i < 256" for i
    using inn [of i] that by (simp add: word_less_nat_alt)
  have tr: "tree m ?k R" using ok' k1 by (simp add: vmm_ok_def)
  have out_n: "n \<notin> tables m ?k R" using fill(2) n(6) by simp
  note ins = tree_insert_root [OF tr out_n kn(2) [symmetric] low]
  have "vmm_ok (insert n R) ?s'" using ok' ins n(7) k1 by (simp add: vmm_ok_def)
  moreover have "vmm_create_user_pml4 s = Some (n, ?s')"
    unfolding vmm_create_user_pml4_def n(1) using m
    by (simp add: phys_to_virt_def k1 del: upt_rec_numeral)
  moreover have "\<forall>r \<in> R. \<forall>v. visible ?k r v \<longrightarrow> translate ?s' r v = translate s r v"
    using g' by (simp add: grows_def translate_def owned_path)
  moreover have "\<forall>v. PML4_INDEX v < 256 \<longrightarrow> translate ?s' n v = None"
    using inn by (simp add: translate_def path_def Let_def pte_present_def)
  moreover have "\<forall>v. \<not> PML4_INDEX v < 256 \<longrightarrow> translate ?s' n v = translate s ?k v"
  proof (intro allI impI)
    fix v assume "\<not> PML4_INDEX v < 256"
    moreover have "pmem s1 (?k + 8 * PML4_INDEX v) = m (?k + 8 * PML4_INDEX v)"
      using out entry_in_page [of ?k n "PML4_INDEX v"] kn n(3) by (simp add: page_addr_def)
    ultimately have "translate ?s' n v = translate ?s' ?k v"
      using inn by (simp add: translate_def path_def)
    also have "\<dots> = translate s ?k v"
      using g' kR by (simp add: grows_def translate_def owned_path visible_def)
    finally show "translate ?s' n v = translate s ?k v" .
  qed
  ultimately show ?thesis using n(2,4,5) nR g' by (auto simp: grows_def)
qed

subsection \<open>Tearing an address space down\<close>

text \<open>The pages the nested loops of \<^verbatim>\<open>vmm_free_user_pages\<close> hand back, as lists.\<close>

definition pt_pages :: "(u64 \<Rightarrow> u64) \<Rightarrow> u64 \<Rightarrow> u64 list" where
  "pt_pages m t = concat (map (\<lambda>i. let e = m (t + 8 * of_nat i) in
     if pte_present e then [pte_addr e] else []) [0..<PT_ENTRIES]) @ [t]"

definition pd_pages :: "(u64 \<Rightarrow> u64) \<Rightarrow> u64 \<Rightarrow> u64 list" where
  "pd_pages m t = concat (map (\<lambda>i. let e = m (t + 8 * of_nat i) in
     if pte_present e \<and> \<not> pte_huge e then pt_pages m (pte_addr e) else []) [0..<PT_ENTRIES]) @ [t]"

definition pdpt_pages :: "(u64 \<Rightarrow> u64) \<Rightarrow> u64 \<Rightarrow> u64 list" where
  "pdpt_pages m t = concat (map (\<lambda>i. let e = m (t + 8 * of_nat i) in
     if pte_present e \<and> \<not> pte_huge e then pd_pages m (pte_addr e) else []) [0..<PT_ENTRIES]) @ [t]"

definition user_pages :: "(u64 \<Rightarrow> u64) \<Rightarrow> u64 \<Rightarrow> u64 list" where
  "user_pages m t = concat (map (\<lambda>i. let e = m (t + 8 * of_nat i) in
     if pte_present e then pdpt_pages m (pte_addr e) else []) [0..<PML4_KERNEL_START]) @ [t]"

definition same_mem :: "vmm \<Rightarrow> vmm \<Rightarrow> bool" where
  "same_mem s s' \<longleftrightarrow> pmem s' = pmem s \<and> hhdm_offset s' = hhdm_offset s"

lemma vmm_free_page_same_mem: "vmm_free_page a s = Some s' \<Longrightarrow> same_mem s0 s \<Longrightarrow> same_mem s0 s'"
  by (auto simp: vmm_free_page_def same_mem_def split: bind_splits)

lemma for_each_invariant:
  "(\<And>x s s'. P s \<Longrightarrow> f x s = Some s' \<Longrightarrow> P s') \<Longrightarrow> P s \<Longrightarrow> for_each f xs s = Some s' \<Longrightarrow> P s'"
  by (induction xs arbitrary: s) (auto split: bind_splits)

lemma for_each_concat:
  assumes body: "\<And>i s. i \<in> set xs \<Longrightarrow> P s \<Longrightarrow> f i s = for_each g (h i) s"
    and inv: "\<And>x s s'. P s \<Longrightarrow> g x s = Some s' \<Longrightarrow> P s'" and P: "P s"
  shows "for_each f xs s = for_each g (concat (map h xs)) s"
  using body P
proof (induction xs arbitrary: s)
  case (Cons x xs)
  have "for_each g (h x) s = Some s' \<Longrightarrow> P s'" for s'
    using for_each_invariant [of P g s "h x" s'] inv Cons.prems(2) by blast
  then show ?case
    using Cons by (auto simp: for_each_append split: bind_splits intro!: Option.bind_cong)
qed simp

text \<open>A loop over table entries followed by the release of the table, as one list of releases.\<close>

lemma free_loop:
  assumes "\<And>i s'. i < n \<Longrightarrow> same_mem s s' \<Longrightarrow> f i s' = for_each vmm_free_page (h i) s'"
  shows "do { s' \<leftarrow> for_each f [0..<n] s; vmm_free_page t s' } =
         for_each vmm_free_page (concat (map h [0..<n]) @ [t]) s"
proof -
  have "for_each f [0..<n] s = for_each vmm_free_page (concat (map h [0..<n])) s"
    by (rule for_each_concat [where P = "same_mem s"])
       (use assms in \<open>auto simp: same_mem_def [of s s] intro: vmm_free_page_same_mem\<close>)
  then show ?thesis by (simp add: for_each_append cong: Option.bind_cong)
qed

lemma bind_for_each_Nil [simp]: "Option.bind x (for_each f []) = x"
  by (cases x) simp_all

lemma free_pt_and_leaves_list: "free_pt_and_leaves t s = for_each vmm_free_page (pt_pages (pmem s) t) s"
  unfolding free_pt_and_leaves_def pt_pages_def Let_def
  by (rule free_loop) (auto simp: same_mem_def tbl_get_def phys_to_virt_def algebra_simps)

lemma free_pd_and_children_list: "free_pd_and_children t s = for_each vmm_free_page (pd_pages (pmem s) t) s"
  unfolding free_pd_and_children_def pd_pages_def Let_def
  by (rule free_loop)
     (auto simp: same_mem_def tbl_get_def phys_to_virt_def algebra_simps free_pt_and_leaves_list)

lemma vmm_free_user_pages_list: "vmm_free_user_pages t s = for_each vmm_free_page (user_pages (pmem s) t) s"
proof -
  have inner: "do { s' \<leftarrow> for_each (\<lambda>j s'. let e3 = tbl_get s' (u + hhdm_offset s) (of_nat j) in
                    if \<not> pte_present e3 \<or> pte_huge e3 then Some s'
                    else free_pd_and_children (pte_addr e3) s') [0..<PT_ENTRIES] s';
             vmm_free_page u s' } = for_each vmm_free_page (pdpt_pages (pmem s) u) s'"
    if "same_mem s s'" for u s'
    unfolding pdpt_pages_def Let_def
    by (rule free_loop)
       (use that in \<open>auto simp: same_mem_def tbl_get_def algebra_simps free_pd_and_children_list\<close>)
  show ?thesis
    unfolding vmm_free_user_pages_def user_pages_def Let_def
  proof (rule free_loop, goal_cases)
    case (1 i s')
    have a: "tbl_get s' (phys_to_virt s t) (of_nat i) = pmem s (t + 8 * of_nat i)"
      and b: "phys_to_virt s' u = u + hhdm_offset s" for u
      using 1(2) by (simp_all add: same_mem_def tbl_get_def phys_to_virt_def algebra_simps)
    show ?case unfolding a b using inner [OF 1(2)] by (simp add: Let_def)
  qed
qed

lemma free_pages_spec:
  assumes "pmm_inv (vmm_pmm s)"
  shows "\<exists>s'. for_each vmm_free_page ps s = Some s' \<and> pmm_inv (vmm_pmm s') \<and> same_env s s' \<and>
     pmem s' = pmem s \<and>
     frees s' = frees s \<union> {p \<in> (\<lambda>a. unat a div 4096) ` set ps. p \<noteq> 0 \<and> p < unat (total_pages (vmm_pmm s))}"
  using assms
proof (induction ps arbitrary: s)
  case Nil
  then show ?case by simp
next
  case (Cons a ps)
  obtain pm where pm: "pmm_free_page a (vmm_pmm s) = Some pm" "pmm_inv pm" "same_layout (vmm_pmm s) pm"
    "free_set pm = spec_free_page (unat (total_pages (vmm_pmm s))) (unat a) (frees s)"
    using pmm_free_page_spec [OF Cons.prems] by blast
  let ?s1 = "s\<lparr>vmm_pmm := pm\<rparr>"
  obtain s' where s': "for_each vmm_free_page ps ?s1 = Some s'" "pmm_inv (vmm_pmm s')" "same_env ?s1 s'"
    "pmem s' = pmem ?s1"
    "frees s' = frees ?s1 \<union> {p \<in> (\<lambda>a. unat a div 4096) ` set ps. p \<noteq> 0 \<and> p < unat (total_pages (vmm_pmm ?s1))}"
    using Cons.IH [of ?s1] pm(2) by auto
  have tot: "total_pages pm = total_pages (vmm_pmm s)" using pm(3) by (simp add: same_layout_def)
  have "for_each vmm_free_page (a # ps) s = Some s'" using pm(1) s'(1) by (simp add: vmm_free_page_def)
  moreover have "same_env s s'"
    using s'(3) pm(3) by (auto simp: same_env_def intro: same_layout_trans)
  moreover have "frees s' = frees s \<union>
      {p \<in> (\<lambda>a. unat a div 4096) ` set (a # ps). p \<noteq> 0 \<and> p < unat (total_pages (vmm_pmm s))}"
    unfolding s'(5) using pm(4) tot by (auto simp: spec_free_page_def)
  ultimately show ?case using s'(2,4) by auto
qed

text \<open>
  The pages below a table: \<open>reach m n t\<close> holds the tables at most \<open>n\<close> levels below \<open>t\<close> and the 4K
  pages mapped by the tables \<open>n\<close> levels below.
\<close>

definition reach :: "(u64 \<Rightarrow> u64) \<Rightarrow> nat \<Rightarrow> u64 \<Rightarrow> u64 set" where
  "reach m n t =
     {u. \<exists>p. (\<forall>i \<in> set p. i < 512) \<and> length p \<le> n \<and> walk m t p = Some u} \<union>
     {pte_addr e | e p. (\<forall>i \<in> set p. i < 512) \<and> length p = Suc n \<and> lookup m t p = Some (e, [])}"

lemma reach_walkI: "\<forall>i \<in> set p. i < 512 \<Longrightarrow> length p \<le> n \<Longrightarrow> walk m t p = Some u \<Longrightarrow> u \<in> reach m n t"
  by (auto simp: reach_def)

lemma reach_leafI:
  "\<forall>i \<in> set p. i < 512 \<Longrightarrow> length p = Suc n \<Longrightarrow> lookup m t p = Some (e, []) \<Longrightarrow> pte_addr e \<in> reach m n t"
  by (auto simp: reach_def)

lemma reach_0:
  "reach m 0 t = insert t ((\<lambda>i. pte_addr (m (t + 8 * i))) ` {i. i < 512 \<and> pte_present (m (t + 8 * i))})"
proof (intro equalityI subsetI)
  fix u assume "u \<in> reach m 0 t"
  then show "u \<in> insert t ((\<lambda>i. pte_addr (m (t + 8 * i))) ` {i. i < 512 \<and> pte_present (m (t + 8 * i))})"
    by (auto simp: reach_def length_Suc_conv Let_def split: if_splits)
next
  fix u assume "u \<in> insert t ((\<lambda>i. pte_addr (m (t + 8 * i))) ` {i. i < 512 \<and> pte_present (m (t + 8 * i))})"
  then show "u \<in> reach m 0 t"
    using reach_walkI [of "[]" 0 m t t] reach_leafI [of "[_]" 0 m t] by (auto simp: Let_def)
qed

lemma reach_Suc:
  "reach m (Suc n) t =
     insert t (\<Union>i \<in> {i. i < 512 \<and> pte_present (m (t + 8 * i)) \<and> \<not> pte_huge (m (t + 8 * i))}.
                 reach m n (pte_addr (m (t + 8 * i))))"
  (is "?L = ?R")
proof (intro equalityI subsetI)
  fix u assume "u \<in> ?L"
  then consider p where "\<forall>i \<in> set p. i < 512" "length p \<le> Suc n" "walk m t p = Some u"
    | e p where "u = pte_addr e" "\<forall>i \<in> set p. i < 512" "length p = Suc (Suc n)" "lookup m t p = Some (e, [])"
    by (auto simp: reach_def)
  then show "u \<in> ?R"
  proof cases
    case 1
    then show ?thesis by (cases p) (auto simp: reach_def Let_def split: if_splits)
  next
    case (2 e p)
    then obtain i q where p: "p = i # q" "q \<noteq> []" by (auto simp: length_Suc_conv)
    then have "pte_addr e \<in> reach m n (pte_addr (m (t + 8 * i)))"
      "i < 512" "pte_present (m (t + 8 * i))" "\<not> pte_huge (m (t + 8 * i))"
      using 2 by (auto intro!: reach_leafI simp: Let_def split: if_splits)
    then show ?thesis using 2(1) by auto
  qed
next
  fix u assume "u \<in> ?R"
  then consider "u = t" | i where "i < 512" "pte_present (m (t + 8 * i))" "\<not> pte_huge (m (t + 8 * i))"
      "u \<in> reach m n (pte_addr (m (t + 8 * i)))" by auto
  then show "u \<in> ?L"
  proof cases
    case 1
    then show ?thesis by (auto simp: reach_def intro!: exI [of _ "[]"])
  next
    case (2 i)
    then consider p where "\<forall>i \<in> set p. i < 512" "length p \<le> n" "walk m (pte_addr (m (t + 8 * i))) p = Some u"
      | e p where "u = pte_addr e" "\<forall>i \<in> set p. i < 512" "length p = Suc n"
          "lookup m (pte_addr (m (t + 8 * i))) p = Some (e, [])"
      unfolding reach_def by blast
    then show ?thesis
    proof cases
      case (1 p)
      then have "\<exists>p. (\<forall>i \<in> set p. i < 512) \<and> length p \<le> Suc n \<and> walk m t p = Some u"
        using 2(1-3) by (intro exI [of _ "i # p"]) (simp add: Let_def)
      then show ?thesis by (simp add: reach_def)
    next
      case (2 e p)
      then have "\<exists>p. (\<forall>i \<in> set p. i < 512) \<and> length p = Suc (Suc n) \<and> lookup m t p = Some (e, [])"
        using \<open>i < 512\<close> \<open>pte_present (m (t + 8 * i))\<close> \<open>\<not> pte_huge (m (t + 8 * i))\<close>
        by (intro exI [of _ "i # p"]) (auto simp: Let_def)
      then show ?thesis using \<open>u = pte_addr e\<close> by (auto simp: reach_def)
    qed
  qed
qed

lemma of_nat_image_less: "k \<le> 512 \<Longrightarrow> (of_nat ` {0..<k} :: u64 set) = {i. unat i < k}"
proof (intro equalityI subsetI)
  fix x :: u64 assume k: "k \<le> 512" and "x \<in> {i. unat i < k}"
  moreover have "x = of_nat (unat x)" by (simp add: word_unat_eq_iff)
  ultimately show "x \<in> of_nat ` {0..<k}" by (intro image_eqI [of _ _ "unat x"]) simp_all
qed (auto simp: unat_of_nat_less)

lemma index_less: "(i :: u64) < 512 \<longleftrightarrow> unat i < 512" "(i :: u64) < 256 \<longleftrightarrow> unat i < 256"
  by (simp_all add: word_less_nat_alt)

lemma set_concat_entries:
  fixes m :: "u64 \<Rightarrow> u64"
  assumes "k \<le> 512"
  shows "set (concat (map (\<lambda>i. let e = m (t + 8 * of_nat i) in if P e then F e else []) [0..<k]) @ [t]) =
         insert t (\<Union>i \<in> {i. unat i < k \<and> P (m (t + 8 * i))}. set (F (m (t + 8 * i))))"
  (is "?L = ?R")
proof -
  have "?L = insert t (\<Union>i \<in> of_nat ` {0..<k}. if P (m (t + 8 * i)) then set (F (m (t + 8 * i))) else {})"
    by (auto simp: Let_def)
  also have "\<dots> = ?R" unfolding of_nat_image_less [OF assms] by (auto split: if_splits)
  finally show ?thesis .
qed

lemma pt_pages_reach: "set (pt_pages m t) = reach m 0 t"
  unfolding pt_pages_def reach_0 index_less by (subst set_concat_entries) auto

lemma pd_pages_reach: "set (pd_pages m t) = reach m 1 t"
  unfolding pd_pages_def One_nat_def reach_Suc index_less
  by (subst set_concat_entries) (auto simp: pt_pages_reach)

lemma pdpt_pages_reach: "set (pdpt_pages m t) = reach m 2 t"
  unfolding pdpt_pages_def numeral_2_eq_2 reach_Suc [of m "Suc 0"] index_less
  by (subst set_concat_entries) (auto simp: pd_pages_reach)

text \<open>What a user address space owns: its tables and the 4K pages of its lower half.\<close>

definition user_path :: "u64 list \<Rightarrow> bool" where
  "user_path p \<longleftrightarrow> (\<forall>i \<in> set p. i < 512) \<and> (p \<noteq> [] \<longrightarrow> hd p < 256)"

definition user_memory :: "(u64 \<Rightarrow> u64) \<Rightarrow> u64 \<Rightarrow> u64 set" where
  "user_memory m r =
     {t. \<exists>p. user_path p \<and> length p \<le> 3 \<and> walk m r p = Some t} \<union>
     {pte_addr e | e p. user_path p \<and> length p = 4 \<and> lookup m r p = Some (e, [])}"

lemma user_pages_memory:
  assumes "\<And>i. i < 256 \<Longrightarrow> pte_present (m (r + 8 * i)) \<Longrightarrow> \<not> pte_huge (m (r + 8 * i))"
  shows "set (user_pages m r) = user_memory m r"
proof -
  have up: "set (user_pages m r) = insert r (\<Union>i \<in> {i. i < 256 \<and> pte_present (m (r + 8 * i))}.
      reach m 2 (pte_addr (m (r + 8 * i))))"
    unfolding user_pages_def index_less by (subst set_concat_entries) (auto simp: pdpt_pages_reach)
  have "u \<in> user_memory m r" if u: "u \<in> set (user_pages m r)" for u
  proof -
    consider "u = r" | i where "i < 256" "pte_present (m (r + 8 * i))" "u \<in> reach m 2 (pte_addr (m (r + 8 * i)))"
      using u unfolding up by blast
    then show ?thesis
    proof cases
      case 1
      then show ?thesis by (auto simp: user_memory_def user_path_def intro!: exI [of _ "[]"])
    next
      case (2 i)
      have nh: "\<not> pte_huge (m (r + 8 * i))" and i5: "i < 512" using assms 2 by (auto simp: index_less)
      from 2(3) consider p where "\<forall>i \<in> set p. i < 512" "length p \<le> 2" "walk m (pte_addr (m (r + 8 * i))) p = Some u"
        | e p where "u = pte_addr e" "\<forall>i \<in> set p. i < 512" "length p = 3"
            "lookup m (pte_addr (m (r + 8 * i))) p = Some (e, [])"
        unfolding reach_def by auto
      then show ?thesis
      proof cases
        case (1 p)
        then have "user_path (i # p) \<and> length (i # p) \<le> 3 \<and> walk m r (i # p) = Some u"
          using 2(1,2) nh i5 by (simp add: user_path_def Let_def)
        then show ?thesis unfolding user_memory_def by blast
      next
        case (2 e p)
        then have "user_path (i # p) \<and> length (i # p) = 4 \<and> lookup m r (i # p) = Some (e, [])"
          using \<open>i < 256\<close> \<open>pte_present (m (r + 8 * i))\<close> nh i5 by (auto simp: user_path_def Let_def)
        then show ?thesis using \<open>u = pte_addr e\<close> unfolding user_memory_def by blast
      qed
    qed
  qed
  moreover have "u \<in> set (user_pages m r)" if "u \<in> user_memory m r" for u
  proof -
    from that consider p where "user_path p" "length p \<le> 3" "walk m r p = Some u"
      | e p where "u = pte_addr e" "user_path p" "length p = 4" "lookup m r p = Some (e, [])"
      unfolding user_memory_def by blast
    then show ?thesis
    proof cases
      case (1 p)
      then show ?thesis
        unfolding up by (cases p) (auto simp: user_path_def Let_def intro: reach_walkI split: if_splits)
    next
      case (2 e p)
      then obtain i q where p: "p = i # q" "length q = Suc 2" by (auto simp: length_Suc_conv numeral_eq_Suc)
      then have "pte_addr e \<in> reach m 2 (pte_addr (m (r + 8 * i)))"
        using 2 by (intro reach_leafI [of q]) (auto simp: user_path_def Let_def split: if_splits)
      moreover have "i < 256" "pte_present (m (r + 8 * i))"
        using 2 p by (auto simp: user_path_def Let_def split: if_splits)
      ultimately show ?thesis unfolding up using 2(1) by auto
    qed
  qed
  ultimately show ?thesis by blast
qed

section \<open>Flags and locking\<close>

lemma pte_addr_map: "page_addr phys \<Longrightarrow> pte_addr (phys OR vmm_flags_to_pte flags) = phys"
  by (rule pte_addr_or) (auto simp: vmm_flags_to_pte_bits)

lemma pte_to_vmm_flags_bits:
  "bit (pte_to_vmm_flags e) j \<longleftrightarrow> j = 0 \<and> bit e 1 \<or> j = 1 \<and> bit e 2 \<or> j = 2 \<and> bit e 63"
proof -
  have b: "bit VMM_FLAG_WRITABLE j \<longleftrightarrow> j = 0" "bit VMM_FLAG_USER j \<longleftrightarrow> j = 1" "bit VMM_FLAG_NOEXEC j \<longleftrightarrow> j = 2"
    using bit_two_power [of 0 j, where 'a = 32] bit_two_power [of 1 j, where 'a = 32]
      bit_two_power [of 2 j, where 'a = 32] by simp_all
  have f: "e AND PTE_WRITABLE = 0 \<longleftrightarrow> \<not> bit e 1" "e AND PTE_USER = 0 \<longleftrightarrow> \<not> bit e 2" "e AND PTE_NX = 0 \<longleftrightarrow> \<not> bit e 63"
    using and_shift_eq_0_iff [of 1 e] and_shift_eq_0_iff [of 2 e] and_shift_eq_0_iff [of 63 e] by simp_all
  show ?thesis
    unfolding pte_to_vmm_flags_def Let_def f not_not
    by (cases "bit e 1"; cases "bit e 2"; cases "bit e 63")
       (simp_all only: if_True if_False bit_or_iff b bit_0_eq bot_apply bot_bool_def, blast+)
qed

lemma lock_vmm_free [simp]:
  "locked (vmm_lock s) = 0 \<Longrightarrow> lock_vmm s =
     Some (s\<lparr>vmm_lock := (vmm_lock s)\<lparr>locked := 1, saved_flags := rflags (vmm_pmm s)\<rparr>,
             vmm_pmm := (vmm_pmm s)\<lparr>rflags := rflags (vmm_pmm s) AND NOT RFLAGS_IF\<rparr>\<rparr>)"
  by (simp add: lock_vmm_def)

lemma pmm_rflags [simp]:
  "pmm_inv (pm\<lparr>rflags := f\<rparr>) = pmm_inv pm" "free_set (pm\<lparr>rflags := f\<rparr>) = free_set pm"
  by (simp_all add: pmm_inv_def pmm_shape_def free_set_def)

lemma vmm_ok_flags [simp]:
  "vmm_ok R (s\<lparr>vmm_lock := lk, vmm_pmm := (vmm_pmm s)\<lparr>rflags := f\<rparr>\<rparr>) = vmm_ok R s"
  by (simp add: vmm_ok_def in_use_def)

lemma translate_pmem: "pmem s' = pmem s \<Longrightarrow> translate s' r v = translate s r v"
  by (simp add: translate_def)

text \<open>The kernel's own mapping call: the same effect on the kernel space, with the lock released.\<close>

lemma vmm_map_page_spec:
  assumes ok: "vmm_ok R s" and r: "kernel_pml4_phys s \<in> R" and lk: "locked (vmm_lock s) = 0"
    and small: "small_page s (kernel_pml4_phys s) v" and mem: "3 \<le> card (frees s)"
  shows "\<exists>s'. vmm_map_page v phys flags s = Some s' \<and> vmm_ok R s' \<and> locked (vmm_lock s') = 0 \<and>
     kernel_pml4_phys s' = kernel_pml4_phys s \<and> hhdm_offset s' = hhdm_offset s \<and>
     same_layout (vmm_pmm s) (vmm_pmm s') \<and>
     frees s' \<subseteq> frees s \<and> card (frees s) \<le> card (frees s') + 3 \<and>
     (\<forall>r' \<in> R. \<forall>v'. visible (kernel_pml4_phys s) r' v' \<longrightarrow>
        translate s' r' v' = (if r' = kernel_pml4_phys s \<and> path v' = path v
                              then Some (phys OR vmm_flags_to_pte flags, []) else translate s r' v'))"
proof -
  let ?lk = "(vmm_lock s)\<lparr>locked := 1, saved_flags := rflags (vmm_pmm s)\<rparr>"
  let ?s1 = "s\<lparr>vmm_lock := ?lk, vmm_pmm := (vmm_pmm s)\<lparr>rflags := rflags (vmm_pmm s) AND NOT RFLAGS_IF\<rparr>\<rparr>"
  let ?k = "kernel_pml4_phys s"
  have tr1: "translate ?s1 r' v' = translate s r' v'" for r' v' by (simp add: translate_def)
  obtain s2 where s2: "vmm_map_page_in ?k v phys flags ?s1 = Some s2" "vmm_ok R s2" "same_env ?s1 s2"
    "frees s2 \<subseteq> frees s" "card (frees s) \<le> card (frees s2) + 3"
    "\<forall>r' \<in> R. \<forall>v'. visible ?k r' v' \<longrightarrow> translate s2 r' v' =
       (if r' = ?k \<and> path v' = path v then Some (phys OR vmm_flags_to_pte flags, []) else translate s r' v')"
    using vmm_map_page_in_spec [of R ?s1 ?k v phys flags] ok r small mem
    by (auto simp: visible_def small_page_def tr1)
  have env: "vmm_lock s2 = ?lk" "kernel_pml4_phys s2 = ?k" "hhdm_offset s2 = hhdm_offset s"
    using s2(3) by (simp_all add: same_env_def)
  let ?s' = "unlock_vmm s2"
  have s': "?s' = s2\<lparr>vmm_lock := (vmm_lock s2)\<lparr>locked := 0\<rparr>,
      vmm_pmm := (vmm_pmm s2)\<lparr>rflags := rflags (vmm_pmm s)\<rparr>\<rparr>"
    by (simp add: unlock_vmm_def spinlock_release_def env(1))
  have "vmm_map_page v phys flags s = Some ?s'" using lk s2(1) by (simp add: vmm_map_page_def)
  moreover have "same_layout (vmm_pmm s) (vmm_pmm ?s')"
    using s2(3) by (simp add: s' same_env_def same_layout_def)
  moreover have "translate ?s' r' v' = translate s2 r' v'" for r' v'
    by (simp add: s' translate_def)
  ultimately show ?thesis using s2 env by (simp add: s')
qed

section \<open>Properties\<close>

text \<open>The instance of the witnesses: an empty kernel space whose top-level table is page 2.\<close>

definition vmm_example :: vmm where
  "vmm_example =
     \<lparr>vmm_pmm = pmm_example, vmm_lock = SPINLOCK_INIT, pmem = (\<lambda>_. 0), kernel_pml4_phys = 0x2000,
      hhdm_offset = 0xFFFF800000000000, cr3 = 0x2000, invlpg_log = []\<rparr>"

lemma walk_zero: "walk (\<lambda>_. 0) r p = (if p = [] then Some r else None)"
  by (cases p) (simp_all add: Let_def pte_present_def)

lemma frees_example: "frees vmm_example = {3, 5, 6, 7, 69}"
  by (simp add: vmm_example_def free_set_example)

lemma vmm_ok_example: "vmm_ok {0x2000} vmm_example"
proof -
  have "tables (\<lambda>_. 0) 0x2000 {0x2000} = {0x2000}"
    by (auto simp: tables_def walk_zero owned_def split: if_splits)
  moreover have "tree (\<lambda>_. 0) 0x2000 {0x2000}"
    by (auto simp: tree_def walk_zero split: if_splits)
  moreover have "in_use pmm_example 0x2000"
    by (simp add: in_use_def page_addr_def free_set_example) (simp add: pmm_example_def)
  ultimately show ?thesis
    using pmm_inv_example by (simp add: vmm_ok_def vmm_example_def) (simp add: pmm_example_def)
qed

lemma translate_example: "translate vmm_example r v = None"
  by (simp add: translate_def path_def vmm_example_def Let_def pte_present_def)

lemma example_facts:
  "kernel_pml4_phys vmm_example = 0x2000" "small_page vmm_example r v" "visible 0x2000 0x2000 v"
  "3 \<le> card (frees vmm_example)" "frees vmm_example \<noteq> {}"
  by (simp_all add: small_page_def translate_example visible_def frees_example) (simp add: vmm_example_def)

text \<open>
  C3.  Mapping a page in an address space: for any live address space and any address in the part
  it owns that is not covered by a large page, with three free pages at hand, the call returns,
  the new entry is what the MMU finds for every address of that page, every other translation of
  every live address space is unchanged, the tables still form a tree of allocated pages, and at
  most three pages were taken.
\<close>

theorem vmm_map_page_in_correct:
  assumes "vmm_ok R s" and "r \<in> R" and "visible (kernel_pml4_phys s) r v"
    and "small_page s r v" and "3 \<le> card (frees s)"
  shows "\<exists>s'. vmm_map_page_in r v phys flags s = Some s' \<and> vmm_ok R s' \<and> same_env s s' \<and>
     frees s' \<subseteq> frees s \<and> card (frees s) \<le> card (frees s') + 3 \<and>
     (\<forall>r' \<in> R. \<forall>v'. visible (kernel_pml4_phys s) r' v' \<longrightarrow>
        translate s' r' v' = (if r' = r \<and> path v' = path v then Some (phys OR vmm_flags_to_pte flags, [])
                              else translate s r' v'))"
  by (rule vmm_map_page_in_spec [OF assms])

theorem vmm_map_page_in_correct_witness:
  "\<exists>s'. vmm_map_page_in 0x2000 0xFFFFFFFFC0000000 0x45000 5 vmm_example = Some s' \<and>
     translate s' 0x2000 0xFFFFFFFFC0000123 = Some (0x45000 OR vmm_flags_to_pte 5, []) \<and>
     translate s' 0x2000 0xFFFFFFFFC0001000 = None"
proof -
  have "path 0xFFFFFFFFC0000123 = path 0xFFFFFFFFC0000000" "path 0xFFFFFFFFC0001000 \<noteq> path 0xFFFFFFFFC0000000"
    by (simp_all add: path_def PML4_INDEX_def PDPT_INDEX_def PD_INDEX_def PT_INDEX_def)
  then show ?thesis
    using vmm_map_page_in_correct [of "{0x2000}" vmm_example "0x2000" "0xFFFFFFFFC0000000" "0x45000" 5]
    by (auto simp: vmm_ok_example example_facts translate_example)
qed

text \<open>
  Map, query, unmap: after mapping an aligned physical page, \<^verbatim>\<open>vmm_get_phys_in\<close> of the virtual
  address gives that page plus the offset within the page; after unmapping it gives 0.
\<close>

lemma vmm_map_get_unmap:
  assumes "vmm_ok R s" and "r \<in> R" and "visible (kernel_pml4_phys s) r v"
    and "small_page s r v" and "3 \<le> card (frees s)" and "page_addr phys"
  shows "\<exists>s'. vmm_map_page_in r v phys flags s = Some s' \<and>
     vmm_get_phys_in s' r v = phys + (v AND PAGE_OFFSET_MASK) \<and>
     vmm_get_phys_in (vmm_unmap_page_in r v s') r v = 0"
proof -
  obtain s' where s': "vmm_map_page_in r v phys flags s = Some s'" "vmm_ok R s'" "same_env s s'"
    "\<forall>r' \<in> R. \<forall>v'. visible (kernel_pml4_phys s) r' v' \<longrightarrow>
        translate s' r' v' = (if r' = r \<and> path v' = path v then Some (phys OR vmm_flags_to_pte flags, [])
                              else translate s r' v')"
    using vmm_map_page_in_spec [OF assms(1-5)] by blast
  have tr: "translate s' r v = Some (phys OR vmm_flags_to_pte flags, [])" using s'(4) assms(2,3) by simp
  then have small: "small_page s' r v" by (simp add: small_page_def)
  have vis: "visible (kernel_pml4_phys s') r v" using assms(3) s'(3) by (simp add: same_env_def)
  have "translate (vmm_unmap_page_in r v s') r v = None"
    using vmm_unmap_page_in_spec(4) [OF s'(2) assms(2) vis small] vis assms(2) by simp
  then have "vmm_get_phys_in (vmm_unmap_page_in r v s') r v = 0"
    by (subst vmm_get_phys_in_translate) (simp_all add: small_page_def)
  then show ?thesis
    using s'(1) vmm_get_phys_in_translate [OF small] tr pte_addr_map [OF assms(6)] by simp
qed

text \<open>
  A new address space gets a fresh top-level table, maps nothing in the user half, translates
  the kernel half exactly as the kernel does, and leaves every existing translation alone.
\<close>

lemma vmm_create_user_pml4_correct:
  assumes "vmm_ok R s" and "kernel_pml4_phys s \<in> R" and "frees s \<noteq> {}"
  shows "\<exists>n s'. vmm_create_user_pml4 s = Some (n, s') \<and> n \<noteq> 0 \<and> n \<notin> R \<and> vmm_ok (insert n R) s' \<and>
     same_env s s' \<and> frees s' = frees s - {unat n div 4096} \<and> unat n div 4096 \<in> frees s \<and>
     (\<forall>r \<in> R. \<forall>v. visible (kernel_pml4_phys s) r v \<longrightarrow> translate s' r v = translate s r v) \<and>
     (\<forall>v. PML4_INDEX v < 256 \<longrightarrow> translate s' n v = None) \<and>
     (\<forall>v. \<not> PML4_INDEX v < 256 \<longrightarrow> translate s' n v = translate s (kernel_pml4_phys s) v)"
  by (rule vmm_create_user_pml4_spec [OF assms])



text \<open>
  The flags of a mapping survive the trip through the page-table entry that the fork makes:
  reading the portable flags back from the entry's flag bits gives the flags it was made with, and
  the address field is the page that was mapped.
\<close>

lemma vmm_flags_roundtrip:
  assumes "page_addr phys" and "flags < 8"
  shows "pte_to_vmm_flags ((phys OR vmm_flags_to_pte flags) AND NOT PTE_ADDR_MASK) = flags \<and>
         pte_addr (phys OR vmm_flags_to_pte flags) = phys"
proof
  have "take_bit 3 flags = flags"
    using assms(2) by (simp add: take_bit_eq_mod word_unat_eq_iff unat_mod word_less_nat_alt)
  then have hi: "bit flags j \<Longrightarrow> j < 3" for j by (metis bit_take_bit_iff)
  have m: "bit (NOT PTE_ADDR_MASK) j \<longleftrightarrow> j < 64 \<and> \<not> (12 \<le> j \<and> j < 52)" for j
    unfolding pte_addr_mask by (auto simp: bit_not_iff bit_push_bit_iff bit_mask_iff)
  show "pte_to_vmm_flags ((phys OR vmm_flags_to_pte flags) AND NOT PTE_ADDR_MASK) = flags"
  proof (rule bit_word_eqI)
    fix j :: nat
    have "bit phys 1 = False" "bit phys 2 = False" "bit phys 63 = False"
      using page_addr_bits [OF assms(1)] by force+
    then show "bit (pte_to_vmm_flags ((phys OR vmm_flags_to_pte flags) AND NOT PTE_ADDR_MASK)) j = bit flags j"
      using hi [of j] unfolding pte_to_vmm_flags_bits bit_and_iff bit_or_iff m vmm_flags_to_pte_bits
      by (auto simp: numeral_eq_Suc less_Suc_eq)
  qed
  show "pte_addr (phys OR vmm_flags_to_pte flags) = phys" by (rule pte_addr_map [OF assms(1)])
qed

end
