(* ===== verification/Kmalloc.thy ===== *)
theory Kmalloc
  imports Vmm
begin

text \<open>
  The kernel heap (\<^verbatim>\<open>kernel/mm/kmalloc.c\<close>): a doubly linked list of blocks in address order inside a
  virtual region that grows by mapping pages.

  The bytes of the region hold two kinds of objects that never overlap: block headers and payload.
  They are kept apart: \<open>hdr\<close> is the header stored at an address, \<open>bytes\<close> the payload.  Filling a
  header with the poison byte is a change of both.  \<open>heap_rep\<close> relates the linked headers to a list of
  blocks (address, size, free flag); it makes blocks disjoint, ordered and inside mapped memory.
\<close>

section \<open>State\<close>

abbreviation HEAP_START :: u64 where "HEAP_START \<equiv> 0xFFFFFFFFC0000000"
abbreviation HEAP_MAX :: u64 where "HEAP_MAX \<equiv> 0xFFFFFFFFE0000000"
abbreviation BLOCK_MAGIC :: u64 where "BLOCK_MAGIC \<equiv> 0xDEADBEEF"
abbreviation FREED_POISON :: u8 where "FREED_POISON \<equiv> 0xCC"
abbreviation HEAP_INIT_PAGES :: u64 where "HEAP_INIT_PAGES \<equiv> 4"
abbreviation ALIGN_SIZE :: u64 where "ALIGN_SIZE \<equiv> 16"
abbreviation HEADER_SIZE :: u64 where "HEADER_SIZE \<equiv> 48"
abbreviation GFP_KERNEL :: u32 where "GFP_KERNEL \<equiv> 0"
abbreviation GFP_ZERO :: u32 where "GFP_ZERO \<equiv> 1"

record BlockHeader =
  magic :: u64
  bsize :: u64
  bfree :: u32
  bnext :: u64
  bprev :: u64

record kheap =
  h_vmm :: vmm
  hdr :: "u64 \<Rightarrow> BlockHeader"
  bytes :: "u64 \<Rightarrow> u8"
  heap_start_block :: u64
  heap_current_end :: u64

definition hset :: "u64 \<Rightarrow> (BlockHeader \<Rightarrow> BlockHeader) \<Rightarrow> kheap \<Rightarrow> kheap" where
  "hset a f h = h\<lparr>hdr := (hdr h)(a := f (hdr h a))\<rparr>"

definition heap_memset :: "u64 \<Rightarrow> u8 \<Rightarrow> u64 \<Rightarrow> kheap \<Rightarrow> kheap" where
  "heap_memset p c n h = h\<lparr>bytes := \<lambda>a. if a - p < n then c else bytes h a\<rparr>"

definition heap_memcpy :: "u64 \<Rightarrow> u64 \<Rightarrow> u64 \<Rightarrow> kheap \<Rightarrow> kheap" where
  "heap_memcpy d p n h = h\<lparr>bytes := \<lambda>a. if a - d < n then bytes h (a - d + p) else bytes h a\<rparr>"

definition poisoned :: BlockHeader where
  "poisoned = \<lparr>magic = 0xCCCCCCCCCCCCCCCC, bsize = 0xCCCCCCCCCCCCCCCC, bfree = 0xCCCCCCCC,
     bnext = 0xCCCCCCCCCCCCCCCC, bprev = 0xCCCCCCCCCCCCCCCC\<rparr>"

section \<open>Operations\<close>

definition heap_grow :: "u64 \<Rightarrow> kheap \<Rightarrow> (int \<times> kheap) option" where
  "heap_grow min_bytes h =
     (let n = (min_bytes + PAGE_SIZE - 1) div PAGE_SIZE in
      do { r \<leftarrow> for_ret (\<lambda>_ h.
             if heap_current_end h \<ge> HEAP_MAX then Some (Inl (- 1, h)) else
             do { (phys, v) \<leftarrow> vmm_alloc_page (h_vmm h);
                  let h = h\<lparr>h_vmm := v\<rparr>;
                  if phys = 0 then Some (Inl (- 1, h)) else
                  do { v \<leftarrow> vmm_map_page (heap_current_end h) phys (VMM_FLAG_WRITABLE OR VMM_FLAG_NOEXEC) (h_vmm h);
                       Some (Inr (h\<lparr>h_vmm := v, heap_current_end := heap_current_end h + PAGE_SIZE\<rparr>)) } })
             [0..<unat n] h;
           Some (case r of Inl res \<Rightarrow> res | Inr h \<Rightarrow> (0, h)) })"

definition align_up :: "u64 \<Rightarrow> u64" where
  "align_up sz = (sz + ALIGN_SIZE - 1) AND NOT (ALIGN_SIZE - 1)"

definition kmalloc_init :: "kheap \<Rightarrow> kheap option" where
  "kmalloc_init h =
     do { let h = h\<lparr>heap_current_end := HEAP_START\<rparr>;
          (rc, h) \<leftarrow> heap_grow (HEAP_INIT_PAGES * PAGE_SIZE) h;
          if rc \<noteq> 0 then None else
          Some (hset HEAP_START (\<lambda>_. \<lparr>magic = BLOCK_MAGIC, bsize = HEAP_INIT_PAGES * PAGE_SIZE - HEADER_SIZE,
                   bfree = 1, bnext = 0, bprev = 0\<rparr>) (h\<lparr>heap_start_block := HEAP_START\<rparr>)) }"

definition split_block :: "u64 \<Rightarrow> u64 \<Rightarrow> kheap \<Rightarrow> kheap" where
  "split_block block sz h =
     (if bsize (hdr h block) < sz + HEADER_SIZE + ALIGN_SIZE then h else
      let remaining = bsize (hdr h block) - sz - HEADER_SIZE;
          new_block = block + HEADER_SIZE + sz;
          h = hset new_block (\<lambda>_. \<lparr>magic = BLOCK_MAGIC, bsize = remaining, bfree = 1,
                bnext = bnext (hdr h block), bprev = block\<rparr>) h;
          h = (if bnext (hdr h block) \<noteq> 0 then hset (bnext (hdr h block)) (bprev_update (\<lambda>_. new_block)) h else h)
      in hset block (\<lambda>b. b\<lparr>bnext := new_block, bsize := sz\<rparr>) h)"

definition block_allocate :: "u64 \<Rightarrow> u64 \<Rightarrow> u32 \<Rightarrow> kheap \<Rightarrow> u64 \<times> kheap" where
  "block_allocate block sz flags h =
     (let h = split_block block sz h;
          h = hset block (bfree_update (\<lambda>_. 0)) h;
          ptr = block + HEADER_SIZE;
          h = (if flags AND GFP_ZERO \<noteq> 0 then heap_memset ptr 0 sz h else h)
      in (ptr, h))"

partial_function (option) coalesce_forward :: "u64 \<Rightarrow> kheap \<Rightarrow> kheap option" where
  "coalesce_forward block h =
     (if bnext (hdr h block) \<noteq> 0 \<and> bfree (hdr h (bnext (hdr h block))) \<noteq> 0 then
        let absorbed = bnext (hdr h block);
            h = hset block (\<lambda>b. b\<lparr>bsize := bsize b + HEADER_SIZE + bsize (hdr h absorbed)\<rparr>) h;
            h = hset block (\<lambda>b. b\<lparr>bnext := bnext (hdr h absorbed)\<rparr>) h;
            h = (if bnext (hdr h absorbed) \<noteq> 0
                 then hset (bnext (hdr h absorbed)) (bprev_update (\<lambda>_. block)) h else h);
            h = heap_memset absorbed FREED_POISON HEADER_SIZE (hset absorbed (\<lambda>_. poisoned) h)
        in coalesce_forward block h
      else Some h)"

partial_function (option) last_block :: "kheap \<Rightarrow> u64 \<Rightarrow> u64 option" where
  "last_block h block = (if bnext (hdr h block) \<noteq> 0 then last_block h (bnext (hdr h block)) else Some block)"

definition heap_grow_for :: "u64 \<Rightarrow> kheap \<Rightarrow> (u64 \<times> kheap) option" where
  "heap_grow_for sz h =
     do { block \<leftarrow> last_block h (heap_start_block h);
          let need = (if bfree (hdr h block) \<noteq> 0 then sz - bsize (hdr h block) + HEADER_SIZE
                      else sz + 2 * HEADER_SIZE);
          let old_end = heap_current_end h;
          (rc, h) \<leftarrow> heap_grow need h;
          if rc \<noteq> 0 then Some (0, h) else
          let grown = heap_current_end h - old_end in
          if bfree (hdr h block) \<noteq> 0 then
            Some (block, hset block (\<lambda>b. b\<lparr>bsize := bsize b + grown\<rparr>) h)
          else
            let h = hset old_end (\<lambda>_. \<lparr>magic = BLOCK_MAGIC, bsize = grown - HEADER_SIZE, bfree = 1,
                      bnext = 0, bprev = block\<rparr>) h;
                h = hset block (bnext_update (\<lambda>_. old_end)) h
            in Some (old_end, h) }"

text \<open>The first-fit search of \<^verbatim>\<open>kmalloc\<close>: the block found, or 0; a corrupted header halts.\<close>

partial_function (option) find_fit :: "kheap \<Rightarrow> u64 \<Rightarrow> u64 \<Rightarrow> u64 option" where
  "find_fit h sz block =
     (if block = 0 then Some 0
      else if magic (hdr h block) \<noteq> BLOCK_MAGIC then None
      else if bfree (hdr h block) \<noteq> 0 \<and> bsize (hdr h block) \<ge> sz then Some block
      else find_fit h sz (bnext (hdr h block)))"

definition kmalloc :: "u64 \<Rightarrow> u32 \<Rightarrow> kheap \<Rightarrow> (u64 \<times> kheap) option" where
  "kmalloc sz flags h =
     (if sz = 0 then Some (0, h) else
      let sz = align_up sz in
      do { block \<leftarrow> find_fit h sz (heap_start_block h);
           if block \<noteq> 0 then Some (block_allocate block sz flags h) else
           do { (block, h) \<leftarrow> heap_grow_for sz h;
                if block = 0 then Some (0, h) else Some (block_allocate block sz flags h) } })"

definition kfree :: "u64 \<Rightarrow> kheap \<Rightarrow> kheap option" where
  "kfree ptr h =
     (if ptr = 0 then Some h else
      let block = ptr - HEADER_SIZE in
      if magic (hdr h block) \<noteq> BLOCK_MAGIC then None else
      if bfree (hdr h block) \<noteq> 0 then Some h else
      do { let h = heap_memset ptr FREED_POISON (bsize (hdr h block)) h;
           let h = hset block (bfree_update (\<lambda>_. 1)) h;
           h \<leftarrow> coalesce_forward block h;
           if bprev (hdr h block) \<noteq> 0 \<and> bfree (hdr h (bprev (hdr h block))) \<noteq> 0
           then coalesce_forward (bprev (hdr h block)) h else Some h })"

definition krealloc :: "u64 \<Rightarrow> u64 \<Rightarrow> kheap \<Rightarrow> (u64 \<times> kheap) option" where
  "krealloc ptr new_size h =
     (if ptr = 0 then kmalloc new_size GFP_KERNEL h else
      if new_size = 0 then do { h \<leftarrow> kfree ptr h; Some (0, h) } else
      let block = ptr - HEADER_SIZE in
      if magic (hdr h block) \<noteq> BLOCK_MAGIC then None else
      let new_size = align_up new_size in
      if bsize (hdr h block) \<ge> new_size then Some (ptr, split_block block new_size h) else
      if bnext (hdr h block) \<noteq> 0 \<and> bfree (hdr h (bnext (hdr h block))) \<noteq> 0 \<and>
         bsize (hdr h block) + HEADER_SIZE + bsize (hdr h (bnext (hdr h block))) \<ge> new_size then
        do { h \<leftarrow> coalesce_forward block h;
             let h = hset block (bfree_update (\<lambda>_. 0)) h;
             Some (ptr, split_block block new_size h) }
      else
        do { (new_ptr, h) \<leftarrow> kmalloc new_size GFP_KERNEL h;
             if new_ptr = 0 then Some (0, h) else
             do { let h = heap_memcpy new_ptr ptr (bsize (hdr h block)) h;
                  h \<leftarrow> kfree ptr h;
                  Some (new_ptr, h) } })"

record HeapStats =
  total_used :: u64
  total_free :: u64
  total_blocks :: u64
  free_blocks :: u64
  largest_free :: u64
  heap_mapped :: u64

partial_function (option) stats_from :: "kheap \<Rightarrow> u64 \<Rightarrow> HeapStats \<Rightarrow> HeapStats option" where
  "stats_from h block out =
     (if block = 0 then Some out else
      let out = out\<lparr>total_blocks := total_blocks out + 1\<rparr>;
          b = hdr h block;
          out = (if bfree b \<noteq> 0
                 then let out = out\<lparr>free_blocks := free_blocks out + 1, total_free := total_free out + bsize b\<rparr>
                      in if bsize b > largest_free out then out\<lparr>largest_free := bsize b\<rparr> else out
                 else out\<lparr>total_used := total_used out + bsize b\<rparr>)
      in stats_from h (bnext b) out)"

definition kmalloc_get_stats :: "kheap \<Rightarrow> HeapStats option" where
  "kmalloc_get_stats h =
     do { out \<leftarrow> stats_from h (heap_start_block h) \<lparr>total_used = 0, total_free = 0, total_blocks = 0,
            free_blocks = 0, largest_free = 0, heap_mapped = 0\<rparr>;
          Some (out\<lparr>heap_mapped := heap_current_end h - HEAP_START\<rparr>) }"

section \<open>Blocks as a list\<close>

type_synonym blk = "u64 \<times> u64 \<times> bool"

definition mk_hdr :: "u64 \<Rightarrow> bool \<Rightarrow> u64 \<Rightarrow> u64 \<Rightarrow> BlockHeader" where
  "mk_hdr sz f n p = \<lparr>magic = BLOCK_MAGIC, bsize = sz, bfree = (if f then 1 else 0), bnext = n, bprev = p\<rparr>"

lemma mk_hdr_sel [simp]:
  "magic (mk_hdr sz f n p) = BLOCK_MAGIC" "bsize (mk_hdr sz f n p) = sz"
  "bfree (mk_hdr sz f n p) = (if f then 1 else 0)" "bnext (mk_hdr sz f n p) = n" "bprev (mk_hdr sz f n p) = p"
  by (simp_all add: mk_hdr_def)

lemma mk_hdr_upd [simp]:
  "(mk_hdr sz f n p)\<lparr>bsize := sz'\<rparr> = mk_hdr sz' f n p" "(mk_hdr sz f n p)\<lparr>bnext := n'\<rparr> = mk_hdr sz f n' p"
  "(mk_hdr sz f n p)\<lparr>bprev := p'\<rparr> = mk_hdr sz f n p'" "(mk_hdr sz f n p)\<lparr>bfree := 0\<rparr> = mk_hdr sz False n p"
  "(mk_hdr sz f n p)\<lparr>bfree := 1\<rparr> = mk_hdr sz True n p"
  by (simp_all add: mk_hdr_def)

definition first_addr :: "blk list \<Rightarrow> u64 \<Rightarrow> u64" where
  "first_addr bs q = (case bs of [] \<Rightarrow> q | (a, _, _) # _ \<Rightarrow> a)"

definition last_addr :: "u64 \<Rightarrow> blk list \<Rightarrow> u64" where
  "last_addr p bs = (if bs = [] then p else fst (last bs))"

lemma first_addr_simps [simp]:
  "first_addr [] q = q" "first_addr ((a, sz, f) # bs) q = a"
  "first_addr (xs @ ys) q = first_addr xs (first_addr ys q)"
  by (auto simp: first_addr_def split: list.splits)

lemma last_addr_simps [simp]:
  "last_addr p [] = p" "last_addr p ((a, sz, f) # bs) = last_addr a bs"
  "last_addr p (xs @ ys) = last_addr (last_addr p xs) ys"
  by (auto simp: last_addr_def)

text \<open>\<open>seg H p bs q\<close>: the headers of \<open>bs\<close> are linked, with \<open>p\<close> before and \<open>q\<close> after them.\<close>

fun seg :: "(u64 \<Rightarrow> BlockHeader) \<Rightarrow> u64 \<Rightarrow> blk list \<Rightarrow> u64 \<Rightarrow> bool" where
  "seg H p [] q = True"
| "seg H p ((a, sz, f) # bs) q \<longleftrightarrow> H a = mk_hdr sz f (first_addr bs q) p \<and> seg H a bs q"

lemma seg_append: "seg H p (xs @ ys) q \<longleftrightarrow> seg H p xs (first_addr ys q) \<and> seg H (last_addr p xs) ys q"
  by (induction xs arbitrary: p) auto

lemma seg_frame: "(\<And>a. a \<in> fst ` set bs \<Longrightarrow> H' a = H a) \<Longrightarrow> seg H' p bs q = seg H p bs q"
  by (induction bs arbitrary: p) auto

lemma seg_reprev:
  assumes "seg H p bs q" "distinct (map fst bs)" "bs \<noteq> []"
  shows "seg (H(first_addr bs 0 := (H (first_addr bs 0))\<lparr>bprev := p'\<rparr>)) p' bs q"
proof -
  obtain a sz f cs where bs: "bs = (a, sz, f) # cs" using assms(3) by (metis first_addr_def list.exhaust prod_cases3)
  have "seg (H(a := (H a)\<lparr>bprev := p'\<rparr>)) a cs q = seg H a cs q"
    using assms(2) bs by (intro seg_frame) auto
  then show ?thesis using assms(1) bs by simp
qed

text \<open>\<open>spaced lo bs hi\<close>: the blocks lie in order, disjoint and 16-byte aligned between \<open>lo\<close> and \<open>hi\<close>.\<close>

definition block_end :: "blk \<Rightarrow> nat" where
  "block_end b = (case b of (a, sz, _) \<Rightarrow> unat a + 48 + unat sz)"

fun spaced :: "nat \<Rightarrow> blk list \<Rightarrow> nat \<Rightarrow> bool" where
  "spaced lo [] hi \<longleftrightarrow> lo \<le> hi"
| "spaced lo ((a, sz, f) # bs) hi \<longleftrightarrow>
     lo \<le> unat a \<and> unat a mod 16 = 0 \<and> unat sz mod 16 = 0 \<and> spaced (unat a + 48 + unat sz) bs hi"

fun fin :: "nat \<Rightarrow> blk list \<Rightarrow> nat" where
  "fin lo [] = lo"
| "fin lo ((a, sz, f) # bs) = fin (unat a + 48 + unat sz) bs"

lemma spaced_append: "spaced lo (xs @ ys) hi \<longleftrightarrow> spaced lo xs (fin lo xs) \<and> spaced (fin lo xs) ys hi"
  by (induction xs arbitrary: lo) auto

lemma spaced_le: "spaced lo bs hi \<Longrightarrow> lo \<le> hi"
  by (induction bs arbitrary: lo) fastforce+

lemma spaced_weaken: "spaced lo bs hi \<Longrightarrow> lo' \<le> lo \<Longrightarrow> hi \<le> hi' \<Longrightarrow> spaced lo' bs hi'"
  by (induction bs arbitrary: lo lo') auto

lemma spaced_mem:
  "spaced lo bs hi \<Longrightarrow> (a, sz, f) \<in> set bs \<Longrightarrow>
     lo \<le> unat a \<and> unat a + 48 + unat sz \<le> hi \<and> unat a mod 16 = 0 \<and> unat sz mod 16 = 0"
proof (induction bs arbitrary: lo)
  case (Cons b bs)
  obtain c n g where b: "b = (c, n, g)" by (cases b)
  show ?case
  proof (cases "b = (a, sz, f)")
    case True
    then show ?thesis using Cons.prems spaced_le by auto
  next
    case False
    then show ?thesis using Cons b by fastforce
  qed
qed simp

lemma spaced_distinct: "spaced lo bs hi \<Longrightarrow> distinct (map fst bs)"
proof (induction bs arbitrary: lo)
  case (Cons b bs)
  obtain c n g where b: "b = (c, n, g)" by (cases b)
  have "c \<noteq> fst x" if "x \<in> set bs" for x
    using spaced_mem [of "unat c + 48 + unat n" bs hi "fst x" "fst (snd x)" "snd (snd x)"] that Cons.prems b
    by auto
  then show ?case using Cons b by auto
qed simp

text \<open>Two different blocks of a spaced list do not overlap.\<close>

lemma spaced_disjoint:
  assumes "spaced lo bs hi" "b \<in> set bs" "c \<in> set bs" "b \<noteq> c"
  shows "block_end b \<le> unat (fst c) \<or> block_end c \<le> unat (fst b)"
  using assms
proof (induction bs arbitrary: lo)
  case (Cons x bs)
  obtain a n g where x: "x = (a, n, g)" by (cases x)
  have later: "block_end x \<le> unat (fst y)" if "y \<in> set bs" for y
    using spaced_mem [of "unat a + 48 + unat n" bs hi "fst y" "fst (snd y)" "snd (snd y)"] that Cons.prems x
    by (auto simp: block_end_def)
  consider "b = x" "c \<in> set bs" | "c = x" "b \<in> set bs" | "b \<in> set bs" "c \<in> set bs"
    using Cons.prems by auto
  then show ?case
  proof cases
    case 3
    then show ?thesis using Cons.IH [of "unat a + 48 + unat n"] Cons.prems x by simp
  qed (use later in auto)
qed simp

section \<open>The heap region and the representation\<close>

definition heap_region :: "u64 set \<Rightarrow> kheap \<Rightarrow> bool" where
  "heap_region R h \<longleftrightarrow>
     vmm_ok R (h_vmm h) \<and> kernel_pml4_phys (h_vmm h) \<in> R \<and> locked (vmm_lock (h_vmm h)) = 0 \<and>
     HEAP_START \<le> heap_current_end h \<and> heap_current_end h \<le> HEAP_MAX \<and>
     unat (heap_current_end h) mod 4096 = 0 \<and>
     (\<forall>v. HEAP_START \<le> v \<and> v < HEAP_MAX \<longrightarrow> small_page (h_vmm h) (kernel_pml4_phys (h_vmm h)) v) \<and>
     (\<forall>v. HEAP_START \<le> v \<and> v < heap_current_end h \<longrightarrow> translate (h_vmm h) (kernel_pml4_phys (h_vmm h)) v \<noteq> None)"

definition heap_rep :: "u64 set \<Rightarrow> kheap \<Rightarrow> blk list \<Rightarrow> bool" where
  "heap_rep R h bs \<longleftrightarrow>
     heap_region R h \<and> bs \<noteq> [] \<and> heap_start_block h = HEAP_START \<and> first_addr bs 0 = HEAP_START \<and>
     seg (hdr h) 0 bs 0 \<and> spaced (unat HEAP_START) bs (unat (heap_current_end h))"

text \<open>The allocated blocks: what a client of the heap owns.\<close>

definition live :: "blk list \<Rightarrow> (u64 \<times> u64) set" where
  "live bs = {(a, sz). (a, sz, False) \<in> set bs}"

lemma live_simps [simp]:
  "live [] = {}" "live ((a, sz, True) # bs) = live bs" "live ((a, sz, False) # bs) = insert (a, sz) (live bs)"
  "live (xs @ ys) = live xs \<union> live ys"
  by (auto simp: live_def)

definition all_free :: "blk list \<Rightarrow> bool" where
  "all_free bs \<longleftrightarrow> (\<forall>(a, sz, f) \<in> set bs. f)"

lemma all_free_live [simp]: "all_free bs \<Longrightarrow> live bs = {}"
  by (auto simp: all_free_def live_def)

lemma all_free_simps [simp]: "all_free []" "all_free ((a, sz, f) # bs) \<longleftrightarrow> f \<and> all_free bs"
  by (auto simp: all_free_def)

text \<open>The parts of the state that header surgery does not touch.\<close>

definition same_region :: "kheap \<Rightarrow> kheap \<Rightarrow> bool" where
  "same_region h h' \<longleftrightarrow> h_vmm h' = h_vmm h \<and> heap_start_block h' = heap_start_block h \<and>
     heap_current_end h' = heap_current_end h"

lemma hset_simps [simp]:
  "hdr (hset a f h) = (hdr h)(a := f (hdr h a))" "bytes (hset a f h) = bytes h"
  "h_vmm (hset a f h) = h_vmm h" "heap_start_block (hset a f h) = heap_start_block h"
  "heap_current_end (hset a f h) = heap_current_end h"
  by (simp_all add: hset_def)

lemma memset_simps [simp]:
  "hdr (heap_memset p c n h) = hdr h" "h_vmm (heap_memset p c n h) = h_vmm h"
  "heap_start_block (heap_memset p c n h) = heap_start_block h"
  "heap_current_end (heap_memset p c n h) = heap_current_end h"
  "bytes (heap_memset p c n h) = (\<lambda>a. if a - p < n then c else bytes h a)"
  by (simp_all add: heap_memset_def)

lemma heap_rep_cong:
  "heap_rep R h bs \<Longrightarrow> same_region h h' \<Longrightarrow> seg (hdr h') 0 bs' 0 \<Longrightarrow>
   spaced (unat HEAP_START) bs' (unat (heap_current_end h)) \<Longrightarrow> bs' \<noteq> [] \<Longrightarrow> first_addr bs' 0 = HEAP_START \<Longrightarrow>
   heap_rep R h' bs'"
  by (simp add: heap_rep_def same_region_def heap_region_def)

lemma heap_end_bound: "heap_region R h \<Longrightarrow> unat (heap_current_end h) \<le> 0xFFFFFFFFE0000000"
  by (simp add: heap_region_def word_le_nat_alt)

text \<open>Where the block in the middle of the list is, and what is around it.\<close>

lemma rep_middle:
  assumes "heap_rep R h (xs @ (a, sz, f) # ys)"
  shows "hdr h a = mk_hdr sz f (first_addr ys 0) (last_addr 0 xs)"
    and "seg (hdr h) 0 xs a" "seg (hdr h) a ys 0"
    and "distinct (map fst (xs @ (a, sz, f) # ys))"
    and "unat HEAP_START \<le> unat a" "unat a + 48 + unat sz \<le> unat (heap_current_end h)"
    and "unat a mod 16 = 0" "unat sz mod 16 = 0"
    and "spaced (unat HEAP_START) xs (fin (unat HEAP_START) xs)" "fin (unat HEAP_START) xs \<le> unat a"
    and "spaced (unat a + 48 + unat sz) ys (unat (heap_current_end h))"
proof -
  have sg: "seg (hdr h) 0 (xs @ (a, sz, f) # ys) 0"
    and sp: "spaced (unat HEAP_START) (xs @ (a, sz, f) # ys) (unat (heap_current_end h))"
    using assms by (simp_all add: heap_rep_def)
  show "hdr h a = mk_hdr sz f (first_addr ys 0) (last_addr 0 xs)" "seg (hdr h) 0 xs a" "seg (hdr h) a ys 0"
    using sg by (simp_all add: seg_append)
  show "distinct (map fst (xs @ (a, sz, f) # ys))" by (rule spaced_distinct [OF sp])
  show "unat HEAP_START \<le> unat a" "unat a + 48 + unat sz \<le> unat (heap_current_end h)"
    "unat a mod 16 = 0" "unat sz mod 16 = 0"
    using spaced_mem [OF sp, of a sz f] by simp_all
  show "spaced (unat HEAP_START) xs (fin (unat HEAP_START) xs)" "fin (unat HEAP_START) xs \<le> unat a"
    "spaced (unat a + 48 + unat sz) ys (unat (heap_current_end h))"
    using sp by (simp_all add: spaced_append)
qed

lemma rep_rebuild:
  assumes rep: "heap_rep R h (xs @ (a, sz, f) # ys)" and same: "same_region h h'"
    and sg: "seg (hdr h') 0 (xs @ (a, sz', f') # zs) 0"
    and sp: "unat sz' mod 16 = 0" "spaced (unat a + 48 + unat sz') zs (unat (heap_current_end h))"
  shows "heap_rep R h' (xs @ (a, sz', f') # zs)"
proof (rule heap_rep_cong [OF rep same sg])
  show "spaced (unat HEAP_START) (xs @ (a, sz', f') # zs) (unat (heap_current_end h))"
    using rep_middle [OF rep] sp by (simp add: spaced_append)
  show "first_addr (xs @ (a, sz', f') # zs) 0 = HEAP_START"
    using rep by (simp add: heap_rep_def)
qed simp

section \<open>Splitting and marking\<close>

lemma mark_rep:
  assumes rep: "heap_rep R h (xs @ (a, sz, f) # ys)"
    and h': "same_region h h'" "hdr h' = (hdr h)(a := mk_hdr sz f' (bnext (hdr h a)) (bprev (hdr h a)))"
  shows "heap_rep R h' (xs @ (a, sz, f') # ys)"
proof -
  note m = rep_middle [OF rep]
  have "seg (hdr h') 0 xs a = seg (hdr h) 0 xs a" "seg (hdr h') a ys 0 = seg (hdr h) a ys 0"
    using m(4) h'(2) by (auto intro!: seg_frame simp: rev_image_eqI)
  then have "seg (hdr h') 0 (xs @ (a, sz, f') # ys) 0"
    using m(1-3) h'(2) by (simp add: seg_append)
  then show ?thesis using m(8,11) by (rule rep_rebuild [OF rep h'(1)])
qed

lemma seg_new_prev:
  assumes sg: "seg H a ys 0" and d: "distinct (map fst ys)" and nz: "\<forall>c \<in> fst ` set ys. c \<noteq> 0"
    and H': "\<And>c. c \<in> fst ` set ys \<Longrightarrow> c \<noteq> first_addr ys 0 \<Longrightarrow> H' c = H c"
      "first_addr ys 0 \<noteq> 0 \<Longrightarrow> H' (first_addr ys 0) = (H (first_addr ys 0))\<lparr>bprev := p\<rparr>"
  shows "seg H' p ys 0"
proof (cases ys)
  case (Cons y ys')
  then have ne: "ys \<noteq> []" and fst_in: "first_addr ys 0 \<in> fst ` set ys"
    by (auto simp: first_addr_def split: prod.splits)
  have "seg (H(first_addr ys 0 := (H (first_addr ys 0))\<lparr>bprev := p\<rparr>)) p ys 0"
    by (rule seg_reprev [OF sg d ne])
  then show ?thesis
    using H' fst_in nz by (subst seg_frame [of ys H' "H(first_addr ys 0 := (H (first_addr ys 0))\<lparr>bprev := p\<rparr>)"]) auto
qed simp

lemma rep_nonzero: "heap_rep R h bs \<Longrightarrow> c \<in> fst ` set bs \<Longrightarrow> c \<noteq> 0"
  by (auto simp: heap_rep_def dest!: spaced_mem)

lemma first_addr_mem: "first_addr bs 0 \<noteq> 0 \<Longrightarrow> first_addr bs 0 \<in> fst ` set bs"
  by (cases bs) (auto simp: first_addr_def)

text \<open>
  Replacing the blocks \<open>old\<close> behind a block by \<open>new\<close>: the headers before and after stay, except for
  the back link of the block that follows.
\<close>

lemma rep_splice:
  assumes rep: "heap_rep R h (xs @ (a, sz, f) # old @ ys)" and same: "same_region h h'"
    and Ha: "hdr h' a = mk_hdr sz' f' (first_addr new (first_addr ys 0)) (last_addr 0 xs)"
    and new: "seg (hdr h') a new (first_addr ys 0)"
    and Hf: "first_addr ys 0 \<noteq> 0 \<Longrightarrow> hdr h' (first_addr ys 0) = (hdr h (first_addr ys 0))\<lparr>bprev := last_addr a new\<rparr>"
    and H: "\<And>c. c \<in> fst ` (set xs \<union> set ys) \<Longrightarrow> c \<noteq> first_addr ys 0 \<Longrightarrow> hdr h' c = hdr h c"
    and sp: "unat sz' mod 16 = 0" "spaced (unat a + 48 + unat sz') (new @ ys) (unat (heap_current_end h))"
  shows "heap_rep R h' (xs @ (a, sz', f') # new @ ys)"
proof (rule rep_rebuild [OF rep same _ sp])
  note m = rep_middle [OF rep]
  have nz: "\<forall>c \<in> fst ` set ys. c \<noteq> 0"
  proof
    fix c assume "c \<in> fst ` set ys"
    then have "c \<in> fst ` set (xs @ (a, sz, f) # old @ ys)" by auto
    then show "c \<noteq> 0" by (rule rep_nonzero [OF rep])
  qed
  have ysd: "seg (hdr h) (last_addr a old) ys 0" "distinct (map fst ys)" using m(3,4) by (auto simp: seg_append)
  have "seg (hdr h') (last_addr a new) ys 0"
    by (rule seg_new_prev [OF ysd nz]) (use H Hf in \<open>simp_all add: image_Un\<close>)
  moreover have "c \<noteq> first_addr ys 0" if "c \<in> fst ` set xs" for c
  proof
    assume "c = first_addr ys 0"
    then have "c \<in> fst ` set ys" using first_addr_mem [of ys] rep_nonzero [OF rep, of c] that by (auto simp: image_iff)
    then show False using m(4) that by auto
  qed
  then have "seg (hdr h') 0 xs a"
    using m(2) H seg_frame [of xs "hdr h'" "hdr h" 0 a] by (simp add: image_Un)
  ultimately show "seg (hdr h') 0 (xs @ (a, sz', f') # new @ ys) 0"
    using Ha new by (simp add: seg_append)
qed

text \<open>Addresses in front of and behind a block.\<close>

lemma rep_around:
  assumes rep: "heap_rep R h (xs @ (a, sz, f) # ys)"
  shows "c \<in> fst ` set xs \<Longrightarrow> unat c + 48 \<le> unat a" "c \<in> fst ` set ys \<Longrightarrow> unat a + 48 + unat sz \<le> unat c"
    and "unat sz \<le> 0x20000000" "unat a + 48 + unat sz \<le> 0xFFFFFFFFE0000000"
proof -
  note m = rep_middle [OF rep]
  show "c \<in> fst ` set xs \<Longrightarrow> unat c + 48 \<le> unat a" using spaced_mem [OF m(9)] m(10) by fastforce
  show "c \<in> fst ` set ys \<Longrightarrow> unat a + 48 + unat sz \<le> unat c" using spaced_mem [OF m(11)] by fastforce
  show "unat sz \<le> 0x20000000" "unat a + 48 + unat sz \<le> 0xFFFFFFFFE0000000"
    using m(5,6) heap_end_bound [of R h] rep by (auto simp: heap_rep_def)
qed

lemma split_same: "same_region h (split_block a n h)" "bytes (split_block a n h) = bytes h"
  for h :: kheap and a n :: u64
  by (simp_all add: split_block_def same_region_def Let_def)

lemma split_rep:
  assumes rep: "heap_rep R h (xs @ (a, sz, f) # ys)" and n: "unat n mod 16 = 0" "n \<le> sz"
  shows "\<exists>sz' zs. heap_rep R (split_block a n h) (xs @ (a, sz', f) # zs @ ys) \<and> n \<le> sz' \<and> sz' \<le> sz \<and> all_free zs"
proof (cases "sz < n + HEADER_SIZE + ALIGN_SIZE")
  case True
  then have "split_block a n h = h" using rep_middle(1) [OF rep] by (simp add: split_block_def)
  then show ?thesis using rep n(2) by (intro exI [of _ sz] exI [of _ "[]"]) simp
next
  case False
  note m = rep_middle [OF rep] and ar = rep_around [OF rep]
  have n': "unat n \<le> unat sz" using n(2) by (simp add: word_le_nat_alt)
  have e: "n + HEADER_SIZE + ALIGN_SIZE = n + 64" by simp
  have "unat (n + 64) = unat n + 64" using n' ar(3) by (subst unat_plus_no_overflow) simp_all
  then have big: "unat n + 64 \<le> unat sz" using False by (simp only: e word_less_nat_alt not_less)
  define nb where "nb = a + HEADER_SIZE + n"
  define rem where "rem = sz - n - HEADER_SIZE"
  have unb: "unat nb = unat a + 48 + unat n"
    using ar(4) big unat_plus_no_overflow [of a 48] by (simp add: nb_def unat_plus_no_overflow)
  have urem: "unat rem = unat sz - unat n - 48" using big by (simp add: rem_def unat_sub_if')
  let ?h' = "split_block a n h" and ?f = "first_addr ys 0"
  have off: "c \<noteq> nb \<and> c \<noteq> a" if "c \<in> fst ` (set xs \<union> set ys)" for c
  proof -
    have "unat c + 48 \<le> unat a \<or> unat a + 48 + unat sz \<le> unat c"
      using that ar(1,2) [of c] by (auto simp only: image_Un Un_iff)
    then show ?thesis using unb big by auto
  qed
  have f_off: "?f \<noteq> 0 \<Longrightarrow> ?f \<noteq> nb \<and> ?f \<noteq> a \<and> a \<noteq> ?f \<and> nb \<noteq> ?f"
    using off [of ?f] first_addr_mem [of ys] by (auto simp only: image_Un)
  have nbne: "nb \<noteq> a" using unb by auto
  have H': "hdr ?h' = (let H1 = (hdr h)(nb := mk_hdr rem True ?f a);
              H2 = (if ?f \<noteq> 0 then H1(?f := (H1 ?f)\<lparr>bprev := nb\<rparr>) else H1)
            in H2(a := mk_hdr n f nb (last_addr 0 xs)))"
    unfolding split_block_def Let_def nb_def [symmetric] using False m(1) nbne f_off
    by (cases "?f = 0") (simp_all add: rem_def mk_hdr_def)
  have "heap_rep R ?h' (xs @ (a, n, f) # [(nb, rem, True)] @ ys)"
  proof (rule rep_splice [of R h xs a sz f "[]", OF _ split_same(1)])
    show "spaced (unat a + 48 + unat n) ([(nb, rem, True)] @ ys) (unat (heap_current_end h))"
      using unb urem big m(7,8,11) n(1) by (auto simp: mod_eq_0_iff_dvd algebra_simps)
    show "hdr ?h' c = hdr h c" if "c \<in> fst ` (set xs \<union> set ys)" "c \<noteq> ?f" for c
      using off [OF that(1)] that(2) by (simp add: H' Let_def)
  qed (use rep n(1) nbne f_off in \<open>simp_all add: H' Let_def\<close>)
  then show ?thesis using n(2) by (intro exI [of _ n] exI [of _ "[(nb, rem, True)]"]) simp
qed

lemma block_allocate_rep:
  assumes rep: "heap_rep R h (xs @ (a, sz, True) # ys)" and n: "unat n mod 16 = 0" "n \<le> sz"
  shows "\<exists>h' sz' zs. block_allocate a n flags h = (a + HEADER_SIZE, h') \<and>
     heap_rep R h' (xs @ (a, sz', False) # zs @ ys) \<and> n \<le> sz' \<and> all_free zs \<and> same_region h h' \<and>
     bytes h' = (\<lambda>b. if flags AND GFP_ZERO \<noteq> 0 \<and> b - (a + HEADER_SIZE) < n then 0 else bytes h b)"
proof -
  obtain sz' zs where s: "heap_rep R (split_block a n h) (xs @ (a, sz', True) # zs @ ys)" "n \<le> sz'" "all_free zs"
    using split_rep [OF rep n] by blast
  let ?h1 = "split_block a n h"
  let ?h' = "snd (block_allocate a n flags h)"
  have "same_region ?h1 ?h'" "hdr ?h' = (hdr ?h1)(a := mk_hdr sz' False (bnext (hdr ?h1 a)) (bprev (hdr ?h1 a)))"
    using rep_middle(1) [OF s(1)] by (simp_all add: block_allocate_def Let_def same_region_def)
  then have "heap_rep R ?h' (xs @ (a, sz', False) # zs @ ys)" by (rule mark_rep [OF s(1)])
  moreover have "same_region h ?h'" "fst (block_allocate a n flags h) = a + HEADER_SIZE"
    "bytes ?h' = (\<lambda>b. if flags AND GFP_ZERO \<noteq> 0 \<and> b - (a + HEADER_SIZE) < n then 0 else bytes h b)"
    using split_same(1) [of h a n] by (simp_all add: block_allocate_def Let_def same_region_def split_same(2) cong: if_cong)
  ultimately show ?thesis
    using s(2,3) by (intro exI [of _ ?h'] exI [of _ sz'] exI [of _ zs]) (simp add: prod_eq_iff)
qed

section \<open>Coalescing\<close>

text \<open>One round of the loop: the free block \<open>c\<close> that follows is absorbed.\<close>

definition absorb :: "u64 \<Rightarrow> kheap \<Rightarrow> kheap" where
  "absorb block h =
     (let absorbed = bnext (hdr h block);
          h = hset block (\<lambda>b. b\<lparr>bsize := bsize b + HEADER_SIZE + bsize (hdr h absorbed)\<rparr>) h;
          h = hset block (\<lambda>b. b\<lparr>bnext := bnext (hdr h absorbed)\<rparr>) h;
          h = (if bnext (hdr h absorbed) \<noteq> 0
               then hset (bnext (hdr h absorbed)) (bprev_update (\<lambda>_. block)) h else h)
      in heap_memset absorbed FREED_POISON HEADER_SIZE (hset absorbed (\<lambda>_. poisoned) h))"

lemma coalesce_forward_absorb:
  "coalesce_forward block h =
     (if bnext (hdr h block) \<noteq> 0 \<and> bfree (hdr h (bnext (hdr h block))) \<noteq> 0
      then coalesce_forward block (absorb block h) else Some h)"
  by (subst coalesce_forward.simps) (simp only: absorb_def Let_def)

lemma absorb_same: "same_region h (absorb a h)"
  by (simp add: absorb_def same_region_def Let_def)

lemma absorb_rep:
  assumes rep: "heap_rep R h (xs @ (a, sz, f) # (c, n, True) # ys)"
  shows "\<exists>sz'. heap_rep R (absorb a h) (xs @ (a, sz', f) # ys) \<and> unat sz' = unat sz + 48 + unat n"
    and "bytes (absorb a h) = (\<lambda>b. if b - c < HEADER_SIZE then FREED_POISON else bytes h b)"
proof -
  note m = rep_middle [OF rep] and ar = rep_around [OF rep]
  have rep2: "heap_rep R h ((xs @ [(a, sz, f)]) @ (c, n, True) # ys)" using rep by simp
  note m2 = rep_middle [OF rep2] and ar2 = rep_around [OF rep2]
  let ?f = "first_addr ys 0"
  have ca: "unat a + 48 + unat sz \<le> unat c" using m(11) by simp
  define sz' where "sz' = sz + HEADER_SIZE + n"
  have u: "unat sz' = unat sz + 48 + unat n"
    using ar(3) ar2(3) unat_plus_no_overflow [of sz 48] by (simp add: sz'_def unat_plus_no_overflow)
  have off: "b \<noteq> c \<and> b \<noteq> a" if "b \<in> fst ` (set xs \<union> set ys)" for b
  proof -
    have "unat b + 48 \<le> unat a \<or> unat c + 48 + unat n \<le> unat b"
      using that ar(1) [of b] ar2(2) [of b] by (auto simp only: image_Un Un_iff)
    then show ?thesis using ca by auto
  qed
  have f_off: "?f \<noteq> 0 \<Longrightarrow> ?f \<noteq> c \<and> ?f \<noteq> a \<and> a \<noteq> ?f \<and> c \<noteq> ?f"
    using off [of ?f] first_addr_mem [of ys] by (auto simp only: image_Un)
  have ne: "c \<noteq> a" "a \<noteq> c" using ca by auto
  have Ha: "hdr h a = mk_hdr sz f c (last_addr 0 xs)" and Hc: "hdr h c = mk_hdr n True ?f a"
    using m(1) m2(1) by simp_all
  have H': "hdr (absorb a h) = (let K = (hdr h)(a := mk_hdr sz' f ?f (last_addr 0 xs));
              K = (if ?f \<noteq> 0 then K(?f := (K ?f)\<lparr>bprev := a\<rparr>) else K) in K(c := poisoned))"
    unfolding absorb_def Let_def using f_off ne
    by (cases "?f = 0") (simp_all add: Ha Hc sz'_def)
  have "heap_rep R (absorb a h) (xs @ (a, sz', f) # [] @ ys)"
  proof (rule rep_splice [of R h xs a sz f "[(c, n, True)]", OF _ absorb_same])
    show "spaced (unat a + 48 + unat sz') ([] @ ys) (unat (heap_current_end h))"
      using m2(11) ca u by (auto intro: spaced_weaken)
    show "unat sz' mod 16 = 0" using u m(8) m2(8) by presburger
    show "hdr (absorb a h) b = hdr h b" if "b \<in> fst ` (set xs \<union> set ys)" "b \<noteq> ?f" for b
      using off [OF that(1)] that(2) by (simp add: H' Let_def)
  qed (use rep ne f_off in \<open>simp_all add: H' Let_def\<close>)
  then show "\<exists>sz'. heap_rep R (absorb a h) (xs @ (a, sz', f) # ys) \<and> unat sz' = unat sz + 48 + unat n"
    using u by (intro exI [of _ sz']) simp
  show "bytes (absorb a h) = (\<lambda>b. if b - c < HEADER_SIZE then FREED_POISON else bytes h b)"
    using Ha by (simp add: absorb_def Let_def cong: if_cong)
qed

lemma coalesce_rep:
  assumes "heap_rep R h (xs @ (a, sz, f) # ys)"
  shows "\<exists>h' sz' zs ys'. coalesce_forward a h = Some h' \<and> ys = zs @ ys' \<and> all_free zs \<and>
     (ys' = [] \<or> \<not> snd (snd (hd ys'))) \<and> heap_rep R h' (xs @ (a, sz', f) # ys') \<and> sz \<le> sz' \<and>
     (zs \<noteq> [] \<longrightarrow> unat sz + 48 + unat (fst (snd (hd zs))) \<le> unat sz') \<and>
     same_region h h' \<and> (\<forall>b. (\<forall>c \<in> fst ` set zs. \<not> b - c < HEADER_SIZE) \<longrightarrow> bytes h' b = bytes h b)"
  using assms
proof (induction ys arbitrary: h sz)
  case Nil
  then have "coalesce_forward a h = Some h"
    using rep_middle(1) [OF Nil] by (simp add: coalesce_forward_absorb)
  then show ?case using Nil by (intro exI [of _ h] exI [of _ sz] exI [of _ "[]"]) (simp add: same_region_def)
next
  case (Cons y ys)
  obtain c n g where y: "y = (c, n, g)" by (cases y)
  have rep: "heap_rep R h (xs @ (a, sz, f) # (c, n, g) # ys)" using Cons.prems y by simp
  have rep2: "heap_rep R h ((xs @ [(a, sz, f)]) @ (c, n, g) # ys)" using rep by simp
  have Ha: "hdr h a = mk_hdr sz f c (last_addr 0 xs)" and Hc: "hdr h c = mk_hdr n g (first_addr ys 0) a"
    using rep_middle(1) [OF rep] rep_middle(1) [OF rep2] by simp_all
  have c0: "c \<noteq> 0" using rep_nonzero [OF rep, of c] by simp
  show ?case
  proof (cases g)
    case False
    then have "coalesce_forward a h = Some h" using Ha Hc by (simp add: coalesce_forward_absorb)
    then show ?thesis
      using Cons.prems False y
      by (intro exI [of _ h] exI [of _ sz] exI [of _ "[]"] exI [of _ "y # ys"]) (simp add: same_region_def)
  next
    case True
    let ?h1 = "absorb a h"
    have repT: "heap_rep R h (xs @ (a, sz, f) # (c, n, True) # ys)" using rep True by simp
    obtain sz1 where sz1: "heap_rep R ?h1 (xs @ (a, sz1, f) # ys)" "unat sz1 = unat sz + 48 + unat n"
      using absorb_rep(1) [OF repT] by blast
    have b1: "bytes ?h1 = (\<lambda>b. if b - c < HEADER_SIZE then FREED_POISON else bytes h b)"
      by (rule absorb_rep(2) [OF repT])
    obtain h' sz' zs ys' where IH: "coalesce_forward a ?h1 = Some h'" "ys = zs @ ys'" "all_free zs"
      "ys' = [] \<or> \<not> snd (snd (hd ys'))" "heap_rep R h' (xs @ (a, sz', f) # ys')" "sz1 \<le> sz'" "same_region ?h1 h'"
      "\<forall>b. (\<forall>c \<in> fst ` set zs. \<not> b - c < HEADER_SIZE) \<longrightarrow> bytes h' b = bytes ?h1 b"
      using Cons.IH [OF sz1(1)] by blast
    have "coalesce_forward a h = Some h'"
      using Ha Hc c0 True IH(1) by (subst coalesce_forward_absorb) simp
    moreover have "unat sz + 48 + unat n \<le> unat sz'" "sz \<le> sz'"
      using sz1(2) IH(6) by (auto simp: word_le_nat_alt)
    moreover have "same_region h h'" using IH(7) absorb_same [of h a] by (simp add: same_region_def)
    moreover have "\<forall>b. (\<forall>c \<in> fst ` set (y # zs). \<not> b - c < HEADER_SIZE) \<longrightarrow> bytes h' b = bytes h b"
      using IH(8) b1 y by auto
    ultimately show ?thesis
      using IH(2-5) y True
      by (intro exI [of _ h'] exI [of _ sz'] exI [of _ "y # zs"] exI [of _ ys']) auto
  qed
qed

section \<open>Searching and growing\<close>

definition fits :: "u64 \<Rightarrow> blk \<Rightarrow> bool" where
  "fits n b \<longleftrightarrow> snd (snd b) \<and> n \<le> fst (snd b)"

lemma fits_simp [simp]: "fits n (a, sz, f) \<longleftrightarrow> f \<and> n \<le> sz"
  by (simp add: fits_def)

lemma find_fit_list:
  "seg (hdr h) p bs 0 \<Longrightarrow> (\<forall>c \<in> fst ` set bs. c \<noteq> 0) \<Longrightarrow>
   find_fit h n (first_addr bs 0) = Some (case List.find (fits n) bs of None \<Rightarrow> 0 | Some b \<Rightarrow> fst b)"
proof (induction bs arbitrary: p)
  case Nil
  then show ?case by (simp add: find_fit.simps)
next
  case (Cons b bs)
  obtain a sz f where b: "b = (a, sz, f)" by (cases b)
  then show ?case using Cons by (subst find_fit.simps) auto
qed

lemma find_fit_rep:
  assumes rep: "heap_rep R h bs"
  shows "(\<exists>xs a sz ys. bs = xs @ (a, sz, True) # ys \<and> n \<le> sz \<and> (\<forall>b \<in> set xs. \<not> fits n b) \<and>
            find_fit h n (heap_start_block h) = Some a \<and> a \<noteq> 0) \<or>
         (\<forall>b \<in> set bs. \<not> fits n b) \<and> find_fit h n (heap_start_block h) = Some 0"
proof -
  have ff: "find_fit h n (heap_start_block h) = Some (case List.find (fits n) bs of None \<Rightarrow> 0 | Some b \<Rightarrow> fst b)"
  proof -
    have "\<forall>c \<in> fst ` set bs. c \<noteq> 0" using rep_nonzero [OF rep] by blast
    then show ?thesis using find_fit_list [of h 0 bs n] rep by (simp add: heap_rep_def)
  qed
  show ?thesis
  proof (cases "List.find (fits n) bs")
    case None
    then have "find_fit h n (heap_start_block h) = Some 0" using ff by simp
    moreover have "\<forall>b \<in> set bs. \<not> fits n b" using None by (auto simp: find_None_iff)
    ultimately show ?thesis by blast
  next
    case (Some b)
    obtain a sz f where b: "b = (a, sz, f)" by (cases b)
    obtain i where i: "i < length bs" "fits n (bs ! i)" "b = bs ! i" "\<forall>j < i. \<not> fits n (bs ! j)"
      using Some by (auto simp: find_Some_iff)
    have split: "bs = take i bs @ b # drop (Suc i) bs" using i(1,3) by (simp add: id_take_nth_drop)
    have f: "f" "n \<le> sz" using i(2) unfolding i(3) [symmetric] b by simp_all
    have "\<forall>x \<in> set (take i bs). \<not> fits n x"
    proof
      fix x assume "x \<in> set (take i bs)"
      then obtain j where "j < i" "x = bs ! j" by (auto simp: in_set_conv_nth)
      then show "\<not> fits n x" using i(4) by blast
    qed
    moreover have "a \<noteq> 0" using rep_nonzero [OF rep, of a] i(1,3) b by (metis fst_conv image_eqI nth_mem)
    ultimately show ?thesis using ff Some b f split by (intro disjI1 exI [of _ "take i bs"]) auto
  qed
qed

lemma last_block_list:
  "seg (hdr h) p bs 0 \<Longrightarrow> (\<forall>c \<in> fst ` set bs. c \<noteq> 0) \<Longrightarrow> bs \<noteq> [] \<Longrightarrow>
   last_block h (first_addr bs 0) = Some (fst (last bs))"
proof (induction bs arbitrary: p)
  case (Cons b bs)
  obtain a sz f where b: "b = (a, sz, f)" by (cases b)
  show ?case
  proof (cases bs)
    case Nil
    then show ?thesis using Cons b by (simp add: last_block.simps)
  next
    case (Cons c cs)
    then have "first_addr bs 0 \<noteq> 0" using Cons.prems(2) by (cases c) auto
    then show ?thesis using Cons.IH [of a] Cons.prems b Cons by (subst last_block.simps) auto
  qed
qed simp

text \<open>All addresses of one page have the same path through the tables.\<close>

lemma path_same_page: "drop_bit 12 v = drop_bit 12 w \<Longrightarrow> path v = path w"
proof -
  assume a: "drop_bit 12 v = drop_bit 12 w"
  have "drop_bit (k + 12) v = drop_bit (k + 12) w" for k using a by (metis drop_bit_drop_bit)
  from this [of 27] this [of 18] this [of 9] a show ?thesis
    by (simp add: path_def PML4_INDEX_def PDPT_INDEX_def PD_INDEX_def PT_INDEX_def)
qed

lemma same_page:
  fixes v e :: u64
  assumes "unat e mod 4096 = 0" "e \<le> v" "unat v < unat e + 4096"
  shows "drop_bit 12 v = drop_bit 12 e"
proof -
  have "unat v div 4096 = unat e div 4096" using assms by (auto simp: word_le_nat_alt)
  then have "v div 4096 = e div 4096" by (simp add: word_unat_eq_iff unat_div)
  then show ?thesis by (simp add: drop_bit_eq_div)
qed

definition grown_to :: "u64 set \<Rightarrow> kheap \<Rightarrow> kheap \<Rightarrow> bool" where
  "grown_to R h h' \<longleftrightarrow> heap_region R h' \<and> hdr h' = hdr h \<and> bytes h' = bytes h \<and>
     heap_start_block h' = heap_start_block h \<and> heap_current_end h \<le> heap_current_end h'"

text \<open>Mapping one more page at the end of the region.\<close>

lemma grow_page:
  assumes reg: "heap_region R h" and room: "\<not> heap_current_end h \<ge> HEAP_MAX" and mem: "4 \<le> card (frees (h_vmm h))"
  shows "\<exists>phys v v'. vmm_alloc_page (h_vmm h) = Some (phys, v) \<and> phys \<noteq> 0 \<and>
     vmm_map_page (heap_current_end h) phys flags v = Some v' \<and>
     card (frees (h_vmm h)) \<le> card (frees v') + 4 \<and>
     heap_region R (h\<lparr>h_vmm := v', heap_current_end := heap_current_end h + PAGE_SIZE\<rparr>)"
proof -
  let ?s = "h_vmm h" and ?e = "heap_current_end h" and ?k = "kernel_pml4_phys (h_vmm h)"
  have ok: "vmm_ok R ?s" and kR: "?k \<in> R" and lk: "locked (vmm_lock ?s) = 0"
    and al: "unat ?e mod 4096 = 0" and lo: "HEAP_START \<le> ?e"
    using reg by (simp_all add: heap_region_def)
  have ne: "frees ?s \<noteq> {}" using mem by auto
  obtain n pm where n: "vmm_alloc_page ?s = Some (n, ?s\<lparr>vmm_pmm := pm\<rparr>)" "n \<noteq> 0"
    "unat n div 4096 \<in> frees ?s" "free_set pm = frees ?s - {unat n div 4096}"
    "grows R 1 ?s (?s\<lparr>vmm_pmm := pm\<rparr>)"
    using vmm_alloc_page_spec [OF ok ne] by blast
  let ?v = "?s\<lparr>vmm_pmm := pm\<rparr>"
  have tr: "translate ?v r x = translate ?s r x" for r x by (simp add: translate_def)
  have ev: "HEAP_START \<le> ?e \<and> ?e < HEAP_MAX" using lo room by simp
  then have small: "small_page ?v ?k ?e" using reg tr by (simp add: heap_region_def small_page_def)
  have card: "card (frees ?s) = card (frees ?v) + 1"
    using n(4) card.remove [OF finite_free_set n(3)] by simp
  obtain v' where v': "vmm_map_page ?e n flags ?v = Some v'" "vmm_ok R v'" "locked (vmm_lock v') = 0"
    "kernel_pml4_phys v' = ?k" "card (frees ?v) \<le> card (frees v') + 3"
    "\<forall>r' \<in> R. \<forall>x. visible ?k r' x \<longrightarrow> translate v' r' x =
       (if r' = ?k \<and> path x = path ?e then Some (n OR vmm_flags_to_pte flags, []) else translate ?s r' x)"
    using vmm_map_page_spec [of R ?v ?e n flags] n(5) kR lk small mem card by (auto simp: grows_def tr)
  have up: "unat (?e + PAGE_SIZE) = unat ?e + 4096"
    using room al by (subst unat_plus_no_overflow) (auto simp: word_le_nat_alt)
  have ue: "unat ?e < 0xFFFFFFFFE0000000" using room by (simp add: word_le_nat_alt)
  have "4096 dvd unat ?e" using al by (simp add: dvd_eq_mod_eq_0)
  then obtain j where "unat ?e = 4096 * j" ..
  with ue have top: "unat ?e + 4096 \<le> 0xFFFFFFFFE0000000" by simp
  have tv: "translate v' ?k x = (if path x = path ?e then Some (n OR vmm_flags_to_pte flags, []) else translate ?s ?k x)" for x
    using v'(6) kR by (simp add: visible_def)
  have "translate v' ?k x \<noteq> None" if "HEAP_START \<le> x" "x < ?e + PAGE_SIZE" for x
  proof (cases "x < ?e")
    case True
    then show ?thesis using tv that(1) reg by (simp add: heap_region_def)
  next
    case False
    then have "drop_bit 12 x = drop_bit 12 ?e"
      using same_page [OF al, of x] that(2) up by (simp add: word_less_nat_alt word_le_nat_alt)
    then have "path x = path ?e" by (rule path_same_page)
    then show ?thesis using tv by simp
  qed
  moreover have "small_page v' ?k x" if "HEAP_START \<le> x" "x < HEAP_MAX" for x
    using tv that reg by (auto simp: heap_region_def small_page_def)
  moreover have "HEAP_START \<le> ?e + PAGE_SIZE" "?e + PAGE_SIZE \<le> HEAP_MAX"
    unfolding word_le_nat_alt up using top lo by (simp_all add: word_le_nat_alt)
  moreover have "unat (?e + PAGE_SIZE) mod 4096 = 0" unfolding up using al by simp
  ultimately have "heap_region R (h\<lparr>h_vmm := v', heap_current_end := ?e + PAGE_SIZE\<rparr>)"
    using v'(2,3,4) kR by (simp add: heap_region_def)
  moreover have "card (frees ?s) \<le> card (frees v') + 4" using card v'(5) by simp
  ultimately show ?thesis using n(1,2) v'(1) by blast
qed

lemma heap_grow_spec:
  assumes reg: "heap_region R h" and k: "unat ((need + PAGE_SIZE - 1) div PAGE_SIZE) = k"
    and mem: "4 * k \<le> card (frees (h_vmm h))"
  shows "\<exists>rc h'. heap_grow need h = Some (rc, h') \<and> grown_to R h h' \<and>
     card (frees (h_vmm h)) \<le> card (frees (h_vmm h')) + 4 * k \<and>
     (rc = 0 \<and> unat (heap_current_end h') = unat (heap_current_end h) + 4096 * k \<or>
      rc = - 1 \<and> heap_current_end h' = HEAP_MAX \<and>
        unat (heap_current_end h') < unat (heap_current_end h) + 4096 * k)"
proof -
  let ?f = "\<lambda>(_ :: nat) h.
             if heap_current_end h \<ge> HEAP_MAX then Some (Inl (- 1 :: int, h)) else
             do { (phys, v) \<leftarrow> vmm_alloc_page (h_vmm h);
                  let h = h\<lparr>h_vmm := v\<rparr>;
                  if phys = 0 then Some (Inl (- 1, h)) else
                  do { v \<leftarrow> vmm_map_page (heap_current_end h) phys (VMM_FLAG_WRITABLE OR VMM_FLAG_NOEXEC) (h_vmm h);
                       Some (Inr (h\<lparr>h_vmm := v, heap_current_end := heap_current_end h + PAGE_SIZE\<rparr>)) } }"
  let ?I = "\<lambda>i h'. grown_to R h h' \<and> unat (heap_current_end h') = unat (heap_current_end h) + 4096 * i \<and>
              card (frees (h_vmm h)) \<le> card (frees (h_vmm h')) + 4 * i"
  let ?Q = "\<lambda>(rc :: int, h'). rc = - 1 \<and> grown_to R h h' \<and> heap_current_end h' = HEAP_MAX \<and>
              card (frees (h_vmm h)) \<le> card (frees (h_vmm h')) + 4 * k \<and>
              unat (heap_current_end h') < unat (heap_current_end h) + 4096 * k"
  have "(\<exists>r. for_ret ?f [0..<k] h = Some (Inl r) \<and> ?Q r) \<or> (\<exists>h'. for_ret ?f [0..<k] h = Some (Inr h') \<and> ?I k h')"
  proof (rule for_ret_upt_rule [where I = ?I and Q = ?Q])
    show "?I 0 h" using reg mem by (simp add: grown_to_def)
  next
    fix i h1 assume i: "i < k" and I: "?I i h1"
    show "(\<exists>r. ?f i h1 = Some (Inl r) \<and> ?Q r) \<or> (\<exists>h'. ?f i h1 = Some (Inr h') \<and> ?I (Suc i) h')"
    proof (cases "heap_current_end h1 \<ge> HEAP_MAX")
      case True
      moreover have "heap_current_end h1 \<le> HEAP_MAX" using I by (simp add: grown_to_def heap_region_def)
      ultimately show ?thesis using I i by (intro disjI1 exI [of _ "(- 1, h1)"]) simp
    next
      case False
      have reg1: "heap_region R h1" and four: "4 \<le> card (frees (h_vmm h1))"
        using I i mem by (auto simp: grown_to_def)
      obtain phys v v' where p: "vmm_alloc_page (h_vmm h1) = Some (phys, v)" "phys \<noteq> 0"
        "vmm_map_page (heap_current_end h1) phys (VMM_FLAG_WRITABLE OR VMM_FLAG_NOEXEC) v = Some v'"
        "card (frees (h_vmm h1)) \<le> card (frees v') + 4"
        "heap_region R (h1\<lparr>h_vmm := v', heap_current_end := heap_current_end h1 + PAGE_SIZE\<rparr>)"
        using grow_page [OF reg1 False four] by blast
      have up: "unat (heap_current_end h1 + PAGE_SIZE) = unat (heap_current_end h1) + 4096"
        using False by (subst unat_plus_no_overflow) (simp_all add: word_le_nat_alt)
      let ?h' = "h1\<lparr>h_vmm := v', heap_current_end := heap_current_end h1 + PAGE_SIZE\<rparr>"
      have "?f i h1 = Some (Inr ?h')" using False p(1-3) by simp
      moreover have "?I (Suc i) ?h'"
        using I i p(4,5) up by (auto simp: grown_to_def word_le_nat_alt)
      ultimately show ?thesis by blast
    qed
  qed simp
  then consider r where "for_ret ?f [0..<k] h = Some (Inl r)" "?Q r"
    | h' where "for_ret ?f [0..<k] h = Some (Inr h')" "?I k h'" by blast
  then show ?thesis
  proof cases
    case (1 r)
    then show ?thesis unfolding heap_grow_def Let_def k by (cases r) auto
  next
    case (2 h')
    then show ?thesis unfolding heap_grow_def Let_def k by simp
  qed
qed

text \<open>Pages needed for \<open>need\<close> bytes.\<close>

lemma pages_needed:
  fixes need :: u64
  assumes "unat need < 2 ^ 63"
  shows "unat ((need + PAGE_SIZE - 1) div PAGE_SIZE) = (unat need + 4095) div 4096"
proof -
  have "need + PAGE_SIZE - 1 = need + 4095" by simp
  moreover have "unat (need + 4095) = unat need + 4095"
    using assms by (subst unat_plus_no_overflow) simp_all
  ultimately show ?thesis by (simp only: unat_div) simp
qed

lemma grown_rep:
  assumes "heap_rep R h bs" "grown_to R h h1"
  shows "heap_rep R h1 bs"
  using assms by (auto simp: heap_rep_def grown_to_def word_le_nat_alt elim: spaced_weaken)

lemma extend_last:
  assumes rep: "heap_rep R h (xs @ [(a, sz, f)])" and g: "unat sz' mod 16 = 0"
    "unat a + 48 + unat sz' \<le> unat (heap_current_end h)"
  shows "heap_rep R (hset a (\<lambda>b. b\<lparr>bsize := sz'\<rparr>) h) (xs @ [(a, sz', f)])"
proof -
  note m = rep_middle [OF rep]
  have "heap_rep R (hset a (\<lambda>b. b\<lparr>bsize := sz'\<rparr>) h) (xs @ (a, sz', f) # [] @ [])"
  proof (rule rep_splice [of R h xs a sz f "[]"])
    show "hdr (hset a (\<lambda>b. b\<lparr>bsize := sz'\<rparr>) h) c = hdr h c" if "c \<in> fst ` (set xs \<union> set [])" for c
      using that m(4) by auto
  qed (use rep g m(1) in \<open>simp_all add: same_region_def\<close>)
  then show ?thesis by simp
qed

lemma append_last:
  assumes rep: "heap_rep R h (xs @ [(a, sz, f)])" and e: "unat a + 48 + unat sz \<le> unat e"
    "unat e mod 16 = 0" "unat n mod 16 = 0" "unat e + 48 + unat n \<le> unat (heap_current_end h)"
  shows "heap_rep R (hset a (bnext_update (\<lambda>_. e)) (hset e (\<lambda>_. mk_hdr n True 0 a) h))
           (xs @ [(a, sz, f), (e, n, True)])"
proof -
  note m = rep_middle [OF rep]
  let ?h' = "hset a (bnext_update (\<lambda>_. e)) (hset e (\<lambda>_. mk_hdr n True 0 a) h)"
  have ea: "e \<noteq> a" using e(1) by auto
  have "heap_rep R ?h' (xs @ (a, sz, f) # [(e, n, True)] @ [])"
  proof (rule rep_splice [of R h xs a sz f "[]"])
    show "hdr ?h' c = hdr h c" if "c \<in> fst ` (set xs \<union> set [])" for c
    proof -
      have c: "c \<in> fst ` set xs" using that by simp
      have "unat c + 48 \<le> unat a" by (rule rep_around(1) [OF rep c])
      then have "c \<noteq> e" "c \<noteq> a" using e(1) by auto
      then show ?thesis by simp
    qed
  qed (use rep e m(1,8) ea in \<open>simp_all add: same_region_def\<close>)
  then show ?thesis by simp
qed

lemma heap_grow_for_rep:
  assumes rep: "heap_rep R h bs" and nofit: "\<forall>b \<in> set bs. \<not> fits n b"
    and n: "unat n mod 16 = 0" "unat n \<le> 2 ^ 62"
    and mem: "4 * ((unat n + 96 + 4095) div 4096) \<le> card (frees (h_vmm h))"
  shows "\<exists>r h'. heap_grow_for n h = Some (r, h') \<and> bytes h' = bytes h \<and>
     (r = 0 \<and> heap_rep R h' bs \<and> heap_current_end h' = HEAP_MAX \<or>
      (\<exists>xs sz. heap_rep R h' (xs @ [(r, sz, True)]) \<and> n \<le> sz \<and> live xs = live bs \<and> r \<noteq> 0))"
proof -
  obtain xs a sz f where bs: "bs = xs @ [(a, sz, f)]"
    using rep by (metis heap_rep_def rev_exhaust prod_cases3)
  have rep1: "heap_rep R h (xs @ [(a, sz, f)])" using rep bs by simp
  note m = rep_middle [OF rep1]
  have reg: "heap_region R h" using rep by (simp add: heap_rep_def)
  have nz: "\<forall>c \<in> fst ` set bs. c \<noteq> 0" using rep_nonzero [OF rep] by blast
  have last: "last_block h (heap_start_block h) = Some a"
    using last_block_list [of h 0 bs] rep nz bs by (simp add: heap_rep_def)
  have Ha: "hdr h a = mk_hdr sz f 0 (last_addr 0 xs)" using m(1) by simp
  define need where "need = (if f then n - sz + HEADER_SIZE else n + 2 * HEADER_SIZE)"
  have szn: "unat sz < unat n" if f using nofit bs that by (auto simp: word_le_nat_alt)
  have need_u: "unat need = (if f then unat n - unat sz + 48 else unat n + 96)"
  proof (cases f)
    case True
    have "unat (n - sz) = unat n - unat sz" using szn [OF True] by (simp add: unat_sub_if')
    then show ?thesis using True n(2) by (simp add: need_def unat_plus_no_overflow)
  next
    case False
    then show ?thesis using n(2) by (simp add: need_def unat_plus_no_overflow)
  qed
  define k where "k = (unat need + 4095) div 4096"
  have kle: "k \<le> (unat n + 96 + 4095) div 4096" unfolding k_def by (intro div_le_mono) (auto simp: need_u)
  have kpages: "unat ((need + PAGE_SIZE - 1) div PAGE_SIZE) = k"
    unfolding k_def using n(2) by (intro pages_needed) (auto simp: need_u)
  obtain rc h1 where g: "heap_grow need h = Some (rc, h1)" "grown_to R h h1"
    "rc = 0 \<and> unat (heap_current_end h1) = unat (heap_current_end h) + 4096 * k \<or> rc = - 1 \<and> heap_current_end h1 = HEAP_MAX"
    using heap_grow_spec [OF reg kpages] kle mem by fastforce
  have rep1': "heap_rep R h1 (xs @ [(a, sz, f)])" by (rule grown_rep [OF rep1 g(2)])
  have b1: "bytes h1 = bytes h" "hdr h1 = hdr h" using g(2) by (simp_all add: grown_to_def)
  have run: "heap_grow_for n h = (if rc \<noteq> 0 then Some (0, h1) else
      let grown = heap_current_end h1 - heap_current_end h in
      if f then Some (a, hset a (\<lambda>b. b\<lparr>bsize := sz + grown\<rparr>) h1)
      else Some (heap_current_end h, hset a (bnext_update (\<lambda>_. heap_current_end h))
        (hset (heap_current_end h) (\<lambda>_. mk_hdr (grown - HEADER_SIZE) True 0 a) h1)))"
    unfolding heap_grow_for_def last using Ha g(1) [unfolded need_def] b1
    by (cases f) (simp_all add: Let_def hset_def mk_hdr_def)
  show ?thesis
  proof (cases "rc = 0")
    case False
    then show ?thesis using run g(3) rep1' bs b1(1) by auto
  next
    case True
    let ?e = "heap_current_end h" and ?g = "heap_current_end h1 - heap_current_end h"
    have e1: "unat (heap_current_end h1) = unat ?e + 4096 * k" using g(3) True by simp
    then have gu: "unat ?g = 4096 * k" by (simp add: unat_sub_if')
    have kn: "unat need \<le> 4096 * k" unfolding k_def by simp
    have small: "unat sz + 4096 * k < 2 ^ 64" "unat ?e mod 4096 = 0"
      using m(6) e1 unat_lt_64 [of "heap_current_end h1"] reg by (simp_all add: heap_region_def)
    show ?thesis
    proof (cases f)
      case f: True
      have us: "unat (sz + ?g) = unat sz + 4096 * k" using small gu by (simp add: unat_plus_no_overflow)
      have "unat (sz + ?g) mod 16 = 0" using us m(8) by presburger
      moreover have "unat a + 48 + unat (sz + ?g) \<le> unat (heap_current_end h1)" using us m(6) e1 by simp
      ultimately have "heap_rep R (hset a (\<lambda>b. b\<lparr>bsize := sz + ?g\<rparr>) h1) (xs @ [(a, sz + ?g, True)])"
        using extend_last [OF rep1'] f by simp
      moreover have "n \<le> sz + ?g" using us kn need_u f szn by (simp add: word_le_nat_alt)
      moreover have "a \<noteq> 0" using nz bs by simp
      ultimately show ?thesis using run True f bs b1(1) by auto
    next
      case f: False
      have us: "unat (?g - HEADER_SIZE) = 4096 * k - 48" using gu kn need_u f by (simp add: unat_sub_if')
      have "unat (?g - HEADER_SIZE) = 16 * (256 * k - 3)" using us by simp
      then have "unat (?g - HEADER_SIZE) mod 16 = 0" by simp
      moreover have "unat ?e mod 16 = 0" using small(2) mod_mod_cancel [of 16 4096 "unat ?e"] by simp
      moreover have "unat ?e + 48 + unat (?g - HEADER_SIZE) \<le> unat (heap_current_end h1)"
        using us e1 kn need_u f by simp
      ultimately have "heap_rep R (hset a (bnext_update (\<lambda>_. ?e))
          (hset ?e (\<lambda>_. mk_hdr (?g - HEADER_SIZE) True 0 a) h1)) (xs @ [(a, sz, f), (?e, ?g - HEADER_SIZE, True)])"
        using append_last [OF rep1', of ?e "?g - HEADER_SIZE"] m(6) by simp
      moreover have "n \<le> ?g - HEADER_SIZE" using us kn need_u f by (simp add: word_le_nat_alt)
      moreover have "?e \<noteq> 0" using reg by (auto simp: heap_region_def)
      ultimately show ?thesis
        using run True f bs b1(1) by (auto intro!: exI [of _ "xs @ [(a, sz, False)]"])
    qed
  qed
qed

section \<open>Allocation and release\<close>

lemma align_up_unat:
  assumes "unat n + 15 < 2 ^ 64"
  shows "unat (align_up n) = (unat n + 15) div 16 * 16"
proof -
  have e: "n + ALIGN_SIZE - 1 = n + 15" "ALIGN_SIZE - 1 = mask 4" by (simp_all add: mask_eq_exp_minus_1)
  have "unat (n + 15) = unat n + 15" using assms by (subst unat_plus_no_overflow) simp_all
  then show ?thesis unfolding align_up_def e using unat_and_not_mask [of "n + 15" 4] by simp
qed

lemma block_ptr:
  assumes "heap_rep R h (xs @ (a, sz, f) # ys)"
  shows "unat (a + HEADER_SIZE) = unat a + 48" "unat (a + HEADER_SIZE) mod 16 = 0" "a + HEADER_SIZE \<noteq> 0"
proof -
  show u: "unat (a + HEADER_SIZE) = unat a + 48"
    using rep_around(4) [OF assms] by (subst unat_plus_no_overflow) simp_all
  show "unat (a + HEADER_SIZE) mod 16 = 0" unfolding u using rep_middle(7) [OF assms] by presburger
  show "a + HEADER_SIZE \<noteq> 0" using u by (metis add_is_0 unat_0 zero_neq_numeral)
qed

text \<open>
  The outcome of a successful request for \<open>sz\<close> bytes: \<open>p\<close> is 16-byte aligned, exactly one new block is
  live, it starts at \<open>p\<close> and is large enough; payload bytes change only by zeroing on request.
\<close>

definition new_block :: "u64 set \<Rightarrow> u64 \<Rightarrow> u32 \<Rightarrow> kheap \<Rightarrow> (u64 \<times> u64) set \<Rightarrow> u64 \<Rightarrow> kheap \<Rightarrow> blk list \<Rightarrow> bool" where
  "new_block R sz flags h L p h' bs' \<longleftrightarrow>
     heap_rep R h' bs' \<and> p \<noteq> 0 \<and> unat p mod 16 = 0 \<and>
     (\<exists>n. sz \<le> n \<and> live bs' = insert (p - HEADER_SIZE, n) L \<and> (p - HEADER_SIZE, n) \<notin> L) \<and>
     bytes h' = (\<lambda>b. if flags AND GFP_ZERO \<noteq> 0 \<and> b - p < align_up sz then 0 else bytes h b)"

lemma block_allocate_live:
  assumes r1: "heap_rep R h1 (xs @ (a, m, True) # ys)" and n: "align_up sz \<le> m" "unat (align_up sz) mod 16 = 0"
    "sz \<le> align_up sz"
  shows "\<exists>p h2 bs'. block_allocate a (align_up sz) flags h1 = (p, h2) \<and> new_block R sz flags h1 (live (xs @ ys)) p h2 bs'"
proof -
  obtain h2 sz' zs where h2: "block_allocate a (align_up sz) flags h1 = (a + HEADER_SIZE, h2)"
    "heap_rep R h2 (xs @ (a, sz', False) # zs @ ys)" "align_up sz \<le> sz'" "all_free zs"
    "bytes h2 = (\<lambda>b. if flags AND GFP_ZERO \<noteq> 0 \<and> b - (a + HEADER_SIZE) < align_up sz then 0 else bytes h1 b)"
    using block_allocate_rep [OF r1 n(2,1)] by blast
  have "(a, sz') \<notin> live (xs @ ys)" using rep_middle(4) [OF r1] by (auto simp: live_def image_iff)
  moreover have "live (xs @ (a, sz', False) # zs @ ys) = insert (a, sz') (live (xs @ ys))"
    using h2(4) by simp
  moreover have "sz \<le> sz'" using n(3) h2(3) by simp
  ultimately have "\<exists>k. sz \<le> k \<and> live (xs @ (a, sz', False) # zs @ ys) = insert (a, k) (live (xs @ ys)) \<and>
      (a, k) \<notin> live (xs @ ys)" by blast
  then show ?thesis
    using h2 block_ptr [OF r1] unfolding new_block_def
    by (intro exI [of _ "a + HEADER_SIZE"] exI [of _ h2] exI [of _ "xs @ (a, sz', False) # zs @ ys"]) simp
qed

lemma kmalloc_spec:
  assumes rep: "heap_rep R h bs" and sz: "sz \<noteq> 0" "unat sz < 2 ^ 61"
    and mem: "(\<exists>b \<in> set bs. fits (align_up sz) b) \<or> 4 * ((unat sz + 4206) div 4096) \<le> card (frees (h_vmm h))"
  shows "\<exists>p h' bs'. kmalloc sz flags h = Some (p, h') \<and>
     (new_block R sz flags h (live bs) p h' bs' \<or>
      p = 0 \<and> heap_rep R h' bs' \<and> live bs' = live bs \<and> bytes h' = bytes h \<and> heap_current_end h' = HEAP_MAX)"
proof -
  let ?n = "align_up sz"
  have un: "unat ?n = (unat sz + 15) div 16 * 16" using sz(2) by (intro align_up_unat) simp
  have n: "unat ?n mod 16 = 0" "unat ?n \<le> 2 ^ 62" "sz \<le> ?n"
    using un sz(2) by (auto simp: word_le_nat_alt)
  note alloc = block_allocate_live [where R = R and flags = flags, OF _ _ n(1,3)]
  consider (fit) xs a m ys where "bs = xs @ (a, m, True) # ys" "?n \<le> m"
      "find_fit h ?n (heap_start_block h) = Some a" "a \<noteq> 0"
    | (none) "\<forall>b \<in> set bs. \<not> fits ?n b" "find_fit h ?n (heap_start_block h) = Some 0"
    using find_fit_rep [OF rep, of ?n] by blast
  then show ?thesis
  proof cases
    case fit
    have lv: "live bs = live (xs @ ys)" using fit(1) by simp
    have rp: "heap_rep R h (xs @ (a, m, True) # ys)" using rep fit(1) by simp
    obtain p h2 bs' where a: "block_allocate a ?n flags h = (p, h2)" "new_block R sz flags h (live bs) p h2 bs'"
      using alloc [OF rp fit(2)] lv by auto
    then have "kmalloc sz flags h = Some (p, h2)" using fit sz(1) by (simp add: kmalloc_def)
    then show ?thesis using a(2) by blast
  next
    case none
    have "4 * ((unat ?n + 96 + 4095) div 4096) \<le> 4 * ((unat sz + 4206) div 4096)"
      unfolding un by (intro mult_le_mono2 div_le_mono) simp
    then have mem': "4 * ((unat ?n + 96 + 4095) div 4096) \<le> card (frees (h_vmm h))" using mem none(1) by auto
    obtain r h1 where g: "heap_grow_for ?n h = Some (r, h1)" "bytes h1 = bytes h"
      "r = 0 \<and> heap_rep R h1 bs \<and> heap_current_end h1 = HEAP_MAX \<or>
        (\<exists>xs m. heap_rep R h1 (xs @ [(r, m, True)]) \<and> ?n \<le> m \<and> live xs = live bs \<and> r \<noteq> 0)"
      using heap_grow_for_rep [OF rep none(1) n(1,2) mem'] by blast
    show ?thesis
    proof (cases "r = 0")
      case True
      then have "kmalloc sz flags h = Some (0, h1)" using none g(1) sz(1) by (simp add: kmalloc_def)
      then show ?thesis using g True by blast
    next
      case False
      then obtain xs m where x: "heap_rep R h1 (xs @ [(r, m, True)])" "?n \<le> m" "live xs = live bs" using g(3) by blast
      obtain p h2 bs' where a: "block_allocate r ?n flags h1 = (p, h2)" "new_block R sz flags h1 (live bs) p h2 bs'"
        using alloc [OF x(1,2)] x(3) by auto
      then have "kmalloc sz flags h = Some (p, h2)" using none g(1) sz(1) False by (simp add: kmalloc_def)
      moreover have "new_block R sz flags h (live bs) p h2 bs'" using a(2) g(2) by (simp add: new_block_def cong: if_cong)
      ultimately show ?thesis by blast
    qed
  qed
qed

text \<open>A live payload byte lies in no other block and in no header.\<close>

definition payload :: "u64 \<times> u64 \<Rightarrow> u64 set" where
  "payload b = {x. unat (fst b) + 48 \<le> unat x \<and> unat x < unat (fst b) + 48 + unat (snd b)}"

lemma payload_outside:
  assumes rep: "heap_rep R h bs" and b: "b \<in> live bs" "x \<in> payload b"
    and c: "(a, sz, f) \<in> set bs" "b \<noteq> (a, sz) \<or> f"
  shows "\<not> x - a < HEADER_SIZE" "\<not> x - (a + HEADER_SIZE) < sz"
proof -
  have sp: "spaced (unat HEAP_START) bs (unat (heap_current_end h))"
    and e: "unat (heap_current_end h) \<le> 0xFFFFFFFFE0000000"
    using rep heap_end_bound by (auto simp: heap_rep_def)
  have mem: "(fst b, snd b, False) \<in> set bs" using b(1) by (auto simp: live_def)
  have ne: "(fst b, snd b, False) \<noteq> (a, sz, f)" using c(2) by (cases b) auto
  have out: "unat x < unat a \<or> unat a + 48 + unat sz \<le> unat x"
    using spaced_disjoint [OF sp mem c(1) ne] b(2) by (auto simp: block_end_def payload_def)
  have a: "unat a + 48 + unat sz \<le> 0xFFFFFFFFE0000000" using spaced_mem [OF sp c(1)] e by simp
  have u: "unat (a + HEADER_SIZE) = unat a + 48" using a by (subst unat_plus_no_overflow) simp_all
  show "\<not> x - a < HEADER_SIZE" using out a by (subst word_range_iff) auto
  show "\<not> x - (a + HEADER_SIZE) < sz" using out a u by (subst word_range_iff) auto
qed

text \<open>Coalescing keeps the live blocks and their contents.\<close>

lemma coalesce_live:
  assumes rep: "heap_rep R h (xs @ (a, sz, f) # ys)"
  shows "\<exists>h' sz' zs ys'. coalesce_forward a h = Some h' \<and> heap_rep R h' (xs @ (a, sz', f) # ys') \<and>
     ys = zs @ ys' \<and> all_free zs \<and> live (xs @ ys') = live (xs @ ys) \<and> sz \<le> sz' \<and>
     (zs \<noteq> [] \<longrightarrow> unat sz + 48 + unat (fst (snd (hd zs))) \<le> unat sz') \<and> (ys' = [] \<or> \<not> snd (snd (hd ys'))) \<and>
     (\<forall>b \<in> live (xs @ (a, sz, f) # ys). \<forall>x \<in> payload b. bytes h' x = bytes h x)"
proof -
  obtain h' sz' zs ys' where c: "coalesce_forward a h = Some h'" "ys = zs @ ys'" "all_free zs"
    "ys' = [] \<or> \<not> snd (snd (hd ys'))" "heap_rep R h' (xs @ (a, sz', f) # ys')" "sz \<le> sz'"
    "zs \<noteq> [] \<longrightarrow> unat sz + 48 + unat (fst (snd (hd zs))) \<le> unat sz'"
    "\<forall>b. (\<forall>c \<in> fst ` set zs. \<not> b - c < HEADER_SIZE) \<longrightarrow> bytes h' b = bytes h b"
    using coalesce_rep [OF rep] by blast
  have "bytes h' x = bytes h x" if b: "b \<in> live (xs @ (a, sz, f) # ys)" and x: "x \<in> payload b" for b x
  proof -
    have "\<not> x - d < HEADER_SIZE" if d: "d \<in> fst ` set zs" for d
    proof -
      obtain k where "(d, k, True) \<in> set zs" using d c(3) by (auto simp: all_free_def)
      then show ?thesis using payload_outside(1) [OF rep b x, of d k True] c(2) by auto
    qed
    then show ?thesis using c(8) by simp
  qed
  then show ?thesis using c(1-7) by (intro exI [of _ h'] exI [of _ sz'] exI [of _ zs] exI [of _ ys']) auto
qed

lemma kfree_spec:
  assumes rep: "heap_rep R h bs" and p: "p \<noteq> 0" "(p - HEADER_SIZE, n) \<in> live bs"
  shows "\<exists>h' bs'. kfree p h = Some h' \<and> heap_rep R h' bs' \<and> live bs' = live bs - {(p - HEADER_SIZE, n)} \<and>
     (\<forall>b \<in> live bs'. \<forall>x \<in> payload b. bytes h' x = bytes h x)"
proof -
  let ?a = "p - HEADER_SIZE"
  obtain xs ys where bs: "bs = xs @ (?a, n, False) # ys"
    using p(2) by (auto simp: live_def dest: split_list)
  have r0: "heap_rep R h (xs @ (?a, n, False) # ys)" using rep bs by simp
  note m = rep_middle [OF r0]
  have lv: "live (xs @ ys) = live bs - {(?a, n)}" using m(4) bs by (auto simp: live_def image_iff)
  let ?h1 = "hset ?a (bfree_update (\<lambda>_. 1)) (heap_memset p FREED_POISON n h)"
  have r1: "heap_rep R ?h1 (xs @ (?a, n, True) # ys)"
    by (rule mark_rep [OF r0]) (use m(1) in \<open>simp_all add: same_region_def\<close>)
  obtain h2 n2 zs ys' where h2: "coalesce_forward ?a ?h1 = Some h2" "heap_rep R h2 (xs @ (?a, n2, True) # ys')"
    "live (xs @ ys') = live (xs @ ys)" "\<forall>b \<in> live (xs @ ys). \<forall>x \<in> payload b. bytes h2 x = bytes ?h1 x"
    using coalesce_live [OF r1] by auto
  have Ha: "hdr h2 ?a = mk_hdr n2 True (first_addr ys' 0) (last_addr 0 xs)" using rep_middle(1) [OF h2(2)] by simp
  have run: "kfree p h = (if last_addr 0 xs \<noteq> 0 \<and> bfree (hdr h2 (last_addr 0 xs)) \<noteq> 0
       then coalesce_forward (last_addr 0 xs) h2 else Some h2)"
    using p(1) m(1) h2(1) Ha by (simp add: kfree_def Let_def)
  have keep: "bytes h2 x = bytes h x" if "b \<in> live (xs @ ys)" "x \<in> payload b" for b x
  proof -
    have b: "b \<in> live bs" "b \<noteq> (?a, n)" using that lv by auto
    have "\<not> x - p < n" using payload_outside(2) [OF rep b(1) that(2), of ?a n False] bs b(2) by simp
    then show ?thesis using h2(4) that by simp
  qed
  show ?thesis
  proof (cases "last_addr 0 xs \<noteq> 0 \<and> bfree (hdr h2 (last_addr 0 xs)) \<noteq> 0")
    case False
    then have "kfree p h = Some h2" using run by (simp only: if_False)
    moreover have "live (xs @ (?a, n2, True) # ys') = live bs - {(?a, n)}" using h2(3) lv by simp
    ultimately show ?thesis using h2(2) keep lv by blast
  next
    case True
    then obtain us c k g where xs: "xs = us @ [(c, k, g)]" by (metis last_addr_simps(1) rev_exhaust prod_cases3)
    have r2: "heap_rep R h2 (us @ (c, k, g) # (?a, n2, True) # ys')" using h2(2) xs by simp
    have g: "g" using True rep_middle(1) [OF r2] xs by (auto split: if_splits)
    obtain h3 k3 vs where h3: "coalesce_forward c h2 = Some h3" "heap_rep R h3 (us @ (c, k3, g) # vs)"
      "live (us @ vs) = live (us @ (?a, n2, True) # ys')"
      "\<forall>b \<in> live (us @ (c, k, g) # (?a, n2, True) # ys'). \<forall>x \<in> payload b. bytes h3 x = bytes h2 x"
      using coalesce_live [OF r2] by blast
    have "kfree p h = Some h3" using run True h3(1) xs by simp
    moreover have "live (us @ (c, k3, g) # vs) = live bs - {(?a, n)}"
      using h3(3) h2(3) g xs lv by simp
    moreover have "live (us @ (c, k, g) # (?a, n2, True) # ys') = live bs - {(?a, n)}"
      using h2(3) g xs lv by simp
    ultimately show ?thesis using h3(2,4) keep lv by (metis (no_types, lifting))
  qed
qed

text \<open>Resizing in place: the block keeps its address, and all live contents stay.\<close>

definition resized :: "u64 set \<Rightarrow> u64 \<Rightarrow> u64 \<Rightarrow> u64 \<Rightarrow> kheap \<Rightarrow> blk list \<Rightarrow> u64 \<Rightarrow> kheap \<Rightarrow> blk list \<Rightarrow> bool" where
  "resized R p n sz h bs p' h' bs' \<longleftrightarrow>
     heap_rep R h' bs' \<and> p' \<noteq> 0 \<and>
     (\<exists>m. sz \<le> m \<and> live bs' = insert (p' - HEADER_SIZE, m) (live bs - {(p - HEADER_SIZE, n)})) \<and>
     (\<forall>i. i < n \<and> i < sz \<longrightarrow> bytes h' (p' + i) = bytes h (p + i)) \<and>
     (\<forall>b \<in> live bs - {(p - HEADER_SIZE, n)}. \<forall>x \<in> payload b. bytes h' x = bytes h x)"

lemma split_resized:
  assumes rep: "heap_rep R h1 (xs @ (p - HEADER_SIZE, k, False) # ys)" and p: "p \<noteq> 0"
    and n: "sz \<le> sa" "sa \<le> k" "unat sa mod 16 = 0"
    and lv: "live (xs @ ys) = live bs - {(p - HEADER_SIZE, n)}"
    and keep: "\<forall>b \<in> live bs. \<forall>x \<in> payload b. bytes h1 x = bytes h x"
    and mem: "(p - HEADER_SIZE, n) \<in> live bs" and inn: "\<And>i. i < n \<Longrightarrow> p + i \<in> payload (p - HEADER_SIZE, n)"
  shows "\<exists>bs'. resized R p n sz h bs p (split_block (p - HEADER_SIZE) sa h1) bs'"
proof -
  let ?a = "p - HEADER_SIZE"
  obtain k' zs where s: "heap_rep R (split_block ?a sa h1) (xs @ (?a, k', False) # zs @ ys)" "sa \<le> k'" "all_free zs"
    using split_rep [OF rep n(3,2)] by blast
  have "live (xs @ (?a, k', False) # zs @ ys) = insert (?a, k') (live bs - {(?a, n)})"
    using s(3) lv by simp
  moreover have "sz \<le> k'" using n(1) s(2) by simp
  ultimately have "\<exists>m. sz \<le> m \<and> live (xs @ (?a, k', False) # zs @ ys) = insert (?a, m) (live bs - {(?a, n)})" by blast
  then show ?thesis
    using s(1) p keep mem inn
    by (intro exI [of _ "xs @ (?a, k', False) # zs @ ys"]) (auto simp: resized_def split_same(2))
qed

lemma payload_index:
  assumes rep: "heap_rep R h bs" and mem: "(p - HEADER_SIZE, n) \<in> live bs" and i: "i < n"
  shows "p + i \<in> payload (p - HEADER_SIZE, n)"
proof -
  obtain xs ys where "bs = xs @ (p - HEADER_SIZE, n, False) # ys"
    using mem by (auto simp: live_def dest: split_list)
  then have r: "heap_rep R h (xs @ (p - HEADER_SIZE, n, False) # ys)" using rep by simp
  have u: "unat p = unat (p - HEADER_SIZE) + 48" using block_ptr(1) [OF r] by simp
  moreover have "unat (p + i) = unat p + unat i"
    using rep_around(4) [OF r] u i by (intro unat_plus_no_overflow) (simp add: word_less_nat_alt)
  ultimately show ?thesis using i by (simp add: payload_def word_less_nat_alt)
qed

text \<open>The three ways a resize can go: in place, into the free block behind, or by moving.\<close>

lemma krealloc_absorb:
  assumes rep: "heap_rep R h (xs @ (p - HEADER_SIZE, n, False) # ys)" and p: "p \<noteq> 0"
    and nx: "first_addr ys 0 \<noteq> 0" "bfree (hdr h (first_addr ys 0)) \<noteq> 0"
      "sa \<le> n + HEADER_SIZE + bsize (hdr h (first_addr ys 0))"
    and sa: "sz \<le> sa" "unat sa mod 16 = 0"
  shows "\<exists>h1 bs'. coalesce_forward (p - HEADER_SIZE) h = Some h1 \<and>
     resized R p n sz h (xs @ (p - HEADER_SIZE, n, False) # ys) p
       (split_block (p - HEADER_SIZE) sa (hset (p - HEADER_SIZE) (bfree_update (\<lambda>_. 0)) h1)) bs'"
proof -
  let ?a = "p - HEADER_SIZE"
  let ?bs = "xs @ (?a, n, False) # ys"
  have lv: "live (xs @ ys) = live ?bs - {(?a, n)}" using rep_middle(4) [OF rep] by (auto simp: live_def image_iff)
  obtain c k g ys2 where ys: "ys = (c, k, g) # ys2" using nx(1) by (metis first_addr_simps(1) list.exhaust prod_cases3)
  have "heap_rep R h ((xs @ [(?a, n, False)]) @ (c, k, g) # ys2)" using rep ys by simp
  from rep_middle(1) [OF this] rep_around(3) [OF this]
  have Hc: "hdr h c = mk_hdr k g (first_addr ys2 0) ?a" and kb: "unat k \<le> 0x20000000" by simp_all
  have gk: "g" "sa \<le> n + HEADER_SIZE + k" using nx(2,3) Hc ys by (auto split: if_splits)
  obtain h1 k1 zs ys' where c: "coalesce_forward ?a h = Some h1" "heap_rep R h1 (xs @ (?a, k1, False) # ys')"
    "ys = zs @ ys'" "live (xs @ ys') = live (xs @ ys)"
    "zs \<noteq> [] \<longrightarrow> unat n + 48 + unat (fst (snd (hd zs))) \<le> unat k1" "ys' = [] \<or> \<not> snd (snd (hd ys'))"
    "\<forall>b \<in> live ?bs. \<forall>x \<in> payload b. bytes h1 x = bytes h x"
    using coalesce_live [OF rep] by blast
  have "zs \<noteq> []" "zs \<noteq> [] \<Longrightarrow> hd zs = (c, k, g)" using c(3,6) ys gk(1) by (cases zs; auto)+
  then have "unat n + 48 + unat k \<le> unat k1" using c(5) by simp
  moreover have "unat (n + HEADER_SIZE + k) = unat n + 48 + unat k"
    using rep_around(3) [OF rep] kb unat_plus_no_overflow [of n 48] by (simp add: unat_plus_no_overflow)
  ultimately have fit: "sa \<le> k1" using gk(2) by (simp add: word_le_nat_alt)
  let ?h2 = "hset ?a (bfree_update (\<lambda>_. 0)) h1"
  have r2: "heap_rep R ?h2 (xs @ (?a, k1, False) # ys')"
    by (rule mark_rep [OF c(2)]) (use rep_middle(1) [OF c(2)] in \<open>simp_all add: same_region_def\<close>)
  have lv2: "live (xs @ ys') = live ?bs - {(?a, n)}" using c(4) lv by simp
  have keep: "\<forall>b \<in> live ?bs. \<forall>x \<in> payload b. bytes ?h2 x = bytes h x" using c(7) by simp
  have mem: "(?a, n) \<in> live ?bs" by simp
  show ?thesis
    using split_resized [OF r2 p sa(1) fit sa(2) lv2 keep mem payload_index [OF rep mem]] c(1) by blast
qed

lemma krealloc_move:
  assumes rep: "heap_rep R h bs" and p: "p \<noteq> 0" "(p - HEADER_SIZE, n) \<in> live bs"
    and nb: "new_block R sa GFP_KERNEL h (live bs) q h1 bs1" and sa: "n < sa" "sz \<le> sa"
  shows "bsize (hdr h1 (p - HEADER_SIZE)) = n"
    and "\<exists>h' bs'. kfree p (heap_memcpy q p n h1) = Some h' \<and> resized R p n sz h bs q h' bs'"
proof -
  let ?a = "p - HEADER_SIZE" and ?b = "q - HEADER_SIZE" and ?h2 = "heap_memcpy q p n h1"
  obtain k where k: "sa \<le> k" "live bs1 = insert (?b, k) (live bs)" "(?b, k) \<notin> live bs"
    and r1: "heap_rep R h1 bs1" and q: "q \<noteq> 0" and b1: "bytes h1 = bytes h"
    using nb by (auto simp: new_block_def)
  have mem1: "(?a, n) \<in> live bs1" using k(2) p(2) by simp
  then obtain us vs where "bs1 = us @ (?a, n, False) # vs" by (auto simp: live_def dest: split_list)
  then show "bsize (hdr h1 ?a) = n" using rep_middle(1) [of R h1 us ?a n False vs] r1 by simp
  have r2: "heap_rep R ?h2 bs1"
    using r1 by (auto simp: heap_rep_def heap_region_def heap_memcpy_def)
  obtain h' bs' where f: "kfree p ?h2 = Some h'" "heap_rep R h' bs'" "live bs' = live bs1 - {(?a, n)}"
    "\<forall>b \<in> live bs'. \<forall>x \<in> payload b. bytes h' x = bytes ?h2 x"
    using kfree_spec [OF r2 p(1) mem1] by blast
  have "(?b, k) \<noteq> (?a, n)" using k(3) p(2) by metis
  moreover have "x \<noteq> y \<Longrightarrow> insert x A - {y} = insert x (A - {y})" for x y :: "u64 \<times> u64" and A by blast
  ultimately have lv: "live bs' = insert (?b, k) (live bs - {(?a, n)})" unfolding f(3) k(2) by simp
  have "bytes h' (q + i) = bytes h (p + i)" if i: "i < n" for i
  proof -
    have "i < k" using i sa(1) k(1) by simp
    then have "q + i \<in> payload (?b, k)" using payload_index [OF r1, of q k] k(2) by simp
    then have "bytes h' (q + i) = bytes ?h2 (q + i)" using f(4) lv by blast
    then show ?thesis using i b1 by (simp add: heap_memcpy_def add.commute [of i])
  qed
  moreover have "bytes h' x = bytes h x" if b: "b \<in> live bs - {(?a, n)}" and x: "x \<in> payload b" for b x
  proof -
    have bl: "b \<in> live bs1" "b \<noteq> (?b, k)" using b k by auto
    have "\<not> x - (?b + HEADER_SIZE) < k"
      using payload_outside(2) [OF r1 bl(1) x, of ?b k False] k(2) bl(2) by (auto simp: live_def)
    then have "\<not> x - q < n" using sa(1) k(1) by simp
    moreover have "bytes h' x = bytes ?h2 x" using f(4) lv b x by blast
    ultimately show ?thesis using b1 by (simp add: heap_memcpy_def)
  qed
  moreover have "\<exists>m. sz \<le> m \<and> live bs' = insert (?b, m) (live bs - {(?a, n)})"
    using lv k(1) sa(2) by (intro exI [of _ k]) simp
  ultimately have "resized R p n sz h bs q h' bs'" using f(2) q unfolding resized_def by blast
  then show "\<exists>h' bs'. kfree p ?h2 = Some h' \<and> resized R p n sz h bs q h' bs'" using f(1) by blast
qed

lemma krealloc_spec:
  assumes rep: "heap_rep R h bs" and p: "p \<noteq> 0" "(p - HEADER_SIZE, n) \<in> live bs"
    and sz: "sz \<noteq> 0" "unat sz < 2 ^ 60"
    and mem: "4 * ((unat sz + 4221) div 4096) \<le> card (frees (h_vmm h))"
  shows "\<exists>p' h' bs'. krealloc p sz h = Some (p', h') \<and>
     (resized R p n sz h bs p' h' bs' \<or>
      p' = 0 \<and> heap_rep R h' bs' \<and> live bs' = live bs \<and> bytes h' = bytes h \<and> heap_current_end h' = HEAP_MAX)"
proof -
  let ?a = "p - HEADER_SIZE" and ?sa = "align_up sz"
  obtain xs ys where bs: "bs = xs @ (?a, n, False) # ys"
    using p(2) by (auto simp: live_def dest: split_list)
  have r0: "heap_rep R h (xs @ (?a, n, False) # ys)" using rep bs by simp
  have lv: "live (xs @ ys) = live bs - {(?a, n)}" using rep_middle(4) [OF r0] bs by (auto simp: live_def image_iff)
  have ua: "unat ?sa = (unat sz + 15) div 16 * 16" using sz(2) by (intro align_up_unat) simp
  have sz0: "0 < unat sz" using sz(1) by (simp add: unat_gt_0)
  have sa: "unat ?sa mod 16 = 0" "sz \<le> ?sa" "unat ?sa < 2 ^ 61" "0 < unat ?sa" "unat ?sa \<le> unat sz + 15"
    using ua sz(2) sz0 by (auto simp: word_le_nat_alt)
  have Ha: "hdr h ?a = mk_hdr n False (first_addr ys 0) (last_addr 0 xs)" using rep_middle(1) [OF r0] by simp
  let ?nx = "hdr h (first_addr ys 0)"
  let ?behind = "first_addr ys 0 \<noteq> 0 \<and> bfree ?nx \<noteq> 0 \<and> ?sa \<le> n + HEADER_SIZE + bsize ?nx"
  have run: "krealloc p sz h =
      (if ?sa \<le> n then Some (p, split_block ?a ?sa h)
       else if ?behind then do { h1 \<leftarrow> coalesce_forward ?a h;
                 Some (p, split_block ?a ?sa (hset ?a (bfree_update (\<lambda>_. 0)) h1)) }
       else do { (q, h1) \<leftarrow> kmalloc ?sa GFP_KERNEL h;
                 if q = 0 then Some (0, h1) else
                 do { h' \<leftarrow> kfree p (heap_memcpy q p (bsize (hdr h1 ?a)) h1); Some (q, h') } })"
    unfolding krealloc_def Let_def using p(1) sz(1) Ha by simp
  consider "?sa \<le> n" | "\<not> ?sa \<le> n" ?behind | "\<not> ?sa \<le> n" "\<not> ?behind" by blast
  then show ?thesis
  proof cases
    case 1
    then show ?thesis
      using split_resized [OF r0 p(1) sa(2) 1 sa(1) lv _ p(2) payload_index [OF rep p(2)]] run by auto
  next
    case 2
    then show ?thesis
      using krealloc_absorb [OF r0 p(1), of ?sa sz] sa(1,2) run bs by auto
  next
    case 3
    have "4 * ((unat ?sa + 4206) div 4096) \<le> 4 * ((unat sz + 4221) div 4096)"
      using sa(5) by (intro mult_le_mono2 div_le_mono) simp
    then obtain q h1 bs1 where q: "kmalloc ?sa GFP_KERNEL h = Some (q, h1)"
      "new_block R ?sa GFP_KERNEL h (live bs) q h1 bs1 \<or>
       q = 0 \<and> heap_rep R h1 bs1 \<and> live bs1 = live bs \<and> bytes h1 = bytes h \<and> heap_current_end h1 = HEAP_MAX"
      using kmalloc_spec [OF rep, of ?sa GFP_KERNEL] sa(3,4) mem by (auto simp: unat_gt_0)
    show ?thesis
    proof (cases "q = 0")
      case True
      then have "krealloc p sz h = Some (0, h1)" using run 3 q(1) by simp
      then show ?thesis using q(2) True by (auto simp: new_block_def)
    next
      case False
      then have nb: "new_block R ?sa GFP_KERNEL h (live bs) q h1 bs1" using q(2) by blast
      have lt: "n < ?sa" using 3(1) by simp
      obtain h' bs' where mv: "bsize (hdr h1 ?a) = n" "kfree p (heap_memcpy q p n h1) = Some h'"
        "resized R p n sz h bs q h' bs'"
        using krealloc_move [OF rep p nb lt sa(2)] by blast
      then have "krealloc p sz h = Some (q, h')" using run 3 q(1) False by simp
      then show ?thesis using mv(3) by blast
    qed
  qed
qed

section \<open>Initialisation\<close>

lemma kmalloc_init_spec:
  assumes reg: "heap_region R (h\<lparr>heap_current_end := HEAP_START\<rparr>)" and mem: "16 \<le> card (frees (h_vmm h))"
  shows "\<exists>h'. kmalloc_init h = Some h' \<and> heap_rep R h' [(HEAP_START, 16336, True)] \<and> bytes h' = bytes h \<and>
     card (frees (h_vmm h)) \<le> card (frees (h_vmm h')) + 16"
proof -
  let ?h0 = "h\<lparr>heap_current_end := HEAP_START\<rparr>"
  have k: "unat ((HEAP_INIT_PAGES * PAGE_SIZE + PAGE_SIZE - 1) div PAGE_SIZE) = 4" by simp
  obtain rc h1 where g: "heap_grow (HEAP_INIT_PAGES * PAGE_SIZE) ?h0 = Some (rc, h1)" "grown_to R ?h0 h1"
    "card (frees (h_vmm ?h0)) \<le> card (frees (h_vmm h1)) + 16"
    "rc = 0 \<and> unat (heap_current_end h1) = unat HEAP_START + 16384 \<or>
     rc = - 1 \<and> heap_current_end h1 = HEAP_MAX \<and> unat (heap_current_end h1) < unat HEAP_START + 16384"
    using heap_grow_spec [OF reg k] mem by auto
  let ?h' = "hset HEAP_START (\<lambda>_. mk_hdr 16336 True 0 0) (h1\<lparr>heap_start_block := HEAP_START\<rparr>)"
  have rc: "rc = 0" and e: "unat (heap_current_end h1) = unat HEAP_START + 16384" using g(4) by auto
  have "kmalloc_init h = Some ?h'"
    using g(1) rc by (simp add: kmalloc_init_def Let_def mk_hdr_def)
  moreover have "heap_rep R ?h' [(HEAP_START, 16336, True)]"
    using g(2) e by (simp add: heap_rep_def grown_to_def heap_region_def)
  ultimately show ?thesis using g(2,3) by (simp add: grown_to_def)
qed

section \<open>The allocator as an interface\<close>

text \<open>
  What the file system, the network and the process code rely on: blocks handed out do not overlap,
  stay put, and come back when released.  \<open>L\<close> is the set of blocks a client owns, as pairs of pointer
  and length.
\<close>

locale block_allocator =
  fixes malloc :: "u64 \<Rightarrow> 's \<Rightarrow> (u64 \<times> 's) option"
    and release :: "u64 \<Rightarrow> 's \<Rightarrow> 's option"
    and owns :: "'s \<Rightarrow> (u64 \<times> u64) set \<Rightarrow> bool"
    and ready :: "u64 \<Rightarrow> 's \<Rightarrow> bool"
  assumes malloc_ok: "owns s L \<Longrightarrow> ready n s \<Longrightarrow>
      \<exists>p s' L'. malloc n s = Some (p, s') \<and> owns s' L' \<and>
        (p = 0 \<and> L' = L \<or> p \<noteq> 0 \<and> (\<exists>m. n \<le> m \<and> (p, m) \<notin> L \<and> L' = insert (p, m) L))"
    and release_ok: "owns s L \<Longrightarrow> (p, m) \<in> L \<Longrightarrow> \<exists>s'. release p s = Some s' \<and> owns s' (L - {(p, m)})"
    and apart: "owns s L \<Longrightarrow> (p, m) \<in> L \<Longrightarrow> (q, k) \<in> L \<Longrightarrow> (p, m) \<noteq> (q, k) \<Longrightarrow>
      unat p + unat m \<le> unat q \<or> unat q + unat k \<le> unat p"
begin

lemma malloc_apart:
  assumes "owns s L" "ready n s" "malloc n s = Some (p, s')" "p \<noteq> 0" "(q, k) \<in> L"
  shows "unat p + unat n \<le> unat q \<or> unat q + unat k \<le> unat p"
proof -
  obtain L' m where m: "owns s' L'" "n \<le> m" "(p, m) \<notin> L" "L' = insert (p, m) L"
    using malloc_ok [OF assms(1,2)] assms(3,4) by auto
  have "unat n \<le> unat m" using m(2) by (simp add: word_le_nat_alt)
  moreover have "(p, m) \<noteq> (q, k)" using m(3) assms(5) by metis
  ultimately show ?thesis using apart [OF m(1), of p m q k] m(4) assms(5) by fastforce
qed

lemma malloc_release:
  assumes "owns s L" "ready n s" "malloc n s = Some (p, s')" "p \<noteq> 0"
  shows "\<exists>s''. release p s' = Some s'' \<and> owns s'' L"
proof -
  obtain L' m where m: "owns s' L'" "(p, m) \<notin> L" "L' = insert (p, m) L"
    using malloc_ok [OF assms(1,2)] assms(3,4) by auto
  then have "L' - {(p, m)} = L" by auto
  then show ?thesis using release_ok [OF m(1), of p m] m(3) by auto
qed

lemma release_list:
  assumes "owns s L" "set bs \<subseteq> L" "distinct bs"
  shows "\<exists>s'. for_each (\<lambda>b. release (fst b)) bs s = Some s' \<and> owns s' (L - set bs)"
  using assms
proof (induction bs arbitrary: s L)
  case (Cons b bs)
  obtain p m where b: "b = (p, m)" by (cases b)
  obtain s1 where s1: "release p s = Some s1" "owns s1 (L - {(p, m)})"
    using release_ok [OF Cons.prems(1), of p m] Cons.prems(2) b by auto
  have "set bs \<subseteq> L - {(p, m)}" using Cons.prems(2,3) b by auto
  then obtain s' where "for_each (\<lambda>b. release (fst b)) bs s1 = Some s'" "owns s' (L - {(p, m)} - set bs)"
    using Cons.IH [OF s1(2)] Cons.prems(3) by auto
  moreover have "L - {(p, m)} - set bs = L - set (b # bs)" using b by auto
  ultimately show ?case using s1(1) b by auto
qed simp

end

definition heap_owns :: "u64 set \<Rightarrow> kheap \<Rightarrow> (u64 \<times> u64) set \<Rightarrow> bool" where
  "heap_owns R h L \<longleftrightarrow> (\<exists>bs. heap_rep R h bs \<and> L = (\<lambda>(a, n). (a + HEADER_SIZE, n)) ` live bs)"

definition heap_ready :: "u64 \<Rightarrow> kheap \<Rightarrow> bool" where
  "heap_ready n h \<longleftrightarrow> n \<noteq> 0 \<and> unat n < 2 ^ 61 \<and> 4 * ((unat n + 4206) div 4096) \<le> card (frees (h_vmm h))"

lemma shift_mem: "(p, m) \<in> (\<lambda>(a, n). (a + HEADER_SIZE, n)) ` A \<longleftrightarrow> (p - HEADER_SIZE, m) \<in> A"
proof
  assume "(p - HEADER_SIZE, m) \<in> A"
  then show "(p, m) \<in> (\<lambda>(a, n). (a + HEADER_SIZE, n)) ` A"
    by (intro image_eqI [of _ _ "(p - HEADER_SIZE, m)"]) simp_all
qed auto

lemma shift_insert:
  "(\<lambda>(a, n). (a + HEADER_SIZE, n)) ` insert (p - HEADER_SIZE, m) A = insert (p, m) ((\<lambda>(a, n). (a + HEADER_SIZE, n)) ` A)"
  by simp

lemma shift_remove:
  fixes A :: "(u64 \<times> u64) set"
  shows "(\<lambda>(a, n). (a + HEADER_SIZE, n)) ` (A - {(p - HEADER_SIZE, m)}) = (\<lambda>(a, n). (a + HEADER_SIZE, n)) ` A - {(p, m)}"
proof (rule set_eqI)
  fix x :: "u64 \<times> u64"
  obtain q k where "x = (q, k)" by (cases x)
  then show "x \<in> (\<lambda>(a, n). (a + HEADER_SIZE, n)) ` (A - {(p - HEADER_SIZE, m)}) \<longleftrightarrow>
      x \<in> (\<lambda>(a, n). (a + HEADER_SIZE, n)) ` A - {(p, m)}"
    by (simp add: shift_mem)
qed

interpretation kmem: block_allocator "\<lambda>n. kmalloc n flags" kfree "heap_owns R" heap_ready for R flags
proof
  fix h L n assume "heap_owns R h L" and ready: "heap_ready n h"
  then obtain bs where bs: "heap_rep R h bs" "L = (\<lambda>(a, n). (a + HEADER_SIZE, n)) ` live bs"
    by (auto simp: heap_owns_def)
  obtain p h' bs' where k: "kmalloc n flags h = Some (p, h')"
    "new_block R n flags h (live bs) p h' bs' \<or> p = 0 \<and> heap_rep R h' bs' \<and> live bs' = live bs"
    using kmalloc_spec [OF bs(1), of n flags] ready by (auto simp: heap_ready_def)
  show "\<exists>p s' L'. kmalloc n flags h = Some (p, s') \<and> heap_owns R s' L' \<and>
      (p = 0 \<and> L' = L \<or> p \<noteq> 0 \<and> (\<exists>m. n \<le> m \<and> (p, m) \<notin> L \<and> L' = insert (p, m) L))"
  proof (cases "p = 0")
    case True
    then show ?thesis using k bs by (auto simp: new_block_def heap_owns_def)
  next
    case False
    then obtain m where m: "heap_rep R h' bs'" "n \<le> m" "live bs' = insert (p - HEADER_SIZE, m) (live bs)"
      "(p - HEADER_SIZE, m) \<notin> live bs" using k(2) by (auto simp: new_block_def)
    have "heap_owns R h' (insert (p, m) L)"
      unfolding heap_owns_def using m(1,3) bs(2) by (intro exI [of _ bs']) simp
    moreover have "(p, m) \<notin> L" using m(4) bs(2) by (simp add: shift_mem)
    ultimately show ?thesis using k(1) False m(2) by blast
  qed
next
  fix h L p m assume "heap_owns R h L" and mem: "(p, m) \<in> L"
  then obtain bs where bs: "heap_rep R h bs" "L = (\<lambda>(a, n). (a + HEADER_SIZE, n)) ` live bs"
    by (auto simp: heap_owns_def)
  have lv: "(p - HEADER_SIZE, m) \<in> live bs" using mem bs(2) by (simp add: shift_mem)
  then obtain xs ys where "bs = xs @ (p - HEADER_SIZE, m, False) # ys" by (auto simp: live_def dest: split_list)
  then have "p \<noteq> 0" using block_ptr(3) [of R h xs "p - HEADER_SIZE" m False ys] bs(1) by simp
  then obtain h' bs' where k: "kfree p h = Some h'" "heap_rep R h' bs'" "live bs' = live bs - {(p - HEADER_SIZE, m)}"
    using kfree_spec [OF bs(1) _ lv] by blast
  have "heap_owns R h' (L - {(p, m)})"
    unfolding heap_owns_def bs(2) shift_remove [symmetric] k(3) [symmetric] using k(2) by blast
  then show "\<exists>s'. kfree p h = Some s' \<and> heap_owns R s' (L - {(p, m)})" using k(1) by blast
next
  fix h L p m q k assume "heap_owns R h L" and mem: "(p, m) \<in> L" "(q, k) \<in> L" "(p, m) \<noteq> (q, k)"
  then obtain bs where bs: "heap_rep R h bs" "L = (\<lambda>(a, n). (a + HEADER_SIZE, n)) ` live bs"
    by (auto simp: heap_owns_def)
  have sp: "spaced (unat HEAP_START) bs (unat (heap_current_end h))" using bs(1) by (simp add: heap_rep_def)
  have lv: "(p - HEADER_SIZE, m, False) \<in> set bs" "(q - HEADER_SIZE, k, False) \<in> set bs"
    using mem(1,2) bs(2) by (auto simp: shift_mem live_def)
  have ptr: "unat p = unat (p - HEADER_SIZE) + 48" if b: "(p - HEADER_SIZE, m, False) \<in> set bs" for p m
  proof -
    obtain xs ys where "bs = xs @ (p - HEADER_SIZE, m, False) # ys" using b by (auto dest: split_list)
    then show ?thesis using block_ptr(1) [of R h xs "p - HEADER_SIZE" m False ys] bs(1) by simp
  qed
  have ne: "(p - HEADER_SIZE, m, False) \<noteq> (q - HEADER_SIZE, k, False)" using mem(3) by simp
  show "unat p + unat m \<le> unat q \<or> unat q + unat k \<le> unat p"
    using spaced_disjoint [OF sp lv ne] ptr [OF lv(1)] ptr [OF lv(2)] by (auto simp: block_end_def)
qed

section \<open>Properties\<close>

text \<open>The instance of the witnesses: 256 pages of memory, pages 0 to 2 in use, an empty kernel space.\<close>

definition pmm_example2 :: pmm where
  "pmm_example2 = pmm_example\<lparr>bitmap := [7, 0, 0, 0], bitmap_size := 32, total_pages := 256, free_pages := 253,
     highest_addr := 0x100000\<rparr>"

definition kheap_example :: kheap where
  "kheap_example = \<lparr>h_vmm = vmm_example\<lparr>vmm_pmm := pmm_example2\<rparr>, hdr = (\<lambda>_. poisoned), bytes = (\<lambda>_. 0xAA),
     heap_start_block = 0, heap_current_end = 0\<rparr>"

lemma free_set_example2: "free_set pmm_example2 = {3..<256}"
proof -
  have seven: "bit (7 :: u64) j \<longleftrightarrow> j < 3" for j
    using bit_mask_iff [of 3 j, where 'a = u64] by (auto simp: mask_eq_exp_minus_1 dest: bit_imp_le_length)
  have "page_used [7, 0, 0, 0] p \<longleftrightarrow> p < 3" if "p < 256" for p
  proof -
    have "p div 64 < 4" using that by auto
    then consider "p div 64 = 0" | "p div 64 = 1 \<or> p div 64 = 2 \<or> p div 64 = 3" by linarith
    then show ?thesis
    proof cases
      case 1
      then have "([7, 0, 0, 0] :: u64 list) ! (p div 64) = 7" "p mod 64 = p" by auto
      then show ?thesis unfolding page_used_def by (simp only: seven)
    qed (auto simp: page_used_def)
  qed
  then have "free_in [7, 0, 0, 0] 256 = {3..<256}" by (auto simp: free_in_def)
  then show ?thesis by (simp add: free_set_def pmm_example2_def pmm_example_def)
qed

lemma kheap_example_region: "heap_region {0x2000} (kheap_example\<lparr>heap_current_end := HEAP_START\<rparr>)"
proof -
  have "pmm_inv pmm_example2"
    unfolding pmm_inv_def free_set_example2
    by (simp add: pmm_example2_def pmm_example_def pmm_shape_def SPINLOCK_INIT_def)
  moreover have "in_use pmm_example2 0x2000"
    unfolding in_use_def free_set_example2 by (simp add: page_addr_def pmm_example2_def)
  ultimately have "vmm_ok {0x2000} (vmm_example\<lparr>vmm_pmm := pmm_example2\<rparr>)"
    using vmm_ok_example unfolding vmm_ok_def
    by (auto simp: vmm_example_def tables_def walk_zero pmm_example2_def split: if_splits)
  then show ?thesis
    using translate_example by (auto simp: heap_region_def kheap_example_def small_page_def translate_def
        vmm_example_def SPINLOCK_INIT_def)
qed

lemma kheap_example_init:
  "\<exists>h. kmalloc_init kheap_example = Some h \<and> heap_rep {0x2000} h [(HEAP_START, 16336, True)] \<and>
     237 \<le> card (frees (h_vmm h))"
proof -
  have "frees (h_vmm kheap_example) = {3..<256}" by (simp add: kheap_example_def free_set_example2)
  then show ?thesis using kmalloc_init_spec [OF kheap_example_region] by auto
qed



text \<open>
  C2.  Freeing a live block returns, removes exactly that block from the live blocks, keeps the
  contents of all others, and leaves a well-formed heap (neighbouring free blocks are merged).
\<close>

theorem kfree_correct:
  assumes "heap_rep R h bs" and "p \<noteq> 0" and "(p - HEADER_SIZE, n) \<in> live bs"
  shows "\<exists>h' bs'. kfree p h = Some h' \<and> heap_rep R h' bs' \<and> live bs' = live bs - {(p - HEADER_SIZE, n)} \<and>
     (\<forall>b \<in> live bs'. \<forall>x \<in> payload b. bytes h' x = bytes h x)"
  by (rule kfree_spec [OF assms])

theorem kfree_correct_witness:
  "\<exists>h p n h1 bs1 h2 bs2. kmalloc_init kheap_example = Some h \<and> kmalloc 100 GFP_KERNEL h = Some (p, h1) \<and>
     live bs1 = {(p - HEADER_SIZE, n)} \<and> kfree p h1 = Some h2 \<and> heap_rep {0x2000} h2 bs2 \<and> live bs2 = {}"
proof -
  obtain h where h: "kmalloc_init kheap_example = Some h" "heap_rep {0x2000} h [(HEAP_START, 16336, True)]"
    using kheap_example_init by blast
  have h': "heap_rep {0x2000} h ([] @ (HEAP_START, 16336, True) # [])" using h(2) by simp
  have al: "align_up 100 = 112" by (simp add: align_up_def)
  obtain p h1 bs1 where a: "block_allocate HEAP_START (align_up 100) GFP_KERNEL h = (p, h1)"
    "new_block {0x2000} 100 GFP_KERNEL h {} p h1 bs1"
    using block_allocate_live [OF h', of 100 GFP_KERNEL] al by auto
  have "kmalloc 100 GFP_KERNEL h = Some (p, h1)"
    using find_fit_rep [OF h(2), of 112] a(1) al by (auto simp: kmalloc_def Cons_eq_append_conv)
  moreover obtain n where n: "heap_rep {0x2000} h1 bs1" "p \<noteq> 0" "live bs1 = {(p - HEADER_SIZE, n)}"
    using a(2) by (auto simp: new_block_def)
  moreover obtain h2 bs2 where "kfree p h1 = Some h2" "heap_rep {0x2000} h2 bs2" "live bs2 = {}"
    using kfree_correct [OF n(1,2), of n] n(3) by auto
  ultimately show ?thesis using h(1) by blast
qed

text \<open>
  C17.  Resizing a live block: it returns either a pointer to a block of at least \<open>sz\<close> bytes whose
  first bytes (up to both sizes) are those of the old block, the old block being no longer live
  unless it was resized in place, or NULL with everything unchanged when the heap is at its limit.
  All other live blocks keep their place and contents.
\<close>

theorem krealloc_correct:
  assumes "heap_rep R h bs" and "p \<noteq> 0" and "(p - HEADER_SIZE, n) \<in> live bs"
    and "sz \<noteq> 0" and "unat sz < 2 ^ 60" and "4 * ((unat sz + 4221) div 4096) \<le> card (frees (h_vmm h))"
  shows "\<exists>p' h' bs'. krealloc p sz h = Some (p', h') \<and>
     (resized R p n sz h bs p' h' bs' \<or>
      p' = 0 \<and> heap_rep R h' bs' \<and> live bs' = live bs \<and> bytes h' = bytes h \<and> heap_current_end h' = HEAP_MAX)"
  by (rule krealloc_spec [OF assms])

theorem krealloc_correct_witness:
  "\<exists>h p n h1 bs1 p' h' bs'. kmalloc_init kheap_example = Some h \<and> live bs1 = {(p - HEADER_SIZE, n)} \<and>
     heap_rep {0x2000} h1 bs1 \<and> krealloc p 200 h1 = Some (p', h') \<and>
     (resized {0x2000} p n 200 h1 bs1 p' h' bs' \<or> p' = 0 \<and> heap_current_end h' = HEAP_MAX)"
proof -
  obtain h where h: "kmalloc_init kheap_example = Some h" "heap_rep {0x2000} h [(HEAP_START, 16336, True)]"
    "237 \<le> card (frees (h_vmm h))" using kheap_example_init by blast
  let ?h1 = "hset HEAP_START (bfree_update (\<lambda>_. 0)) h" and ?bs = "[(HEAP_START, 16336, False)] :: blk list"
  let ?p = "HEAP_START + HEADER_SIZE"
  have h': "heap_rep {0x2000} h ([] @ (HEAP_START, 16336, True) # [])" using h(2) by simp
  have r: "heap_rep {0x2000} ?h1 ([] @ (HEAP_START, 16336, False) # [])"
    by (rule mark_rep [OF h']) (use rep_middle(1) [OF h'] in \<open>simp_all add: same_region_def\<close>)
  then have "\<exists>p' h' bs'. krealloc ?p 200 ?h1 = Some (p', h') \<and>
     (resized {0x2000} ?p 16336 200 ?h1 ?bs p' h' bs' \<or> p' = 0 \<and> heap_current_end h' = HEAP_MAX)"
    using krealloc_correct [of "{0x2000}" ?h1 ?bs ?p 16336 200] h(3) by auto
  then obtain p' h' bs' where k: "krealloc ?p 200 ?h1 = Some (p', h')"
    "resized {0x2000} ?p 16336 200 ?h1 ?bs p' h' bs' \<or> p' = 0 \<and> heap_current_end h' = HEAP_MAX"
    by (elim exE conjE)
  have l: "live ?bs = {(?p - HEADER_SIZE, 16336)}" by simp
  have r': "heap_rep {0x2000} ?h1 ?bs" using r by simp
  show ?thesis by (intro exI conjI) (rule h(1) l r' k(1) k(2))+
qed

text \<open>
  The heap as its clients see it: a pointer handed out overlaps no block the client already
  owns, and releasing it gives back exactly the blocks owned before.
\<close>

lemma kmalloc_apart_and_back:
  assumes "heap_owns R h L" and "heap_ready n h" and "kmalloc n GFP_KERNEL h = Some (p, h')" and "p \<noteq> 0"
  shows "(\<forall>(q, k) \<in> L. unat p + unat n \<le> unat q \<or> unat q + unat k \<le> unat p) \<and>
         (\<exists>h''. kfree p h' = Some h'' \<and> heap_owns R h'' L)"
  using kmem.malloc_apart [OF assms] kmem.malloc_release [OF assms] by blast

text \<open>
  A request close to the top of the size type wraps to size 0 in \<^verbatim>\<open>align_up\<close> and is granted.
\<close>

lemma kmalloc_size_wraps:
  assumes rep: "heap_rep R h [(HEAP_START, 16336, True)]"
  shows "align_up (- 1) = 0" "\<exists>h'. kmalloc (- 1) flags h = Some (HEAP_START + HEADER_SIZE, h')"
proof -
  show al: "align_up (- 1) = 0" by (simp add: align_up_def)
  have "find_fit h 0 (heap_start_block h) = Some HEAP_START"
    using find_fit_rep [OF rep, of 0] by (auto simp: Cons_eq_append_conv)
  then show "\<exists>h'. kmalloc (- 1) flags h = Some (HEAP_START + HEADER_SIZE, h')"
    using al by (simp add: kmalloc_def block_allocate_def Let_def)
qed

end
