(* ===== verification/Kstate.thy ===== *)
theory Kstate
  imports Kmalloc
begin

text \<open>
  The kernel state that the process, scheduling and file-system code shares: the C structures of
  \<^verbatim>\<open>kernel/proc\<close> and \<^verbatim>\<open>kernel/fs\<close> as records, and the static variables of their files as the fields
  of \<open>kernel\<close>.  Structures are allocated from the kernel heap; each structure type has its own map
  from addresses to values (\<open>thr\<close>, \<open>procs\<close>, \<open>vnodes\<close>, ...), and 0 is the null pointer.  File data
  and other byte buffers are the bytes of the heap itself; \<open>user_mem\<close> is the memory the current
  process sees at user addresses, and \<open>user_frames\<close> the signal frames on user stacks.  The addresses of the static device nodes,
  fixed by the linker, are fields too.
\<close>

section \<open>Threads and wait queues\<close>

record ThreadContext =
  r15 :: u64
  r14 :: u64
  r13 :: u64
  r12 :: u64
  rbx :: u64
  rbp :: u64
  rsp :: u64

text \<open>
  Where a thread continues when \<^verbatim>\<open>context_switch\<close> returns into it: the return address on its saved
  stack.  It is inside \<^verbatim>\<open>sched_yield\<close>, inside another caller of \<^verbatim>\<open>sched_schedule\<close> (the timer
  interrupt or a system call), or at the trampoline of a thread that has never run.
\<close>

datatype resume_point = In_yield | In_schedule | In_trampoline

record Thread =
  tid :: u32
  tstate :: u8
  ctx :: ThreadContext
  resume :: resume_point
  stack_base :: u64
  stack_size :: u64
  kernel_stack_top :: u64
  entry :: u64
  arg :: u64
  tnext :: u64

record WaitQueue =
  wq_lock :: Spinlock
  wq_head :: u64
  wq_tail :: u64

abbreviation THREAD_READY :: u8 where "THREAD_READY \<equiv> 1"
abbreviation THREAD_RUNNING :: u8 where "THREAD_RUNNING \<equiv> 2"
abbreviation THREAD_BLOCKED :: u8 where "THREAD_BLOCKED \<equiv> 3"
abbreviation THREAD_DEAD :: u8 where "THREAD_DEAD \<equiv> 4"
abbreviation THREAD_STOPPED :: u8 where "THREAD_STOPPED \<equiv> 5"
abbreviation THREAD_STACK_SIZE :: u64 where "THREAD_STACK_SIZE \<equiv> 16384"

section \<open>Signals and processes\<close>

record SignalFrame =
  trampoline :: "u8 list"
  sf_user_rip :: u64
  sf_user_rsp :: u64
  sf_user_rflags :: u64
  sf_rax :: u64
  sf_rbx :: u64
  sf_rbp :: u64
  sf_r12 :: u64
  sf_r13 :: u64
  sf_r14 :: u64
  sf_r15 :: u64
  sf_rdi :: u64
  sf_rsi :: u64
  sf_rdx :: u64
  sf_r8 :: u64
  sf_r9 :: u64
  sf_r10 :: u64
  sf_signo :: u64
  sf_ret_addr :: u64

record SigState =
  pending :: u32
  handlers :: "u64 list"
  restoring :: u8
  restore_frame :: SignalFrame

record Process =
  pid :: u32
  pgid :: u32
  pstate :: u8
  exit_status :: int
  main_thread :: u64
  page_table :: u64
  fd_table :: u64
  brk_current :: u64
  brk_start :: u64
  cwd :: "u8 list"
  uid :: u32
  gid :: u32
  euid :: u32
  egid :: u32
  umask :: u32
  sig :: SigState
  child_exit_wq :: WaitQueue
  parent :: u64
  pnext :: u64

abbreviation PROC_ALIVE :: u8 where "PROC_ALIVE \<equiv> 0"
abbreviation PROC_ZOMBIE :: u8 where "PROC_ZOMBIE \<equiv> 1"
abbreviation PROC_TERMINATED :: u8 where "PROC_TERMINATED \<equiv> 2"
abbreviation PROC_STOPPED :: u8 where "PROC_STOPPED \<equiv> 3"

text \<open>The user registers saved at a system call, as a fork hands them to the child.\<close>

record ForkContext =
  user_rip :: u64
  user_rsp :: u64
  user_rflags :: u64
  user_rbp :: u64
  user_rbx :: u64
  user_r12 :: u64
  user_r13 :: u64
  user_r14 :: u64
  user_r15 :: u64

section \<open>Files\<close>

text \<open>The operation tables of the file systems: \<open>No_ops\<close> is the null pointer.\<close>

datatype VfsOps = No_ops | ramfs_ops | pipe_read_ops | pipe_write_ops
  | devfs_dir_ops | devfs_null_ops | devfs_zero_ops | devfs_tty_ops | fat32_file_ops | fat32_dir_ops

record VfsNode =
  inode_num :: u64
  ntype :: u8
  nsize :: u64
  mode :: u32
  nuid :: u32
  ngid :: u32
  ops :: VfsOps
  private_data :: u64

record VfsFile =
  fnode :: u64
  offset :: u64
  fflags :: u32

record FdEntry =
  efile :: VfsFile
  in_use :: u8

record RamfsNode =
  rdata :: u64
  capacity :: u32
  children_ptr :: u64
  children :: "(u8 list \<times> u64) list"

record PipeNode =
  buf :: "u8 list"
  head :: u32
  tail :: u32
  reader_count :: u32
  writer_count :: u32
  plock :: Spinlock
  readers_wq :: WaitQueue
  writers_wq :: WaitQueue

abbreviation VFS_FILE :: u8 where "VFS_FILE \<equiv> 0"
abbreviation VFS_DIRECTORY :: u8 where "VFS_DIRECTORY \<equiv> 1"
abbreviation VFS_PIPE :: u8 where "VFS_PIPE \<equiv> 2"

section \<open>Terminal and keyboard\<close>

text \<open>The variables of \<^verbatim>\<open>tty.c\<close> and \<^verbatim>\<open>keyboard.c\<close>; \<open>tty_out\<close> is the sequence of characters emitted.\<close>

record Tty =
  read_buf :: "u8 list"
  read_head :: u32
  read_tail :: u32
  lines_ready :: u32
  line_buf :: "u8 list"
  line_pos :: u32
  tty_fg_pgid :: u32
  tty_lock :: Spinlock
  tty_read_wq :: WaitQueue
  tty_out :: "u8 list"

record Keyboard =
  shift_held :: bool
  ctrl_held :: bool
  alt_held :: bool
  caps_lock :: bool

section \<open>The kernel state\<close>

record kernel =
  k_heap :: kheap
  thr :: "u64 \<Rightarrow> Thread"
  current_thread :: u64
  next_tid :: u32
  queue_head :: u64
  queue_tail :: u64
  idle_thread :: u64
  sched_lock :: Spinlock
  regs :: ThreadContext
  tss_rsp0 :: u64
  syscall_kernel_rsp :: u64
  procs :: "u64 \<Rightarrow> Process"
  proc_list :: u64
  next_pid :: u32
  proc_table :: "u64 list"
  sig_pending_arg :: u64
  user_frames :: "u64 \<Rightarrow> SignalFrame"
  user_mem :: "u64 \<Rightarrow> u8"
  saved_user :: ForkContext
  fork_child :: u64
  fork_ctx :: ForkContext
  wait_lock :: Spinlock
  vnodes :: "u64 \<Rightarrow> VfsNode"
  vfs_root :: u64
  mount_table :: "(u8 list \<times> u64) list"
  rnodes :: "u64 \<Rightarrow> RamfsNode"
  next_inode :: u64
  pipes :: "u64 \<Rightarrow> PipeNode"
  fd_tables :: "u64 \<Rightarrow> FdEntry list"
  dev_root_node :: u64
  dev_null_node :: u64
  dev_zero_node :: u64
  dev_tty_node :: u64
  tty :: Tty
  kbd :: Keyboard

text \<open>The flags register and CR3 are those of the memory managers' state.\<close>

definition cpu_flags :: "kernel \<Rightarrow> u64" where
  "cpu_flags s = rflags (vmm_pmm (h_vmm (k_heap s)))"

definition set_flags :: "u64 \<Rightarrow> kernel \<Rightarrow> kernel" where
  "set_flags fl s = (let h = k_heap s; v = h_vmm h in
     s\<lparr>k_heap := h\<lparr>h_vmm := v\<lparr>vmm_pmm := (vmm_pmm v)\<lparr>rflags := fl\<rparr>\<rparr>\<rparr>\<rparr>)"

definition paging_write_cr3 :: "u64 \<Rightarrow> kernel \<Rightarrow> kernel" where
  "paging_write_cr3 p s = (let h = k_heap s in s\<lparr>k_heap := h\<lparr>h_vmm := (h_vmm h)\<lparr>cr3 := p\<rparr>\<rparr>\<rparr>)"

text \<open>Taking and releasing a spinlock that is not itself part of the state record.\<close>

definition acquire :: "Spinlock \<Rightarrow> kernel \<Rightarrow> (Spinlock \<times> kernel) option" where
  "acquire lk s = do { (lk, fl) \<leftarrow> spinlock_acquire lk (cpu_flags s); Some (lk, set_flags fl s) }"

definition release :: "Spinlock \<Rightarrow> kernel \<Rightarrow> Spinlock \<times> kernel" where
  "release lk s = (let (lk, fl) = spinlock_release lk (cpu_flags s) in (lk, set_flags fl s))"

definition k_alloc :: "u64 \<Rightarrow> u32 \<Rightarrow> kernel \<Rightarrow> (u64 \<times> kernel) option" where
  "k_alloc n flags s = do { (p, h) \<leftarrow> kmalloc n flags (k_heap s); Some (p, s\<lparr>k_heap := h\<rparr>) }"

definition k_free :: "u64 \<Rightarrow> kernel \<Rightarrow> kernel option" where
  "k_free p s = do { h \<leftarrow> kfree p (k_heap s); Some (s\<lparr>k_heap := h\<rparr>) }"

definition tset :: "u64 \<Rightarrow> (Thread \<Rightarrow> Thread) \<Rightarrow> kernel \<Rightarrow> kernel" where
  "tset t f s = s\<lparr>thr := (thr s)(t := f (thr s t))\<rparr>"

definition pset :: "u64 \<Rightarrow> (Process \<Rightarrow> Process) \<Rightarrow> kernel \<Rightarrow> kernel" where
  "pset p f s = s\<lparr>procs := (procs s)(p := f (procs s p))\<rparr>"

definition nset :: "u64 \<Rightarrow> (VfsNode \<Rightarrow> VfsNode) \<Rightarrow> kernel \<Rightarrow> kernel" where
  "nset n f s = s\<lparr>vnodes := (vnodes s)(n := f (vnodes s n))\<rparr>"

definition rset :: "u64 \<Rightarrow> (RamfsNode \<Rightarrow> RamfsNode) \<Rightarrow> kernel \<Rightarrow> kernel" where
  "rset n f s = s\<lparr>rnodes := (rnodes s)(n := f (rnodes s n))\<rparr>"

section \<open>What setting flags and threads keeps\<close>

named_theorems kstate_simps

lemma cpu_flags_simps [kstate_simps, simp]:
  "cpu_flags (set_flags fl s) = fl" "set_flags fl (set_flags fl' s) = set_flags fl s" "set_flags (cpu_flags s) s = s"
  "cpu_flags (tset t f s) = cpu_flags s" "set_flags fl (tset t f s) = tset t f (set_flags fl s)"
  by (simp_all add: cpu_flags_def set_flags_def tset_def Let_def)

lemma set_flags_sel [kstate_simps, simp]:
  "thr (set_flags fl s) = thr s" "current_thread (set_flags fl s) = current_thread s"
  "queue_head (set_flags fl s) = queue_head s" "queue_tail (set_flags fl s) = queue_tail s"
  "idle_thread (set_flags fl s) = idle_thread s" "sched_lock (set_flags fl s) = sched_lock s"
  "procs (set_flags fl s) = procs s" "proc_table (set_flags fl s) = proc_table s" "proc_list (set_flags fl s) = proc_list s"
  "pipes (set_flags fl s) = pipes s" "vnodes (set_flags fl s) = vnodes s" "next_tid (set_flags fl s) = next_tid s"
  by (simp_all add: set_flags_def Let_def)

lemma tset_sel [kstate_simps, simp]:
  "thr (tset t f s) = (thr s)(t := f (thr s t))" "current_thread (tset t f s) = current_thread s"
  "queue_head (tset t f s) = queue_head s" "queue_tail (tset t f s) = queue_tail s"
  "idle_thread (tset t f s) = idle_thread s" "sched_lock (tset t f s) = sched_lock s" "k_heap (tset t f s) = k_heap s"
  "procs (tset t f s) = procs s" "proc_table (tset t f s) = proc_table s" "proc_list (tset t f s) = proc_list s"
  "pipes (tset t f s) = pipes s" "vnodes (tset t f s) = vnodes s" "next_tid (tset t f s) = next_tid s"
  by (simp_all add: tset_def)

lemma acquire_free [simp]:
  "locked lk = 0 \<Longrightarrow> acquire lk s =
     Some (lk\<lparr>locked := 1, saved_flags := cpu_flags s\<rparr>, set_flags (cpu_flags s AND NOT RFLAGS_IF) s)"
  by (simp add: acquire_def)

lemma acquire_held [simp]: "locked lk \<noteq> 0 \<Longrightarrow> acquire lk s = None"
  by (simp add: acquire_def)

lemma release_simp [simp]: "release lk s = (lk\<lparr>locked := 0\<rparr>, set_flags (saved_flags lk) s)"
  by (simp add: release_def spinlock_release_def)

end
