(* ===== verification/Sched.thy ===== *)
theory Sched
  imports Kstate
begin

text \<open>
  Threads (\<^verbatim>\<open>kernel/proc/thread.c\<close>), the run queue and the scheduler (\<^verbatim>\<open>kernel/proc/sched.c\<close>), and the
  register part of \<^verbatim>\<open>context_switch.asm\<close>.  A call of \<^verbatim>\<open>sched_schedule\<close> ends in the context of the
  thread it switches to; the state it returns is the state in which that thread continues, and the
  \<open>resume\<close> point stored for the old thread says where it will go on later.

  The run queue is a singly linked list through the threads themselves.  It is related to the list
  of its members (\<open>runq\<close>), on which pushing appends and popping takes the head; the same relation
  serves the wait queues, and both are instances of the interface \<open>fifo_queue\<close>.
\<close>

section \<open>Threads\<close>

definition zero_context :: ThreadContext where
  "zero_context = \<lparr>r15 = 0, r14 = 0, r13 = 0, r12 = 0, rbx = 0, rbp = 0, rsp = 0\<rparr>"

definition zero_thread :: Thread where
  "zero_thread = \<lparr>tid = 0, tstate = 0, ctx = zero_context, resume = In_schedule, stack_base = 0, stack_size = 0,
     kernel_stack_top = 0, entry = 0, arg = 0, tnext = 0\<rparr>"

abbreviation SIZEOF_Thread :: u64 where "SIZEOF_Thread \<equiv> 112"

definition thread_init :: "kernel \<Rightarrow> kernel option" where
  "thread_init s =
     do { (boot, s) \<leftarrow> k_alloc SIZEOF_Thread GFP_ZERO s;
          if boot = 0 then None else
          do { let s = tset boot (\<lambda>_. zero_thread\<lparr>tid := next_tid s, tstate := THREAD_RUNNING\<rparr>) s;
               Some (s\<lparr>next_tid := next_tid s + 1, current_thread := boot\<rparr>) } }"

definition thread_create :: "u64 \<Rightarrow> u64 \<Rightarrow> kernel \<Rightarrow> (u64 \<times> kernel) option" where
  "thread_create ent a s =
     do { (t, s) \<leftarrow> k_alloc SIZEOF_Thread GFP_ZERO s;
          if t = 0 then Some (0, s) else
          do { (stk, s) \<leftarrow> k_alloc THREAD_STACK_SIZE 0 s;
               if stk = 0 then do { s \<leftarrow> k_free t s; Some (0, s) } else
               do { let s = tset t (\<lambda>_. zero_thread
                       \<lparr>tid := next_tid s, tstate := THREAD_READY, stack_base := stk,
                        stack_size := THREAD_STACK_SIZE, kernel_stack_top := stk + THREAD_STACK_SIZE,
                        entry := ent, arg := a, tnext := 0, resume := In_trampoline,
                        ctx := zero_context\<lparr>rsp := stk + THREAD_STACK_SIZE - 8\<rparr>\<rparr>) s;
                    Some (t, s\<lparr>next_tid := next_tid s + 1\<rparr>) } } }"

definition thread_destroy :: "u64 \<Rightarrow> kernel \<Rightarrow> kernel option" where
  "thread_destroy t s =
     (if t = 0 then Some s else
      do { s \<leftarrow> (if stack_base (thr s t) \<noteq> 0 then k_free (stack_base (thr s t)) s else Some s);
           k_free t s })"

definition thread_current :: "kernel \<Rightarrow> u64" where
  "thread_current s = current_thread s"

definition thread_set_current :: "u64 \<Rightarrow> kernel \<Rightarrow> kernel" where
  "thread_set_current t s = s\<lparr>current_thread := t\<rparr>"

text \<open>
  A new thread enables interrupts, runs its entry function, given as the effect \<open>run\<close> of the code at
  an address, and ends up dead, halted until the timer schedules another thread.
\<close>

definition thread_trampoline :: "(u64 \<Rightarrow> u64 \<Rightarrow> kernel \<Rightarrow> kernel option) \<Rightarrow> kernel \<Rightarrow> kernel option" where
  "thread_trampoline run s =
     (let t = thread_current s;
          s = set_flags (cpu_flags s OR RFLAGS_IF) s
      in do { s \<leftarrow> run (entry (thr s t)) (arg (thr s t)) s;
              Some (tset t (tstate_update (\<lambda>_. THREAD_DEAD)) s) })"

section \<open>Run queue\<close>

definition queue_push :: "u64 \<Rightarrow> kernel \<Rightarrow> kernel" where
  "queue_push t s =
     (let s = tset t (tnext_update (\<lambda>_. 0)) s;
          s = (if queue_tail s \<noteq> 0 then tset (queue_tail s) (tnext_update (\<lambda>_. t)) s
               else s\<lparr>queue_head := t\<rparr>)
      in s\<lparr>queue_tail := t\<rparr>)"

definition queue_pop :: "kernel \<Rightarrow> u64 \<times> kernel" where
  "queue_pop s =
     (if queue_head s = 0 then (0, s) else
      let t = queue_head s;
          s = s\<lparr>queue_head := tnext (thr s t)\<rparr>;
          s = (if queue_head s = 0 then s\<lparr>queue_tail := 0\<rparr> else s)
      in (t, tset t (tnext_update (\<lambda>_. 0)) s))"

definition sched_add_thread :: "u64 \<Rightarrow> kernel \<Rightarrow> kernel" where
  "sched_add_thread t s = queue_push t (tset t (tstate_update (\<lambda>_. THREAD_READY)) s)"

partial_function (option) remove_from :: "u64 \<Rightarrow> u64 \<Rightarrow> u64 \<Rightarrow> kernel \<Rightarrow> kernel option" where
  "remove_from t pr cur s =
     (if cur = 0 then Some s
      else if cur = t then
        (let s = (if pr \<noteq> 0 then tset pr (tnext_update (\<lambda>_. tnext (thr s cur))) s
                  else s\<lparr>queue_head := tnext (thr s cur)\<rparr>);
             s = (if cur = queue_tail s then s\<lparr>queue_tail := pr\<rparr> else s)
         in Some (tset cur (tnext_update (\<lambda>_. 0)) s))
      else remove_from t cur (tnext (thr s cur)) s)"

definition sched_remove_thread :: "u64 \<Rightarrow> kernel \<Rightarrow> kernel option" where
  "sched_remove_thread t s = remove_from t 0 (queue_head s) s"

section \<open>Scheduling\<close>

definition proc_get_by_tid :: "kernel \<Rightarrow> u32 \<Rightarrow> u64" where
  "proc_get_by_tid s t = (if unat t < length (proc_table s) then proc_table s ! unat t else 0)"

definition proc_get_cr3 :: "kernel \<Rightarrow> u64 \<Rightarrow> u64" where
  "proc_get_cr3 s p =
     (if p \<noteq> 0 \<and> page_table (procs s p) \<noteq> 0 then page_table (procs s p) else vmm_get_kernel_pml4 (h_vmm (k_heap s)))"

definition gdt_set_kernel_stack :: "u64 \<Rightarrow> kernel \<Rightarrow> kernel" where
  "gdt_set_kernel_stack sp s = s\<lparr>tss_rsp0 := sp\<rparr>"

definition context_switch :: "u64 \<Rightarrow> u64 \<Rightarrow> kernel \<Rightarrow> kernel" where
  "context_switch old new s =
     (let s = tset old (ctx_update (\<lambda>_. regs s)) s in s\<lparr>regs := ctx (thr s new)\<rparr>)"

text \<open>The part of \<^verbatim>\<open>sched_schedule\<close> under \<^verbatim>\<open>if (next != old)\<close>; \<open>rp\<close> is where \<open>old\<close> will continue.\<close>

definition switch_to :: "resume_point \<Rightarrow> u64 \<Rightarrow> u64 \<Rightarrow> kernel \<Rightarrow> kernel" where
  "switch_to rp old new s =
     (let top = kernel_stack_top (thr s new);
          s = (if top \<noteq> 0 then (gdt_set_kernel_stack top s)\<lparr>syscall_kernel_rsp := top\<rparr> else s);
          old_cr3 = proc_get_cr3 s (proc_get_by_tid s (tid (thr s old)));
          new_cr3 = proc_get_cr3 s (proc_get_by_tid s (tid (thr s new)));
          s = (if new_cr3 \<noteq> old_cr3 then paging_write_cr3 new_cr3 s else s)
      in context_switch old new (tset old (resume_update (\<lambda>_. rp)) s))"

definition sched_schedule :: "resume_point \<Rightarrow> kernel \<Rightarrow> kernel" where
  "sched_schedule rp s =
     (let old = thread_current s; (new, s) = queue_pop s in
      if new = 0 \<and> tstate (thr s old) = THREAD_RUNNING then s else
      let new = (if new = 0 then idle_thread s else new) in
      if new = 0 then s else
      let s = (if tstate (thr s old) = THREAD_RUNNING \<and> old \<noteq> idle_thread s
               then queue_push old (tset old (tstate_update (\<lambda>_. THREAD_READY)) s) else s);
          s = thread_set_current new (tset new (tstate_update (\<lambda>_. THREAD_RUNNING)) s)
      in if new \<noteq> old then switch_to rp old new s else s)"

text \<open>
  The lock is taken by the thread that yields and released by the thread that continues, if that
  one continues inside \<^verbatim>\<open>sched_yield\<close>; a new thread starts by enabling interrupts instead.
\<close>

definition sched_yield :: "kernel \<Rightarrow> kernel option" where
  "sched_yield s =
     do { (lk, s) \<leftarrow> acquire (sched_lock s) s;
          let old = thread_current s;
          let s = sched_schedule In_yield (s\<lparr>sched_lock := lk\<rparr>);
          let new = thread_current s;
          Some (if new = old \<or> resume (thr s new) = In_yield
                then (let (lk, s) = release (sched_lock s) s in s\<lparr>sched_lock := lk\<rparr>)
                else if resume (thr s new) = In_trampoline then set_flags (cpu_flags s OR RFLAGS_IF) s
                else s) }"

definition sched_set_idle_thread :: "u64 \<Rightarrow> kernel \<Rightarrow> kernel" where
  "sched_set_idle_thread t s = tset t (tstate_update (\<lambda>_. THREAD_RUNNING)) (s\<lparr>idle_thread := t\<rparr>)"

section \<open>Linked lists through the threads\<close>

fun chain :: "(u64 \<Rightarrow> u64) \<Rightarrow> u64 \<Rightarrow> u64 list \<Rightarrow> bool" where
  "chain nx h [] \<longleftrightarrow> h = 0"
| "chain nx h (x # xs) \<longleftrightarrow> h = x \<and> x \<noteq> 0 \<and> chain nx (nx x) xs"

text \<open>A list with head and tail pointer: the members are distinct and the tail is the last of them.\<close>

definition fifo :: "(u64 \<Rightarrow> u64) \<Rightarrow> u64 \<Rightarrow> u64 \<Rightarrow> u64 list \<Rightarrow> bool" where
  "fifo nx h t xs \<longleftrightarrow> chain nx h xs \<and> distinct xs \<and> t = (if xs = [] then 0 else last xs)"

lemma chain_cong: "(\<And>x. x \<in> set xs \<Longrightarrow> nx x = nx' x) \<Longrightarrow> chain nx h xs = chain nx' h xs"
  by (induction xs arbitrary: h) auto

lemma chain_upd [simp]: "y \<notin> set xs \<Longrightarrow> chain (nx(y := v)) h xs = chain nx h xs"
  by (rule chain_cong) auto

lemma chain_nonzero: "chain nx h xs \<Longrightarrow> 0 \<notin> set xs"
  by (induction xs arbitrary: h) auto

lemma chain_snoc: "chain nx h xs \<Longrightarrow> xs \<noteq> [] \<Longrightarrow> distinct xs \<Longrightarrow> y \<noteq> 0 \<Longrightarrow> y \<notin> set xs \<Longrightarrow> nx y = 0 \<Longrightarrow>
   chain (nx(last xs := y)) h (xs @ [y])"
proof (induction xs arbitrary: h)
  case (Cons x xs)
  show ?case
  proof (cases "xs = []")
    case False
    then have "x \<noteq> last xs" using Cons.prems(3) by auto
    then show ?thesis using Cons False by auto
  qed (use Cons in auto)
qed simp

lemma fifo_cong: "(\<And>x. x \<in> set xs \<Longrightarrow> nx x = nx' x) \<Longrightarrow> fifo nx h t xs = fifo nx' h t xs"
  using chain_cong [of xs nx nx'] by (simp add: fifo_def)

lemma fifo_nonzero: "fifo nx h t xs \<Longrightarrow> 0 \<notin> set xs"
  by (auto simp: fifo_def dest: chain_nonzero)

lemma fifo_tail: "fifo nx h t xs \<Longrightarrow> t = 0 \<longleftrightarrow> xs = []"
  using fifo_nonzero [of nx h t xs] last_in_set [of xs] by (cases "xs = []") (auto simp: fifo_def simp del: last_in_set)

lemma fifo_tail_mem: "fifo nx h t xs \<Longrightarrow> t \<noteq> 0 \<Longrightarrow> t \<in> set xs"
  by (auto simp: fifo_def split: if_splits)

lemma fifo_push:
  assumes "fifo nx h t xs" and "x \<noteq> 0" and "x \<notin> set xs"
  shows "fifo (if t \<noteq> 0 then (nx(x := 0))(t := x) else nx(x := 0)) (if t \<noteq> 0 then h else x) x (xs @ [x])"
proof (cases "xs = []")
  case False
  have "chain (nx(x := 0)) h xs" using assms by (auto simp: fifo_def)
  then show ?thesis using chain_snoc [of "nx(x := 0)" h xs x] assms False fifo_tail [OF assms(1)]
    by (auto simp: fifo_def)
qed (use assms fifo_tail [OF assms(1)] in \<open>auto simp: fifo_def\<close>)

lemma fifo_pop:
  assumes "fifo nx h t (x # xs)"
  shows "h = x" "x \<noteq> 0" "fifo (nx(x := 0)) (nx x) (if nx x = 0 then 0 else t) xs"
proof -
  show "h = x" "x \<noteq> 0" using assms by (auto simp: fifo_def)
  have "chain (nx(x := 0)) (nx x) xs" using assms by (auto simp: fifo_def)
  then show "fifo (nx(x := 0)) (nx x) (if nx x = 0 then 0 else t) xs" using assms
    by (cases xs) (auto simp: fifo_def)
qed

section \<open>Queues as an interface\<close>

text \<open>
  What the users of a queue of threads rely on: \<open>rep s q\<close> relates a state to the list of queued
  threads; pushing appends, popping returns the head, and 0 from an empty queue.
\<close>

locale fifo_queue =
  fixes rep :: "'s \<Rightarrow> u64 list \<Rightarrow> bool"
    and push :: "u64 \<Rightarrow> 's \<Rightarrow> 's"
    and pop :: "'s \<Rightarrow> u64 \<times> 's"
  assumes push_rep: "rep s q \<Longrightarrow> t \<noteq> 0 \<Longrightarrow> t \<notin> set q \<Longrightarrow> rep (push t s) (q @ [t])"
    and pop_empty: "rep s [] \<Longrightarrow> pop s = (0, s)"
    and pop_rep: "rep s (t # q) \<Longrightarrow> \<exists>s'. pop s = (t, s') \<and> rep s' q"
    and rep_set: "rep s q \<Longrightarrow> distinct q \<and> 0 \<notin> set q"
begin

primrec pops :: "nat \<Rightarrow> 's \<Rightarrow> u64 list \<times> 's" where
  "pops 0 s = ([], s)"
| "pops (Suc n) s = (let (t, s) = pop s; (ts, s) = pops n s in (t # ts, s))"

lemma push_all:
  "rep s q \<Longrightarrow> distinct ts \<Longrightarrow> 0 \<notin> set ts \<Longrightarrow> set ts \<inter> set q = {} \<Longrightarrow> rep (fold push ts s) (q @ ts)"
proof (induction ts arbitrary: s q)
  case (Cons t ts)
  then have "rep (fold push ts (push t s)) ((q @ [t]) @ ts)" by (intro Cons.IH push_rep) auto
  then show ?case by simp
qed simp

lemma pop_all: "rep s (q @ r) \<Longrightarrow> \<exists>s'. pops (length q) s = (q, s') \<and> rep s' r"
proof (induction q arbitrary: s)
  case (Cons t q)
  then obtain s1 where s1: "pop s = (t, s1)" "rep s1 (q @ r)" using pop_rep by fastforce
  then show ?case using Cons.IH [OF s1(2)] by auto
qed simp

lemma first_in_first_out:
  assumes "rep s []" and "distinct ts" and "0 \<notin> set ts"
  shows "\<exists>s'. pops (length ts) (fold push ts s) = (ts, s') \<and> rep s' []"
  using pop_all [of "fold push ts s" ts "[]"] push_all [OF assms(1), of ts] assms(2,3) by simp

end

definition tn :: "kernel \<Rightarrow> u64 \<Rightarrow> u64" where
  "tn s x = tnext (thr s x)"

definition runq :: "kernel \<Rightarrow> u64 list \<Rightarrow> bool" where
  "runq s q \<longleftrightarrow> fifo (tn s) (queue_head s) (queue_tail s) q"

lemma tn_tset: "tn (tset t f s) = (tn s)(t := tnext (f (thr s t)))"
  by (auto simp: tn_def fun_eq_iff)

lemma tn_keep [simp]:
  "(\<And>x. tnext (f x) = tnext x) \<Longrightarrow> tn (tset t f s) = tn s" "tn (set_flags fl s) = tn s"
  "tn (s\<lparr>queue_head := a\<rparr>) = tn s" "tn (s\<lparr>queue_tail := a\<rparr>) = tn s" "tn (s\<lparr>sched_lock := lk\<rparr>) = tn s"
  "tn (s\<lparr>current_thread := a\<rparr>) = tn s"
  by (auto simp: tn_def fun_eq_iff)

lemma tn_push: "tn (queue_push t s) =
   (if queue_tail s \<noteq> 0 then ((tn s)(t := 0))(queue_tail s := t) else (tn s)(t := 0))"
  by (simp add: queue_push_def Let_def tn_tset)

lemma tn_pop: "queue_head s \<noteq> 0 \<Longrightarrow> tn (snd (queue_pop s)) = (tn s)(queue_head s := 0)"
  by (simp add: queue_pop_def Let_def tn_tset)

lemma queue_push_rep: "runq s q \<Longrightarrow> t \<noteq> 0 \<Longrightarrow> t \<notin> set q \<Longrightarrow> runq (queue_push t s) (q @ [t])"
  using fifo_push [of "tn s" "queue_head s" "queue_tail s" q t]
  by (simp add: runq_def tn_push) (simp add: queue_push_def Let_def split: if_splits)

lemma queue_pop_rep: "runq s (t # q) \<Longrightarrow> \<exists>s'. queue_pop s = (t, s') \<and> runq s' q"
  using fifo_pop [of "tn s" "queue_head s" "queue_tail s" t q]
  by (simp add: runq_def queue_pop_def Let_def tn_tset) (auto simp: tn_def)

lemma queue_pop_empty: "runq s [] \<Longrightarrow> queue_pop s = (0, s)"
  by (simp add: runq_def fifo_def queue_pop_def)

lemma runq_set: "runq s q \<Longrightarrow> distinct q \<and> 0 \<notin> set q"
  using fifo_nonzero [of "tn s" "queue_head s" "queue_tail s" q] by (simp add: runq_def fifo_def)

interpretation run_queue: fifo_queue runq queue_push queue_pop
  by unfold_locales (fact queue_push_rep queue_pop_empty queue_pop_rep runq_set)+

section \<open>The scheduler keeps its queue\<close>

text \<open>
  What the scheduler expects: a queue of ready threads, none of them the running or the idle thread.
\<close>

definition sched_inv :: "kernel \<Rightarrow> u64 list \<Rightarrow> bool" where
  "sched_inv s q \<longleftrightarrow> runq s q \<and> (\<forall>t \<in> set q. tstate (thr s t) = THREAD_READY) \<and>
     current_thread s \<noteq> 0 \<and> current_thread s \<notin> set q \<and> idle_thread s \<noteq> 0 \<and> idle_thread s \<notin> set q"

text \<open>What the queue operations keep of the other fields.\<close>

lemma queue_push_keeps [simp]:
  "current_thread (queue_push t s) = current_thread s" "idle_thread (queue_push t s) = idle_thread s"
  "sched_lock (queue_push t s) = sched_lock s" "cpu_flags (queue_push t s) = cpu_flags s"
  "k_heap (queue_push t s) = k_heap s" "procs (queue_push t s) = procs s" "proc_table (queue_push t s) = proc_table s"
  "tstate (thr (queue_push t s) x) = tstate (thr s x)" "resume (thr (queue_push t s) x) = resume (thr s x)"
  "kernel_stack_top (thr (queue_push t s) x) = kernel_stack_top (thr s x)" "tid (thr (queue_push t s) x) = tid (thr s x)"
  by (simp_all add: queue_push_def Let_def cpu_flags_def)

lemma queue_pop_keeps:
  assumes "queue_pop s = (t, s')"
  shows "current_thread s' = current_thread s" "idle_thread s' = idle_thread s"
    "sched_lock s' = sched_lock s" "cpu_flags s' = cpu_flags s" "k_heap s' = k_heap s"
    "procs s' = procs s" "proc_table s' = proc_table s"
    "tstate (thr s' x) = tstate (thr s x)" "resume (thr s' x) = resume (thr s x)"
  using assms by (auto simp: queue_pop_def Let_def cpu_flags_def split: if_splits)

lemma switch_to_keeps [simp]:
  "current_thread (switch_to rp a b s) = current_thread s" "idle_thread (switch_to rp a b s) = idle_thread s"
  "sched_lock (switch_to rp a b s) = sched_lock s" "cpu_flags (switch_to rp a b s) = cpu_flags s"
  "queue_head (switch_to rp a b s) = queue_head s" "queue_tail (switch_to rp a b s) = queue_tail s"
  "tstate (thr (switch_to rp a b s) x) = tstate (thr s x)" "tn (switch_to rp a b s) = tn s"
  "resume (thr (switch_to rp a b s) x) = (if x = a then rp else resume (thr s x))"
  by (auto simp: switch_to_def context_switch_def gdt_set_kernel_stack_def paging_write_cr3_def Let_def cpu_flags_def
      tn_def fun_eq_iff)

lemma runq_cong:
  "tn s' = tn s \<Longrightarrow> queue_head s' = queue_head s \<Longrightarrow> queue_tail s' = queue_tail s \<Longrightarrow> runq s' q = runq s q"
  by (simp add: runq_def)

text \<open>
  The thread that runs next and the queue it leaves: the head of the queue, or the current thread if
  it can go on, or the idle thread; a current thread that can go on is put at the end.
\<close>

definition next_thread :: "kernel \<Rightarrow> u64 list \<Rightarrow> u64" where
  "next_thread s q = (case q of t # _ \<Rightarrow> t
     | [] \<Rightarrow> if tstate (thr s (current_thread s)) = THREAD_RUNNING then current_thread s else idle_thread s)"

definition next_queue :: "kernel \<Rightarrow> u64 list \<Rightarrow> u64 list" where
  "next_queue s q = (case q of [] \<Rightarrow> []
     | _ # r \<Rightarrow> if tstate (thr s (current_thread s)) = THREAD_RUNNING \<and> current_thread s \<noteq> idle_thread s
               then r @ [current_thread s] else r)"

text \<open>What a call of the scheduler does to the state.\<close>

definition scheduled :: "resume_point \<Rightarrow> u64 list \<Rightarrow> kernel \<Rightarrow> kernel \<Rightarrow> bool" where
  "scheduled rp q s s' \<longleftrightarrow>
     current_thread s' = next_thread s q \<and> sched_inv s' (next_queue s q) \<and>
     tstate (thr s' (current_thread s')) = THREAD_RUNNING \<and>
     idle_thread s' = idle_thread s \<and> sched_lock s' = sched_lock s \<and> cpu_flags s' = cpu_flags s \<and>
     (\<forall>x. x \<noteq> current_thread s \<longrightarrow> x \<noteq> current_thread s' \<longrightarrow> tstate (thr s' x) = tstate (thr s x)) \<and>
     (\<forall>x. resume (thr s' x) = (if x = current_thread s \<and> current_thread s' \<noteq> x then rp else resume (thr s x))) \<and>
     (current_thread s' \<noteq> current_thread s \<longrightarrow> tstate (thr s' (current_thread s)) =
       (if tstate (thr s (current_thread s)) = THREAD_RUNNING \<and> current_thread s \<noteq> idle_thread s
        then THREAD_READY else tstate (thr s (current_thread s)))) \<and>
     (\<forall>x. x \<notin> set q \<longrightarrow>
       \<not> (x = current_thread s \<and> tstate (thr s x) = THREAD_RUNNING \<and> x \<noteq> idle_thread s) \<longrightarrow> tn s' x = tn s x)"

lemma set_current_keeps [simp]:
  "queue_head (thread_set_current t s) = queue_head s" "queue_tail (thread_set_current t s) = queue_tail s"
  "thr (thread_set_current t s) = thr s" "idle_thread (thread_set_current t s) = idle_thread s"
  "sched_lock (thread_set_current t s) = sched_lock s" "cpu_flags (thread_set_current t s) = cpu_flags s"
  "current_thread (thread_set_current t s) = t" "tn (thread_set_current t s) = tn s"
  by (simp_all add: thread_set_current_def cpu_flags_def tn_def fun_eq_iff)

lemma schedule_empty:
  assumes inv: "sched_inv s []"
  shows "scheduled rp [] s (sched_schedule rp s)"
proof -
  let ?old = "current_thread s"
  have pop: "queue_pop s = (0, s)" and i: "idle_thread s \<noteq> 0" "?old \<noteq> 0"
    using inv queue_pop_empty by (auto simp: sched_inv_def)
  show ?thesis
  proof (cases "tstate (thr s ?old) = THREAD_RUNNING")
    case True
    then have "sched_schedule rp s = s" using pop by (simp add: sched_schedule_def thread_current_def)
    then show ?thesis using inv True by (simp add: scheduled_def next_thread_def next_queue_def)
  next
    case False
    let ?s1 = "thread_set_current (idle_thread s) (tset (idle_thread s) (tstate_update (\<lambda>_. THREAD_RUNNING)) s)"
    have sc: "sched_schedule rp s = (if idle_thread s \<noteq> ?old then switch_to rp ?old (idle_thread s) ?s1 else ?s1)"
      using pop i False by (simp add: sched_schedule_def thread_current_def Let_def)
    have "runq ?s1 []" "runq (switch_to rp ?old (idle_thread s) ?s1) []"
      using inv by (auto simp: sched_inv_def runq_def fifo_def)
    then show ?thesis using inv False unfolding sc
      by (auto simp: scheduled_def next_thread_def next_queue_def sched_inv_def)
  qed
qed

lemma schedule_cons:
  assumes inv: "sched_inv s (t # r)"
  shows "scheduled rp (t # r) s (sched_schedule rp s)"
proof -
  let ?old = "current_thread s" and ?run = "tstate (thr s (current_thread s)) = THREAD_RUNNING \<and> current_thread s \<noteq> idle_thread s"
  obtain s1 where pop: "queue_pop s = (t, s1)" and r1: "runq s1 r"
    using inv queue_pop_rep unfolding sched_inv_def by blast
  note k = queue_pop_keeps [OF pop]
  have d: "t \<noteq> 0" "t \<notin> set r" "?old \<notin> set (t # r)" "?old \<noteq> 0" "idle_thread s \<notin> set (t # r)" "idle_thread s \<noteq> 0"
    using inv runq_set [of s "t # r"] by (auto simp: sched_inv_def)
  have hd: "queue_head s = t" "queue_head s \<noteq> 0" using inv d(1) by (auto simp: sched_inv_def runq_def fifo_def)
  have t1: "tn s1 = (tn s)(t := 0)" using tn_pop [OF hd(2)] pop hd by simp
  let ?s2 = "if ?run then queue_push ?old (tset ?old (tstate_update (\<lambda>_. THREAD_READY)) s1) else s1"
  let ?s3 = "thread_set_current t (tset t (tstate_update (\<lambda>_. THREAD_RUNNING)) ?s2)"
  have sc: "sched_schedule rp s = switch_to rp ?old t ?s3"
    using pop d k by (auto simp: sched_schedule_def thread_current_def Let_def)
  have rq0: "runq (tset ?old (tstate_update (\<lambda>_. THREAD_READY)) s1) r" using r1 by (simp add: runq_def)
  have rq: "runq ?s2 (next_queue s (t # r))"
    using queue_push_rep [OF rq0, of ?old] r1 d by (simp add: next_queue_def)
  have tl: "queue_tail s1 = 0 \<or> queue_tail s1 \<in> set r" using r1 fifo_tail_mem unfolding runq_def by blast
  have tn2: "tn ?s2 x = tn s x" if "x \<notin> set (t # r)" "\<not> (x = ?old \<and> ?run)" for x
    using that t1 tl by (auto simp: tn_push)
  have rq3: "runq (switch_to rp ?old t ?s3) (next_queue s (t # r))" using rq by (simp add: runq_def)
  have q: "set (next_queue s (t # r)) = (if ?run then insert ?old (set r) else set r)" by (auto simp: next_queue_def)
  have st: "tstate (thr (switch_to rp ?old t ?s3) x) =
     (if x = t then THREAD_RUNNING else if x = ?old \<and> ?run then THREAD_READY else tstate (thr s x))" for x
    using k(8) by auto
  have rs: "resume (thr (switch_to rp ?old t ?s3) x) = (if x = ?old then rp else resume (thr s x))" for x
    using k(9) by auto
  have keep: "current_thread (switch_to rp ?old t ?s3) = t" "idle_thread (switch_to rp ?old t ?s3) = idle_thread s"
    "sched_lock (switch_to rp ?old t ?s3) = sched_lock s" "cpu_flags (switch_to rp ?old t ?s3) = cpu_flags s"
    "tn (switch_to rp ?old t ?s3) = tn ?s2" using k by auto
  have "sched_inv (switch_to rp ?old t ?s3) (next_queue s (t # r))"
    unfolding sched_inv_def keep st q using rq3 inv d by (auto simp: sched_inv_def)
  then show ?thesis unfolding sc scheduled_def keep st rs using d tn2 by (auto simp: next_thread_def)
qed

lemma sched_schedule_spec: "sched_inv s q \<Longrightarrow> scheduled rp q s (sched_schedule rp s)"
  using schedule_empty schedule_cons by (cases q) auto

text \<open>Removing a thread: \<open>pr\<close> is the member before \<open>cur\<close>, or 0 at the head.\<close>

lemma remove_from_rep:
  assumes "runq s (xs @ ys)" and "pr = (if xs = [] then 0 else last xs)" and "t \<notin> set xs"
    and "cur = (if ys = [] then 0 else hd ys)"
  shows "\<exists>s'. remove_from t pr cur s = Some s' \<and> runq s' (remove1 t (xs @ ys))"
  using assms
proof (induction ys arbitrary: xs pr cur)
  case Nil
  then show ?case by (subst remove_from.simps) (simp add: remove1_idem)
next
  case (Cons y ys)
  have nz: "0 \<notin> set (xs @ y # ys)" "distinct (xs @ y # ys)" using runq_set [OF Cons.prems(1)] by auto
  have f: "chain (tn s) (queue_head s) (xs @ y # ys)" "queue_tail s = last (xs @ y # ys)"
    using Cons.prems(1) by (auto simp: runq_def fifo_def)
  have link: "chain (tn s) h (as @ y # ys) \<Longrightarrow> tn s y = (if ys = [] then 0 else hd ys)" for h as
    by (induction as arbitrary: h) (cases ys; auto)+
  have nx: "tn s y = (if ys = [] then 0 else hd ys)" using link [OF f(1)] .
  show ?case
  proof (cases "y = t")
    case False
    have "\<exists>s'. remove_from t y (tn s y) s = Some s' \<and> runq s' (remove1 t ((xs @ [y]) @ ys))"
      by (rule Cons.IH) (use Cons.prems False nx in auto)
    then show ?thesis using False Cons.prems(4) nz by (subst remove_from.simps) (simp add: tn_def)
  next
    case True
    let ?nx = "if xs = [] then tn s else (tn s)(last xs := tn s t)"
    let ?s1 = "if pr \<noteq> 0 then tset pr (tnext_update (\<lambda>_. tnext (thr s t))) s else s\<lparr>queue_head := tnext (thr s t)\<rparr>"
    let ?s2 = "if t = queue_tail ?s1 then ?s1\<lparr>queue_tail := pr\<rparr> else ?s1"
    have pr: "pr \<noteq> 0 \<longleftrightarrow> xs \<noteq> []" using Cons.prems(2) nz last_in_set [of xs] by (auto simp del: last_in_set)
    have rm: "remove_from t pr cur s = Some (tset t (tnext_update (\<lambda>_. 0)) ?s2)"
      using True nz Cons.prems(4) by (subst remove_from.simps) (simp add: Let_def)
    have cut: "chain (tn s) h (as @ t # ys) \<Longrightarrow> distinct (as @ t # ys) \<Longrightarrow>
        chain (if as = [] then tn s else (tn s)(last as := tn s t)) (if as = [] then tn s t else h) (as @ ys)" for h as
      by (induction as arbitrary: h) (auto split: if_splits)
    have "chain ?nx (if xs = [] then tn s t else queue_head s) (xs @ ys)" using cut f(1) nz(2) True by simp
    then have ch: "chain (?nx(t := 0)) (if xs = [] then tn s t else queue_head s) (xs @ ys)"
      using nz(2) True by simp
    have tn2: "tn (tset t (tnext_update (\<lambda>_. 0)) ?s2) = ?nx(t := 0)"
      using pr Cons.prems(2) by (auto simp: tn_def fun_eq_iff)
    have "last (xs @ t # ys) = t \<longleftrightarrow> ys = []" using nz(2) True last_in_set [of ys] by (auto simp del: last_in_set)
    then have "queue_tail ?s2 = (if xs @ ys = [] then 0 else last (xs @ ys))"
      using f(2) True Cons.prems(2) by (auto split: if_splits)
    moreover have "queue_head ?s2 = (if xs = [] then tn s t else queue_head s)" using pr by (auto simp: tn_def)
    ultimately have "runq (tset t (tnext_update (\<lambda>_. 0)) ?s2) (xs @ ys)"
      using ch nz(2) unfolding runq_def fifo_def tn2 by simp
    then show ?thesis using rm True Cons.prems(3) by (simp add: remove1_append)
  qed
qed

lemma sched_remove_thread_rep: "runq s q \<Longrightarrow> \<exists>s'. sched_remove_thread t s = Some s' \<and> runq s' (remove1 t q)"
  using remove_from_rep [of s "[]" q 0 t "queue_head s"]
  by (cases q) (auto simp: sched_remove_thread_def runq_def fifo_def)

section \<open>Properties\<close>

text \<open>The instance of the witnesses: thread 0x10 runs, 0x20 and 0x30 are ready, 0x40 is idle.\<close>

definition zero_frame :: SignalFrame where
  "zero_frame = \<lparr>trampoline = [], sf_user_rip = 0, sf_user_rsp = 0, sf_user_rflags = 0, sf_rax = 0, sf_rbx = 0, sf_rbp = 0,
     sf_r12 = 0, sf_r13 = 0, sf_r14 = 0, sf_r15 = 0, sf_rdi = 0, sf_rsi = 0, sf_rdx = 0, sf_r8 = 0, sf_r9 = 0, sf_r10 = 0,
     sf_signo = 0, sf_ret_addr = 0\<rparr>"

definition zero_process :: Process where
  "zero_process = \<lparr>pid = 0, pgid = 0, pstate = 0, exit_status = 0, main_thread = 0, page_table = 0, fd_table = 0,
     brk_current = 0, brk_start = 0, cwd = replicate 512 0, uid = 0, gid = 0, euid = 0, egid = 0, umask = 0,
     sig = \<lparr>pending = 0, handlers = replicate 32 0, restoring = 0, restore_frame = zero_frame\<rparr>,
     child_exit_wq = \<lparr>wq_lock = SPINLOCK_INIT, wq_head = 0, wq_tail = 0\<rparr>, parent = 0, pnext = 0\<rparr>"

definition zero_fork :: ForkContext where
  "zero_fork = \<lparr>user_rip = 0, user_rsp = 0, user_rflags = 0, user_rbp = 0, user_rbx = 0, user_r12 = 0, user_r13 = 0,
     user_r14 = 0, user_r15 = 0\<rparr>"

definition zero_node :: VfsNode where
  "zero_node = \<lparr>inode_num = 0, ntype = 0, nsize = 0, mode = 0, nuid = 0, ngid = 0, ops = No_ops, private_data = 0\<rparr>"

definition zero_pipe :: PipeNode where
  "zero_pipe = \<lparr>buf = replicate 4096 0, head = 0, tail = 0, reader_count = 0, writer_count = 0, plock = SPINLOCK_INIT,
     readers_wq = \<lparr>wq_lock = SPINLOCK_INIT, wq_head = 0, wq_tail = 0\<rparr>,
     writers_wq = \<lparr>wq_lock = SPINLOCK_INIT, wq_head = 0, wq_tail = 0\<rparr>\<rparr>"

definition kernel_example :: kernel where
  "kernel_example = \<lparr>k_heap = kheap_example,
     thr = (\<lambda>_. zero_thread)(0x10 := zero_thread\<lparr>tstate := THREAD_RUNNING\<rparr>,
       0x20 := zero_thread\<lparr>tid := 1, tstate := THREAD_READY, tnext := 0x30, resume := In_trampoline\<rparr>,
       0x30 := zero_thread\<lparr>tid := 2, tstate := THREAD_READY\<rparr>, 0x40 := zero_thread\<lparr>tid := 3, tstate := THREAD_RUNNING\<rparr>),
     current_thread = 0x10, next_tid = 4, queue_head = 0x20, queue_tail = 0x30, idle_thread = 0x40,
     sched_lock = SPINLOCK_INIT, regs = zero_context, tss_rsp0 = 0, syscall_kernel_rsp = 0,
     procs = (\<lambda>_. zero_process), proc_list = 0, next_pid = 0, proc_table = replicate 64 0, sig_pending_arg = 0,
     user_frames = (\<lambda>_. zero_frame), user_mem = (\<lambda>_. 0), saved_user = zero_fork, fork_child = 0, fork_ctx = zero_fork,
     wait_lock = SPINLOCK_INIT, vnodes = (\<lambda>_. zero_node), vfs_root = 0, mount_table = [],
     rnodes = (\<lambda>_. \<lparr>rdata = 0, capacity = 0, children_ptr = 0, children = []\<rparr>), next_inode = 1, pipes = (\<lambda>_. zero_pipe),
     fd_tables = (\<lambda>_. []), dev_root_node = 0x50, dev_null_node = 0x51, dev_zero_node = 0x52, dev_tty_node = 0x53,
     tty = \<lparr>read_buf = replicate 256 0, read_head = 0, read_tail = 0, lines_ready = 0, line_buf = replicate 256 0,
       line_pos = 0, tty_fg_pgid = 0, tty_lock = SPINLOCK_INIT,
       tty_read_wq = \<lparr>wq_lock = SPINLOCK_INIT, wq_head = 0, wq_tail = 0\<rparr>, tty_out = []\<rparr>,
     kbd = \<lparr>shift_held = False, ctrl_held = False, alt_held = False, caps_lock = False\<rparr>\<rparr>"

lemma kernel_example_inv: "sched_inv kernel_example [0x20, 0x30]"
  by (simp add: sched_inv_def runq_def fifo_def tn_def kernel_example_def zero_thread_def)

lemma kernel_example_current:
  "current_thread kernel_example = 0x10" "idle_thread kernel_example = 0x40"
  "tstate (thr kernel_example 0x10) = THREAD_RUNNING" "sched_lock kernel_example = SPINLOCK_INIT"
  "resume (thr kernel_example 0x20) = In_trampoline"
  by (simp_all add: kernel_example_def zero_thread_def)

text \<open>
  C20.  The scheduler on a well-formed queue of ready threads: the head of the queue runs next (the
  current thread goes on, or the idle thread runs, when the queue is empty), a current thread that
  can go on is appended, and the new state is again well formed; no other thread changes its state,
  lock and interrupt flag are untouched, and the old thread will continue where it called.
\<close>

theorem sched_schedule_correct:
  assumes "sched_inv s q"
  shows "scheduled rp q s (sched_schedule rp s)"
  by (rule sched_schedule_spec [OF assms])

theorem sched_schedule_correct_witness:
  "current_thread (sched_schedule In_schedule kernel_example) = 0x20 \<and>
   sched_inv (sched_schedule In_schedule kernel_example) [0x30, 0x10]"
  using sched_schedule_correct [OF kernel_example_inv, of In_schedule]
  by (simp add: scheduled_def next_thread_def next_queue_def kernel_example_current)

text \<open>The members of the queue take turns.\<close>

lemma round_robin_step:
  assumes "sched_inv s (t # r)" and "tstate (thr s (current_thread s)) = THREAD_RUNNING" and "current_thread s \<noteq> idle_thread s"
  defines "s' \<equiv> sched_schedule In_schedule s"
  shows "sched_inv s' (r @ [current_thread s])" "current_thread s' = t"
    "tstate (thr s' (current_thread s')) = THREAD_RUNNING" "current_thread s' \<noteq> idle_thread s'"
proof -
  have sc: "scheduled In_schedule (t # r) s s'" unfolding s'_def by (rule sched_schedule_spec [OF assms(1)])
  then show "sched_inv s' (r @ [current_thread s])" "current_thread s' = t"
    "tstate (thr s' (current_thread s')) = THREAD_RUNNING"
    using assms(2,3) by (auto simp: scheduled_def next_thread_def next_queue_def)
  then show "current_thread s' \<noteq> idle_thread s'"
    using sc assms(1) by (auto simp: scheduled_def sched_inv_def)
qed

text \<open>
  C21.  Round robin: as long as threads only lose the processor to the timer, the thread at position
  \<open>k\<close> of the queue runs after \<open>k + 1\<close> calls of the scheduler, so every ready thread runs.
\<close>

theorem sched_round_robin:
  assumes "sched_inv s q" and "tstate (thr s (current_thread s)) = THREAD_RUNNING"
    and "current_thread s \<noteq> idle_thread s" and "k < length q"
  shows "current_thread ((sched_schedule In_schedule ^^ Suc k) s) = q ! k"
  using assms
proof (induction k arbitrary: s q)
  case 0
  then show ?case using round_robin_step by (cases q) simp_all
next
  case (Suc k)
  obtain t r where q: "q = t # r" using Suc.prems(4) by (cases q) auto
  note st = round_robin_step [OF Suc.prems(1) [unfolded q] Suc.prems(2,3)]
  have "current_thread ((sched_schedule In_schedule ^^ Suc k) (sched_schedule In_schedule s)) = (r @ [current_thread s]) ! k"
    using Suc.prems(4) q by (intro Suc.IH st(1,3,4)) simp
  moreover have "(r @ [current_thread s]) ! k = q ! Suc k" using Suc.prems(4) q by (simp add: nth_append)
  ultimately show ?case by (simp add: funpow_swap1)
qed

theorem sched_round_robin_witness:
  "current_thread ((sched_schedule In_schedule ^^ Suc 1) kernel_example) = 0x30"
proof -
  have "tstate (thr kernel_example (current_thread kernel_example)) = THREAD_RUNNING"
    "current_thread kernel_example \<noteq> idle_thread kernel_example" by (simp_all add: kernel_example_current)
  then have "current_thread ((sched_schedule In_schedule ^^ Suc 1) kernel_example) = [0x20, 0x30] ! 1"
    by (intro sched_round_robin [OF kernel_example_inv]) simp_all
  then show ?thesis by simp
qed

text \<open>
  The lock taken in \<^verbatim>\<open>sched_yield\<close> stays held when the next thread does not continue inside
  \<^verbatim>\<open>sched_yield\<close>, such as a thread that has never run; the next call then never gets the lock.
\<close>

lemma sched_yield_keeps_lock:
  assumes inv: "sched_inv s (t # r)" and free: "locked (sched_lock s) = 0" and new: "resume (thr s t) \<noteq> In_yield"
  shows "\<exists>s'. sched_yield s = Some s' \<and> current_thread s' = t \<and> locked (sched_lock s') = 1 \<and> sched_yield s' = None"
proof -
  let ?lk = "(sched_lock s)\<lparr>locked := 1, saved_flags := cpu_flags s\<rparr>"
  let ?s1 = "(set_flags (cpu_flags s AND NOT RFLAGS_IF) s)\<lparr>sched_lock := ?lk\<rparr>"
  let ?s2 = "sched_schedule In_yield ?s1"
  have "sched_inv ?s1 (t # r)" using inv by (simp add: sched_inv_def runq_def)
  then have sc: "scheduled In_yield (t # r) ?s1 ?s2" by (rule sched_schedule_spec)
  have ne: "t \<noteq> current_thread s" using inv by (auto simp: sched_inv_def)
  have c: "current_thread ?s2 = t" "sched_lock ?s2 = ?lk" "resume (thr ?s2 t) = resume (thr s t)"
    using sc ne by (auto simp: scheduled_def next_thread_def)
  let ?s3 = "if resume (thr s t) = In_trampoline then set_flags (cpu_flags ?s2 OR RFLAGS_IF) ?s2 else ?s2"
  have "sched_yield s = Some ?s3"
    using free ne new c by (simp add: sched_yield_def thread_current_def Let_def)
  moreover have "current_thread ?s3 = t" "locked (sched_lock ?s3) = 1" using c by auto
  moreover from this have "sched_yield ?s3 = None" by (simp add: sched_yield_def)
  ultimately show ?thesis by blast
qed

end
