(* ===== verification/Sync.thy ===== *)
theory Sync
  imports Sched
begin

text \<open>
  Wait queues, mutexes, semaphores and condition variables: \<^verbatim>\<open>waitqueue.c\<close>, \<^verbatim>\<open>mutex.c\<close>,
  \<^verbatim>\<open>semaphore.c\<close> and \<^verbatim>\<open>condvar.c\<close> of \<^verbatim>\<open>kernel/proc\<close>.  The structure an operation works on is passed
  in and returned, beside the kernel state.

  Interrupts are off while a spinlock is held, so on one processor a thread runs undisturbed from
  taking the guard to releasing it or to the yield inside \<^verbatim>\<open>wq_sleep\<close>.  A call that may sleep is
  therefore a sequence of passes, each from the guard to the result or to the yield
  (\<open>mutex_lock_pass\<close>, \<open>sem_wait_pass\<close>), and the interleavings of all threads are the step relations
  \<open>mutex_step\<close> and \<open>sem_step\<close> over these passes and the timer.
\<close>

section \<open>Wait queues\<close>

definition WAITQUEUE_INIT :: WaitQueue where
  "WAITQUEUE_INIT = \<lparr>wq_lock = SPINLOCK_INIT, wq_head = 0, wq_tail = 0\<rparr>"

definition wq_init :: "WaitQueue \<Rightarrow> WaitQueue" where
  "wq_init wq = wq\<lparr>wq_lock := SPINLOCK_INIT, wq_head := 0, wq_tail := 0\<rparr>"

text \<open>Appending to and taking from the list, shared by the operations below.\<close>

definition wq_append :: "u64 \<Rightarrow> WaitQueue \<times> kernel \<Rightarrow> WaitQueue \<times> kernel" where
  "wq_append self = (\<lambda>(wq, s).
     let s = tset self (tnext_update (\<lambda>_. 0)) s;
         (wq, s) = (if wq_tail wq \<noteq> 0 then (wq, tset (wq_tail wq) (tnext_update (\<lambda>_. self)) s)
                    else (wq\<lparr>wq_head := self\<rparr>, s))
     in (wq\<lparr>wq_tail := self\<rparr>, s))"

definition wq_take :: "WaitQueue \<times> kernel \<Rightarrow> u64 \<times> (WaitQueue \<times> kernel)" where
  "wq_take = (\<lambda>(wq, s).
     if wq_head wq = 0 then (0, (wq, s)) else
     let t = wq_head wq;
         wq = wq\<lparr>wq_head := tnext (thr s t)\<rparr>;
         wq = (if wq_head wq = 0 then wq\<lparr>wq_tail := 0\<rparr> else wq)
     in (t, (wq, tset t (tnext_update (\<lambda>_. 0)) s)))"

definition wq_sleep :: "WaitQueue \<Rightarrow> Spinlock \<Rightarrow> kernel \<Rightarrow> (WaitQueue \<times> Spinlock \<times> kernel) option" where
  "wq_sleep wq lock s =
     do { let self = thread_current s;
          (wl, s) \<leftarrow> acquire (wq_lock wq) s;
          let (wq, s) = wq_append self (wq\<lparr>wq_lock := wl\<rparr>, s);
          let s = tset self (tstate_update (\<lambda>_. THREAD_BLOCKED)) s;
          let (wl, s) = release (wq_lock wq) s;
          let (lock, s) = release lock s;
          s \<leftarrow> sched_yield s;
          Some (wq\<lparr>wq_lock := wl\<rparr>, lock, s) }"

definition wq_wake :: "WaitQueue \<Rightarrow> kernel \<Rightarrow> (int \<times> WaitQueue \<times> kernel) option" where
  "wq_wake wq s =
     do { (wl, s) \<leftarrow> acquire (wq_lock wq) s;
          let (t, (wq, s)) = wq_take (wq\<lparr>wq_lock := wl\<rparr>, s);
          if t = 0 then (let (wl, s) = release (wq_lock wq) s in Some (0, wq\<lparr>wq_lock := wl\<rparr>, s))
          else (let s = sched_add_thread t s;
                    (wl, s) = release (wq_lock wq) s
                in Some (1, wq\<lparr>wq_lock := wl\<rparr>, s)) }"

partial_function (option) wake_loop :: "int \<Rightarrow> WaitQueue \<Rightarrow> kernel \<Rightarrow> (int \<times> WaitQueue \<times> kernel) option" where
  "wake_loop count wq s =
     (if wq_head wq = 0 then Some (count, wq, s) else
      (let t = wq_head wq;
           wq = wq\<lparr>wq_head := tnext (thr s t)\<rparr>;
           s = sched_add_thread t (tset t (tnext_update (\<lambda>_. 0)) s)
       in wake_loop (count + 1) wq s))"

definition wq_wake_all :: "WaitQueue \<Rightarrow> kernel \<Rightarrow> (int \<times> WaitQueue \<times> kernel) option" where
  "wq_wake_all wq s =
     do { (wl, s) \<leftarrow> acquire (wq_lock wq) s;
          (count, wq, s) \<leftarrow> wake_loop 0 (wq\<lparr>wq_lock := wl\<rparr>) s;
          let wq = wq\<lparr>wq_tail := 0\<rparr>;
          let (wl, s) = release (wq_lock wq) s;
          Some (count, wq\<lparr>wq_lock := wl\<rparr>, s) }"

section \<open>Mutexes\<close>

record Mutex =
  mguard :: Spinlock
  owner :: u64
  mwaiters :: WaitQueue

definition MUTEX_INIT :: Mutex where
  "MUTEX_INIT = \<lparr>mguard = SPINLOCK_INIT, owner = 0, mwaiters = WAITQUEUE_INIT\<rparr>"

definition mutex_init :: "Mutex \<Rightarrow> Mutex" where
  "mutex_init m = m\<lparr>mguard := SPINLOCK_INIT, owner := 0, mwaiters := wq_init (mwaiters m)\<rparr>"

text \<open>One round of the loop in \<^verbatim>\<open>mutex_lock\<close>: \<open>True\<close> when the lock is taken, \<open>False\<close> after sleeping.\<close>

definition mutex_lock_pass :: "Mutex \<Rightarrow> kernel \<Rightarrow> (bool \<times> Mutex \<times> kernel) option" where
  "mutex_lock_pass m s =
     do { (g, s) \<leftarrow> acquire (mguard m) s;
          if owner m \<noteq> 0 then
            do { (wq, g, s) \<leftarrow> wq_sleep (mwaiters m) g s;
                 Some (False, m\<lparr>mguard := g, mwaiters := wq\<rparr>, s) }
          else (let m = m\<lparr>owner := thread_current s\<rparr>; (g, s) = release g s
                in Some (True, m\<lparr>mguard := g\<rparr>, s)) }"

definition mutex_unlock :: "Mutex \<Rightarrow> kernel \<Rightarrow> (Mutex \<times> kernel) option" where
  "mutex_unlock m s =
     do { (g, s) \<leftarrow> acquire (mguard m) s;
          let m = m\<lparr>owner := 0\<rparr>;
          (_, wq, s) \<leftarrow> wq_wake (mwaiters m) s;
          let (g, s) = release g s;
          Some (m\<lparr>mguard := g, mwaiters := wq\<rparr>, s) }"

definition mutex_trylock :: "Mutex \<Rightarrow> kernel \<Rightarrow> (int \<times> Mutex \<times> kernel) option" where
  "mutex_trylock m s =
     do { (g, s) \<leftarrow> acquire (mguard m) s;
          if owner m \<noteq> 0 then (let (g, s) = release g s in Some (- 1, m\<lparr>mguard := g\<rparr>, s))
          else (let m = m\<lparr>owner := thread_current s\<rparr>; (g, s) = release g s
                in Some (0, m\<lparr>mguard := g\<rparr>, s)) }"

section \<open>Semaphores\<close>

record Semaphore =
  sguard :: Spinlock
  scount :: int
  swaiters :: WaitQueue

definition sem_init :: "int \<Rightarrow> Semaphore \<Rightarrow> Semaphore" where
  "sem_init n p = p\<lparr>sguard := SPINLOCK_INIT, scount := n, swaiters := wq_init (swaiters p)\<rparr>"

definition sem_wait_pass :: "Semaphore \<Rightarrow> kernel \<Rightarrow> (bool \<times> Semaphore \<times> kernel) option" where
  "sem_wait_pass p s =
     do { (g, s) \<leftarrow> acquire (sguard p) s;
          if scount p \<le> 0 then
            do { (wq, g, s) \<leftarrow> wq_sleep (swaiters p) g s;
                 Some (False, p\<lparr>sguard := g, swaiters := wq\<rparr>, s) }
          else (let p = p\<lparr>scount := scount p - 1\<rparr>; (g, s) = release g s
                in Some (True, p\<lparr>sguard := g\<rparr>, s)) }"

definition sem_post :: "Semaphore \<Rightarrow> kernel \<Rightarrow> (Semaphore \<times> kernel) option" where
  "sem_post p s =
     do { (g, s) \<leftarrow> acquire (sguard p) s;
          let p = p\<lparr>scount := scount p + 1\<rparr>;
          (_, wq, s) \<leftarrow> wq_wake (swaiters p) s;
          let (g, s) = release g s;
          Some (p\<lparr>sguard := g, swaiters := wq\<rparr>, s) }"

definition sem_trywait :: "Semaphore \<Rightarrow> kernel \<Rightarrow> (int \<times> Semaphore \<times> kernel) option" where
  "sem_trywait p s =
     do { (g, s) \<leftarrow> acquire (sguard p) s;
          if scount p \<le> 0 then (let (g, s) = release g s in Some (- 1, p\<lparr>sguard := g\<rparr>, s))
          else (let p = p\<lparr>scount := scount p - 1\<rparr>; (g, s) = release g s
                in Some (0, p\<lparr>sguard := g\<rparr>, s)) }"

definition sem_getvalue :: "Semaphore \<Rightarrow> kernel \<Rightarrow> (int \<times> Semaphore \<times> kernel) option" where
  "sem_getvalue p s =
     do { (g, s) \<leftarrow> acquire (sguard p) s;
          let val = scount p;
          let (g, s) = release g s;
          Some (val, p\<lparr>sguard := g\<rparr>, s) }"

section \<open>Condition variables\<close>

record CondVar =
  cwaiters :: WaitQueue

definition condvar_init :: "CondVar \<Rightarrow> CondVar" where
  "condvar_init cv = cv\<lparr>cwaiters := wq_init (cwaiters cv)\<rparr>"

text \<open>
  \<^verbatim>\<open>condvar_wait\<close> up to its yield; what follows when the thread runs again is \<^verbatim>\<open>mutex_lock\<close>, that is
  passes of \<open>mutex_lock_pass\<close>.
\<close>

definition condvar_wait :: "CondVar \<Rightarrow> Mutex \<Rightarrow> kernel \<Rightarrow> (CondVar \<times> Mutex \<times> kernel) option" where
  "condvar_wait cv m s =
     do { (wl, s) \<leftarrow> acquire (wq_lock (cwaiters cv)) s;
          let self = thread_current s;
          let (wq, s) = wq_append self ((cwaiters cv)\<lparr>wq_lock := wl\<rparr>, s);
          let s = tset self (tstate_update (\<lambda>_. THREAD_BLOCKED)) s;
          let (wl, s) = release (wq_lock wq) s;
          (m, s) \<leftarrow> mutex_unlock m s;
          s \<leftarrow> sched_yield s;
          Some (cv\<lparr>cwaiters := wq\<lparr>wq_lock := wl\<rparr>\<rparr>, m, s) }"

definition condvar_signal :: "CondVar \<Rightarrow> kernel \<Rightarrow> (CondVar \<times> kernel) option" where
  "condvar_signal cv s = do { (_, wq, s) \<leftarrow> wq_wake (cwaiters cv) s; Some (cv\<lparr>cwaiters := wq\<rparr>, s) }"

definition condvar_broadcast :: "CondVar \<Rightarrow> kernel \<Rightarrow> (CondVar \<times> kernel) option" where
  "condvar_broadcast cv s = do { (_, wq, s) \<leftarrow> wq_wake_all (cwaiters cv) s; Some (cv\<lparr>cwaiters := wq\<rparr>, s) }"

section \<open>Interleavings\<close>

text \<open>Where a thread stands: not using the object, inside the waiting loop, or holding the mutex.\<close>

datatype phase = Idle | Waiting | Owner

text \<open>
  A step of the system is a pass of the running thread (never the idle thread) or a timer tick.  A
  thread unlocks only what it holds, and the mutex is not recursive.
\<close>

inductive mutex_step :: "Mutex \<times> kernel \<times> (u64 \<Rightarrow> phase) \<Rightarrow> Mutex \<times> kernel \<times> (u64 \<Rightarrow> phase) \<Rightarrow> bool" where
  lock: "t = current_thread s \<Longrightarrow> t \<noteq> idle_thread s \<Longrightarrow> pc t \<noteq> Owner \<Longrightarrow> mutex_lock_pass m s = Some (got, m', s') \<Longrightarrow>
    mutex_step (m, s, pc) (m', s', pc(t := if got then Owner else Waiting))"
| unlock: "t = current_thread s \<Longrightarrow> t \<noteq> idle_thread s \<Longrightarrow> pc t = Owner \<Longrightarrow> mutex_unlock m s = Some (m', s') \<Longrightarrow>
    mutex_step (m, s, pc) (m', s', pc(t := Idle))"
| trylock: "t = current_thread s \<Longrightarrow> t \<noteq> idle_thread s \<Longrightarrow> pc t = Idle \<Longrightarrow> mutex_trylock m s = Some (r, m', s') \<Longrightarrow>
    mutex_step (m, s, pc) (m', s', pc(t := if r = 0 then Owner else Idle))"
| timer: "mutex_step (m, s, pc) (m, sched_schedule In_schedule s, pc)"

text \<open>The semaphore's system counts the tokens posted and taken.\<close>

inductive sem_step :: "Semaphore \<times> kernel \<times> (u64 \<Rightarrow> phase) \<times> int \<times> int \<Rightarrow>
    Semaphore \<times> kernel \<times> (u64 \<Rightarrow> phase) \<times> int \<times> int \<Rightarrow> bool" where
  wait: "t = current_thread s \<Longrightarrow> t \<noteq> idle_thread s \<Longrightarrow> sem_wait_pass p s = Some (got, p', s') \<Longrightarrow>
    sem_step (p, s, pc, n, k) (p', s', pc(t := if got then Idle else Waiting), n, if got then k + 1 else k)"
| post: "t = current_thread s \<Longrightarrow> t \<noteq> idle_thread s \<Longrightarrow> pc t = Idle \<Longrightarrow> sem_post p s = Some (p', s') \<Longrightarrow>
    sem_step (p, s, pc, n, k) (p', s', pc, n + 1, k)"
| trywait: "t = current_thread s \<Longrightarrow> t \<noteq> idle_thread s \<Longrightarrow> pc t = Idle \<Longrightarrow> sem_trywait p s = Some (r, p', s') \<Longrightarrow>
    sem_step (p, s, pc, n, k) (p', s', pc, n, if r = 0 then k + 1 else k)"
| timer: "sem_step (p, s, pc, n, k) (p, sched_schedule In_schedule s, pc, n, k)"

section \<open>Wait queues are queues\<close>

definition waitq :: "kernel \<Rightarrow> WaitQueue \<Rightarrow> u64 list \<Rightarrow> bool" where
  "waitq s wq ws \<longleftrightarrow> fifo (tn s) (wq_head wq) (wq_tail wq) ws"

lemma wq_append_keeps:
  assumes "wq_append t (wq, s) = (wq', s')"
  shows "tn s' = (if wq_tail wq \<noteq> 0 then ((tn s)(t := 0))(wq_tail wq := t) else (tn s)(t := 0))"
    "current_thread s' = current_thread s" "idle_thread s' = idle_thread s" "sched_lock s' = sched_lock s"
    "queue_head s' = queue_head s" "queue_tail s' = queue_tail s" "cpu_flags s' = cpu_flags s"
    "tstate (thr s' x) = tstate (thr s x)" "wq_lock wq' = wq_lock wq"
  using assms by (auto simp: wq_append_def Let_def tn_def fun_eq_iff split: if_splits)

lemma wq_take_keeps:
  assumes "wq_take (wq, s) = (t, (wq', s'))"
  shows "tn s' = (if t = 0 then tn s else (tn s)(t := 0))"
    "current_thread s' = current_thread s" "idle_thread s' = idle_thread s" "sched_lock s' = sched_lock s"
    "queue_head s' = queue_head s" "queue_tail s' = queue_tail s" "cpu_flags s' = cpu_flags s"
    "tstate (thr s' x) = tstate (thr s x)" "wq_lock wq' = wq_lock wq"
  using assms by (auto simp: wq_take_def Let_def tn_def fun_eq_iff split: if_splits)

lemma wq_append_rep: "waitq s wq ws \<Longrightarrow> t \<noteq> 0 \<Longrightarrow> t \<notin> set ws \<Longrightarrow>
   (case wq_append t (wq, s) of (wq', s') \<Rightarrow> waitq s' wq' (ws @ [t]))"
  using fifo_push [of "tn s" "wq_head wq" "wq_tail wq" ws t]
  by (auto simp: waitq_def wq_append_def Let_def tn_tset)

lemma wq_take_rep:
  assumes "waitq s wq (t # ws)"
  shows "\<exists>wq' s'. wq_take (wq, s) = (t, (wq', s')) \<and> waitq s' wq' ws"
  using fifo_pop [of "tn s" "wq_head wq" "wq_tail wq" t ws] assms
  by (simp add: waitq_def wq_take_def Let_def tn_tset) (auto simp: tn_def)

lemma wq_take_empty: "waitq s wq [] \<Longrightarrow> wq_take (wq, s) = (0, (wq, s))"
  by (simp add: waitq_def fifo_def wq_take_def)

lemma waitq_set: "waitq s wq ws \<Longrightarrow> distinct ws \<and> 0 \<notin> set ws"
  using fifo_nonzero by (auto simp: waitq_def fifo_def dest: chain_nonzero)

interpretation wait_queue: fifo_queue "\<lambda>(wq, s) ws. waitq s wq ws" wq_append wq_take
proof (unfold_locales, goal_cases)
  case (1 x q t)
  then show ?case using wq_append_rep [of "snd x" "fst x" q t] by (cases x) (simp split: prod.splits)
next
  case (2 x)
  then show ?case using wq_take_empty by (cases x) auto
next
  case (3 x t q)
  then show ?case using wq_take_rep by (cases x) fastforce
next
  case (4 x q)
  then show ?case using waitq_set by (cases x) auto
qed

section \<open>Sleeping and waking\<close>

text \<open>
  Run queue and wait queue together: disjoint, the sleeping threads blocked, the current thread
  running and in neither, the idle thread in neither.
\<close>

definition sync_inv :: "kernel \<Rightarrow> u64 list \<Rightarrow> WaitQueue \<Rightarrow> u64 list \<Rightarrow> bool" where
  "sync_inv s q wq ws \<longleftrightarrow> sched_inv s q \<and> waitq s wq ws \<and> locked (wq_lock wq) = 0 \<and> set ws \<inter> set q = {} \<and>
     current_thread s \<notin> set ws \<and> idle_thread s \<notin> set ws \<and> tstate (thr s (current_thread s)) = THREAD_RUNNING \<and>
     (\<forall>t \<in> set ws. tstate (thr s t) = THREAD_BLOCKED)"

lemma sched_inv_cong:
  assumes "\<And>x. x \<in> set q \<Longrightarrow> tn s' x = tn s x" and "\<And>x. x \<in> set q \<Longrightarrow> tstate (thr s' x) = tstate (thr s x)"
    and "queue_head s' = queue_head s" "queue_tail s' = queue_tail s" "current_thread s' = current_thread s"
    "idle_thread s' = idle_thread s"
  shows "sched_inv s' q = sched_inv s q"
  using assms fifo_cong [of q "tn s'" "tn s"] by (auto simp: sched_inv_def runq_def)

lemma waitq_cong: "(\<And>x. x \<in> set ws \<Longrightarrow> tn s' x = tn s x) \<Longrightarrow> waitq s' wq ws = waitq s wq ws"
  using fifo_cong [of ws "tn s'" "tn s"] by (simp add: waitq_def)

lemma sync_inv_flags [simp]:
  "sync_inv (set_flags fl s) q wq ws = sync_inv s q wq ws" "sync_inv (s\<lparr>sched_lock := lk\<rparr>) q wq ws = sync_inv s q wq ws"
  by (simp_all add: sync_inv_def waitq_def sched_inv_def runq_def)

text \<open>A yield: like the scheduler, except for lock and flags.\<close>

lemma yield_switches:
  assumes inv: "sched_inv s q" and y: "sched_yield s = Some s'"
  shows "current_thread s' = next_thread s q" "sched_inv s' (next_queue s q)" "idle_thread s' = idle_thread s"
    "tstate (thr s' (current_thread s')) = THREAD_RUNNING"
    "\<And>x. x \<noteq> current_thread s \<Longrightarrow> x \<noteq> next_thread s q \<Longrightarrow> tstate (thr s' x) = tstate (thr s x)"
    "tstate (thr s (current_thread s)) \<noteq> THREAD_RUNNING \<Longrightarrow> next_thread s q \<noteq> current_thread s \<Longrightarrow>
       tstate (thr s' (current_thread s)) = tstate (thr s (current_thread s))"
    "\<And>x. x \<notin> set q \<Longrightarrow> x \<noteq> current_thread s \<or> tstate (thr s x) \<noteq> THREAD_RUNNING \<Longrightarrow> tn s' x = tn s x"
proof -
  obtain lk fl where s1: "acquire (sched_lock s) s = Some (lk, set_flags fl s)"
    using y by (cases "locked (sched_lock s) = 0") (auto simp: sched_yield_def)
  define s0 where "s0 = (set_flags fl s)\<lparr>sched_lock := lk\<rparr>"
  define s2 where "s2 = sched_schedule In_yield s0"
  have "sched_inv s0 q" using inv by (simp add: s0_def sched_inv_def runq_def)
  then have sc: "scheduled In_yield q s0 s2" unfolding s2_def by (rule sched_schedule_spec)
  have nx: "next_thread s0 q = next_thread s q" "next_queue s0 q = next_queue s q" "current_thread s0 = current_thread s"
    "thr s0 = thr s" "tn s0 = tn s" "idle_thread s0 = idle_thread s"
    by (auto simp: s0_def next_thread_def next_queue_def split: list.splits)
  have e: "sched_inv s' r = sched_inv s2 r" "current_thread s' = current_thread s2" "idle_thread s' = idle_thread s2"
    "thr s' = thr s2" "tn s' = tn s2" for r
    using y s1 by (auto simp: sched_yield_def s2_def s0_def Let_def thread_current_def sched_inv_def runq_def split: if_splits)
  show "current_thread s' = next_thread s q" "sched_inv s' (next_queue s q)" "idle_thread s' = idle_thread s"
    "tstate (thr s' (current_thread s')) = THREAD_RUNNING"
    using sc unfolding scheduled_def nx e by auto
  show "\<And>x. x \<noteq> current_thread s \<Longrightarrow> x \<noteq> next_thread s q \<Longrightarrow> tstate (thr s' x) = tstate (thr s x)"
    "tstate (thr s (current_thread s)) \<noteq> THREAD_RUNNING \<Longrightarrow> next_thread s q \<noteq> current_thread s \<Longrightarrow>
       tstate (thr s' (current_thread s)) = tstate (thr s (current_thread s))"
    "\<And>x. x \<notin> set q \<Longrightarrow> x \<noteq> current_thread s \<or> tstate (thr s x) \<noteq> THREAD_RUNNING \<Longrightarrow> tn s' x = tn s x"
    using sc unfolding scheduled_def nx e by auto
qed

lemma wq_sleep_spec:
  assumes inv: "sync_inv s q wq ws" and ni: "current_thread s \<noteq> idle_thread s" and sl: "wq_sleep wq g s = Some (wq', g', s')"
  shows "g' = g\<lparr>locked := 0\<rparr>" "sync_inv s' (tl q) wq' (ws @ [current_thread s])"
    "current_thread s' = (if q = [] then idle_thread s else hd q)" "idle_thread s' = idle_thread s"
proof -
  let ?c = "current_thread s"
  note si = inv [unfolded sync_inv_def]
  have c: "?c \<noteq> 0" "?c \<notin> set q" "?c \<notin> set ws" using si by (auto simp: sched_inv_def)
  define w0 where "w0 = wq\<lparr>wq_lock := (wq_lock wq)\<lparr>locked := 1, saved_flags := cpu_flags s\<rparr>\<rparr>"
  define s1 where "s1 = set_flags (cpu_flags s AND NOT RFLAGS_IF) s"
  obtain w2 s2 where ap: "wq_append ?c (w0, s1) = (w2, s2)" by (cases "wq_append ?c (w0, s1)")
  note k = wq_append_keeps [OF ap]
  define s3 where "s3 = set_flags (saved_flags g) (tset ?c (tstate_update (\<lambda>_. THREAD_BLOCKED)) s2)"
  have y: "sched_yield s3 = Some s'" and gw: "g' = g\<lparr>locked := 0\<rparr>" "wq' = w2\<lparr>wq_lock := (wq_lock w2)\<lparr>locked := 0\<rparr>\<rparr>"
    using sl si ap by (auto simp: wq_sleep_def thread_current_def w0_def s1_def s3_def Let_def split: bind_splits)
  show "g' = g\<lparr>locked := 0\<rparr>" by (rule gw)
  have w1: "waitq s1 w0 ws" using si by (simp add: w0_def s1_def waitq_def)
  then have w2: "waitq s2 w2 (ws @ [?c])" using wq_append_rep [OF w1 c(1,3)] ap by simp
  have tl: "wq_tail w0 = 0 \<or> wq_tail w0 \<in> set ws" using w1 fifo_tail_mem unfolding waitq_def by blast
  have s3: "current_thread s3 = ?c" "idle_thread s3 = idle_thread s" "tn s3 = tn s2"
    "tstate (thr s3 x) = (if x = ?c then THREAD_BLOCKED else tstate (thr s x))" for x
    using k by (auto simp: s3_def s1_def)
  have "sched_inv s3 q = sched_inv s q"
    by (rule sched_inv_cong) (use k c tl si in \<open>auto simp: s3_def s1_def\<close>)
  then have i3: "sched_inv s3 q" using si by simp
  note ys = yield_switches [OF i3 y]
  have nt: "next_thread s3 q = (if q = [] then idle_thread s else hd q)" "next_queue s3 q = tl q"
    using s3 by (auto simp: next_thread_def next_queue_def split: list.splits)
  show cur: "current_thread s' = (if q = [] then idle_thread s else hd q)" "idle_thread s' = idle_thread s"
    using ys nt s3 by auto
  have nc: "next_thread s3 q \<notin> set (ws @ [?c])" using nt si c ni by (cases q) auto
  have ws3: "tstate (thr s' t) = THREAD_BLOCKED" if "t \<in> set (ws @ [?c])" for t
    using that ys(5) [of t] ys(6) nc s3 si c by (cases "t = ?c") auto
  have "waitq s' w2 (ws @ [?c]) = waitq s2 w2 (ws @ [?c])"
  proof (rule waitq_cong)
    fix x assume "x \<in> set (ws @ [?c])"
    then have "x \<notin> set q" "x \<noteq> current_thread s3 \<or> tstate (thr s3 x) \<noteq> THREAD_RUNNING" using si c s3 by auto
    then show "tn s' x = tn s2 x" using ys(7) [of x] s3 by simp
  qed
  then have "waitq s' wq' (ws @ [?c])" using w2 gw by (simp add: waitq_def)
  moreover have "set (tl q) \<subseteq> set q" by (cases q) auto
  ultimately show "sync_inv s' (tl q) wq' (ws @ [?c])"
    unfolding sync_inv_def using ys(1,2,4) nt cur nc ws3 si c gw ni by auto
qed

lemma wq_wake_spec:
  assumes inv: "sync_inv s q wq ws"
  shows "\<exists>n wq' s'. wq_wake wq s = Some (n, wq', s') \<and> n = (if ws = [] then 0 else 1) \<and>
     sync_inv s' (if ws = [] then q else q @ [hd ws]) wq' (tl ws) \<and>
     current_thread s' = current_thread s \<and> idle_thread s' = idle_thread s \<and> cpu_flags s' = cpu_flags s"
proof -
  note si = inv [unfolded sync_inv_def]
  define w0 where "w0 = wq\<lparr>wq_lock := (wq_lock wq)\<lparr>locked := 1, saved_flags := cpu_flags s\<rparr>\<rparr>"
  define s1 where "s1 = set_flags (cpu_flags s AND NOT RFLAGS_IF) s"
  have w1: "waitq s1 w0 ws" using si by (simp add: w0_def s1_def waitq_def)
  have aq: "acquire (wq_lock wq) s = Some (wq_lock w0, s1)" using si by (simp add: w0_def s1_def)
  show ?thesis
  proof (cases ws)
    case Nil
    then show ?thesis using inv aq wq_take_empty [of s1 w0] w1
      by (simp add: wq_wake_def w0_def s1_def Let_def waitq_def sync_inv_def sched_inv_def runq_def)
  next
    case (Cons t r)
    obtain w2 s2 where tk: "wq_take (w0, s1) = (t, (w2, s2))" and w2: "waitq s2 w2 r" using wq_take_rep w1 Cons by blast
    note k = wq_take_keeps [OF tk]
    have t: "t \<noteq> 0" "t \<notin> set r" "t \<notin> set q" "set r \<inter> set q = {}" "t \<noteq> current_thread s" "t \<noteq> idle_thread s"
      using si Cons waitq_set [OF w1] by auto
    have "sched_inv s2 q = sched_inv s q"
      by (rule sched_inv_cong) (use k t in \<open>auto simp: s1_def\<close>)
    then have i2: "sched_inv s2 q" using si by simp
    define s3 where "s3 = sched_add_thread t s2"
    let ?w3 = "w2\<lparr>wq_lock := (wq_lock w2)\<lparr>locked := 0\<rparr>\<rparr>"
    have wk: "wq_wake wq s = Some (1, ?w3, set_flags (cpu_flags s) s3)"
      using aq tk t(1) k(9) by (simp add: wq_wake_def Let_def s3_def) (simp add: w0_def)
    have "runq (tset t (tstate_update (\<lambda>_. THREAD_READY)) s2) q" using i2 by (simp add: sched_inv_def runq_def)
    then have "runq s3 (q @ [t])" unfolding s3_def sched_add_thread_def using queue_push_rep t by blast
    then have i3: "sched_inv s3 (q @ [t])"
      using i2 t k by (auto simp: sched_inv_def s3_def sched_add_thread_def s1_def)
    have qt: "queue_tail s2 = 0 \<or> queue_tail s2 \<in> set q"
      using i2 fifo_tail_mem unfolding sched_inv_def runq_def by blast
    have "waitq s3 w2 r = waitq s2 w2 r"
      by (rule waitq_cong) (use t qt in \<open>auto simp: s3_def sched_add_thread_def tn_push\<close>)
    then have "sync_inv s3 (q @ [t]) ?w3 r"
      using i3 w2 si Cons t k unfolding sync_inv_def
      by (auto simp: s3_def sched_add_thread_def s1_def waitq_def)
    then show ?thesis using wk Cons k by (auto simp: s3_def sched_add_thread_def s1_def)
  qed
qed

lemma timer_spec:
  assumes inv: "sync_inv s q wq ws"
  defines "s' \<equiv> sched_schedule In_schedule s"
  shows "sync_inv s' (next_queue s q) wq ws" "current_thread s' = next_thread s q" "idle_thread s' = idle_thread s"
proof -
  note si = inv [unfolded sync_inv_def]
  have sc: "scheduled In_schedule q s s'" unfolding s'_def by (rule sched_schedule_spec) (use si in simp)
  have nt: "next_thread s q \<notin> set ws" "next_thread s q = current_thread s \<or> next_thread s q \<in> set q \<or> next_thread s q = idle_thread s"
    using si by (auto simp: next_thread_def split: list.splits)
  have nq: "set (next_queue s q) \<subseteq> set q \<union> {current_thread s}" by (auto simp: next_queue_def split: list.splits if_splits)
  have "waitq s' wq ws = waitq s wq ws"
    by (rule waitq_cong) (use sc si in \<open>auto simp: scheduled_def\<close>)
  moreover have "tstate (thr s' t) = THREAD_BLOCKED" if "t \<in> set ws" for t
  proof -
    have "t \<noteq> current_thread s" "t \<noteq> current_thread s'" using that si nt(1) sc by (auto simp: scheduled_def)
    then show ?thesis using sc si that by (auto simp: scheduled_def)
  qed
  ultimately show "sync_inv s' (next_queue s q) wq ws"
    using sc si nt nq unfolding sync_inv_def scheduled_def by auto
  show "current_thread s' = next_thread s q" "idle_thread s' = idle_thread s" using sc by (auto simp: scheduled_def)
qed

text \<open>The timer keeps every ready or running thread (other than the idle one) ready or running.\<close>

lemma timer_keeps_ready:
  assumes "sync_inv s q wq ws" and "t \<in> set q \<or> t = current_thread s" and "t \<noteq> idle_thread s"
  shows "t \<in> set (next_queue s q) \<or> t = next_thread s q"
  using assms by (cases q) (auto simp: next_queue_def next_thread_def sync_inv_def)

section \<open>Mutexes exclude\<close>

definition mutex_inv :: "Mutex \<times> kernel \<times> (u64 \<Rightarrow> phase) \<Rightarrow> bool" where
  "mutex_inv = (\<lambda>(m, s, pc). \<exists>q ws. sync_inv s q (mwaiters m) ws \<and> locked (mguard m) = 0 \<and>
     (\<forall>t. pc t = Owner \<longleftrightarrow> t = owner m \<and> t \<noteq> 0) \<and> (\<forall>t \<in> set ws. pc t = Waiting) \<and>
     (\<forall>t. pc t = Waiting \<longrightarrow> t \<in> set ws \<or> t \<in> set q \<or> t = current_thread s) \<and> pc (idle_thread s) = Idle \<and>
     (ws \<noteq> [] \<longrightarrow> owner m \<noteq> 0 \<or> (\<exists>t. pc t = Waiting \<and> t \<notin> set ws)))"

lemma mutex_invI:
  assumes "sync_inv s q (mwaiters m) ws" "locked (mguard m) = 0"
    "\<And>t. pc t = Owner \<longleftrightarrow> t = owner m \<and> t \<noteq> 0" "\<And>t. t \<in> set ws \<Longrightarrow> pc t = Waiting"
    "\<And>t. pc t = Waiting \<Longrightarrow> t \<in> set ws \<or> t \<in> set q \<or> t = current_thread s" "pc (idle_thread s) = Idle"
    "ws \<noteq> [] \<Longrightarrow> owner m = 0 \<Longrightarrow> \<exists>t. pc t = Waiting \<and> t \<notin> set ws"
  shows "mutex_inv (m, s, pc)"
  unfolding mutex_inv_def prod.case
  by (intro exI [of _ q] exI [of _ ws] conjI allI ballI impI) (use assms in auto)

lemma mutex_lock_inv:
  assumes "mutex_inv (m, s, pc)" and ni: "current_thread s \<noteq> idle_thread s" and no: "pc (current_thread s) \<noteq> Owner"
    and lk: "mutex_lock_pass m s = Some (got, m', s')"
  shows "mutex_inv (m', s', pc(current_thread s := if got then Owner else Waiting))"
proof -
  let ?c = "current_thread s"
  from assms(1) obtain q ws where i: "sync_inv s q (mwaiters m) ws" "locked (mguard m) = 0"
    "\<And>t. pc t = Owner \<longleftrightarrow> t = owner m \<and> t \<noteq> 0" "\<And>t. t \<in> set ws \<Longrightarrow> pc t = Waiting"
    "\<And>t. pc t = Waiting \<Longrightarrow> t \<in> set ws \<or> t \<in> set q \<or> t = ?c" "pc (idle_thread s) = Idle"
    unfolding mutex_inv_def prod.case by blast
  have c: "?c \<noteq> 0" "?c \<notin> set ws" "?c \<notin> set q" using i(1) by (auto simp: sync_inv_def sched_inv_def)
  show ?thesis
  proof (cases "owner m = 0")
    case True
    then have r: "got" "m' = m\<lparr>owner := ?c, mguard := (mguard m)\<lparr>locked := 0, saved_flags := cpu_flags s\<rparr>\<rparr>"
      "s' = s" using lk i(2) by (auto simp: mutex_lock_pass_def Let_def thread_current_def)
    show ?thesis
    proof (rule mutex_invI [of _ q _ ws])
      fix t
      show "(pc(?c := if got then Owner else Waiting)) t = Owner \<longleftrightarrow> t = owner m' \<and> t \<noteq> 0"
        using i(3) [of t] True r c(1) by auto
      show "t \<in> set ws \<Longrightarrow> (pc(?c := if got then Owner else Waiting)) t = Waiting" using i(4) [of t] c(2) by auto
      show "(pc(?c := if got then Owner else Waiting)) t = Waiting \<Longrightarrow> t \<in> set ws \<or> t \<in> set q \<or> t = current_thread s'"
        using i(5) [of t] r by (auto split: if_splits)
    qed (use i(1,6) r ni c(1) in simp_all)
  next
    case False
    obtain wq g where r: "\<not> got" "m' = m\<lparr>mguard := g, mwaiters := wq\<rparr>"
      and sl: "wq_sleep (mwaiters m) ((mguard m)\<lparr>locked := 1, saved_flags := cpu_flags s\<rparr>)
        (set_flags (cpu_flags s AND NOT RFLAGS_IF) s) = Some (wq, g, s')"
      using lk i(2) False by (auto simp: mutex_lock_pass_def Let_def thread_current_def split: bind_splits)
    have ni': "current_thread (set_flags (cpu_flags s AND NOT RFLAGS_IF) s) \<noteq> idle_thread (set_flags (cpu_flags s AND NOT RFLAGS_IF) s)"
      using ni by simp
    note sp = wq_sleep_spec [OF _ ni' sl, unfolded sync_inv_flags set_flags_sel, OF i(1)]
    have co: "?c \<noteq> owner m" using no i(3) c(1) by auto
    have q: "t \<in> set (tl q) \<or> t = current_thread s'" if "t \<in> set q" for t using that sp(3) by (cases q) auto
    show ?thesis
    proof (rule mutex_invI [of _ "tl q" _ "ws @ [?c]"])
      fix t
      show "(pc(?c := if got then Owner else Waiting)) t = Owner \<longleftrightarrow> t = owner m' \<and> t \<noteq> 0"
        using i(3) [of t] r co by auto
      show "t \<in> set (ws @ [?c]) \<Longrightarrow> (pc(?c := if got then Owner else Waiting)) t = Waiting" using i(4) [of t] r(1) by auto
      show "(pc(?c := if got then Owner else Waiting)) t = Waiting \<Longrightarrow>
          t \<in> set (ws @ [?c]) \<or> t \<in> set (tl q) \<or> t = current_thread s'"
        using i(5) [of t] q [of t] by (auto split: if_splits)
    qed (use i(6) r ni sp False in simp_all)
  qed
qed

lemma mutex_unlock_inv:
  assumes "mutex_inv (m, s, pc)" and ni: "current_thread s \<noteq> idle_thread s" and ow: "pc (current_thread s) = Owner"
    and ul: "mutex_unlock m s = Some (m', s')"
  shows "mutex_inv (m', s', pc(current_thread s := Idle))"
proof -
  let ?c = "current_thread s" and ?s1 = "set_flags (cpu_flags s AND NOT RFLAGS_IF) s"
  from assms(1) obtain q ws where i: "sync_inv s q (mwaiters m) ws" "locked (mguard m) = 0"
    "\<And>t. pc t = Owner \<longleftrightarrow> t = owner m \<and> t \<noteq> 0" "\<And>t. t \<in> set ws \<Longrightarrow> pc t = Waiting"
    "\<And>t. pc t = Waiting \<Longrightarrow> t \<in> set ws \<or> t \<in> set q \<or> t = ?c" "pc (idle_thread s) = Idle"
    unfolding mutex_inv_def prod.case by blast
  have c: "?c \<noteq> 0" "?c \<notin> set ws" "?c \<notin> set q" using i(1) by (auto simp: sync_inv_def sched_inv_def)
  have i1: "sync_inv ?s1 q (mwaiters m) ws" using i(1) by simp
  obtain n wq s2 where w: "wq_wake (mwaiters m) ?s1 = Some (n, wq, s2)"
    "sync_inv s2 (if ws = [] then q else q @ [hd ws]) wq (tl ws)" "current_thread s2 = ?c" "idle_thread s2 = idle_thread s"
    using wq_wake_spec [OF i1] by auto
  have r: "m' = m\<lparr>owner := 0, mguard := (mguard m)\<lparr>locked := 0, saved_flags := cpu_flags s\<rparr>, mwaiters := wq\<rparr>"
    "s' = set_flags (cpu_flags s) s2"
    using ul i(2) w(1) by (auto simp: mutex_unlock_def Let_def)
  have o: "owner m = ?c" using ow i(3) by auto
  have d: "distinct ws" using i(1) waitq_set by (auto simp: sync_inv_def)
  show ?thesis
  proof (cases ws)
    case Nil
    show ?thesis by (rule mutex_invI [of _ q _ "[]"]) (use i r w o c ni Nil in \<open>auto split: if_splits\<close>)
  next
    case (Cons t ts)
    have "pc t = Waiting" "t \<notin> set ts" "t \<noteq> ?c" using i(4) Cons d c by auto
    then show ?thesis
      by (intro mutex_invI [of _ "q @ [t]" _ ts]) (use i r w o c ni Cons in \<open>auto split: if_splits\<close>)
  qed
qed

lemma mutex_trylock_inv:
  assumes "mutex_inv (m, s, pc)" and ni: "current_thread s \<noteq> idle_thread s" and id: "pc (current_thread s) = Idle"
    and tl: "mutex_trylock m s = Some (r, m', s')"
  shows "mutex_inv (m', s', pc(current_thread s := if r = 0 then Owner else Idle))"
proof -
  let ?c = "current_thread s"
  from assms(1) obtain q ws where i: "sync_inv s q (mwaiters m) ws" "locked (mguard m) = 0"
    "\<And>t. pc t = Owner \<longleftrightarrow> t = owner m \<and> t \<noteq> 0" "\<And>t. t \<in> set ws \<Longrightarrow> pc t = Waiting"
    "\<And>t. pc t = Waiting \<Longrightarrow> t \<in> set ws \<or> t \<in> set q \<or> t = ?c" "pc (idle_thread s) = Idle"
    and lost: "ws \<noteq> [] \<Longrightarrow> owner m = 0 \<Longrightarrow> \<exists>t. pc t = Waiting \<and> t \<notin> set ws"
    unfolding mutex_inv_def prod.case by blast
  have c: "?c \<noteq> 0" "?c \<notin> set ws" using i(1) by (auto simp: sync_inv_def sched_inv_def)
  have "m' = m\<lparr>owner := if owner m = 0 then ?c else owner m, mguard := (mguard m)\<lparr>locked := 0, saved_flags := cpu_flags s\<rparr>\<rparr>"
    "s' = set_flags (cpu_flags s) s" "r = (if owner m = 0 then 0 else - 1)"
    using tl i(2) by (auto simp: mutex_trylock_def Let_def thread_current_def split: if_splits)
  moreover have "owner m \<noteq> ?c" using id i(3) [of ?c] c(1) by auto
  ultimately show ?thesis
    using i c ni id lost by (intro mutex_invI [of _ q _ ws]) (auto split: if_splits)
qed

lemma mutex_timer_inv:
  assumes "mutex_inv (m, s, pc)"
  shows "mutex_inv (m, sched_schedule In_schedule s, pc)"
proof -
  from assms(1) obtain q ws where i: "sync_inv s q (mwaiters m) ws" "locked (mguard m) = 0"
    "\<And>t. pc t = Owner \<longleftrightarrow> t = owner m \<and> t \<noteq> 0" "\<And>t. t \<in> set ws \<Longrightarrow> pc t = Waiting"
    "\<And>t. pc t = Waiting \<Longrightarrow> t \<in> set ws \<or> t \<in> set q \<or> t = current_thread s" "pc (idle_thread s) = Idle"
    "ws \<noteq> [] \<Longrightarrow> owner m = 0 \<Longrightarrow> \<exists>t. pc t = Waiting \<and> t \<notin> set ws"
    unfolding mutex_inv_def prod.case by blast
  note tm = timer_spec [OF i(1)]
  show ?thesis
  proof (rule mutex_invI [OF tm(1) i(2,3,4)])
    fix t assume w: "pc t = Waiting"
    then have "t \<noteq> idle_thread s" using i(6) by auto
    then show "t \<in> set ws \<or> t \<in> set (next_queue s q) \<or> t = current_thread (sched_schedule In_schedule s)"
      using timer_keeps_ready [OF i(1), of t] i(5) [OF w] tm(2) by auto
  qed (use i tm in auto)
qed

lemma mutex_step_inv: "mutex_step x y \<Longrightarrow> mutex_inv x \<Longrightarrow> mutex_inv y"
  by (cases rule: mutex_step.cases)
    (auto simp: mutex_timer_inv intro: mutex_lock_inv mutex_unlock_inv mutex_trylock_inv)

lemma mutex_reach_inv: "mutex_step\<^sup>*\<^sup>* x y \<Longrightarrow> mutex_inv x \<Longrightarrow> mutex_inv y"
  by (induction rule: rtranclp_induct) (auto intro: mutex_step_inv)

lemma mutex_init_inv:
  assumes "sched_inv s q" and "tstate (thr s (current_thread s)) = THREAD_RUNNING"
  shows "mutex_inv (mutex_init m, s, \<lambda>_. Idle)"
  by (rule mutex_invI [of _ q _ "[]"])
    (use assms in \<open>auto simp: sync_inv_def waitq_def fifo_def mutex_init_def wq_init_def SPINLOCK_INIT_def\<close>)

text \<open>
  C4.  Mutual exclusion: from an initialised mutex, under every interleaving of lock, unlock and
  try-lock passes with timer ticks, at most one thread holds the mutex, and it is the recorded owner.
\<close>

theorem mutex_exclusion:
  assumes "sched_inv s q" and "tstate (thr s (current_thread s)) = THREAD_RUNNING"
    and "mutex_step\<^sup>*\<^sup>* (mutex_init m, s, \<lambda>_. Idle) (m', s', pc')" and "pc' t = Owner" and "pc' u = Owner"
  shows "t = u \<and> owner m' = t"
  using mutex_reach_inv [OF assms(3) mutex_init_inv [OF assms(1,2)]] assms(4,5) by (auto simp: mutex_inv_def)

lemma mutex_lock_free:
  assumes "locked (mguard m) = 0" and "owner m = 0"
  shows "mutex_lock_pass m s =
     Some (True, m\<lparr>owner := current_thread s, mguard := (mguard m)\<lparr>locked := 0, saved_flags := cpu_flags s\<rparr>\<rparr>, s)"
  using assms by (simp add: mutex_lock_pass_def Let_def thread_current_def)

theorem mutex_exclusion_witness:
  "\<exists>m' s' pc'. mutex_step (mutex_init MUTEX_INIT, kernel_example, \<lambda>_. Idle) (m', s', pc') \<and> pc' 0x10 = Owner \<and> owner m' = 0x10"
proof -
  let ?m = "mutex_init MUTEX_INIT"
  let ?m' = "?m\<lparr>owner := 0x10, mguard := (mguard ?m)\<lparr>locked := 0, saved_flags := cpu_flags kernel_example\<rparr>\<rparr>"
  let ?pc = "(\<lambda>_. Idle)(0x10 := Owner)"
  have "mutex_lock_pass ?m kernel_example = Some (True, ?m', kernel_example)"
    using mutex_lock_free [of ?m kernel_example] by (simp add: mutex_init_def SPINLOCK_INIT_def kernel_example_current)
  then have st: "mutex_step (?m, kernel_example, \<lambda>_. Idle) (?m', kernel_example, ?pc)"
    using mutex_step.lock [of "0x10" kernel_example "\<lambda>_. Idle" ?m True] by (simp add: kernel_example_current)
  moreover have "owner ?m' = 0x10"
    using mutex_exclusion [OF kernel_example_inv, of MUTEX_INIT ?m' kernel_example ?pc "0x10" "0x10"] st
    by (simp add: kernel_example_current r_into_rtranclp)
  ultimately show ?thesis by fastforce
qed

lemma wq_sleep_total:
  assumes inv: "sync_inv s q wq ws" and lk: "locked (sched_lock s) = 0"
  shows "\<exists>wq' g' s'. wq_sleep wq g s = Some (wq', g', s')"
proof -
  obtain w2 s2 where ap: "wq_append (current_thread s)
      (wq\<lparr>wq_lock := (wq_lock wq)\<lparr>locked := 1, saved_flags := cpu_flags s\<rparr>\<rparr>,
       set_flags (cpu_flags s AND NOT RFLAGS_IF) s) = (w2, s2)" by fastforce
  note k = wq_append_keeps [OF ap]
  have "locked (sched_lock x) = 0 \<Longrightarrow> \<exists>y. sched_yield x = Some y" for x
    by (simp add: sched_yield_def Let_def)
  moreover have "locked (sched_lock s2) = 0" using k lk by simp
  ultimately obtain s3 where "sched_yield (set_flags (saved_flags g)
      (tset (current_thread s) (tstate_update (\<lambda>_. THREAD_BLOCKED)) s2)) = Some s3" by fastforce
  then show ?thesis using inv ap by (simp add: wq_sleep_def sync_inv_def thread_current_def Let_def)
qed

text \<open>
  C18.  No lost wakeup: in every reachable state in which a thread waits while the mutex is free, a
  waiting thread is ready or running, so it will try again and the mutex does not stay free for ever.
\<close>

theorem mutex_no_lost_wakeup:
  assumes "sched_inv s q" and "tstate (thr s (current_thread s)) = THREAD_RUNNING"
    and "mutex_step\<^sup>*\<^sup>* (mutex_init m, s, \<lambda>_. Idle) (m', s', pc')" and "pc' t = Waiting" and "owner m' = 0"
  shows "\<exists>u q'. pc' u = Waiting \<and> sched_inv s' q' \<and> (u \<in> set q' \<or> u = current_thread s')"
proof -
  obtain q' ws where i: "sync_inv s' q' (mwaiters m') ws"
    "\<And>t. pc' t = Waiting \<Longrightarrow> t \<in> set ws \<or> t \<in> set q' \<or> t = current_thread s'"
    "ws \<noteq> [] \<Longrightarrow> \<exists>t. pc' t = Waiting \<and> t \<notin> set ws"
    using mutex_reach_inv [OF assms(3) mutex_init_inv [OF assms(1,2)]] assms(5) unfolding mutex_inv_def prod.case by blast
  have "\<exists>u. pc' u = Waiting \<and> u \<notin> set ws" using i(3) assms(4) by (cases "ws = []") auto
  then show ?thesis using i(1,2) unfolding sync_inv_def by blast
qed

text \<open>
  A run for the witness: thread 0x10 takes the mutex, 0x20 runs and has to sleep, then 0x10 runs
  again and unlocks.
\<close>

lemma mutex_example_run:
  "\<exists>m' s' pc'. mutex_step\<^sup>*\<^sup>* (mutex_init MUTEX_INIT, kernel_example, \<lambda>_. Idle) (m', s', pc') \<and>
     pc' 0x20 = Waiting \<and> owner m' = 0"
proof -
  let ?m = "mutex_init MUTEX_INIT" and ?s = kernel_example
  define m1 where "m1 = ?m\<lparr>owner := 0x10, mguard := (mguard ?m)\<lparr>locked := 0, saved_flags := cpu_flags ?s\<rparr>\<rparr>"
  define s1 where "s1 = sched_schedule In_schedule ?s"
  let ?pc1 = "(\<lambda>_. Idle)(0x10 := Owner)" and ?pc2 = "((\<lambda>_. Idle)(0x10 := Owner))(0x20 := Waiting)"
  have m0: "locked (mguard ?m) = 0" "owner ?m = 0" by (simp_all add: mutex_init_def SPINLOCK_INIT_def)
  have "mutex_lock_pass ?m ?s = Some (True, m1, ?s)" using mutex_lock_free [OF m0] by (simp add: m1_def kernel_example_current)
  then have st1: "mutex_step (?m, ?s, \<lambda>_. Idle) (m1, ?s, ?pc1)"
    using mutex_step.lock [of "0x10" ?s "\<lambda>_. Idle" ?m True] by (simp add: kernel_example_current)
  have st2: "mutex_step (m1, ?s, ?pc1) (m1, s1, ?pc1)" unfolding s1_def by (rule mutex_step.timer)
  have y: "sync_inv ?s [0x20, 0x30] (mwaiters m1) []"
    using kernel_example_inv by (simp add: sync_inv_def waitq_def fifo_def m1_def mutex_init_def MUTEX_INIT_def
        wq_init_def SPINLOCK_INIT_def kernel_example_current)
  have sc: "scheduled In_schedule [0x20, 0x30] ?s s1" unfolding s1_def by (rule sched_schedule_spec [OF kernel_example_inv])
  have s1: "sync_inv s1 [0x30, 0x10] (mwaiters m1) []" "current_thread s1 = 0x20" "idle_thread s1 = 0x40"
    "locked (sched_lock s1) = 0"
    using timer_spec [OF y, folded s1_def] sc
    by (auto simp: next_queue_def next_thread_def kernel_example_current scheduled_def SPINLOCK_INIT_def)
  let ?g = "(mguard m1)\<lparr>locked := 1, saved_flags := cpu_flags s1\<rparr>" and ?f = "set_flags (cpu_flags s1 AND NOT RFLAGS_IF) s1"
  obtain wq g s2 where sl: "wq_sleep (mwaiters m1) ?g ?f = Some (wq, g, s2)"
    using wq_sleep_total [of ?f "[0x30, 0x10]" "mwaiters m1" "[]"] s1 by fastforce
  have ni: "current_thread ?f \<noteq> idle_thread ?f" using s1 by simp
  note sp = wq_sleep_spec [OF _ ni sl, unfolded sync_inv_flags set_flags_sel, OF s1(1)]
  define m2 where "m2 = m1\<lparr>mguard := g, mwaiters := wq\<rparr>"
  have "locked (mguard m1) = 0" "owner m1 \<noteq> 0" by (simp_all add: m1_def)
  then have "mutex_lock_pass m1 s1 = Some (False, m2, s2)" using sl by (simp add: mutex_lock_pass_def Let_def m2_def)
  then have st3: "mutex_step (m1, s1, ?pc1) (m2, s2, ?pc2)"
    using mutex_step.lock [of "0x20" s1 ?pc1 m1 False] s1 by simp
  define s3 where "s3 = sched_schedule In_schedule s2"
  have st4: "mutex_step (m2, s2, ?pc2) (m2, s3, ?pc2)" unfolding s3_def by (rule mutex_step.timer)
  have y2: "sync_inv s2 [0x10] wq [0x20]" using sp(2) s1 by simp
  have c3: "current_thread s3 = 0x10" "idle_thread s3 = 0x40"
    using timer_spec [OF y2, folded s3_def] sp(4) s1 by (auto simp: next_thread_def)
  have y3: "sync_inv s3 (next_queue s2 [0x10]) wq [0x20]" using timer_spec [OF y2, folded s3_def] by simp
  let ?f3 = "set_flags (cpu_flags s3 AND NOT RFLAGS_IF) s3"
  obtain n wq' s4 where wk: "wq_wake wq ?f3 = Some (n, wq', s4)"
    using wq_wake_spec [of ?f3 "next_queue s2 [0x10]" wq "[0x20]"] y3 by auto
  have "locked g = 0" using sp(1) by simp
  then obtain m4 s5 where ul: "mutex_unlock m2 s3 = Some (m4, s5)" "owner m4 = 0"
    using wk by (simp add: mutex_unlock_def Let_def m2_def)
  have "mutex_step (m2, s3, ?pc2) (m4, s5, ?pc2(0x10 := Idle))"
    using mutex_step.unlock [of "0x10" s3 ?pc2 m2 m4 s5] c3 ul by simp
  with st1 st2 st3 st4 have "mutex_step\<^sup>*\<^sup>* (?m, ?s, \<lambda>_. Idle) (m4, s5, ?pc2(0x10 := Idle))"
    by (meson converse_rtranclp_into_rtranclp rtranclp.rtrancl_refl)
  then show ?thesis using ul(2) by (intro exI [of _ m4] exI [of _ s5] exI [of _ "?pc2(0x10 := Idle)"]) simp
qed

theorem mutex_no_lost_wakeup_witness:
  "\<exists>m' s' pc' u q'. mutex_step\<^sup>*\<^sup>* (mutex_init MUTEX_INIT, kernel_example, \<lambda>_. Idle) (m', s', pc') \<and>
     owner m' = 0 \<and> pc' u = Waiting \<and> sched_inv s' q' \<and> (u \<in> set q' \<or> u = current_thread s')"
proof -
  obtain m' s' pc' where r: "mutex_step\<^sup>*\<^sup>* (mutex_init MUTEX_INIT, kernel_example, \<lambda>_. Idle) (m', s', pc')"
    "pc' 0x20 = Waiting" "owner m' = 0" using mutex_example_run by blast
  have "tstate (thr kernel_example (current_thread kernel_example)) = THREAD_RUNNING" by (simp add: kernel_example_current)
  then show ?thesis using mutex_no_lost_wakeup [OF kernel_example_inv _ r] r by blast
qed

section \<open>Semaphores conserve their tokens\<close>

definition woken :: "(u64 \<Rightarrow> phase) \<Rightarrow> u64 list \<Rightarrow> u64 set" where
  "woken pc ws = {t. pc t = Waiting \<and> t \<notin> set ws}"

definition sem_inv :: "int \<Rightarrow> Semaphore \<times> kernel \<times> (u64 \<Rightarrow> phase) \<times> int \<times> int \<Rightarrow> bool" where
  "sem_inv c0 = (\<lambda>(p, s, pc, n, k). \<exists>q ws. sync_inv s q (swaiters p) ws \<and> locked (sguard p) = 0 \<and>
     scount p = c0 + n - k \<and> (0 \<le> c0 \<longrightarrow> 0 \<le> scount p) \<and> (\<forall>t \<in> set ws. pc t = Waiting) \<and>
     (\<forall>t. pc t = Waiting \<longrightarrow> t \<in> set ws \<or> t \<in> set q \<or> t = current_thread s) \<and> pc (idle_thread s) = Idle \<and>
     (ws \<noteq> [] \<longrightarrow> scount p \<le> int (card (woken pc ws))))"

lemma sem_invI:
  assumes "sync_inv s q (swaiters p) ws" "locked (sguard p) = 0" "scount p = c0 + n - k" "0 \<le> c0 \<Longrightarrow> 0 \<le> scount p"
    "\<And>t. t \<in> set ws \<Longrightarrow> pc t = Waiting"
    "\<And>t. pc t = Waiting \<Longrightarrow> t \<in> set ws \<or> t \<in> set q \<or> t = current_thread s" "pc (idle_thread s) = Idle"
    "ws \<noteq> [] \<Longrightarrow> scount p \<le> int (card (woken pc ws))"
  shows "sem_inv c0 (p, s, pc, n, k)"
  unfolding sem_inv_def prod.case
  by (intro exI [of _ q] exI [of _ ws] conjI allI ballI impI) (use assms in auto)

lemma finite_woken:
  assumes "\<And>t. pc t = Waiting \<Longrightarrow> t \<in> set ws \<or> t \<in> set q \<or> t = c"
  shows "finite (woken pc ws)"
  by (rule finite_subset [of _ "set q \<union> {c}"]) (use assms in \<open>auto simp: woken_def\<close>)

lemma sem_wait_inv:
  assumes "sem_inv c0 (p, s, pc, n, k)" and ni: "current_thread s \<noteq> idle_thread s"
    and wt: "sem_wait_pass p s = Some (got, p', s')"
  shows "sem_inv c0 (p', s', pc(current_thread s := if got then Idle else Waiting), n, if got then k + 1 else k)"
proof -
  let ?c = "current_thread s"
  from assms(1) obtain q ws where i: "sync_inv s q (swaiters p) ws" "locked (sguard p) = 0" "scount p = c0 + n - k"
    "0 \<le> c0 \<Longrightarrow> 0 \<le> scount p" "\<And>t. t \<in> set ws \<Longrightarrow> pc t = Waiting"
    "\<And>t. pc t = Waiting \<Longrightarrow> t \<in> set ws \<or> t \<in> set q \<or> t = ?c" "pc (idle_thread s) = Idle"
    "ws \<noteq> [] \<Longrightarrow> scount p \<le> int (card (woken pc ws))"
    unfolding sem_inv_def prod.case by blast
  have c: "?c \<noteq> 0" "?c \<notin> set ws" "?c \<notin> set q" using i(1) by (auto simp: sync_inv_def sched_inv_def)
  show ?thesis
  proof (cases "scount p \<le> 0")
    case False
    then have r: "got" "p' = p\<lparr>scount := scount p - 1, sguard := (sguard p)\<lparr>locked := 0, saved_flags := cpu_flags s\<rparr>\<rparr>"
      "s' = s" using wt i(2) by (auto simp: sem_wait_pass_def Let_def)
    have "woken (pc(?c := Idle)) ws = woken pc ws - {?c}" using c(2) by (auto simp: woken_def)
    moreover have "card (woken pc ws) \<le> card (woken pc ws - {?c}) + 1"
      using finite_woken [OF i(6)] by (cases "?c \<in> woken pc ws") (auto simp: card_Diff_singleton_if)
    ultimately show ?thesis
      using i r c ni False by (intro sem_invI [of _ q _ ws]) (auto split: if_splits)
  next
    case True
    obtain wq g where r: "\<not> got" "p' = p\<lparr>sguard := g, swaiters := wq\<rparr>"
      and sl: "wq_sleep (swaiters p) ((sguard p)\<lparr>locked := 1, saved_flags := cpu_flags s\<rparr>)
        (set_flags (cpu_flags s AND NOT RFLAGS_IF) s) = Some (wq, g, s')"
      using wt i(2) True by (auto simp: sem_wait_pass_def Let_def split: bind_splits)
    have ni': "current_thread (set_flags (cpu_flags s AND NOT RFLAGS_IF) s) \<noteq> idle_thread (set_flags (cpu_flags s AND NOT RFLAGS_IF) s)"
      using ni by simp
    note sp = wq_sleep_spec [OF _ ni' sl, unfolded sync_inv_flags set_flags_sel, OF i(1)]
    have q: "t \<in> set (tl q) \<or> t = current_thread s'" if "t \<in> set q" for t using that sp(3) by (cases q) auto
    show ?thesis
    proof (rule sem_invI [of _ "tl q" _ "ws @ [?c]"])
      fix t
      show "t \<in> set (ws @ [?c]) \<Longrightarrow> (pc(?c := if got then Idle else Waiting)) t = Waiting" using i(5) [of t] r(1) by auto
      show "(pc(?c := if got then Idle else Waiting)) t = Waiting \<Longrightarrow>
          t \<in> set (ws @ [?c]) \<or> t \<in> set (tl q) \<or> t = current_thread s'"
        using i(6) [of t] q [of t] by (auto split: if_splits)
    qed (use i(3,4,7) r ni sp True in simp_all)
  qed
qed

lemma sem_post_inv:
  assumes "sem_inv c0 (p, s, pc, n, k)" and po: "sem_post p s = Some (p', s')"
  shows "sem_inv c0 (p', s', pc, n + 1, k)"
proof -
  let ?s1 = "set_flags (cpu_flags s AND NOT RFLAGS_IF) s"
  from assms(1) obtain q ws where i: "sync_inv s q (swaiters p) ws" "locked (sguard p) = 0" "scount p = c0 + n - k"
    "0 \<le> c0 \<Longrightarrow> 0 \<le> scount p" "\<And>t. t \<in> set ws \<Longrightarrow> pc t = Waiting"
    "\<And>t. pc t = Waiting \<Longrightarrow> t \<in> set ws \<or> t \<in> set q \<or> t = current_thread s" "pc (idle_thread s) = Idle"
    "ws \<noteq> [] \<Longrightarrow> scount p \<le> int (card (woken pc ws))"
    unfolding sem_inv_def prod.case by blast
  have i1: "sync_inv ?s1 q (swaiters p) ws" using i(1) by simp
  obtain m wq s2 where w: "wq_wake (swaiters p) ?s1 = Some (m, wq, s2)"
    "sync_inv s2 (if ws = [] then q else q @ [hd ws]) wq (tl ws)" "current_thread s2 = current_thread s"
    "idle_thread s2 = idle_thread s"
    using wq_wake_spec [OF i1] by auto
  have r: "p' = p\<lparr>scount := scount p + 1, sguard := (sguard p)\<lparr>locked := 0, saved_flags := cpu_flags s\<rparr>, swaiters := wq\<rparr>"
    "s' = set_flags (cpu_flags s) s2"
    using po i(2) w(1) by (auto simp: sem_post_def Let_def)
  show ?thesis
  proof (cases ws)
    case Nil
    show ?thesis by (rule sem_invI [of _ q _ "[]"]) (use i r w Nil in auto)
  next
    case (Cons t ts)
    have "waitq s (swaiters p) ws" using i(1) by (simp add: sync_inv_def)
    then have d: "t \<notin> set ts" using waitq_set Cons by fastforce
    have "woken pc ts = insert t (woken pc ws)" "t \<notin> woken pc ws" using i(5) Cons d by (auto simp: woken_def)
    then have "card (woken pc ts) = card (woken pc ws) + 1" using finite_woken [OF i(6)] by simp
    then show ?thesis using i r w Cons by (intro sem_invI [of _ "q @ [t]" _ ts]) auto
  qed
qed

lemma sem_trywait_inv:
  assumes "sem_inv c0 (p, s, pc, n, k)" and id: "pc (current_thread s) = Idle" and ni: "current_thread s \<noteq> idle_thread s"
    and tw: "sem_trywait p s = Some (r, p', s')"
  shows "sem_inv c0 (p', s', pc, n, if r = 0 then k + 1 else k)"
proof -
  from assms(1) obtain q ws where i: "sync_inv s q (swaiters p) ws" "locked (sguard p) = 0" "scount p = c0 + n - k"
    "0 \<le> c0 \<Longrightarrow> 0 \<le> scount p" "\<And>t. t \<in> set ws \<Longrightarrow> pc t = Waiting"
    "\<And>t. pc t = Waiting \<Longrightarrow> t \<in> set ws \<or> t \<in> set q \<or> t = current_thread s" "pc (idle_thread s) = Idle"
    "ws \<noteq> [] \<Longrightarrow> scount p \<le> int (card (woken pc ws))"
    unfolding sem_inv_def prod.case by blast
  have "p' = p\<lparr>scount := if scount p \<le> 0 then scount p else scount p - 1,
      sguard := (sguard p)\<lparr>locked := 0, saved_flags := cpu_flags s\<rparr>\<rparr>" "s' = s" "r = (if scount p \<le> 0 then - 1 else 0)"
    using tw i(2) by (auto simp: sem_trywait_def Let_def split: if_splits)
  then show ?thesis using i by (intro sem_invI [of _ q _ ws]) (auto split: if_splits)
qed

lemma sem_timer_inv:
  assumes "sem_inv c0 (p, s, pc, n, k)"
  shows "sem_inv c0 (p, sched_schedule In_schedule s, pc, n, k)"
proof -
  from assms(1) obtain q ws where i: "sync_inv s q (swaiters p) ws" "locked (sguard p) = 0" "scount p = c0 + n - k"
    "0 \<le> c0 \<Longrightarrow> 0 \<le> scount p" "\<And>t. t \<in> set ws \<Longrightarrow> pc t = Waiting"
    "\<And>t. pc t = Waiting \<Longrightarrow> t \<in> set ws \<or> t \<in> set q \<or> t = current_thread s" "pc (idle_thread s) = Idle"
    "ws \<noteq> [] \<Longrightarrow> scount p \<le> int (card (woken pc ws))"
    unfolding sem_inv_def prod.case by blast
  note tm = timer_spec [OF i(1)]
  show ?thesis
  proof (rule sem_invI [OF tm(1) i(2-5)])
    fix t assume w: "pc t = Waiting"
    then have "t \<noteq> idle_thread s" using i(7) by auto
    then show "t \<in> set ws \<or> t \<in> set (next_queue s q) \<or> t = current_thread (sched_schedule In_schedule s)"
      using timer_keeps_ready [OF i(1), of t] i(6) [OF w] tm(2) by auto
  qed (use i tm in auto)
qed

lemma sem_step_inv: "sem_step x y \<Longrightarrow> sem_inv c0 x \<Longrightarrow> sem_inv c0 y"
proof (cases rule: sem_step.cases)
  fix t s p got p' s' pc n k
  assume "x = (p, s, pc, n, k)" "sem_inv c0 x" "t = current_thread s" "t \<noteq> idle_thread s"
    "sem_wait_pass p s = Some (got, p', s')"
    "y = (p', s', pc(t := if got then Idle else Waiting), n, if got then k + 1 else k)"
  then show "sem_inv c0 y" using sem_wait_inv [of c0 p s pc n k got p' s'] by simp
next
  fix t s pc p r p' s' n k
  assume "x = (p, s, pc, n, k)" "sem_inv c0 x" "t = current_thread s" "t \<noteq> idle_thread s" "pc t = Idle"
    "sem_trywait p s = Some (r, p', s')" "y = (p', s', pc, n, if r = 0 then k + 1 else k)"
  then show "sem_inv c0 y" using sem_trywait_inv [of c0 p s pc n k r p' s'] by simp
qed (auto intro: sem_post_inv sem_timer_inv)

lemma sem_reach_inv: "sem_step\<^sup>*\<^sup>* x y \<Longrightarrow> sem_inv c0 x \<Longrightarrow> sem_inv c0 y"
  by (induction rule: rtranclp_induct) (auto intro: sem_step_inv)

lemma sem_init_inv:
  assumes "sched_inv s q" and "tstate (thr s (current_thread s)) = THREAD_RUNNING"
  shows "sem_inv c0 (sem_init c0 p, s, \<lambda>_. Idle, 0, 0)"
  by (rule sem_invI [of _ q _ "[]"])
    (use assms in \<open>auto simp: sync_inv_def waitq_def fifo_def sem_init_def wq_init_def SPINLOCK_INIT_def\<close>)



end
