(* ===== verification/Pipe.thy ===== *)
theory Pipe
  imports Sync
begin

text \<open>
  Pipes, \<^verbatim>\<open>kernel/fs/pipe.c\<close>: a ring of 4096 bytes with free-running 32-bit positions, two reference
  counts and two wait queues.  System calls run with interrupts off, so a read or write runs
  undisturbed until it returns or sleeps; it is modelled as passes.  A read pass starts afresh after
  sleeping (it sleeps only with nothing read); a write pass goes on with the bytes that are left.

  The ring is related to the list of bytes it holds (\<open>ring\<close>), also across the wrap-around of the
  positions, and is an instance of the interface \<open>byte_ring\<close>: what is read is, in order and without
  loss or duplication, what was written.
\<close>

abbreviation PIPE_BUF_SIZE :: nat where "PIPE_BUF_SIZE \<equiv> 4096"
abbreviation SIZEOF_PipeNode :: u64 where "SIZEOF_PipeNode \<equiv> 4304"

text \<open>The two ends are embedded in the structure, at its start and after the first node.\<close>

definition read_vnode :: "u64 \<Rightarrow> u64" where "read_vnode p = p"
definition write_vnode :: "u64 \<Rightarrow> u64" where "write_vnode p = p + 56"

section \<open>Operations\<close>

definition to_pipe :: "kernel \<Rightarrow> u64 \<Rightarrow> u64" where
  "to_pipe s node = private_data (vnodes s node)"

definition pipe_set :: "u64 \<Rightarrow> PipeNode \<Rightarrow> kernel \<Rightarrow> kernel" where
  "pipe_set a p s = s\<lparr>pipes := (pipes s)(a := p)\<rparr>"

text \<open>The copying part of the loops: as long as there is data, and as long as there is room.\<close>

fun pipe_take :: "nat \<Rightarrow> PipeNode \<Rightarrow> u8 list \<times> PipeNode" where
  "pipe_take 0 p = ([], p)"
| "pipe_take (Suc n) p =
     (if head p \<noteq> tail p then
        let b = buf p ! unat (tail p mod 4096);
            (bs, p) = pipe_take n (p\<lparr>tail := tail p + 1\<rparr>)
        in (b # bs, p)
      else ([], p))"

fun pipe_put :: "u8 list \<Rightarrow> PipeNode \<Rightarrow> u8 list \<times> PipeNode" where
  "pipe_put [] p = ([], p)"
| "pipe_put (b # bs) p =
     (if head p - tail p < 4096 then
        pipe_put bs (p\<lparr>buf := (buf p)[unat (head p mod 4096) := b], head := head p + 1\<rparr>)
      else (b # bs, p))"

text \<open>A pass of \<^verbatim>\<open>pipe_read\<close>: \<open>Inr\<close> with the bytes read, or \<open>Inl\<close> after sleeping.\<close>

definition pipe_read_pass :: "u64 \<Rightarrow> u32 \<Rightarrow> kernel \<Rightarrow> ((unit + u8 list) \<times> kernel) option" where
  "pipe_read_pass node sz s =
     (let a = to_pipe s node;
          (bs, p) = pipe_take (unat sz) (pipes s a);
          s = pipe_set a p s
      in if bs = [] \<and> 0 < sz \<and> writer_count p \<noteq> 0 then
           do { (lk, s) \<leftarrow> acquire (plock p) s;
                if head p = tail p \<and> writer_count p > 0 then
                  do { (wq, lk, s) \<leftarrow> wq_sleep (readers_wq p) lk s;
                       Some (Inl (), pipe_set a (p\<lparr>plock := lk, readers_wq := wq\<rparr>) s) }
                else (let (lk, s) = release lk s in Some (Inl (), pipe_set a (p\<lparr>plock := lk\<rparr>) s)) }
         else if bs \<noteq> [] then
           do { (_, wq, s) \<leftarrow> wq_wake (writers_wq p) s;
                Some (Inr bs, pipe_set a (p\<lparr>writers_wq := wq\<rparr>) s) }
         else Some (Inr [], s))"

text \<open>
  A pass of \<^verbatim>\<open>pipe_write\<close> with \<open>tot\<close> bytes already written: \<open>Inr\<close> with the result, or \<open>Inl\<close> with the
  new tot and the bytes left after sleeping.
\<close>

definition pipe_write_pass :: "u64 \<Rightarrow> nat \<Rightarrow> u8 list \<Rightarrow> kernel \<Rightarrow> (((nat \<times> u8 list) + int) \<times> kernel) option" where
  "pipe_write_pass node tot src s =
     (let a = to_pipe s node; p = pipes s a in
      if src \<noteq> [] \<and> reader_count p = 0 then Some (Inr (if tot > 0 then int tot else - EPIPE), s) else
      let (rest, p) = pipe_put src p;
          tot = tot + (length src - length rest);
          s = pipe_set a p s
      in if rest \<noteq> [] then
           do { (lk, s) \<leftarrow> acquire (plock p) s;
                if head p - tail p \<ge> 4096 \<and> reader_count p > 0 then
                  do { (wq, lk, s) \<leftarrow> wq_sleep (writers_wq p) lk s;
                       Some (Inl (tot, rest), pipe_set a (p\<lparr>plock := lk, writers_wq := wq\<rparr>) s) }
                else (let (lk, s) = release lk s in Some (Inl (tot, rest), pipe_set a (p\<lparr>plock := lk\<rparr>) s)) }
         else if tot > 0 then
           do { (_, wq, s) \<leftarrow> wq_wake (readers_wq p) s;
                Some (Inr (int tot), pipe_set a (p\<lparr>readers_wq := wq\<rparr>) s) }
         else Some (Inr 0, s))"

definition pipe_create :: "kernel \<Rightarrow> (int \<times> u64 \<times> u64 \<times> kernel) option" where
  "pipe_create s =
     do { (a, s) \<leftarrow> k_alloc SIZEOF_PipeNode GFP_ZERO s;
          if a = 0 then Some (- ENOMEM, 0, 0, s) else
          do { let s = nset (read_vnode a) (\<lambda>_. zero_node\<lparr>ntype := VFS_PIPE, ops := pipe_read_ops, private_data := a\<rparr>) s;
               let s = nset (write_vnode a) (\<lambda>_. zero_node\<lparr>ntype := VFS_PIPE, ops := pipe_write_ops, private_data := a\<rparr>) s;
               let p = zero_pipe\<lparr>reader_count := 1, writer_count := 1\<rparr>;
               let p = p\<lparr>readers_wq := wq_init (readers_wq p), writers_wq := wq_init (writers_wq p)\<rparr>;
               Some (0, read_vnode a, write_vnode a, pipe_set a p s) } }"

definition pipe_close :: "u64 \<Rightarrow> kernel \<Rightarrow> kernel option" where
  "pipe_close node s =
     (let a = to_pipe s node; p = pipes s a in
      do { (p, s) \<leftarrow>
             (if node = read_vnode a then
                do { let p = p\<lparr>reader_count := reader_count p - 1\<rparr>;
                     (_, wq, s) \<leftarrow> wq_wake_all (writers_wq p) s;
                     Some (p\<lparr>writers_wq := wq\<rparr>, s) }
              else
                do { let p = p\<lparr>writer_count := writer_count p - 1\<rparr>;
                     (_, wq, s) \<leftarrow> wq_wake_all (readers_wq p) s;
                     Some (p\<lparr>readers_wq := wq\<rparr>, s) });
           let s = pipe_set a p s;
           if reader_count p = 0 \<and> writer_count p = 0 then k_free a s else Some s })"

definition pipe_addref :: "u64 \<Rightarrow> kernel \<Rightarrow> kernel" where
  "pipe_addref node s =
     (let a = to_pipe s node; p = pipes s a in
      if node = read_vnode a then pipe_set a (p\<lparr>reader_count := reader_count p + 1\<rparr>) s
      else pipe_set a (p\<lparr>writer_count := writer_count p + 1\<rparr>) s)"

section \<open>Byte rings as an interface\<close>

text \<open>
  A bounded buffer of bytes: \<open>put\<close> stores as many bytes as fit and returns the rest, \<open>take\<close> returns up
  to \<open>n\<close> of the oldest bytes.
\<close>

datatype ring_op = Put "u8 list" | Take nat

locale byte_ring =
  fixes rep :: "'p \<Rightarrow> u8 list \<Rightarrow> bool"
    and put :: "u8 list \<Rightarrow> 'p \<Rightarrow> u8 list \<times> 'p"
    and get :: "nat \<Rightarrow> 'p \<Rightarrow> u8 list \<times> 'p"
    and cap :: nat
  assumes put_rep: "rep p xs \<Longrightarrow> \<exists>p'. put bs p = (drop (cap - length xs) bs, p') \<and> rep p' (xs @ take (cap - length xs) bs)"
    and get_rep: "rep p xs \<Longrightarrow> \<exists>p'. get n p = (take n xs, p') \<and> rep p' (drop n xs)"
begin

text \<open>A sequence of operations, with the bytes accepted and the bytes returned.\<close>

fun run :: "ring_op list \<Rightarrow> 'p \<Rightarrow> u8 list \<times> u8 list \<times> 'p" where
  "run [] p = ([], [], p)"
| "run (Put bs # os) p = (let (rest, p) = put bs p; (i, out, p) = run os p in (take (length bs - length rest) bs @ i, out, p))"
| "run (Take n # os) p = (let (bs, p) = get n p; (i, out, p) = run os p in (i, bs @ out, p))"

lemma in_order: "rep p xs \<Longrightarrow> run os p = (i, out, p') \<Longrightarrow> \<exists>ys. rep p' ys \<and> xs @ i = out @ ys"
proof (induction os arbitrary: p xs i out p')
  case (Cons o1 os)
  show ?case
  proof (cases o1)
    case (Put bs)
    obtain p1 where p1: "put bs p = (drop (cap - length xs) bs, p1)" "rep p1 (xs @ take (cap - length xs) bs)"
      using put_rep [OF Cons.prems(1)] by blast
    obtain i1 o2 p2 where r: "run os p1 = (i1, o2, p2)" by (cases "run os p1") auto
    have t: "take (length bs - (length bs - (cap - length xs))) bs = take (cap - length xs) bs"
      by (cases "length bs \<le> cap - length xs") simp_all
    have e: "i = take (cap - length xs) bs @ i1" "out = o2" "p' = p2"
      using Cons.prems(2) Put p1(1) r t by auto
    then show ?thesis using Cons.IH [OF p1(2) r] by simp
  next
    case (Take n)
    obtain p1 where p1: "get n p = (take n xs, p1)" "rep p1 (drop n xs)" using get_rep [OF Cons.prems(1)] by blast
    obtain i1 o2 p2 where r: "run os p1 = (i1, o2, p2)" by (cases "run os p1") auto
    have e: "i = i1" "out = take n xs @ o2" "p' = p2" using Cons.prems(2) Take p1(1) r by auto
    obtain ys where "rep p2 ys" "drop n xs @ i1 = o2 @ ys" using Cons.IH [OF p1(2) r] by blast
    then show ?thesis using e by (metis append.assoc append_take_drop_id)
  qed
qed auto

end

section \<open>The pipe is a byte ring\<close>

definition ring :: "PipeNode \<Rightarrow> u8 list \<Rightarrow> bool" where
  "ring p xs \<longleftrightarrow> length (buf p) = 4096 \<and> length xs = unat (head p - tail p) \<and> length xs \<le> 4096 \<and>
     (\<forall>i < length xs. xs ! i = buf p ! ((unat (tail p) + i) mod 4096))"

lemma ring_keep [simp]:
  "ring (p\<lparr>writers_wq := w\<rparr>) xs = ring p xs" "ring (p\<lparr>readers_wq := w\<rparr>) xs = ring p xs"
  "ring (p\<lparr>plock := l\<rparr>) xs = ring p xs" "ring (p\<lparr>plock := l, readers_wq := w\<rparr>) xs = ring p xs"
  "ring (p\<lparr>plock := l, writers_wq := w\<rparr>) xs = ring p xs"
  by (simp_all add: ring_def)

lemma position:
  fixes x :: u32
  shows "unat ((x + of_nat i) mod 4096) = (unat x + i) mod 4096"
proof -
  have "unat (x + of_nat i) = (unat x + i) mod 2 ^ 32"
    by (simp add: unat_word_ariths unat_of_nat take_bit_eq_mod mod_simps)
  moreover have "((unat x + i) mod 2 ^ 32) mod 4096 = (unat x + i) mod 4096"
    by (rule mod_mod_cancel) simp
  ultimately show ?thesis by (simp add: unat_mod)
qed

lemma head_position: "ring p xs \<Longrightarrow> unat (head p mod 4096) = (unat (tail p) + length xs) mod 4096"
proof -
  assume "ring p xs"
  then have "head p = tail p + of_nat (length xs)" by (simp add: ring_def)
  then show ?thesis using position [of "tail p" "length xs"] by simp
qed

lemma ring_empty: "ring p xs \<Longrightarrow> head p = tail p \<longleftrightarrow> xs = []"
  by (auto simp: ring_def unat_eq_0)

lemma ring_full: "ring p xs \<Longrightarrow> head p - tail p < 4096 \<longleftrightarrow> length xs < 4096"
  by (simp add: ring_def word_less_nat_alt)

lemma ring_get1:
  assumes r: "ring p (x # xs)"
  shows "buf p ! unat (tail p mod 4096) = x" "ring (p\<lparr>tail := tail p + 1\<rparr>) xs"
proof -
  have l: "length (buf p) = 4096" "Suc (length xs) = unat (head p - tail p)" "Suc (length xs) \<le> 4096"
    and nth: "\<And>i. i < Suc (length xs) \<Longrightarrow> (x # xs) ! i = buf p ! ((unat (tail p) + i) mod 4096)"
    using r by (auto simp: ring_def)
  show "buf p ! unat (tail p mod 4096) = x" using nth [of 0] by (simp add: unat_mod)
  have "unat (head p - (tail p + 1)) = length xs"
    using l(2) unat_minus_one [of "head p - tail p"] by (metis diff_Suc_1 diff_diff_eq nat.distinct(1) unat_0)
  moreover have "xs ! i = buf p ! ((unat (tail p + 1) + i) mod 4096)" if "i < length xs" for i
  proof -
    have "(unat (tail p + 1) + i) mod 4096 = (unat (tail p) + Suc i) mod 4096"
      using position [of "tail p + 1" i] position [of "tail p" "Suc i"] by (simp add: add.assoc)
    then show ?thesis using nth [of "Suc i"] that by simp
  qed
  ultimately show "ring (p\<lparr>tail := tail p + 1\<rparr>) xs" using l by (simp add: ring_def)
qed

lemma ring_put1:
  assumes r: "ring p xs" and room: "length xs < 4096"
  shows "ring (p\<lparr>buf := (buf p)[unat (head p mod 4096) := b], head := head p + 1\<rparr>) (xs @ [b])"
proof -
  have l: "length (buf p) = 4096" "length xs = unat (head p - tail p)"
    and nth: "\<And>i. i < length xs \<Longrightarrow> xs ! i = buf p ! ((unat (tail p) + i) mod 4096)"
    using r by (auto simp: ring_def)
  have "unat (head p + 1 - tail p) = Suc (length xs)"
  proof -
    have e: "head p + 1 - tail p = (head p - tail p) + 1" by simp
    show ?thesis unfolding e using l(2) room unat_plus_no_overflow [of "head p - tail p" 1] by simp
  qed
  moreover have "(xs @ [b]) ! i = (buf p)[unat (head p mod 4096) := b] ! ((unat (tail p) + i) mod 4096)"
    if "i < Suc (length xs)" for i
  proof (cases "i = length xs")
    case True
    then show ?thesis using head_position [OF r] l(1) by simp
  next
    case False
    then have "i < length xs" using that by simp
    moreover have "(unat (tail p) + i) mod 4096 \<noteq> (unat (tail p) + length xs) mod 4096"
    proof
      assume "(unat (tail p) + i) mod 4096 = (unat (tail p) + length xs) mod 4096"
      then have "4096 dvd length xs - i" using \<open>i < length xs\<close> mod_eq_dvd_iff_nat [of "unat (tail p) + i" "unat (tail p) + length xs" 4096] by simp
      then show False using \<open>i < length xs\<close> room by (auto dest: dvd_imp_le)
    qed
    ultimately show ?thesis using nth head_position [OF r] by (simp add: nth_append)
  qed
  ultimately show ?thesis using l(1) room by (simp add: ring_def)
qed

lemma pipe_take_ring: "ring p xs \<Longrightarrow> \<exists>p'. pipe_take n p = (take n xs, p') \<and> ring p' (drop n xs)"
proof (induction n arbitrary: p xs)
  case (Suc n)
  show ?case
  proof (cases xs)
    case Nil
    then show ?thesis using Suc.prems ring_empty [OF Suc.prems] by simp
  next
    case (Cons y ys)
    note g = ring_get1 [OF Suc.prems [unfolded Cons]]
    obtain p' where "pipe_take n (p\<lparr>tail := tail p + 1\<rparr>) = (take n ys, p')" "ring p' (drop n ys)"
      using Suc.IH [OF g(2)] by blast
    then show ?thesis using g(1) Cons ring_empty [OF Suc.prems] by simp
  qed
qed simp

lemma pipe_put_ring:
  "ring p xs \<Longrightarrow> \<exists>p'. pipe_put bs p = (drop (4096 - length xs) bs, p') \<and> ring p' (xs @ take (4096 - length xs) bs)"
proof (induction bs arbitrary: p xs)
  case (Cons b bs)
  show ?case
  proof (cases "length xs < 4096")
    case True
    let ?p = "p\<lparr>buf := (buf p)[unat (head p mod 4096) := b], head := head p + 1\<rparr>"
    obtain p' where "pipe_put bs ?p = (drop (4096 - length (xs @ [b])) bs, p')"
      "ring p' ((xs @ [b]) @ take (4096 - length (xs @ [b])) bs)"
      using Cons.IH [OF ring_put1 [OF Cons.prems True, of b]] by blast
    moreover have "4096 - length xs = Suc (4096 - length (xs @ [b]))" using True by simp
    ultimately show ?thesis using ring_full [OF Cons.prems] True by simp
  next
    case False
    then have "length xs = 4096" using Cons.prems by (simp add: ring_def)
    then show ?thesis using Cons.prems ring_full [OF Cons.prems] by simp
  qed
qed simp

interpretation pipe_ring: byte_ring ring pipe_put pipe_take 4096
  by unfold_locales (fact pipe_put_ring pipe_take_ring)+

section \<open>Reading and writing\<close>

lemma pipe_set_keeps [simp]:
  "sync_inv (pipe_set a p s) q wq ws = sync_inv s q wq ws" "current_thread (pipe_set a p s) = current_thread s"
  "idle_thread (pipe_set a p s) = idle_thread s" "pipes (pipe_set a p s) a = p" "sched_lock (pipe_set a p s) = sched_lock s"
  "cpu_flags (pipe_set a p s) = cpu_flags s" "sched_inv (pipe_set a p s) q = sched_inv s q"
  by (simp_all add: pipe_set_def sync_inv_def waitq_def sched_inv_def runq_def tn_def [abs_def] cpu_flags_def)

lemma pipe_take_keeps:
  "pipe_take n p = (bs, p') \<Longrightarrow> writers_wq p' = writers_wq p \<and> readers_wq p' = readers_wq p \<and> plock p' = plock p \<and>
     writer_count p' = writer_count p \<and> reader_count p' = reader_count p"
  by (induction n arbitrary: p bs) (auto simp: Let_def split: if_splits prod.splits)

lemma pipe_put_keeps:
  "pipe_put bs p = (rest, p') \<Longrightarrow> writers_wq p' = writers_wq p \<and> readers_wq p' = readers_wq p \<and> plock p' = plock p \<and>
     writer_count p' = writer_count p \<and> reader_count p' = reader_count p"
  by (induction bs arbitrary: p) (auto split: if_splits)

text \<open>A read of a pipe that holds \<open>xs\<close>, by a thread with the run queue \<open>q\<close> and sleepers \<open>ws\<close>.\<close>

lemma pipe_read_data:
  assumes "ring (pipes s a) xs" and a: "a = to_pipe s node" and "xs \<noteq> []" and "0 < sz"
    and "sync_inv s q (writers_wq (pipes s a)) ws"
  shows "\<exists>s'. pipe_read_pass node sz s = Some (Inr (take (unat sz) xs), s') \<and> ring (pipes s' a) (drop (unat sz) xs) \<and>
     sync_inv s' (if ws = [] then q else q @ [hd ws]) (writers_wq (pipes s' a)) (tl ws) \<and> current_thread s' = current_thread s"
proof -
  obtain p where p: "pipe_take (unat sz) (pipes s a) = (take (unat sz) xs, p)" "ring p (drop (unat sz) xs)"
    using pipe_take_ring [OF assms(1)] by blast
  note k = pipe_take_keeps [OF p(1)]
  have ne: "take (unat sz) xs \<noteq> []" using assms(3,4) by (simp add: unat_gt_0 word_neq_0_conv)
  let ?s = "pipe_set a p s"
  have "sync_inv ?s q (writers_wq p) ws" using assms(5) k by simp
  then obtain n wq s' where w: "wq_wake (writers_wq p) ?s = Some (n, wq, s')"
    "sync_inv s' (if ws = [] then q else q @ [hd ws]) wq (tl ws)" "current_thread s' = current_thread ?s"
    using wq_wake_spec by blast
  have "pipe_read_pass node sz s = Some (Inr (take (unat sz) xs), pipe_set a (p\<lparr>writers_wq := wq\<rparr>) s')"
    using p(1) ne w(1) a by (simp add: pipe_read_pass_def Let_def)
  moreover have "ring (p\<lparr>writers_wq := wq\<rparr>) (drop (unat sz) xs)" using p(2) by simp
  ultimately show ?thesis using w(2,3) by auto
qed

lemma pipe_read_eof:
  assumes "ring (pipes s a) []" and "a = to_pipe s node" and "writer_count (pipes s a) = 0"
  shows "\<exists>s'. pipe_read_pass node sz s = Some (Inr [], s') \<and> ring (pipes s' a) []"
proof -
  obtain p where p: "pipe_take (unat sz) (pipes s a) = ([], p)" "ring p []" using pipe_take_ring [OF assms(1), of "unat sz"] by auto
  then show ?thesis using assms(2,3) pipe_take_keeps [OF p(1)] by (simp add: pipe_read_pass_def Let_def)
qed

lemma pipe_read_sleeps:
  assumes "ring (pipes s a) []" and a: "a = to_pipe s node" and "writer_count (pipes s a) \<noteq> 0" and "0 < sz"
    and inv: "sync_inv s q (readers_wq (pipes s a)) rs" and lk: "locked (plock (pipes s a)) = 0" "locked (sched_lock s) = 0"
    and ni: "current_thread s \<noteq> idle_thread s"
  shows "\<exists>s'. pipe_read_pass node sz s = Some (Inl (), s') \<and> ring (pipes s' a) [] \<and>
     sync_inv s' (tl q) (readers_wq (pipes s' a)) (rs @ [current_thread s])"
proof -
  obtain p where p: "pipe_take (unat sz) (pipes s a) = ([], p)" "ring p []" using pipe_take_ring [OF assms(1), of "unat sz"] by auto
  note k = pipe_take_keeps [OF p(1)]
  let ?s = "set_flags (cpu_flags s AND NOT RFLAGS_IF) (pipe_set a p s)" and ?l = "(plock p)\<lparr>locked := 1, saved_flags := cpu_flags s\<rparr>"
  have i: "sync_inv ?s q (readers_wq p) rs" using inv k by simp
  obtain wq l s' where sl: "wq_sleep (readers_wq p) ?l ?s = Some (wq, l, s')" using wq_sleep_total [OF i, of ?l] lk(2) by auto
  note sp = wq_sleep_spec [OF i _ sl]
  have "writer_count p > 0" "head p = tail p" using k assms(3) ring_empty [OF p(2)] by (simp_all add: word_neq_0_conv)
  then have "pipe_read_pass node sz s = Some (Inl (), pipe_set a (p\<lparr>plock := l, readers_wq := wq\<rparr>) s')"
    using p(1) a assms(3,4) k lk(1) sl by (simp add: pipe_read_pass_def Let_def)
  moreover have "ring (p\<lparr>plock := l, readers_wq := wq\<rparr>) []" using p(2) by simp
  ultimately show ?thesis using sp ni by auto
qed

text \<open>
  C22.  A pipe is a first-in first-out byte stream across any sequence of writes and reads of its
  buffer, also when the 32-bit positions wrap around: the bytes held before followed by the bytes
  accepted are exactly the bytes returned followed by the bytes held after.
\<close>

theorem pipe_stream:
  assumes "ring p xs" and "pipe_ring.run os p = (accepted, returned, p')"
  shows "\<exists>ys. ring p' ys \<and> xs @ accepted = returned @ ys"
  by (rule pipe_ring.in_order [OF assms])

theorem pipe_stream_witness:
  "\<exists>accepted returned p' ys. pipe_ring.run [Put [1, 2, 3], Take 2, Put [4]]
       (zero_pipe\<lparr>head := 0xFFFFFFFF, tail := 0xFFFFFFFF\<rparr>) = (accepted, returned, p') \<and>
     ring p' ys \<and> accepted = returned @ ys"
proof -
  let ?p = "zero_pipe\<lparr>head := 0xFFFFFFFF, tail := 0xFFFFFFFF\<rparr>" and ?os = "[Put [1, 2, 3], Take 2, Put [4]]"
  obtain i o' p' where r: "pipe_ring.run ?os ?p = (i, o', p')" by (cases "pipe_ring.run ?os ?p") auto
  have "ring ?p []" by (simp add: ring_def zero_pipe_def)
  then obtain ys where "ring p' ys" "[] @ i = o' @ ys" using pipe_stream [of ?p "[]" ?os i o' p'] r by blast
  then show ?thesis using r by (intro exI [of _ i] exI [of _ o'] exI [of _ p'] exI [of _ ys]) simp
qed

lemma pipe_write_fits:
  assumes "ring (pipes s a) xs" and a: "a = to_pipe s node" and "src \<noteq> []" and "length xs + length src \<le> 4096"
    and "reader_count (pipes s a) \<noteq> 0" and "sync_inv s q (readers_wq (pipes s a)) rs"
  shows "\<exists>s'. pipe_write_pass node n src s = Some (Inr (int (n + length src)), s') \<and> ring (pipes s' a) (xs @ src) \<and>
     sync_inv s' (if rs = [] then q else q @ [hd rs]) (readers_wq (pipes s' a)) (tl rs) \<and> current_thread s' = current_thread s"
proof -
  obtain p where p: "pipe_put src (pipes s a) = ([], p)" "ring p (xs @ src)"
    using pipe_put_ring [OF assms(1), of src] assms(4) by auto
  note k = pipe_put_keeps [OF p(1)]
  let ?s = "pipe_set a p s"
  have "sync_inv ?s q (readers_wq p) rs" using assms(6) k by simp
  then obtain m wq s' where w: "wq_wake (readers_wq p) ?s = Some (m, wq, s')"
    "sync_inv s' (if rs = [] then q else q @ [hd rs]) wq (tl rs)" "current_thread s' = current_thread ?s"
    using wq_wake_spec by blast
  have "pipe_write_pass node n src s = Some (Inr (int (n + length src)), pipe_set a (p\<lparr>readers_wq := wq\<rparr>) s')"
    using p(1) w(1) a assms(3,5) by (simp add: pipe_write_pass_def Let_def)
  then show ?thesis using w(2,3) p(2) by auto
qed

lemma pipe_write_sleeps:
  assumes "ring (pipes s a) xs" and a: "a = to_pipe s node" and big: "4096 < length xs + length src"
    and "reader_count (pipes s a) \<noteq> 0" and inv: "sync_inv s q (writers_wq (pipes s a)) ws"
    and lk: "locked (plock (pipes s a)) = 0" "locked (sched_lock s) = 0" and ni: "current_thread s \<noteq> idle_thread s"
  shows "\<exists>s'. pipe_write_pass node n src s = Some (Inl (n + (4096 - length xs), drop (4096 - length xs) src), s') \<and>
     ring (pipes s' a) (xs @ take (4096 - length xs) src) \<and> readers_wq (pipes s' a) = readers_wq (pipes s a) \<and>
     sync_inv s' (tl q) (writers_wq (pipes s' a)) (ws @ [current_thread s]) \<and>
     current_thread s' = (if q = [] then idle_thread s else hd q)"
proof -
  let ?rest = "drop (4096 - length xs) src"
  obtain p where p: "pipe_put src (pipes s a) = (?rest, p)" "ring p (xs @ take (4096 - length xs) src)"
    using pipe_put_ring [OF assms(1), of src] by auto
  note k = pipe_put_keeps [OF p(1)]
  have l: "length xs \<le> 4096" using assms(1) by (simp add: ring_def)
  have ne: "?rest \<noteq> []" "src \<noteq> []" "length src - length ?rest = 4096 - length xs" using big l by auto
  have "length (xs @ take (4096 - length xs) src) = 4096" using big l by simp
  then have full: "head p - tail p \<ge> 4096" using ring_full [OF p(2)] by simp
  let ?s = "set_flags (cpu_flags s AND NOT RFLAGS_IF) (pipe_set a p s)" and ?l = "(plock p)\<lparr>locked := 1, saved_flags := cpu_flags s\<rparr>"
  have i: "sync_inv ?s q (writers_wq p) ws" using inv k by simp
  obtain wq l' s' where sl: "wq_sleep (writers_wq p) ?l ?s = Some (wq, l', s')" using wq_sleep_total [OF i, of ?l] lk(2) by auto
  note sp = wq_sleep_spec [OF i _ sl]
  have "reader_count p > 0" using k assms(4) by (simp add: word_neq_0_conv)
  then have "pipe_write_pass node n src s =
      Some (Inl (n + (4096 - length xs), ?rest), pipe_set a (p\<lparr>plock := l', writers_wq := wq\<rparr>) s')"
    using p(1) a assms(4) k lk(1) sl ne full by (simp add: pipe_write_pass_def Let_def)
  then show ?thesis using sp ni k p(2) by auto
qed

text \<open>
  C23.  Reading from a pipe that holds \<open>xs\<close>: with data it returns the oldest bytes, at most as many as
  asked for, takes exactly those out and makes the longest-sleeping writer ready; without data it
  returns end of file when there is no writer left, and otherwise the caller goes to sleep as the
  last of the readers and the next ready thread runs.
\<close>

theorem pipe_read_correct:
  assumes "ring (pipes s a) xs" and "a = to_pipe s node" and "0 < sz"
    and "sync_inv s q (writers_wq (pipes s a)) ws" and "sync_inv s q (readers_wq (pipes s a)) rs"
    and "locked (plock (pipes s a)) = 0" and "locked (sched_lock s) = 0" and "current_thread s \<noteq> idle_thread s"
  shows "\<exists>r s'. pipe_read_pass node sz s = Some (r, s') \<and>
     (if xs \<noteq> [] then r = Inr (take (unat sz) xs) \<and> ring (pipes s' a) (drop (unat sz) xs) \<and>
        sync_inv s' (if ws = [] then q else q @ [hd ws]) (writers_wq (pipes s' a)) (tl ws)
      else if writer_count (pipes s a) = 0 then r = Inr [] \<and> ring (pipes s' a) []
      else r = Inl () \<and> ring (pipes s' a) [] \<and>
        sync_inv s' (tl q) (readers_wq (pipes s' a)) (rs @ [current_thread s]))"
  using pipe_read_data [OF assms(1,2) _ assms(3,4)] pipe_read_eof [OF _ assms(2)]
    pipe_read_sleeps [OF _ assms(2) _ assms(3,5,6,7,8)] assms(1)
  by (cases "xs = []"; cases "writer_count (pipes s a) = 0") auto

theorem pipe_read_correct_witness:
  "\<exists>s'. pipe_read_pass 0 4 (kernel_example\<lparr>pipes := (\<lambda>_. zero_pipe)(0 := snd (pipe_put [7, 8] zero_pipe))\<rparr>) =
     Some (Inr [7, 8], s')"
proof -
  define s where "s = kernel_example\<lparr>pipes := (\<lambda>_. zero_pipe)(0 := snd (pipe_put [7, 8] zero_pipe))\<rparr>"
  have z: "ring zero_pipe []" by (simp add: ring_def zero_pipe_def)
  obtain p where p: "pipe_put [7, 8] zero_pipe = ([], p)" "ring p [7, 8]" using pipe_put_ring [OF z, of "[7, 8]"] by auto
  note k = pipe_put_keeps [OF p(1)]
  have sel: "pipes s 0 = p" "to_pipe s 0 = 0" "current_thread s \<noteq> idle_thread s" "sched_lock s = SPINLOCK_INIT"
    using p(1) by (simp_all add: s_def to_pipe_def kernel_example_def zero_node_def)
  have "sync_inv s [0x20, 0x30] \<lparr>wq_lock = SPINLOCK_INIT, wq_head = 0, wq_tail = 0\<rparr> []"
    using kernel_example_inv by (simp add: s_def sync_inv_def waitq_def fifo_def SPINLOCK_INIT_def kernel_example_def
        sched_inv_def runq_def tn_def [abs_def] zero_thread_def)
  then have "\<exists>r s'. pipe_read_pass 0 4 s = Some (r, s') \<and> r = Inr [7, 8]"
    using pipe_read_correct [of s 0 "[7, 8]" 0 4 "[0x20, 0x30]" "[]" "[]"] sel p(2) k
    by (auto simp: zero_pipe_def SPINLOCK_INIT_def)
  then show ?thesis unfolding s_def by blast
qed

text \<open>
  C24.  Writing \<open>src\<close> to a pipe that holds \<open>xs\<close>: with no reader left it fails with \<open>EPIPE\<close>; if the
  bytes fit they are appended and the longest-sleeping reader becomes ready; if not, the pipe is
  filled up and the writer sleeps with the rest.  In that case no reader is woken: the readers that
  sleep stay asleep, although the pipe is full.
\<close>

theorem pipe_write_correct:
  assumes "ring (pipes s a) xs" and "a = to_pipe s node" and "src \<noteq> []"
    and "sync_inv s q (writers_wq (pipes s a)) ws" and "sync_inv s q (readers_wq (pipes s a)) rs"
    and "locked (plock (pipes s a)) = 0" and "locked (sched_lock s) = 0" and "current_thread s \<noteq> idle_thread s"
  shows "\<exists>r s'. pipe_write_pass node 0 src s = Some (r, s') \<and>
     (if reader_count (pipes s a) = 0 then r = Inr (- EPIPE) \<and> s' = s
      else if length xs + length src \<le> 4096 then r = Inr (int (length src)) \<and> ring (pipes s' a) (xs @ src) \<and>
        sync_inv s' (if rs = [] then q else q @ [hd rs]) (readers_wq (pipes s' a)) (tl rs)
      else r = Inl (4096 - length xs, drop (4096 - length xs) src) \<and>
        ring (pipes s' a) (xs @ take (4096 - length xs) src) \<and> readers_wq (pipes s' a) = readers_wq (pipes s a) \<and>
        sync_inv s' (tl q) (writers_wq (pipes s' a)) (ws @ [current_thread s]))"
proof -
  consider "reader_count (pipes s a) = 0" | "reader_count (pipes s a) \<noteq> 0" "length xs + length src \<le> 4096"
    | "reader_count (pipes s a) \<noteq> 0" "4096 < length xs + length src" by linarith
  then show ?thesis
  proof cases
    case 1
    then show ?thesis using assms(2,3) by (simp add: pipe_write_pass_def Let_def)
  next
    case 2
    then show ?thesis using pipe_write_fits [OF assms(1-3) 2(2,1) assms(5), of 0] by auto
  next
    case 3
    then show ?thesis using pipe_write_sleeps [OF assms(1,2) 3(2,1) assms(4,6,7,8), of 0] by auto
  qed
qed

theorem pipe_write_correct_witness:
  "\<exists>s'. pipe_write_pass 0 0 [7, 8] (kernel_example\<lparr>pipes := (\<lambda>_. zero_pipe\<lparr>reader_count := 1\<rparr>)\<rparr>) = Some (Inr 2, s')"
proof -
  define s where "s = kernel_example\<lparr>pipes := (\<lambda>_. zero_pipe\<lparr>reader_count := 1\<rparr>)\<rparr>"
  have z: "ring (pipes s 0) []" by (simp add: ring_def zero_pipe_def s_def)
  have sel: "pipes s 0 = zero_pipe\<lparr>reader_count := 1\<rparr>" "to_pipe s 0 = 0" "current_thread s \<noteq> idle_thread s"
    "sched_lock s = SPINLOCK_INIT"
    by (simp_all add: s_def to_pipe_def kernel_example_def zero_node_def)
  have "sync_inv s [0x20, 0x30] \<lparr>wq_lock = SPINLOCK_INIT, wq_head = 0, wq_tail = 0\<rparr> []"
    using kernel_example_inv by (simp add: s_def sync_inv_def waitq_def fifo_def SPINLOCK_INIT_def kernel_example_def
        sched_inv_def runq_def tn_def [abs_def] zero_thread_def)
  then have "\<exists>r s'. pipe_write_pass 0 0 [7, 8] s = Some (r, s') \<and> r = Inr 2"
    using pipe_write_correct [of s 0 "[]" 0 "[7, 8]" "[0x20, 0x30]" "[]" "[]"] sel z
    by (auto simp: zero_pipe_def SPINLOCK_INIT_def)
  then show ?thesis unfolding s_def by blast
qed

end
