(* ===== verification/Process.thy ===== *)
theory Process
  imports Lib Pipe
begin

text \<open>
  Descriptor tables (\<^verbatim>\<open>kernel/proc/fd.c\<close>) and process control blocks (\<^verbatim>\<open>kernel/proc/process.c\<close>).

  A descriptor table is the list of its 64 entries; a pointer to an open file is the index of its
  entry.  Processes are linked through \<open>pnext\<close> from \<open>proc_list\<close>; \<open>proc_inv s ps\<close> says that the list is
  \<open>ps\<close> and that process identifiers are unique.  The walks along the list are partial functions: on a
  cyclic list they would not return.
\<close>

section \<open>Descriptor tables\<close>

abbreviation MAX_FDS :: nat where "MAX_FDS \<equiv> 64"
abbreviation SIZEOF_FdTable :: u64 where "SIZEOF_FdTable \<equiv> 2048"

definition zero_entry :: FdEntry where
  "zero_entry = \<lparr>efile = \<lparr>fnode = 0, offset = 0, fflags = 0\<rparr>, in_use = 0\<rparr>"

definition fd_table_init :: "u64 \<Rightarrow> kernel \<Rightarrow> kernel" where
  "fd_table_init a s = s\<lparr>fd_tables := (fd_tables s)(a := replicate MAX_FDS zero_entry)\<rparr>"

fun fd_alloc_from :: "nat list \<Rightarrow> FdEntry list \<Rightarrow> int \<times> FdEntry list" where
  "fd_alloc_from [] es = (- 1, es)"
| "fd_alloc_from (i # is) es =
     (if in_use (es ! i) = 0 then (int i, es[i := (es ! i)\<lparr>in_use := 1\<rparr>]) else fd_alloc_from is es)"

definition fd_alloc :: "FdEntry list \<Rightarrow> int \<times> FdEntry list" where
  "fd_alloc es = fd_alloc_from [0..<MAX_FDS] es"

definition fd_free :: "int \<Rightarrow> FdEntry list \<Rightarrow> FdEntry list" where
  "fd_free fd es =
     (if fd \<ge> 0 \<and> fd < int MAX_FDS then es[nat fd := (es ! nat fd)\<lparr>in_use := 0\<rparr>] else es)"

text \<open>The file of a descriptor, as the index of its entry; \<open>None\<close> is the null pointer.\<close>

definition fd_get :: "FdEntry list \<Rightarrow> int \<Rightarrow> nat option" where
  "fd_get es fd =
     (if fd < 0 \<or> fd \<ge> int MAX_FDS \<or> in_use (es ! nat fd) = 0 then None else Some (nat fd))"

definition fd_table_dup :: "u64 \<Rightarrow> kernel \<Rightarrow> (u64 \<times> kernel) option" where
  "fd_table_dup src s =
     (if src = 0 then Some (0, s) else
      do { (dst, s) \<leftarrow> k_alloc SIZEOF_FdTable 0 s;
           if dst = 0 then Some (0, s) else
           do { let s = s\<lparr>fd_tables := (fd_tables s)(dst := fd_tables s src)\<rparr>;
                let s = fold (\<lambda>i s. let e = fd_tables s dst ! i; n = fnode (efile e) in
                      if in_use e \<noteq> 0 \<and> n \<noteq> 0 \<and> ntype (vnodes s n) = VFS_PIPE then pipe_addref n s else s)
                    [0..<MAX_FDS] s;
                Some (dst, s) } })"

section \<open>Process control blocks\<close>

abbreviation MAX_PROCESSES :: nat where "MAX_PROCESSES \<equiv> 64"
abbreviation SIZEOF_Process :: u64 where "SIZEOF_Process \<equiv> 1072"
abbreviation PATH_MAX :: nat where "PATH_MAX \<equiv> 512"
abbreviation NSIG :: int where "NSIG \<equiv> 32"
abbreviation SIG_DFL :: u64 where "SIG_DFL \<equiv> 0"
abbreviation SIG_IGN :: u64 where "SIG_IGN \<equiv> 1"

definition sig_init :: "SigState \<Rightarrow> SigState" where
  "sig_init ss = (let ss = ss\<lparr>pending := 0, restoring := 0\<rparr> in
     fold (\<lambda>i ss. ss\<lparr>handlers := (handlers ss)[i := SIG_DFL]\<rparr>) [0..<nat NSIG] ss)"

text \<open>\<^verbatim>\<open>strncpy\<close> into an array of \<open>n\<close> bytes, as a list: the string, then zeros up to the end.\<close>

definition strncpy_array :: "nat \<Rightarrow> u8 list \<Rightarrow> u8 list" where
  "strncpy_array n xs = (let ys = takeWhile (\<lambda>c. c \<noteq> 0) (take n xs) in ys @ replicate (n - length ys) 0)"

definition proc_setup :: "u64 \<Rightarrow> kernel \<Rightarrow> kernel" where
  "proc_setup p s =
     (let s = pset p (\<lambda>x. x\<lparr>pid := next_pid s\<rparr>) (s\<lparr>next_pid := next_pid s + 1\<rparr>);
          s = pset p (\<lambda>x. x\<lparr>pgid := pid x, pstate := PROC_ALIVE, umask := 18,
                cwd := strncpy_array PATH_MAX [47, 0], sig := sig_init (sig x),
                child_exit_wq := wq_init (child_exit_wq x), pnext := proc_list s\<rparr>) s
      in s\<lparr>proc_list := p\<rparr>)"

definition proc_set_main_thread :: "u64 \<Rightarrow> u64 \<Rightarrow> kernel \<Rightarrow> kernel" where
  "proc_set_main_thread p t s =
     (let s = pset p (\<lambda>x. x\<lparr>main_thread := t\<rparr>) s in
      if unat (tid (thr s t)) < MAX_PROCESSES
      then s\<lparr>proc_table := (proc_table s)[unat (tid (thr s t)) := p]\<rparr> else s)"

definition alloc_process :: "kernel \<Rightarrow> (u64 \<times> kernel) option" where
  "alloc_process s =
     do { (p, s) \<leftarrow> k_alloc SIZEOF_Process GFP_ZERO s;
          Some (p, if p = 0 then s else pset p (\<lambda>_. zero_process) s) }"

definition proc_init :: "kernel \<Rightarrow> kernel option" where
  "proc_init s =
     do { (p, s) \<leftarrow> alloc_process s;
          if p = 0 then None else
          do { let s = proc_setup p s;
               let s = pset p (\<lambda>x. x\<lparr>main_thread := thread_current s\<rparr>) s;
               let t = tid (thr s (main_thread (procs s p)));
               Some (if unat t < MAX_PROCESSES then s\<lparr>proc_table := (proc_table s)[unat t := p]\<rparr> else s) } }"

definition proc_create :: "u64 \<Rightarrow> u64 \<Rightarrow> kernel \<Rightarrow> (u64 \<times> kernel) option" where
  "proc_create ent a s =
     do { (p, s) \<leftarrow> alloc_process s;
          if p = 0 then Some (0, s) else
          do { (t, s) \<leftarrow> thread_create ent a s;
               if t = 0 then do { s \<leftarrow> k_free p s; Some (0, s) } else
               do { let s = proc_setup p s;
                    let s = pset p (\<lambda>x. x\<lparr>main_thread := t, page_table := 0\<rparr>) s;
                    let s = (if unat (tid (thr s t)) < MAX_PROCESSES
                             then s\<lparr>proc_table := (proc_table s)[unat (tid (thr s t)) := p]\<rparr> else s);
                    Some (p, sched_add_thread t s) } } }"

text \<open>An operation of the page tables run on the kernel state.\<close>

definition with_vmm :: "(vmm \<Rightarrow> ('a \<times> vmm) option) \<Rightarrow> kernel \<Rightarrow> ('a \<times> kernel) option" where
  "with_vmm f s = do { (r, v) \<leftarrow> f (h_vmm (k_heap s)); Some (r, s\<lparr>k_heap := (k_heap s)\<lparr>h_vmm := v\<rparr>\<rparr>) }"

definition destroy_pml4 :: "u64 \<Rightarrow> kernel \<Rightarrow> kernel option" where
  "destroy_pml4 pml4 s =
     do { (_, s) \<leftarrow> with_vmm (\<lambda>v. do { v \<leftarrow> vmm_destroy_user_pml4 pml4 v; Some ((), v) }) s; Some s }"

definition proc_create_user :: "kernel \<Rightarrow> (u64 \<times> kernel) option" where
  "proc_create_user s =
     do { (p, s) \<leftarrow> alloc_process s;
          if p = 0 then Some (0, s) else
          do { let s = proc_setup p s;
               (pml4, s) \<leftarrow> with_vmm vmm_create_user_pml4 s;
               Some (p, pset p (\<lambda>x. x\<lparr>page_table := pml4\<rparr>) s) } }"

definition proc_current :: "kernel \<Rightarrow> u64" where
  "proc_current s =
     (let t = thread_current s in
      if t = 0 then 0
      else if unat (tid (thr s t)) < MAX_PROCESSES then proc_table s ! unat (tid (thr s t)) else 0)"

text \<open>The walk along the process list: the first process that satisfies \<open>P\<close>, or 0.\<close>

partial_function (option) proc_first :: "(Process \<Rightarrow> bool) \<Rightarrow> kernel \<Rightarrow> u64 \<Rightarrow> u64 option" where
  "proc_first P s p =
     (if p = 0 then Some 0 else if P (procs s p) then Some p else proc_first P s (pnext (procs s p)))"

definition proc_get_by_pid :: "u32 \<Rightarrow> kernel \<Rightarrow> u64 option" where
  "proc_get_by_pid n s = proc_first (\<lambda>p. pid p = n \<and> pstate p \<noteq> PROC_TERMINATED) s (proc_list s)"

section \<open>Fork\<close>

text \<open>
  The child's first run: it sets the kernel stacks, switches to its address space and enters user
  mode with the registers in \<open>fork_ctx\<close> and RAX = 0; the result is what user mode starts with.
\<close>

definition fork_child_entry :: "kernel \<Rightarrow> (ForkContext \<times> u64) \<times> kernel" where
  "fork_child_entry s =
     (let child = fork_child s; t = thread_current s;
          s = gdt_set_kernel_stack (kernel_stack_top (thr s t)) s;
          s = s\<lparr>syscall_kernel_rsp := kernel_stack_top (thr s t)\<rparr>;
          s = paging_write_cr3 (page_table (procs s child)) s
      in ((fork_ctx s, 0), s))"

text \<open>\<open>ent\<close> and \<open>args\<close> are the addresses of \<^verbatim>\<open>fork_child_entry\<close> and of its static argument block.\<close>

definition proc_fork :: "u64 \<Rightarrow> u64 \<Rightarrow> u64 \<Rightarrow> ForkContext \<Rightarrow> kernel \<Rightarrow> (u64 \<times> kernel) option" where
  "proc_fork ent args par user_ctx s =
     (if par = 0 \<or> page_table (procs s par) = 0 then Some (0, s) else
      do { (pml4, s) \<leftarrow> with_vmm (vmm_fork_address_space (page_table (procs s par))) s;
           if pml4 = 0 then Some (0, s) else
           do { (child, s) \<leftarrow> alloc_process s;
                if child = 0 then do { s \<leftarrow> destroy_pml4 pml4 s; Some (0, s) } else
                do { let s = proc_setup child s;
                     let pp = procs s par;
                     let s = pset child (\<lambda>x. x\<lparr>page_table := pml4, brk_start := brk_start pp, brk_current := brk_current pp,
                           cwd := strncpy_array PATH_MAX (cwd pp), uid := uid pp, gid := gid pp, euid := euid pp,
                           egid := egid pp, umask := umask pp, pgid := pgid pp, parent := par\<rparr>) s;
                     (ft, s) \<leftarrow> fd_table_dup (fd_table (procs s par)) s;
                     let s = pset child (\<lambda>x. x\<lparr>fd_table := ft\<rparr>) s;
                     let s = s\<lparr>fork_child := child, fork_ctx := user_ctx\<rparr>;
                     (t, s) \<leftarrow> thread_create ent args s;
                     if t = 0 then
                       do { s \<leftarrow> k_free (fd_table (procs s child)) s;
                            s \<leftarrow> destroy_pml4 pml4 s;
                            s \<leftarrow> k_free child s;
                            Some (0, s) }
                     else Some (child, sched_add_thread t (proc_set_main_thread child t s)) } } })"

section \<open>Zombies\<close>

definition proc_find_zombie_child :: "u64 \<Rightarrow> kernel \<Rightarrow> u64 option" where
  "proc_find_zombie_child par s = proc_first (\<lambda>p. parent p = par \<and> pstate p = PROC_ZOMBIE) s (proc_list s)"

definition proc_has_children :: "u64 \<Rightarrow> kernel \<Rightarrow> int option" where
  "proc_has_children par s =
     do { p \<leftarrow> proc_first (\<lambda>p. parent p = par \<and> pstate p \<noteq> PROC_TERMINATED) s (proc_list s);
          Some (if p \<noteq> 0 then 1 else 0) }"

definition proc_reap :: "u64 \<Rightarrow> kernel \<Rightarrow> (int \<times> int option) \<times> kernel" where
  "proc_reap child s =
     (if child = 0 \<or> pstate (procs s child) \<noteq> PROC_ZOMBIE then ((- EINVAL, None), s)
      else ((sint (pid (procs s child)), Some (exit_status (procs s child))),
            pset child (\<lambda>x. x\<lparr>pstate := PROC_TERMINATED\<rparr>) s))"

definition proc_find_stopped_child :: "u64 \<Rightarrow> kernel \<Rightarrow> u64 option" where
  "proc_find_stopped_child par s =
     proc_first (\<lambda>p. parent p = par \<and> pstate p = PROC_STOPPED \<and> exit_status p \<noteq> 0) s (proc_list s)"

partial_function (option) proc_foreach_from ::
    "(u64 \<Rightarrow> 'c \<Rightarrow> kernel \<Rightarrow> 'c \<times> kernel) \<Rightarrow> u64 \<Rightarrow> int \<Rightarrow> 'c \<Rightarrow> kernel \<Rightarrow> (int \<times> 'c \<times> kernel) option" where
  "proc_foreach_from cb p n c s =
     (if p = 0 then Some (n, c, s)
      else if pstate (procs s p) \<noteq> PROC_TERMINATED
      then proc_foreach_from cb (pnext (procs (snd (cb p c s)) p)) (n + 1) (fst (cb p c s)) (snd (cb p c s))
      else proc_foreach_from cb (pnext (procs s p)) n c s)"

definition proc_foreach :: "(u64 \<Rightarrow> 'c \<Rightarrow> kernel \<Rightarrow> 'c \<times> kernel) \<Rightarrow> 'c \<Rightarrow> kernel \<Rightarrow> (int \<times> 'c \<times> kernel) option" where
  "proc_foreach cb c s = proc_foreach_from cb (proc_list s) 0 c s"


section \<open>The process list\<close>

definition proc_inv :: "kernel \<Rightarrow> u64 list \<Rightarrow> bool" where
  "proc_inv s ps \<longleftrightarrow>
     chain (\<lambda>p. pnext (procs s p)) (proc_list s) ps \<and> distinct ps \<and>
     inj_on (\<lambda>p. pid (procs s p)) (set ps) \<and> (\<forall>p \<in> set ps. pid (procs s p) < next_pid s)"

lemma pset_sel [simp]:
  "procs (pset p f s) = (procs s)(p := f (procs s p))" "proc_list (pset p f s) = proc_list s"
  "next_pid (pset p f s) = next_pid s" "proc_table (pset p f s) = proc_table s" "thr (pset p f s) = thr s"
  "current_thread (pset p f s) = current_thread s" "k_heap (pset p f s) = k_heap s"
  "queue_head (pset p f s) = queue_head s" "queue_tail (pset p f s) = queue_tail s" "idle_thread (pset p f s) = idle_thread s"
  "fd_tables (pset p f s) = fd_tables s" "vnodes (pset p f s) = vnodes s" "pipes (pset p f s) = pipes s"
  by (simp_all add: pset_def)

lemma proc_first_chain:
  assumes "chain (\<lambda>p. pnext (procs s p)) p ps"
  shows "proc_first P s p = Some (case find (\<lambda>x. P (procs s x)) ps of None \<Rightarrow> 0 | Some x \<Rightarrow> x)"
  using assms
proof (induction ps arbitrary: p)
  case Nil
  then show ?case by (simp add: proc_first.simps)
next
  case (Cons x ps)
  then show ?case by (simp add: proc_first.simps [of P s x])
qed

lemma proc_get_by_pid_find:
  "proc_inv s ps \<Longrightarrow> proc_get_by_pid n s =
     Some (case find (\<lambda>x. pid (procs s x) = n \<and> pstate (procs s x) \<noteq> PROC_TERMINATED) ps of None \<Rightarrow> 0 | Some x \<Rightarrow> x)"
  unfolding proc_get_by_pid_def proc_inv_def by (rule proc_first_chain) simp

text \<open>The lookup by identifier answers with the one process that has it.\<close>

lemma proc_get_by_pid_iff:
  assumes "proc_inv s ps" and "p \<noteq> 0"
  shows "proc_get_by_pid n s = Some p \<longleftrightarrow> p \<in> set ps \<and> pid (procs s p) = n \<and> pstate (procs s p) \<noteq> PROC_TERMINATED"
proof
  assume "proc_get_by_pid n s = Some p"
  then show "p \<in> set ps \<and> pid (procs s p) = n \<and> pstate (procs s p) \<noteq> PROC_TERMINATED"
    using proc_get_by_pid_find [OF assms(1), of n] assms(2) by (auto split: option.splits simp: find_Some_iff)
next
  assume a: "p \<in> set ps \<and> pid (procs s p) = n \<and> pstate (procs s p) \<noteq> PROC_TERMINATED"
  let ?P = "\<lambda>x. pid (procs s x) = n \<and> pstate (procs s x) \<noteq> PROC_TERMINATED"
  obtain x where x: "find ?P ps = Some x" using a by (cases "find ?P ps") (auto simp: find_None_iff)
  then have "x \<in> set ps" "pid (procs s x) = n" by (auto simp: find_Some_iff)
  then have "x = p" using assms(1) a unfolding proc_inv_def by (metis inj_onD)
  then show "proc_get_by_pid n s = Some p" using x proc_get_by_pid_find [OF assms(1), of n] by simp
qed

lemma sig_init_default: "length (handlers ss) = 32 \<Longrightarrow> handlers (sig_init ss) = replicate 32 SIG_DFL"
proof -
  assume l: "length (handlers ss) = 32"
  have "handlers (fold (\<lambda>i ss. ss\<lparr>handlers := (handlers ss)[i := SIG_DFL]\<rparr>) [0..<n] x) =
      replicate n SIG_DFL @ drop n (handlers x)" if "n \<le> length (handlers x)" for n and x :: SigState
    using that
  proof (induction n)
    case (Suc n)
    then have "drop n (handlers x) = handlers x ! n # drop (Suc n) (handlers x)" by (simp add: Cons_nth_drop_Suc)
    then show ?case using Suc by (simp add: list_update_append replicate_append_same [symmetric] del: replicate_append_same)
  qed simp
  from this [of 32 "ss\<lparr>pending := 0, restoring := 0\<rparr>"] show "handlers (sig_init ss) = replicate 32 SIG_DFL"
    using l by (simp add: sig_init_def)
qed

lemma sig_init_pending [simp]: "pending (sig_init ss) = 0" "restoring (sig_init ss) = 0"
proof -
  have "pending (fold (\<lambda>i ss. ss\<lparr>handlers := (handlers ss)[i := SIG_DFL]\<rparr>) is x) = pending x \<and>
     restoring (fold (\<lambda>i ss. ss\<lparr>handlers := (handlers ss)[i := SIG_DFL]\<rparr>) is x) = restoring x" for "is" and x :: SigState
    by (induction "is" arbitrary: x) simp_all
  then show "pending (sig_init ss) = 0" "restoring (sig_init ss) = 0" by (simp_all add: sig_init_def)
qed

lemma proc_setup_sel [simp]:
  "proc_list (proc_setup p s) = p" "next_pid (proc_setup p s) = next_pid s + 1" "proc_table (proc_setup p s) = proc_table s"
  "thr (proc_setup p s) = thr s" "k_heap (proc_setup p s) = k_heap s" "x \<noteq> p \<Longrightarrow> procs (proc_setup p s) x = procs s x"
  "pid (procs (proc_setup p s) p) = next_pid s" "pnext (procs (proc_setup p s) p) = proc_list s"
  "pstate (procs (proc_setup p s) p) = PROC_ALIVE" "pgid (procs (proc_setup p s) p) = next_pid s"
  "sig (procs (proc_setup p s) p) = sig_init (sig (procs s p))" "queue_tail (proc_setup p s) = queue_tail s"
  by (simp_all add: proc_setup_def Let_def pset_def)

text \<open>A new process is linked in front, with an identifier no other process has.\<close>

lemma proc_setup_inv:
  assumes "proc_inv s ps" and "p \<noteq> 0" and "p \<notin> set ps" and "next_pid s \<noteq> - 1"
  shows "proc_inv (proc_setup p s) (p # ps)"
proof -
  have "1 + next_pid s \<noteq> 0" using assms(4) by (metis add.commute eq_neg_iff_add_eq_0)
  then have lt: "next_pid s < next_pid s + 1" by (simp add: word_less_nat_alt unatSuc add.commute)
  have ne: "x \<noteq> p" if "x \<in> set ps" for x using assms(3) that by metis
  have "chain (\<lambda>x. pnext (procs (proc_setup p s) x)) (proc_list s) ps"
    using assms(1) chain_cong [of ps "\<lambda>x. pnext (procs (proc_setup p s) x)" "\<lambda>x. pnext (procs s x)" "proc_list s"] ne
    by (simp add: proc_inv_def)
  moreover have "inj_on (\<lambda>x. pid (procs (proc_setup p s) x)) (set ps)"
    using assms(1) ne by (auto simp: proc_inv_def inj_on_def)
  moreover have "pid (procs s x) \<noteq> next_pid s" "pid (procs s x) < next_pid s + 1" if "x \<in> set ps" for x
    using assms(1) that lt unfolding proc_inv_def by fastforce+
  ultimately show ?thesis using assms(1-3) ne lt by (auto simp: proc_inv_def)
qed

text \<open>A fresh process next to the ones the list holds: allocation gives an address no process has.\<close>

lemma alloc_process_fresh:
  assumes "heap_owns R (k_heap s) L" and "\<forall>q \<in> set ps. \<exists>n \<ge> SIZEOF_Process. (q, n) \<in> L"
    and "heap_ready SIZEOF_Process (k_heap s)" and "alloc_process s = Some (p, s1)" and "p \<noteq> 0"
  shows "p \<notin> set ps" and "\<exists>h. s1 = pset p (\<lambda>_. zero_process) (s\<lparr>k_heap := h\<rparr>)"
proof -
  obtain h where h: "kmalloc SIZEOF_Process GFP_ZERO (k_heap s) = Some (p, h)" "s1 = pset p (\<lambda>_. zero_process) (s\<lparr>k_heap := h\<rparr>)"
    using assms(4,5) by (auto simp: alloc_process_def k_alloc_def split: bind_splits)
  show "\<exists>h. s1 = pset p (\<lambda>_. zero_process) (s\<lparr>k_heap := h\<rparr>)" using h(2) by blast
  show "p \<notin> set ps"
  proof
    assume "p \<in> set ps"
    then obtain n where n: "SIZEOF_Process \<le> n" "(p, n) \<in> L" using assms(2) by blast
    have "1072 \<le> unat n" using n(1) by (simp add: word_le_nat_alt)
    then show False using kmem.malloc_apart [OF assms(1,3) h(1) assms(5) n(2)] by simp
  qed
qed

lemma proc_inv_cong:
  assumes "proc_list s' = proc_list s" "next_pid s' = next_pid s"
    "\<And>p. pid (procs s' p) = pid (procs s p)" "\<And>p. pnext (procs s' p) = pnext (procs s p)"
  shows "proc_inv s' ps = proc_inv s ps"
  by (simp add: proc_inv_def assms)

lemma find_cong: "(\<And>x. x \<in> set xs \<Longrightarrow> P x = Q x) \<Longrightarrow> find P xs = find Q xs"
  by (induction xs) auto

text \<open>Registering a process changes no other lookup.\<close>

lemma proc_setup_lookup:
  assumes "proc_inv s ps" and "p \<noteq> 0" and "p \<notin> set ps" and "next_pid s \<noteq> - 1"
  shows "proc_get_by_pid (next_pid s) s = Some 0" "proc_get_by_pid (next_pid s) (proc_setup p s) = Some p"
    "n \<noteq> next_pid s \<Longrightarrow> proc_get_by_pid n (proc_setup p s) = proc_get_by_pid n s"
proof -
  let ?s = "proc_setup p s"
  note inv = proc_setup_inv [OF assms]
  have ne: "x \<noteq> p" if "x \<in> set ps" for x using assms(3) that by metis
  have "find (\<lambda>x. pid (procs s x) = next_pid s \<and> pstate (procs s x) \<noteq> PROC_TERMINATED) ps = None"
    using assms(1) by (auto simp: proc_inv_def find_None_iff)
  then show "proc_get_by_pid (next_pid s) s = Some 0" by (simp add: proc_get_by_pid_find [OF assms(1)])
  show "proc_get_by_pid (next_pid s) ?s = Some p" by (simp add: proc_get_by_pid_iff [OF inv assms(2)])
  assume n: "n \<noteq> next_pid s"
  have "find (\<lambda>x. pid (procs ?s x) = n \<and> pstate (procs ?s x) \<noteq> PROC_TERMINATED) (p # ps) =
      find (\<lambda>x. pid (procs s x) = n \<and> pstate (procs s x) \<noteq> PROC_TERMINATED) ps"
    using n ne by (auto intro!: find_cong)
  then show "proc_get_by_pid n ?s = proc_get_by_pid n s"
    by (simp add: proc_get_by_pid_find [OF assms(1)] proc_get_by_pid_find [OF inv] del: find.simps)
qed

lemma proc_get_by_pid_cong:
  assumes "proc_inv s ps" "proc_list s' = proc_list s" "next_pid s' = next_pid s"
    "\<And>p. pid (procs s' p) = pid (procs s p)" "\<And>p. pnext (procs s' p) = pnext (procs s p)"
    "\<And>p. pstate (procs s' p) = pstate (procs s p)"
  shows "proc_get_by_pid n s' = proc_get_by_pid n s"
proof -
  have "proc_inv s' ps" using assms(1) proc_inv_cong [of s' s ps] assms(2-5) by simp
  then show ?thesis using assms(1) by (simp add: proc_get_by_pid_find assms(4,6))
qed

section \<open>Properties\<close>

text \<open>
  C30.  Creating a user process: the new control block is none of those in the process list, it gets
  an identifier that no process had, under which it is found from then on, all its signal handlers
  are the default, and the lookup of every other identifier is unchanged.
\<close>

theorem proc_create_user_correct:
  assumes "proc_inv s ps" and "heap_owns R (k_heap s) L" and "\<forall>q \<in> set ps. \<exists>n \<ge> SIZEOF_Process. (q, n) \<in> L"
    and "heap_ready SIZEOF_Process (k_heap s)" and "next_pid s \<noteq> - 1"
    and "proc_create_user s = Some (p, s')" and "p \<noteq> 0"
  shows "p \<notin> set ps \<and> proc_inv s' (p # ps) \<and> pid (procs s' p) = next_pid s \<and>
     proc_get_by_pid (next_pid s) s = Some 0 \<and> proc_get_by_pid (next_pid s) s' = Some p \<and>
     (\<forall>n. n \<noteq> next_pid s \<longrightarrow> proc_get_by_pid n s' = proc_get_by_pid n s) \<and>
     handlers (sig (procs s' p)) = replicate 32 SIG_DFL \<and> pending (sig (procs s' p)) = 0"
proof -
  obtain s1 h2 pml4 where a: "alloc_process s = Some (p, s1)"
    "s' = pset p (\<lambda>x. x\<lparr>page_table := pml4\<rparr>) ((proc_setup p s1)\<lparr>k_heap := h2\<rparr>)"
    using assms(6,7) by (auto simp: proc_create_user_def with_vmm_def Let_def split: bind_splits if_splits)
  note f = alloc_process_fresh [OF assms(2,3,4) a(1) assms(7)]
  then obtain h where s1: "s1 = pset p (\<lambda>_. zero_process) (s\<lparr>k_heap := h\<rparr>)" by blast
  have ne: "x \<noteq> p" if "x \<in> set ps" for x using f(1) that by metis
  have inv1: "proc_inv s1 ps"
    using assms(1) ne chain_cong [of ps "\<lambda>x. pnext (procs s1 x)" "\<lambda>x. pnext (procs s x)" "proc_list s"]
    by (auto simp: proc_inv_def s1 inj_on_def)
  have np: "next_pid s1 = next_pid s" by (simp add: s1)
  have lk1: "proc_get_by_pid n s1 = proc_get_by_pid n s" for n
    unfolding proc_get_by_pid_find [OF inv1] proc_get_by_pid_find [OF assms(1)]
    using ne find_cong [of ps "\<lambda>x. pid (procs s1 x) = n \<and> pstate (procs s1 x) \<noteq> PROC_TERMINATED"
      "\<lambda>x. pid (procs s x) = n \<and> pstate (procs s x) \<noteq> PROC_TERMINATED"] by (simp add: s1)
  have np1: "next_pid s1 \<noteq> - 1" using assms(5) np by simp
  note inv2 = proc_setup_inv [OF inv1 assms(7) f(1) np1] and lk2 = proc_setup_lookup [OF inv1 assms(7) f(1) np1]
  have "proc_inv s' (p # ps)" using inv2 proc_inv_cong [of s' "proc_setup p s1" "p # ps"] by (simp add: a(2))
  moreover have "proc_get_by_pid n s' = proc_get_by_pid n (proc_setup p s1)" for n
    by (rule proc_get_by_pid_cong [OF inv2]) (simp_all add: a(2))
  moreover have "length (handlers (sig (procs s1 p))) = 32" by (simp add: s1 zero_process_def)
  ultimately show ?thesis using f(1) lk1 lk2 np by (simp add: a(2) sig_init_default)
qed

text \<open>The first allocation from the heap that initialisation leaves.\<close>

lemma first_alloc:
  assumes "heap_rep {0x2000} h [(HEAP_START, 16336, True)]" and "n \<noteq> 0" and "align_up n \<le> 16336"
    and "unat (align_up n) mod 16 = 0" and "n \<le> align_up n"
  shows "\<exists>p h1 bs1. kmalloc n flags h = Some (p, h1) \<and> new_block {0x2000} n flags h {} p h1 bs1 \<and> h_vmm h1 = h_vmm h"
proof -
  have h': "heap_rep {0x2000} h ([] @ (HEAP_START, 16336, True) # [])" using assms(1) by simp
  obtain p h1 bs1 where a: "block_allocate HEAP_START (align_up n) flags h = (p, h1)" "new_block {0x2000} n flags h {} p h1 bs1"
    using block_allocate_live [OF h' assms(3-5), of flags] by auto
  have k: "kmalloc n flags h = Some (p, h1)"
    using find_fit_rep [OF assms(1), of "align_up n"] a(1) assms(2,3) by (auto simp: kmalloc_def Cons_eq_append_conv)
  have "h_vmm (snd (block_allocate b m f h)) = h_vmm h" for b m f
    by (simp add: block_allocate_def split_block_def hset_def heap_memset_def Let_def)
  from this [of HEAP_START "align_up n" flags] show ?thesis using a k by auto
qed

text \<open>A state for the witness: the heap after initialisation, no process yet.\<close>

lemma proc_create_user_example:
  assumes "kmalloc_init kheap_example = Some h" "heap_rep {0x2000} h [(HEAP_START, 16336, True)]" "237 \<le> card (frees (h_vmm h))"
  shows "\<exists>p s'. proc_create_user (kernel_example\<lparr>k_heap := h\<rparr>) = Some (p, s') \<and> p \<noteq> 0"
proof -
  have "align_up 1072 = 1072" by (simp add: align_up_def)
  then obtain p h1 bs1 where a: "kmalloc 1072 GFP_ZERO h = Some (p, h1)" "new_block {0x2000} 1072 GFP_ZERO h {} p h1 bs1"
    and v: "h_vmm h1 = h_vmm h" using first_alloc [OF assms(2), of 1072 GFP_ZERO] by auto
  have "vmm_ok {0x2000} (h_vmm h1)" "kernel_pml4_phys (h_vmm h1) \<in> {0x2000}"
    using a(2) unfolding new_block_def heap_rep_def heap_region_def by blast+
  moreover have "frees (h_vmm h1) \<noteq> {}" using assms(3) v by auto
  ultimately obtain n v' where "vmm_create_user_pml4 (h_vmm h1) = Some (n, v')"
    using vmm_create_user_pml4_spec [of "{0x2000}" "h_vmm h1"] by blast
  moreover have "p \<noteq> 0" using a(2) by (simp add: new_block_def)
  ultimately show ?thesis using a(1)
    by (simp add: proc_create_user_def alloc_process_def k_alloc_def with_vmm_def Let_def)
qed

theorem proc_create_user_correct_witness:
  "\<exists>h p s'. kmalloc_init kheap_example = Some h \<and> proc_create_user (kernel_example\<lparr>k_heap := h\<rparr>) = Some (p, s') \<and>
     proc_inv s' [p] \<and> proc_get_by_pid 0 s' = Some p"
proof -
  obtain h where h: "kmalloc_init kheap_example = Some h" "heap_rep {0x2000} h [(HEAP_START, 16336, True)]"
    "237 \<le> card (frees (h_vmm h))" using kheap_example_init by blast
  let ?s = "kernel_example\<lparr>k_heap := h\<rparr>"
  obtain p s' where c: "proc_create_user ?s = Some (p, s')" "p \<noteq> 0" using proc_create_user_example [OF h] by blast
  have "heap_owns {0x2000} h {}" using h(2) by (auto simp: heap_owns_def intro!: exI [of _ "[(HEAP_START, 16336, True)]"])
  moreover have "proc_inv ?s []" by (simp add: proc_inv_def kernel_example_def)
  ultimately have "proc_inv s' [p] \<and> proc_get_by_pid (next_pid ?s) s' = Some p"
    using proc_create_user_correct [of ?s "[]" "{0x2000}" "{}" p s'] c h(3) by (simp add: heap_ready_def kernel_example_def)
  then show ?thesis using h(1) c(1) by (auto simp: kernel_example_def)
qed

text \<open>
  C31.  Reaping: the search for a zombie child returns one exactly if there is one; reaping it hands
  out its exit status once, after which its identifier is free, a second attempt is refused, and the
  lookup of every other identifier is unchanged.
\<close>

theorem proc_reap_correct:
  assumes "proc_inv s ps"
  shows "\<exists>c. proc_find_zombie_child par s = Some c \<and>
     (if \<exists>x \<in> set ps. parent (procs s x) = par \<and> pstate (procs s x) = PROC_ZOMBIE
      then \<exists>s'. c \<in> set ps \<and> parent (procs s c) = par \<and>
        proc_reap c s = ((sint (pid (procs s c)), Some (exit_status (procs s c))), s') \<and>
        proc_inv s' ps \<and> proc_get_by_pid (pid (procs s c)) s' = Some 0 \<and> fst (proc_reap c s') = (- EINVAL, None) \<and>
        (\<forall>n. n \<noteq> pid (procs s c) \<longrightarrow> proc_get_by_pid n s' = proc_get_by_pid n s)
      else c = 0 \<and> proc_reap c s = ((- EINVAL, None), s))"
proof -
  let ?Z = "\<lambda>x. parent (procs s x) = par \<and> pstate (procs s x) = PROC_ZOMBIE"
  have f: "proc_find_zombie_child par s = Some (case find ?Z ps of None \<Rightarrow> 0 | Some x \<Rightarrow> x)"
    using proc_first_chain [of s "proc_list s" ps "\<lambda>p. parent p = par \<and> pstate p = PROC_ZOMBIE"] assms
    by (simp add: proc_find_zombie_child_def proc_inv_def)
  show ?thesis
  proof (cases "find ?Z ps")
    case None
    then have "\<not> (\<exists>x \<in> set ps. ?Z x)" by (auto simp: find_None_iff)
    then show ?thesis using f None by (auto simp: proc_reap_def)
  next
    case (Some c)
    then have c: "c \<in> set ps" "?Z c" by (auto simp: find_Some_iff)
    have c0: "c \<noteq> 0" using c(1) assms chain_nonzero [of _ "proc_list s" ps] unfolding proc_inv_def by metis
    let ?s = "pset c (\<lambda>x. x\<lparr>pstate := PROC_TERMINATED\<rparr>) s"
    have inv: "proc_inv ?s ps" using assms proc_inv_cong [of ?s s ps] by simp
    have "find (\<lambda>x. pid (procs ?s x) = pid (procs s c) \<and> pstate (procs ?s x) \<noteq> PROC_TERMINATED) ps = None"
      using assms c(1) by (auto simp: find_None_iff proc_inv_def dest: inj_onD)
    then have gone: "proc_get_by_pid (pid (procs s c)) ?s = Some 0" by (simp add: proc_get_by_pid_find [OF inv])
    have "find (\<lambda>x. pid (procs ?s x) = n \<and> pstate (procs ?s x) \<noteq> PROC_TERMINATED) ps =
        find (\<lambda>x. pid (procs s x) = n \<and> pstate (procs s x) \<noteq> PROC_TERMINATED) ps" if "n \<noteq> pid (procs s c)" for n
      using that by (intro find_cong) auto
    then have rest: "proc_get_by_pid n ?s = proc_get_by_pid n s" if "n \<noteq> pid (procs s c)" for n
      using that by (simp add: proc_get_by_pid_find [OF inv] proc_get_by_pid_find [OF assms])
    have "proc_reap c s = ((sint (pid (procs s c)), Some (exit_status (procs s c))), ?s)" "fst (proc_reap c ?s) = (- EINVAL, None)"
      using c(2) c0 by (simp_all add: proc_reap_def)
    then show ?thesis using f Some c inv gone rest by auto
  qed
qed

theorem proc_reap_correct_witness:
  "\<exists>c s'. proc_find_zombie_child 0x100 (pset 0x200 (\<lambda>p. p\<lparr>parent := 0x100, pid := 5, pstate := PROC_ZOMBIE, exit_status := 3\<rparr>)
       (kernel_example\<lparr>proc_list := 0x200, next_pid := 6\<rparr>)) = Some c \<and>
     proc_reap c (pset 0x200 (\<lambda>p. p\<lparr>parent := 0x100, pid := 5, pstate := PROC_ZOMBIE, exit_status := 3\<rparr>)
       (kernel_example\<lparr>proc_list := 0x200, next_pid := 6\<rparr>)) = ((5, Some 3), s') \<and> proc_get_by_pid 5 s' = Some 0"
proof -
  let ?s = "pset 0x200 (\<lambda>p. p\<lparr>parent := 0x100, pid := 5, pstate := PROC_ZOMBIE, exit_status := 3\<rparr>)
       (kernel_example\<lparr>proc_list := 0x200, next_pid := 6\<rparr>)"
  have "proc_inv ?s [0x200]" by (simp add: proc_inv_def kernel_example_def zero_process_def)
  from proc_reap_correct [OF this, of "0x100"] show ?thesis by auto
qed

text \<open>The index at which the search for a free descriptor stops.\<close>

lemma fd_alloc_from_upt:
  "(\<forall>j. i \<le> j \<and> j < n \<longrightarrow> in_use (es ! j) \<noteq> 0) \<and> fd_alloc_from [i..<n] es = (- 1, es) \<or>
   (\<exists>k. i \<le> k \<and> k < n \<and> in_use (es ! k) = 0 \<and> (\<forall>j. i \<le> j \<and> j < k \<longrightarrow> in_use (es ! j) \<noteq> 0) \<and>
      fd_alloc_from [i..<n] es = (int k, es[k := (es ! k)\<lparr>in_use := 1\<rparr>]))"
proof (induction "n - i" arbitrary: i)
  case (Suc d)
  then have i: "i < n" "[i..<n] = i # [Suc i..<n]" by (simp_all add: upt_conv_Cons)
  show ?case
  proof (cases "in_use (es ! i) = 0")
    case True
    then show ?thesis using i by (intro disjI2 exI [of _ i]) auto
  next
    case False
    have up: "(\<forall>j. i \<le> j \<and> j < m \<longrightarrow> in_use (es ! j) \<noteq> 0) \<longleftrightarrow> (\<forall>j. Suc i \<le> j \<and> j < m \<longrightarrow> in_use (es ! j) \<noteq> 0)" for m
      using False by (metis Suc_leD Suc_leI le_neq_implies_less)
    have "d = n - Suc i" "fd_alloc_from [i..<n] es = fd_alloc_from [Suc i..<n] es" using Suc.hyps(2) False i(2) by simp_all
    then show ?thesis using Suc.hyps(1) [of "Suc i"] unfolding up by (metis Suc_leD)
  qed
qed auto

text \<open>
  C32.  Descriptors: allocation fails with -1 and no change exactly when all 64 are in use; otherwise
  it returns the lowest free one, which from then on is valid, and no other entry changes.  Freeing
  it makes it invalid and gives the table back its old set of valid descriptors.
\<close>

theorem fd_alloc_correct:
  assumes "length es = MAX_FDS" and "fd_alloc es = (fd, es')"
  shows "(if \<forall>i < MAX_FDS. fd_get es (int i) = Some i then fd = - 1 \<and> es' = es
      else 0 \<le> fd \<and> fd < 64 \<and> fd_get es fd = None \<and> (\<forall>j. 0 \<le> j \<and> j < fd \<longrightarrow> fd_get es j = Some (nat j)) \<and>
        fd_get es' fd = Some (nat fd) \<and> efile (es' ! nat fd) = efile (es ! nat fd) \<and>
        (\<forall>j. j \<noteq> nat fd \<longrightarrow> es' ! j = es ! j) \<and> (\<forall>j. fd_get (fd_free fd es') j = fd_get es j))"
proof (cases "\<forall>i < MAX_FDS. fd_get es (int i) = Some i")
  case True
  then have "\<forall>j. 0 \<le> j \<and> j < MAX_FDS \<longrightarrow> in_use (es ! j) \<noteq> 0" by (auto simp: fd_get_def split: if_splits)
  then have "fd = - 1 \<and> es' = es" using assms(2) fd_alloc_from_upt [of 0 MAX_FDS es] by (auto simp: fd_alloc_def)
  then show ?thesis using True by simp
next
  case False
  then obtain i where i: "i < MAX_FDS" "in_use (es ! i) = 0" by (auto simp: fd_get_def split: if_splits)
  then obtain k where k: "k < MAX_FDS" "in_use (es ! k) = 0" "\<And>j. j < k \<Longrightarrow> in_use (es ! j) \<noteq> 0"
    "fd = int k" "es' = es[k := (es ! k)\<lparr>in_use := 1\<rparr>]"
    using fd_alloc_from_upt [of 0 MAX_FDS es] assms(2) by (auto simp: fd_alloc_def)
  have "fd_get (fd_free fd es') j = fd_get es j" for j
    using k assms(1) by (cases "j = int k") (auto simp: fd_get_def fd_free_def nth_list_update)
  moreover have "\<forall>j. 0 \<le> j \<and> j < fd \<longrightarrow> fd_get es j = Some (nat j)"
    using k by (auto simp: fd_get_def zless_nat_conj nat_less_iff)
  moreover have "0 \<le> fd" "fd < 64" "fd_get es fd = None" "fd_get es' fd = Some (nat fd)" "efile (es' ! nat fd) = efile (es ! nat fd)"
    "\<forall>j. j \<noteq> nat fd \<longrightarrow> es' ! j = es ! j" using k assms(1) by (simp_all add: fd_get_def)
  ultimately show ?thesis unfolding if_not_P [OF False] by blast
qed

theorem fd_alloc_correct_witness:
  "\<exists>es'. fd_alloc ((replicate 64 zero_entry)[0 := zero_entry\<lparr>in_use := 1\<rparr>]) = (1, es') \<and> fd_get es' 1 = Some 1"
proof -
  let ?es = "(replicate 64 zero_entry)[0 := zero_entry\<lparr>in_use := 1\<rparr>]"
  obtain fd es' where a: "fd_alloc ?es = (fd, es')" by (cases "fd_alloc ?es")
  have z: "fd_get ?es 1 = None" "fd_get ?es 0 = Some 0" by (simp_all add: fd_get_def zero_entry_def)
  have "\<not> (\<forall>i < MAX_FDS. fd_get ?es (int i) = Some i)" using z(1) by (auto intro!: exI [of _ 1])
  then have "0 \<le> fd \<and> fd_get ?es fd = None \<and> (\<forall>j. 0 \<le> j \<and> j < fd \<longrightarrow> fd_get ?es j = Some (nat j)) \<and> fd_get es' fd = Some (nat fd)"
    using fd_alloc_correct [OF _ a] by (simp only: if_False length_list_update length_replicate) blast
  then have f: "0 \<le> fd" "fd_get ?es fd = None" "\<forall>j. 0 \<le> j \<and> j < fd \<longrightarrow> fd_get ?es j = Some (nat j)" "fd_get es' fd = Some (nat fd)"
    by blast+
  have "fd = 1"
  proof (rule ccontr)
    assume "fd \<noteq> 1"
    then consider "fd = 0" | "1 < fd" using f(1) by linarith
    then show False using f(2,3) z by cases auto
  qed
  then show ?thesis using a f(4) by simp
qed

end
