(* ===== verification/Signal.thy ===== *)
theory Signal
  imports Process
begin

text \<open>
  Signals (\<^verbatim>\<open>kernel/proc/signal.c\<close>) and the signal system calls of \<^verbatim>\<open>arch/x86_64/syscall.c\<close>.

  Delivery happens on the way back to user mode: it may change the register frame of the system
  call, so that user mode continues in a handler, or end or stop the process, in which case another
  thread runs.  \<open>sig_maybe_deliver\<close> returns the value for RAX, the frame and the new state; after a
  switch these take effect when the thread runs again.
\<close>

section \<open>Data\<close>

abbreviation SIGKILL :: int where "SIGKILL \<equiv> 9"
abbreviation SIGCHLD :: int where "SIGCHLD \<equiv> 17"
abbreviation SIGCONT :: int where "SIGCONT \<equiv> 18"
abbreviation SIGSTOP :: int where "SIGSTOP \<equiv> 19"
abbreviation SIGTSTP :: int where "SIGTSTP \<equiv> 20"
abbreviation SIZEOF_SignalFrame :: u64 where "SIZEOF_SignalFrame \<equiv> 160"
abbreviation USER_ADDR_LIMIT :: u64 where "USER_ADDR_LIMIT \<equiv> 0x0000800000000000"

record SyscallFrame =
  fr_r15 :: u64
  fr_r14 :: u64
  fr_r13 :: u64
  fr_r12 :: u64
  fr_rbp :: u64
  fr_rbx :: u64
  fr_rcx :: u64
  fr_r11 :: u64
  fr_rsp :: u64

definition default_action :: "u8 list" where
  "default_action = (replicate (nat NSIG) 0)[nat SIGCHLD := 1, nat SIGCONT := 2, nat SIGSTOP := 3, nat SIGTSTP := 3]"

definition sigreturn_trampoline :: "u8 list" where
  "sigreturn_trampoline = [0xB8, 22, 0, 0, 0, 0x0F, 0x05, 0x0F, 0x0B, 0, 0, 0, 0, 0, 0, 0]"

definition user_ptr_valid :: "u64 \<Rightarrow> u64 \<Rightarrow> bool" where
  "user_ptr_valid ptr len = (if ptr = 0 \<or> len = 0 then False
     else let e = ptr + len in e > ptr \<and> e \<le> USER_ADDR_LIMIT)"

definition sig_bit :: "int \<Rightarrow> u32" where "sig_bit signo = push_bit (nat signo) 1"

section \<open>Sending\<close>

definition sig_continue :: "u64 \<Rightarrow> kernel \<Rightarrow> kernel" where
  "sig_continue p s =
     (if pstate (procs s p) \<noteq> PROC_STOPPED then s else
      let s = pset p (\<lambda>x. x\<lparr>pstate := PROC_ALIVE\<rparr>) s; t = main_thread (procs s p) in
      sched_add_thread t (tset t (tstate_update (\<lambda>_. THREAD_READY)) s))"

definition raise_pending :: "u64 \<Rightarrow> int \<Rightarrow> kernel \<Rightarrow> kernel" where
  "raise_pending p signo s =
     pset p (\<lambda>x. x\<lparr>sig := (sig x)\<lparr>pending := pending (sig x) OR sig_bit signo\<rparr>\<rparr>) s"

definition sig_send :: "u32 \<Rightarrow> int \<Rightarrow> kernel \<Rightarrow> (int \<times> kernel) option" where
  "sig_send n signo s =
     (if signo < 1 \<or> signo \<ge> NSIG then Some (- EINVAL, s) else
      do { p \<leftarrow> proc_get_by_pid n s;
           if p = 0 then Some (- ESRCH, s) else
           do { let s = raise_pending p signo s;
                Some (0, if signo = SIGCONT \<and> pstate (procs s p) = PROC_STOPPED then sig_continue p s else s) } })"

definition sig_set_handler :: "int \<Rightarrow> u64 \<Rightarrow> SigState \<Rightarrow> u64 \<times> SigState" where
  "sig_set_handler signo handler ss =
     (if signo < 1 \<or> signo \<ge> NSIG \<or> signo = SIGKILL \<or> signo = SIGSTOP then (SIG_DFL, ss)
      else (handlers ss ! nat signo, ss\<lparr>handlers := (handlers ss)[nat signo := handler]\<rparr>))"

definition sig_stop :: "u64 \<Rightarrow> int \<Rightarrow> kernel \<Rightarrow> kernel option" where
  "sig_stop p signo s =
     do { let s = pset p (\<lambda>x. x\<lparr>pstate := PROC_STOPPED, exit_status := signo\<rparr>) s;
          let t = main_thread (procs s p);
          s \<leftarrow> sched_remove_thread t (tset t (tstate_update (\<lambda>_. THREAD_STOPPED)) s);
          let par = parent (procs s p);
          s \<leftarrow> (if par \<noteq> 0 then
                 do { (_, wq, s) \<leftarrow> wq_wake (child_exit_wq (procs s par)) s;
                      let s = pset par (\<lambda>x. x\<lparr>child_exit_wq := wq\<rparr>) s;
                      (_, s) \<leftarrow> sig_send (pid (procs s par)) SIGCHLD s;
                      Some s }
               else Some s);
          Some (sched_schedule In_schedule s) }"

definition sig_terminate :: "u64 \<Rightarrow> int \<Rightarrow> kernel \<Rightarrow> kernel" where
  "sig_terminate p signo s =
     (let s = pset p (\<lambda>x. x\<lparr>exit_status := 128 + signo, pstate := PROC_ZOMBIE\<rparr>) s;
          s = tset (main_thread (procs s p)) (tstate_update (\<lambda>_. THREAD_DEAD)) s
      in sched_schedule In_schedule s)"

section \<open>Delivery\<close>

definition sig_restore_context :: "u64 \<Rightarrow> SyscallFrame \<Rightarrow> kernel \<Rightarrow> u64 \<times> SyscallFrame \<times> kernel" where
  "sig_restore_context p frame s =
     (let s = pset p (\<lambda>x. x\<lparr>sig := (sig x)\<lparr>restoring := 0\<rparr>\<rparr>) s;
          sf = restore_frame (sig (procs s p));
          frame = frame\<lparr>fr_rcx := sf_user_rip sf, fr_r11 := sf_user_rflags sf, fr_rsp := sf_user_rsp sf,
            fr_rbx := sf_rbx sf, fr_rbp := sf_rbp sf, fr_r12 := sf_r12 sf, fr_r13 := sf_r13 sf,
            fr_r14 := sf_r14 sf, fr_r15 := sf_r15 sf\<rparr>
      in (sf_rax sf, frame, s\<lparr>sig_pending_arg := 0\<rparr>))"

definition sig_setup_frame :: "SyscallFrame \<Rightarrow> u64 \<Rightarrow> int \<Rightarrow> u64 \<Rightarrow> kernel \<Rightarrow> int \<times> SyscallFrame \<times> kernel" where
  "sig_setup_frame frame handler signo syscall_ret s =
     (let user_rsp = (fr_rsp frame - SIZEOF_SignalFrame) AND NOT 0xF in
      if \<not> user_ptr_valid user_rsp SIZEOF_SignalFrame then (- 1, frame, s) else
      let sf = \<lparr>trampoline = sigreturn_trampoline, sf_user_rip = fr_rcx frame, sf_user_rsp = fr_rsp frame,
            sf_user_rflags = fr_r11 frame, sf_rax = syscall_ret, sf_rbx = fr_rbx frame, sf_rbp = fr_rbp frame,
            sf_r12 = fr_r12 frame, sf_r13 = fr_r13 frame, sf_r14 = fr_r14 frame, sf_r15 = fr_r15 frame,
            sf_rdi = 0, sf_rsi = 0, sf_rdx = 0, sf_r8 = 0, sf_r9 = 0, sf_r10 = 0,
            sf_signo = of_int signo, sf_ret_addr = user_rsp\<rparr>;
          s = s\<lparr>user_frames := (user_frames s)(user_rsp := sf)\<rparr>;
          frame = frame\<lparr>fr_rcx := handler, fr_rsp := user_rsp, fr_rbx := 0, fr_rbp := 0, fr_r12 := 0, fr_r13 := 0,
            fr_r14 := 0, fr_r15 := 0\<rparr>
      in (0, frame, s\<lparr>sig_pending_arg := of_int signo\<rparr>))"

text \<open>The body of the delivery loop for one signal; \<open>Inl\<close> is a return.\<close>

definition deliver_one ::
    "u64 \<Rightarrow> SyscallFrame \<Rightarrow> u64 \<Rightarrow> nat \<Rightarrow> kernel \<Rightarrow> ((SyscallFrame \<times> kernel) + kernel) option" where
  "deliver_one p frame syscall_ret n s =
     (let signo = int n in
      if pending (sig (procs s p)) AND sig_bit signo = 0 then Some (Inr s) else
      let s = pset p (\<lambda>x. x\<lparr>sig := (sig x)\<lparr>pending := pending (sig x) AND NOT (sig_bit signo)\<rparr>\<rparr>) s in
      if signo = SIGKILL then Some (Inl (frame, sig_terminate p signo s))
      else if signo = SIGSTOP then do { s \<leftarrow> sig_stop p signo s; Some (Inl (frame, s)) }
      else
        let handler = handlers (sig (procs s p)) ! n in
        if handler = SIG_IGN then Some (Inr s)
        else if handler = SIG_DFL then
          (let action = default_action ! n in
           if action = 1 \<or> action = 2 then Some (Inr s)
           else if action = 3 then do { s \<leftarrow> sig_stop p signo s; Some (Inl (frame, s)) }
           else Some (Inl (frame, sig_terminate p signo s)))
        else
          let (rc, frame, s) = sig_setup_frame frame handler signo syscall_ret s in
          Some (Inl (frame, if rc < 0 then sig_terminate p signo s else s)))"

definition sig_maybe_deliver :: "SyscallFrame \<Rightarrow> u64 \<Rightarrow> kernel \<Rightarrow> (u64 \<times> SyscallFrame \<times> kernel) option" where
  "sig_maybe_deliver frame syscall_ret s =
     (let p = proc_current s in
      if p = 0 then Some (syscall_ret, frame, s)
      else if restoring (sig (procs s p)) \<noteq> 0 then Some (sig_restore_context p frame s)
      else if pending (sig (procs s p)) = 0 then Some (syscall_ret, frame, s)
      else do { r \<leftarrow> for_ret (deliver_one p frame syscall_ret) [1..<nat NSIG] s;
                Some (case r of Inl (frame, s) \<Rightarrow> (syscall_ret, frame, s) | Inr s \<Rightarrow> (syscall_ret, frame, s)) })"

section \<open>Process groups\<close>

definition sig_group_cb :: "u32 \<Rightarrow> int \<Rightarrow> u64 \<Rightarrow> int \<Rightarrow> kernel \<Rightarrow> int \<times> kernel" where
  "sig_group_cb grp signo p cnt s =
     (if pgid (procs s p) = grp then
        let s = raise_pending p signo s;
            s = (if signo = SIGCONT \<and> pstate (procs s p) = PROC_STOPPED then sig_continue p s else s)
        in (cnt + 1, s)
      else (cnt, s))"

definition sig_send_group :: "u32 \<Rightarrow> int \<Rightarrow> kernel \<Rightarrow> (int \<times> kernel) option" where
  "sig_send_group grp signo s =
     (if signo < 1 \<or> signo \<ge> NSIG then Some (- EINVAL, s) else
      do { (_, cnt, s) \<leftarrow> proc_foreach (sig_group_cb grp signo) 0 s;
           Some (if cnt > 0 then 0 else - ESRCH, s) })"

section \<open>System calls\<close>

definition sys_signal :: "u64 \<Rightarrow> u64 \<Rightarrow> kernel \<Rightarrow> u64 \<times> kernel" where
  "sys_signal signo handler_addr s =
     (let p = proc_current s in
      if p = 0 then (of_int (- ENOSYS), s) else
      let (old, ss) = sig_set_handler (sint (ucast signo :: u32)) handler_addr (sig (procs s p)) in
      (old, pset p (\<lambda>x. x\<lparr>sig := ss\<rparr>) s))"

definition sys_kill :: "u64 \<Rightarrow> u64 \<Rightarrow> kernel \<Rightarrow> (int \<times> kernel) option" where
  "sys_kill pid_arg signo s =
     (let n = sint (ucast signo :: u32) in
      if sint pid_arg < 0 then sig_send_group (ucast (- pid_arg)) n s
      else if pid_arg = 0 then
        (let p = proc_current s in
         if p = 0 then Some (- ENOSYS, s) else sig_send_group (pgid (procs s p)) n s)
      else sig_send (ucast pid_arg) n s)"

definition sys_sigreturn :: "kernel \<Rightarrow> int \<times> kernel" where
  "sys_sigreturn s =
     (let p = proc_current s in
      if p = 0 then (- ENOSYS, s) else
      let rsp = user_rsp (saved_user s) in
      if \<not> user_ptr_valid rsp SIZEOF_SignalFrame then (- EINVAL, s)
      else (0, pset p (\<lambda>x. x\<lparr>sig := (sig x)\<lparr>restore_frame := user_frames s rsp, restoring := 1\<rparr>\<rparr>) s))"

section \<open>Lemmas\<close>

lemma sig_bit_and: "0 \<le> n \<Longrightarrow> x AND sig_bit n = 0 \<longleftrightarrow> \<not> bit x (nat n)"
  by (simp add: sig_bit_def push_bit_eq_mult and_exp_eq_0_iff_not_bit)

lemma bit_sig_bit: "0 \<le> n \<Longrightarrow> n < NSIG \<Longrightarrow> bit (sig_bit n) k \<longleftrightarrow> k = nat n"
  by (auto simp: sig_bit_def bit_simps)

lemma proc_current_pset [simp]: "proc_current (pset p f s) = proc_current s"
  by (simp add: proc_current_def thread_current_def Let_def)

lemma for_ret_skip: "(\<And>x. x \<in> set xs \<Longrightarrow> f x s = Some (Inr s)) \<Longrightarrow> for_ret f xs s = Some (Inr s)"
  by (induction xs) simp_all

text \<open>The loop stops at the first pending signal whose delivery returns.\<close>

lemma deliver_first:
  assumes "1 \<le> n" "n < 32" and "\<And>k. 1 \<le> k \<Longrightarrow> k < n \<Longrightarrow> \<not> bit (pending (sig (procs s p))) k"
    and "deliver_one p frame ret n s = Some (Inl r)"
  shows "for_ret (deliver_one p frame ret) [1..<nat NSIG] s = Some (Inl r)"
proof -
  have "[1..<nat NSIG] = [1..<n] @ n # [Suc n..<nat NSIG]"
    using assms(1,2) upt_add_eq_append [of 1 n "nat NSIG - n"] by (simp add: upt_conv_Cons)
  moreover have "for_ret (deliver_one p frame ret) [1..<n] s = Some (Inr s)"
    using assms(3) by (intro for_ret_skip) (simp add: deliver_one_def sig_bit_and)
  ultimately show ?thesis using assms(4) by (simp add: for_ret_append)
qed

lemma schedule_away:
  assumes "sched_inv s q" and "tstate (thr s (current_thread s)) \<noteq> THREAD_RUNNING" and "current_thread s \<noteq> idle_thread s"
  shows "current_thread (sched_schedule rp s) = (if q = [] then idle_thread s else hd q)"
    "sched_inv (sched_schedule rp s) (tl q)"
    "tstate (thr (sched_schedule rp s) (current_thread s)) = tstate (thr s (current_thread s))"
proof -
  note sc = sched_schedule_spec [OF assms(1), of rp, unfolded scheduled_def]
  have nt: "next_thread s q = (if q = [] then idle_thread s else hd q)" "next_queue s q = tl q"
    using assms(2) by (auto simp: next_thread_def next_queue_def split: list.splits)
  show "current_thread (sched_schedule rp s) = (if q = [] then idle_thread s else hd q)"
    "sched_inv (sched_schedule rp s) (tl q)" using sc nt by simp_all
  have "next_thread s q \<noteq> current_thread s" using nt assms(1,3) by (cases q) (auto simp: sched_inv_def)
  then show "tstate (thr (sched_schedule rp s) (current_thread s)) = tstate (thr s (current_thread s))"
    using sc assms(2) by auto
qed

lemma switch_to_procs [simp]: "procs (switch_to rp a b s) = procs s" "proc_table (switch_to rp a b s) = proc_table s"
  by (simp_all add: switch_to_def context_switch_def gdt_set_kernel_stack_def paging_write_cr3_def Let_def)

lemma schedule_procs [simp]: "procs (sched_schedule rp s) = procs s" "proc_table (sched_schedule rp s) = proc_table s"
proof -
  obtain t s1 where q: "queue_pop s = (t, s1)" by (cases "queue_pop s")
  show "procs (sched_schedule rp s) = procs s" "proc_table (sched_schedule rp s) = proc_table s"
    using queue_pop_keeps(6,7) [OF q] by (simp_all add: sched_schedule_def q Let_def thread_set_current_def)
qed

lemma sched_inv_pset [simp]: "sched_inv (pset p f s) q = sched_inv s q"
  by (rule sched_inv_cong) (simp_all add: tn_def fun_eq_iff)

lemma sig_terminate_spec:
  assumes "sched_inv s q" and "main_thread (procs s p) = current_thread s" and "current_thread s \<noteq> idle_thread s"
  shows "pstate (procs (sig_terminate p n s) p) = PROC_ZOMBIE" "exit_status (procs (sig_terminate p n s) p) = 128 + n"
    "tstate (thr (sig_terminate p n s) (current_thread s)) = THREAD_DEAD"
    "current_thread (sig_terminate p n s) = (if q = [] then idle_thread s else hd q)"
    "sched_inv (sig_terminate p n s) (tl q)"
proof -
  let ?s1 = "tset (current_thread s) (tstate_update (\<lambda>_. THREAD_DEAD)) (pset p (\<lambda>x. x\<lparr>exit_status := 128 + n, pstate := PROC_ZOMBIE\<rparr>) s)"
  have e: "sig_terminate p n s = sched_schedule In_schedule ?s1" using assms(2) by (simp add: sig_terminate_def Let_def)
  have "sched_inv ?s1 q = sched_inv s q"
    using assms(1) by (intro sched_inv_cong) (auto simp: tn_def fun_eq_iff sched_inv_def)
  then have "sched_inv ?s1 q" using assms(1) by simp
  note a = schedule_away [OF this, of In_schedule]
  show "pstate (procs (sig_terminate p n s) p) = PROC_ZOMBIE" "exit_status (procs (sig_terminate p n s) p) = 128 + n"
    "tstate (thr (sig_terminate p n s) (current_thread s)) = THREAD_DEAD"
    "current_thread (sig_terminate p n s) = (if q = [] then idle_thread s else hd q)"
    "sched_inv (sig_terminate p n s) (tl q)" using a assms(3) unfolding e by simp_all
qed

section \<open>Properties\<close>



text \<open>Installing handlers changes nothing but the handlers of the calling process.\<close>

lemma sys_signal_keeps:
  "\<exists>hs. snd (sys_signal n h s) = pset (proc_current s) (\<lambda>x. x\<lparr>sig := (sig x)\<lparr>handlers := hs\<rparr>\<rparr>) s"
proof (cases "proc_current s = 0")
  case True
  then show ?thesis
    by (intro exI [of _ "handlers (sig (procs s 0))"]) (simp add: sys_signal_def pset_def)
next
  case False
  let ?ss = "sig (procs s (proc_current s))" and ?n = "sint (ucast n :: u32)"
  show ?thesis using False
    by (intro exI [of _ "handlers (snd (sig_set_handler ?n h ?ss))"])
      (auto simp: sys_signal_def sig_set_handler_def pset_def Let_def)
qed

lemma sys_signals_keep:
  "\<exists>hs. fold (\<lambda>(n, h) s. snd (sys_signal n h s)) as s = pset (proc_current s) (\<lambda>x. x\<lparr>sig := (sig x)\<lparr>handlers := hs\<rparr>\<rparr>) s"
proof (induction as arbitrary: s)
  case Nil
  then show ?case by (intro exI [of _ "handlers (sig (procs s (proc_current s)))"]) (simp add: pset_def)
next
  case (Cons a as)
  obtain n h where a: "a = (n, h)" by (cases a)
  obtain hs where hs: "snd (sys_signal n h s) = pset (proc_current s) (\<lambda>x. x\<lparr>sig := (sig x)\<lparr>handlers := hs\<rparr>\<rparr>) s"
    using sys_signal_keeps by blast
  have tw: "pset p f (pset p g s) = pset p (\<lambda>x. f (g x)) s" for p f g by (simp add: pset_def)
  obtain hs' where "fold (\<lambda>(n, h) s. snd (sys_signal n h s)) as (snd (sys_signal n h s)) =
      pset (proc_current s) (\<lambda>x. x\<lparr>sig := (sig x)\<lparr>handlers := hs'\<rparr>\<rparr>) (snd (sys_signal n h s))"
    using Cons.IH [of "snd (sys_signal n h s)"] hs by auto
  then show ?case by (auto simp: a hs tw)
qed

text \<open>
  C34.  SIGKILL cannot be caught: whatever handlers a process has installed, sending it the signal
  succeeds, and on its next way back to user mode (with no signal of a smaller number pending) the
  process becomes a zombie with status 137 and its thread is dead, and the next ready thread, or the
  idle thread, runs.
\<close>

theorem sigkill_uncatchable:
  assumes "proc_inv s ps" and "proc_current s = p" and "p \<in> set ps" and "pstate (procs s p) = PROC_ALIVE"
    and "restoring (sig (procs s p)) = 0" and "\<forall>k \<in> {1..<9}. \<not> bit (pending (sig (procs s p))) k"
    and "sched_inv s q" and "main_thread (procs s p) = current_thread s" and "current_thread s \<noteq> idle_thread s"
  shows "\<exists>s1 s2. sig_send (pid (procs s p)) SIGKILL (fold (\<lambda>(n, h) s. snd (sys_signal n h s)) as s) = Some (0, s1) \<and>
     sig_maybe_deliver frame ret s1 = Some (ret, frame, s2) \<and>
     pstate (procs s2 p) = PROC_ZOMBIE \<and> exit_status (procs s2 p) = 137 \<and>
     tstate (thr s2 (current_thread s)) = THREAD_DEAD \<and>
     current_thread s2 = (if q = [] then idle_thread s else hd q) \<and> sched_inv s2 (tl q)"
proof -
  obtain hs where hs: "fold (\<lambda>(n, h) s. snd (sys_signal n h s)) as s = pset p (\<lambda>x. x\<lparr>sig := (sig x)\<lparr>handlers := hs\<rparr>\<rparr>) s"
    (is "_ = ?s0") using sys_signals_keep [of as s] assms(2) by auto
  have p0: "p \<noteq> 0" using assms(1,3) chain_nonzero [of _ "proc_list s" ps] unfolding proc_inv_def by metis
  have "proc_inv ?s0 ps" using assms(1) proc_inv_cong [of ?s0 s ps] by simp
  then have "proc_get_by_pid (pid (procs s p)) ?s0 = Some p" using assms(3,4) p0 by (simp add: proc_get_by_pid_iff)
  then have snd: "sig_send (pid (procs s p)) SIGKILL ?s0 = Some (0, raise_pending p SIGKILL ?s0)"
    using p0 by (simp add: sig_send_def)
  define s1 where "s1 = raise_pending p SIGKILL ?s0"
  have pd: "pending (sig (procs s1 p)) = pending (sig (procs s p)) OR sig_bit SIGKILL" by (simp add: s1_def raise_pending_def)
  have b9: "bit (pending (sig (procs s1 p))) 9" and lo: "\<And>k. 1 \<le> k \<Longrightarrow> k < 9 \<Longrightarrow> \<not> bit (pending (sig (procs s1 p))) k"
    using assms(6) by (auto simp: pd bit_or_iff bit_sig_bit)
  let ?s2 = "pset p (\<lambda>x. x\<lparr>sig := (sig x)\<lparr>pending := pending (sig x) AND NOT (sig_bit SIGKILL)\<rparr>\<rparr>) s1"
  have "deliver_one p frame ret 9 s1 = Some (Inl (frame, sig_terminate p SIGKILL ?s2))"
    using b9 by (simp add: deliver_one_def sig_bit_and Let_def)
  note d = deliver_first [OF _ _ lo this]
  have c1: "proc_current s1 = p" using assms(2) by (simp add: s1_def raise_pending_def)
  have "pending (sig (procs s1 p)) \<noteq> 0" using b9 by auto
  then have del: "sig_maybe_deliver frame ret s1 = Some (ret, frame, sig_terminate p SIGKILL ?s2)"
    using c1 p0 assms(5) d by (simp add: sig_maybe_deliver_def Let_def s1_def raise_pending_def)
  have "sched_inv ?s2 q" "main_thread (procs ?s2 p) = current_thread ?s2" "current_thread ?s2 \<noteq> idle_thread ?s2"
    using assms(7-9) by (simp_all add: s1_def raise_pending_def)
  note t = sig_terminate_spec [OF this, of SIGKILL]
  have "current_thread ?s2 = current_thread s" "idle_thread ?s2 = idle_thread s" by (simp_all add: s1_def raise_pending_def)
  then show ?thesis using snd del t unfolding hs s1_def by (intro exI conjI) (assumption | simp)+
qed

definition zero_syscall_frame :: SyscallFrame where
  "zero_syscall_frame = \<lparr>fr_r15 = 0, fr_r14 = 0, fr_r13 = 0, fr_r12 = 0, fr_rbp = 0, fr_rbx = 0, fr_rcx = 0, fr_r11 = 0, fr_rsp = 0\<rparr>"

theorem sigkill_uncatchable_witness:
  "\<exists>s1 s2. sig_send 5 SIGKILL (fold (\<lambda>(n, h) s. snd (sys_signal n h s)) [(9, 0x400000), (15, 1)]
       (pset 0x200 (\<lambda>p. p\<lparr>pid := 5, main_thread := 0x10\<rparr>)
          (kernel_example\<lparr>proc_list := 0x200, next_pid := 6, proc_table := replicate 64 0x200\<rparr>))) = Some (0, s1) \<and>
     sig_maybe_deliver zero_syscall_frame 0 s1 = Some (0, zero_syscall_frame, s2) \<and> pstate (procs s2 0x200) = PROC_ZOMBIE \<and> current_thread s2 = 0x20"
proof -
  let ?s = "pset 0x200 (\<lambda>p. p\<lparr>pid := 5, main_thread := 0x10\<rparr>)
     (kernel_example\<lparr>proc_list := 0x200, next_pid := 6, proc_table := replicate 64 0x200\<rparr>)"
  have "proc_inv ?s [0x200]" by (simp add: proc_inv_def kernel_example_def zero_process_def)
  moreover have "sched_inv (kernel_example\<lparr>proc_list := 0x200, next_pid := 6, proc_table := replicate 64 0x200\<rparr>) [0x20, 0x30]"
    by (subst sched_inv_cong [of _ _ kernel_example]) (simp_all add: tn_def kernel_example_inv)
  moreover have "proc_current ?s = 0x200" by (simp add: proc_current_def thread_current_def kernel_example_def zero_thread_def)
  moreover have "pid (procs ?s 0x200) = 5" by simp
  ultimately show ?thesis
    using sigkill_uncatchable [of ?s "[0x200]" "0x200" "[0x20, 0x30]" "[(9, 0x400000), (15, 1)]" zero_syscall_frame 0]
    by (auto simp: kernel_example_def zero_process_def)
qed

end
