(* ===== verification/Ramfs.thy ===== *)
theory Ramfs
  imports Signal
begin

text \<open>
  The in-memory file system (\<^verbatim>\<open>kernel/fs/ramfs.c\<close>).  A node is a \<open>VfsNode\<close> and a \<open>RamfsNode\<close> at the same
  address.  File contents are bytes of the kernel heap; \<open>file_rep\<close> relates them to a byte list, with
  the rest of the buffer zero.  A name is the list of its bytes without the terminator, and the
  children of a directory are the used entries of its array of 128, so two names are equal as
  strings if they are equal as lists.  A buffer is passed as the list of its bytes.
\<close>

section \<open>Operations\<close>

abbreviation RAMFS_NAME_MAX :: nat where "RAMFS_NAME_MAX \<equiv> 255"
abbreviation RAMFS_INIT_CAP :: u32 where "RAMFS_INIT_CAP \<equiv> 512"
abbreviation RAMFS_MAX_CHILDREN :: nat where "RAMFS_MAX_CHILDREN \<equiv> 128"
abbreviation SIZEOF_RamfsNode :: u64 where "SIZEOF_RamfsNode \<equiv> 88"
abbreviation SIZEOF_children :: u64 where "SIZEOF_children \<equiv> 33792"

record VfsDirEntry =
  de_name :: "u8 list"
  de_inode_num :: u64
  de_type :: u8

definition heap_write :: "u64 \<Rightarrow> u8 list \<Rightarrow> kheap \<Rightarrow> kheap" where
  "heap_write p xs h = h\<lparr>bytes := \<lambda>a. if unat (a - p) < length xs then xs ! unat (a - p) else bytes h a\<rparr>"

definition heap_read :: "kheap \<Rightarrow> u64 \<Rightarrow> nat \<Rightarrow> u8 list" where
  "heap_read h p n = map (\<lambda>i. bytes h (p + of_nat i)) [0..<n]"

definition zero_ramfs :: RamfsNode where
  "zero_ramfs = \<lparr>rdata = 0, capacity = 0, children_ptr = 0, children = []\<rparr>"

definition ramfs_alloc_node :: "u8 \<Rightarrow> kernel \<Rightarrow> (u64 \<times> kernel) option" where
  "ramfs_alloc_node ty s =
     do { (rn, s) \<leftarrow> k_alloc SIZEOF_RamfsNode GFP_ZERO s;
          if rn = 0 then Some (0, s) else
          do { let s = nset rn (\<lambda>_. zero_node\<lparr>inode_num := next_inode s, ntype := ty, ops := ramfs_ops, private_data := rn\<rparr>)
                         (s\<lparr>next_inode := next_inode s + 1\<rparr>);
               let s = rset rn (\<lambda>_. zero_ramfs) s;
               if ty = VFS_DIRECTORY then
                 do { (c, s) \<leftarrow> k_alloc SIZEOF_children GFP_ZERO s;
                      if c = 0 then do { s \<leftarrow> k_free rn s; Some (0, s) }
                      else Some (rn, rset rn (\<lambda>r. r\<lparr>children_ptr := c\<rparr>) s) }
               else Some (rn, s) } }"

definition ramfs_read :: "u64 \<Rightarrow> u32 \<Rightarrow> u32 \<Rightarrow> kernel \<Rightarrow> int \<times> u8 list" where
  "ramfs_read node off sz s =
     (let v = vnodes s node in
      if ntype v \<noteq> VFS_FILE then (- EISDIR, [])
      else if ucast off \<ge> nsize v then (0, [])
      else
        let avail = (ucast (nsize v - ucast off) :: u32);
            to_read = (if sz < avail then sz else avail)
        in (sint to_read, heap_read (k_heap s) (rdata (rnodes s node) + ucast off) (unat to_read)))"

text \<open>The doubling loop; past \<open>2^31\<close> the capacity wraps to 0 and the loop does not end.\<close>

partial_function (option) grow_cap :: "u32 \<Rightarrow> u32 \<Rightarrow> u32 option" where
  "grow_cap cap e = (if cap < e then grow_cap (cap * 2) e else Some cap)"

definition ramfs_grow :: "u64 \<Rightarrow> u32 \<Rightarrow> kernel \<Rightarrow> (int \<times> kernel) option" where
  "ramfs_grow node e s =
     (let r = rnodes s node in
      if e > capacity r then
        do { new_cap \<leftarrow> grow_cap (if capacity r \<noteq> 0 then capacity r else RAMFS_INIT_CAP) e;
             (new_data, h) \<leftarrow> krealloc (rdata r) (ucast new_cap) (k_heap s);
             let s = s\<lparr>k_heap := h\<rparr>;
             if new_data = 0 then Some (- ENOMEM, s) else
             do { let s = (if new_cap > capacity r
                           then s\<lparr>k_heap := heap_memset (new_data + ucast (capacity r)) 0 (ucast (new_cap - capacity r)) h\<rparr>
                           else s);
                  Some (0, rset node (\<lambda>r. r\<lparr>rdata := new_data, capacity := new_cap\<rparr>) s) } }
      else Some (0, s))"

definition ramfs_write :: "u64 \<Rightarrow> u8 list \<Rightarrow> u32 \<Rightarrow> kernel \<Rightarrow> (int \<times> kernel) option" where
  "ramfs_write node src off s =
     (let sz = (of_nat (length src) :: u32) in
      if ntype (vnodes s node) \<noteq> VFS_FILE then Some (- EISDIR, s) else
      let e = off + sz in
      do { (err, s) \<leftarrow> ramfs_grow node e s;
           if err \<noteq> 0 then Some (err, s) else
           do { let s = s\<lparr>k_heap := heap_write (rdata (rnodes s node) + ucast off) src (k_heap s)\<rparr>;
                let s = (if ucast e > nsize (vnodes s node) then nset node (\<lambda>v. v\<lparr>nsize := ucast e\<rparr>) s else s);
                Some (sint sz, s) } })"

definition ramfs_find_child :: "RamfsNode \<Rightarrow> u8 list \<Rightarrow> nat option" where
  "ramfs_find_child r name = find (\<lambda>i. fst (children r ! i) = name) [0..<length (children r)]"

definition ramfs_lookup :: "u64 \<Rightarrow> u8 list \<Rightarrow> kernel \<Rightarrow> u64" where
  "ramfs_lookup dir name s =
     (if ntype (vnodes s dir) \<noteq> VFS_DIRECTORY then 0 else
      case ramfs_find_child (rnodes s dir) name of None \<Rightarrow> 0 | Some i \<Rightarrow> snd (children (rnodes s dir) ! i))"

definition ramfs_create :: "u64 \<Rightarrow> u8 list \<Rightarrow> u8 \<Rightarrow> kernel \<Rightarrow> (u64 \<times> kernel) option" where
  "ramfs_create dir name ty s =
     (if ntype (vnodes s dir) \<noteq> VFS_DIRECTORY then Some (0, s)
      else if length (children (rnodes s dir)) \<ge> RAMFS_MAX_CHILDREN then Some (0, s)
      else if ramfs_lookup dir name s \<noteq> 0 then Some (0, s)
      else
        do { (child, s) \<leftarrow> ramfs_alloc_node ty s;
             if child = 0 then Some (0, s) else
             Some (child, rset dir (\<lambda>r. r\<lparr>children := children r @ [(take RAMFS_NAME_MAX name, child)]\<rparr>) s) })"

definition ramfs_free_node :: "u64 \<Rightarrow> kernel \<Rightarrow> kernel option" where
  "ramfs_free_node rn s =
     do { s \<leftarrow> (if rdata (rnodes s rn) \<noteq> 0 then k_free (rdata (rnodes s rn)) s else Some s);
          s \<leftarrow> (if children_ptr (rnodes s rn) \<noteq> 0 then k_free (children_ptr (rnodes s rn)) s else Some s);
          k_free rn s }"

definition ramfs_unlink :: "u64 \<Rightarrow> u8 list \<Rightarrow> kernel \<Rightarrow> (int \<times> kernel) option" where
  "ramfs_unlink dir name s =
     (if ntype (vnodes s dir) \<noteq> VFS_DIRECTORY then Some (- ENOTDIR, s) else
      case ramfs_find_child (rnodes s dir) name of None \<Rightarrow> Some (- ENOENT, s)
      | Some idx \<Rightarrow>
        (let child = snd (children (rnodes s dir) ! idx) in
         if ntype (vnodes s child) = VFS_DIRECTORY \<and> length (children (rnodes s child)) > 0 then Some (- ENOTEMPTY, s)
         else
           do { s \<leftarrow> ramfs_free_node child s;
                Some (0, rset dir (\<lambda>r. r\<lparr>children :=
                    butlast (fold (\<lambda>j cs. cs[j := cs ! (j + 1)]) [idx..<length (children r) - 1] (children r))\<rparr>) s) }))"

definition ramfs_readdir :: "u64 \<Rightarrow> u32 \<Rightarrow> kernel \<Rightarrow> int \<times> VfsDirEntry list" where
  "ramfs_readdir dir mx s =
     (if ntype (vnodes s dir) \<noteq> VFS_DIRECTORY then (- ENOTDIR, []) else
      let cs = children (rnodes s dir);
          count = (if length cs < unat mx then length cs else unat mx)
      in (int count, map (\<lambda>i. let (name, n) = cs ! i in
            \<lparr>de_name = take RAMFS_NAME_MAX name, de_inode_num = inode_num (vnodes s n), de_type = ntype (vnodes s n)\<rparr>)
          [0..<count]))"

definition ramfs_truncate :: "u64 \<Rightarrow> u64 \<Rightarrow> kernel \<Rightarrow> kernel option" where
  "ramfs_truncate node sz s =
     (if ntype (vnodes s node) \<noteq> VFS_FILE then Some s
      else if sz = 0 then
        do { s \<leftarrow> (if rdata (rnodes s node) \<noteq> 0
                   then do { s \<leftarrow> k_free (rdata (rnodes s node)) s; Some (rset node (\<lambda>r. r\<lparr>rdata := 0\<rparr>) s) }
                   else Some s);
             Some (nset node (\<lambda>v. v\<lparr>nsize := 0\<rparr>) (rset node (\<lambda>r. r\<lparr>capacity := 0\<rparr>) s)) }
      else if sz < nsize (vnodes s node) then Some (nset node (\<lambda>v. v\<lparr>nsize := sz\<rparr>) s)
      else Some s)"

definition ramfs_init :: "kernel \<Rightarrow> (u64 \<times> kernel) option" where
  "ramfs_init s =
     do { (root, s) \<leftarrow> ramfs_alloc_node VFS_DIRECTORY (s\<lparr>next_inode := 1\<rparr>);
          Some (root, if root = 0 then s else nset root (\<lambda>v. v\<lparr>mode := 493\<rparr>) s) }"

section \<open>Growing a file\<close>

lemma grow_cap_returns:
  assumes "c \<noteq> 0" and "unat e \<le> 2 ^ 31"
  shows "\<exists>n. grow_cap c e = Some n \<and> e \<le> n \<and> c \<le> n \<and> unat n \<le> max (unat c) (2 * unat e)"
  using assms
proof (induction "unat e - unat c" arbitrary: c rule: less_induct)
  case less
  show ?case
  proof (cases "c < e")
    case False
    then have "grow_cap c e = Some c" by (simp add: grow_cap.simps [of c e])
    then show ?thesis using False by (simp add: not_less)
  next
    case True
    have c: "0 < unat c" "unat c < unat e" using True less.prems(1) by (simp_all add: word_less_nat_alt unat_gt_0)
    have "unat (c * 2) = 2 * unat c" using c less.prems(2) by (subst unat_mult_lem [THEN iffD1]) simp_all
    then have d: "unat (c * 2) = 2 * unat c" "c * 2 \<noteq> 0" using c by (auto simp: unat_eq_zero)
    obtain n where n: "grow_cap (c * 2) e = Some n" "e \<le> n" "c * 2 \<le> n" "unat n \<le> max (unat (c * 2)) (2 * unat e)"
      using less.hyps [of "c * 2"] less.prems(2) c d by fastforce
    have "c \<le> n" using n(3) c d by (simp add: word_le_nat_alt)
    then show ?thesis using n c d True by (simp add: grow_cap.simps [of c e])
  qed
qed

lemma grow_cap_result: "grow_cap c e = Some n \<Longrightarrow> e \<le> n \<and> (\<exists>k. n = c * 2 ^ k)"
proof (rule grow_cap.raw_induct [where P = "\<lambda>c e n. e \<le> n \<and> (\<exists>k. n = c * 2 ^ k)"], goal_cases)
  case (1 grow c e n)
  show ?case
  proof (cases "c < e")
    case True
    then have "grow (c * 2) e = Some n" using 1(3) by simp
    then obtain k where "e \<le> n" "n = c * 2 * 2 ^ k" using 1(2) by blast
    then show ?thesis by (intro conjI exI [of _ "Suc k"]) simp_all
  next
    case False
    then show ?thesis using 1(3) by (intro conjI exI [of _ 0]) auto
  qed
qed

section \<open>Files as byte lists\<close>

text \<open>
  The contents of a file are \<open>xs\<close>: its data block, if it has one, holds them, followed by zeros up to
  the capacity.
\<close>

definition file_rep :: "u64 set \<Rightarrow> kernel \<Rightarrow> u64 \<Rightarrow> blk list \<Rightarrow> u8 list \<Rightarrow> bool" where
  "file_rep R s node bs xs \<longleftrightarrow>
     (let v = vnodes s node; r = rnodes s node; h = k_heap s in
      heap_rep R h bs \<and> ntype v = VFS_FILE \<and> unat (nsize v) = length xs \<and> length xs \<le> unat (capacity r) \<and>
      (if capacity r = 0 then rdata r = 0
       else rdata r \<noteq> 0 \<and> (\<exists>m. (rdata r - HEADER_SIZE, m) \<in> live bs \<and> ucast (capacity r) \<le> m)) \<and>
      (\<forall>i < unat (capacity r). bytes h (rdata r + of_nat i) = (if i < length xs then xs ! i else 0)))"

text \<open>Writing to a byte list, with zeros in a gap between the end and the offset.\<close>

definition list_write :: "u8 list \<Rightarrow> nat \<Rightarrow> u8 list \<Rightarrow> u8 list" where
  "list_write xs off src =
     (let ys = xs @ replicate (off - length xs) 0 in take off ys @ src @ drop (off + length src) ys)"

lemma list_write_length [simp]: "length (list_write xs off src) = max (length xs) (off + length src)"
  by (simp add: list_write_def Let_def)

lemma list_write_nth:
  assumes "i < max (length xs) (off + length src)"
  shows "list_write xs off src ! i =
     (if off \<le> i \<and> i < off + length src then src ! (i - off) else if i < length xs then xs ! i else 0)"
proof -
  define ys where "ys = xs @ replicate (off - length xs) 0"
  have w: "list_write xs off src = take off ys @ src @ drop (off + length src) ys" by (simp add: list_write_def ys_def)
  have l: "length ys = max (length xs) off" by (simp add: ys_def)
  have y: "ys ! j = (if j < length xs then xs ! j else 0)" if "j < length ys" for j
    using that by (auto simp: ys_def nth_append)
  consider "i < off" | "off \<le> i" "i < off + length src" | "off + length src \<le> i" by linarith
  then show ?thesis
  proof cases
    case 3
    then have "i < length xs" "\<not> i - off < length src" using assms by auto
    then show ?thesis using 3 l y [of i] by (simp add: w nth_append)
  next
    case 2
    then have "i - off < length src" by linarith
    then show ?thesis using 2 l by (simp add: w nth_append)
  qed (use l y [of i] in \<open>simp_all add: w nth_append\<close>)
qed

lemma list_write_read: "take (length src) (drop off (list_write xs off src)) = src"
  by (simp add: list_write_def Let_def)

lemma heap_write_bytes: "bytes (heap_write p xs h) a = (if unat (a - p) < length xs then xs ! unat (a - p) else bytes h a)"
  by (simp add: heap_write_def)

lemma heap_rep_bytes [simp]: "heap_rep R (h\<lparr>bytes := f\<rparr>) bs = heap_rep R h bs"
  by (simp add: heap_rep_def heap_region_def)

lemma heap_write_rep [simp]: "heap_rep R (heap_write p xs h) bs = heap_rep R h bs"
  by (simp add: heap_write_def)

lemma heap_memset_rep [simp]: "heap_rep R (heap_memset p c n h) bs = heap_rep R h bs"
  by (simp add: heap_memset_def)

lemma fs_sel [simp]:
  "vnodes (nset n f s) = (vnodes s)(n := f (vnodes s n))" "rnodes (nset n f s) = rnodes s" "k_heap (nset n f s) = k_heap s"
  "rnodes (rset n g s) = (rnodes s)(n := g (rnodes s n))" "vnodes (rset n g s) = vnodes s" "k_heap (rset n g s) = k_heap s"
  "procs (nset n f s) = procs s" "procs (rset n g s) = procs s"
  by (simp_all add: nset_def rset_def)

text \<open>
  Making room up to \<open>e\<close>: the contents stay, and the capacity suffices, unless the heap is at its limit.
\<close>

lemma krealloc_file:
  assumes rep: "file_rep R s node bs xs" and n: "n \<noteq> 0" "capacity (rnodes s node) \<le> n"
    and mem: "4 * ((unat n + 4221) div 4096) \<le> card (frees (h_vmm (k_heap s)))"
  defines "r \<equiv> rnodes s node"
  shows "\<exists>p h bs'. krealloc (rdata r) (ucast n) (k_heap s) = Some (p, h) \<and> heap_rep R h bs' \<and>
     (p = 0 \<and> live bs' = live bs \<and> bytes h = bytes (k_heap s) \<or>
      p \<noteq> 0 \<and> (\<exists>m. (p - HEADER_SIZE, m) \<in> live bs' \<and> ucast n \<le> m) \<and>
        (\<forall>i < unat (capacity r). bytes h (p + of_nat i) = bytes (k_heap s) (rdata r + of_nat i)))"
proof -
  have hr: "heap_rep R (k_heap s) bs" using rep by (simp add: file_rep_def Let_def)
  have u: "unat (ucast n :: u64) = unat n" by simp
  have n': "(ucast n :: u64) \<noteq> 0" "unat (ucast n :: u64) < 2 ^ 60" using n(1) unat_lt_32 [of n]
    by (auto simp flip: unat_eq_zero)
  show ?thesis
  proof (cases "capacity r = 0")
    case True
    then have "rdata r = 0" using rep by (simp add: file_rep_def Let_def r_def)
    moreover have "4 * ((unat n + 4206) div 4096) \<le> 4 * ((unat n + 4221) div 4096)" by (intro mult_le_mono2 div_le_mono) simp
    then have "4 * ((unat n + 4206) div 4096) \<le> card (frees (h_vmm (k_heap s)))" using mem by linarith
    then obtain p h bs' where "kmalloc (ucast n) GFP_KERNEL (k_heap s) = Some (p, h)"
      "new_block R (ucast n) GFP_KERNEL (k_heap s) (live bs) p h bs' \<or>
        p = 0 \<and> heap_rep R h bs' \<and> live bs' = live bs \<and> bytes h = bytes (k_heap s)"
      using kmalloc_spec [OF hr n'(1), of GFP_KERNEL] n'(2) by auto
    ultimately show ?thesis using True by (auto simp: krealloc_def new_block_def)
  next
    case False
    then obtain m where m: "rdata r \<noteq> 0" "(rdata r - HEADER_SIZE, m) \<in> live bs" "ucast (capacity r) \<le> m"
      using rep by (auto simp: file_rep_def Let_def r_def)
    obtain p h bs' where k: "krealloc (rdata r) (ucast n) (k_heap s) = Some (p, h)"
      "resized R (rdata r) m (ucast n) (k_heap s) bs p h bs' \<or>
        p = 0 \<and> heap_rep R h bs' \<and> live bs' = live bs \<and> bytes h = bytes (k_heap s)"
      using krealloc_spec [OF hr m(1,2) n'] mem u by auto
    have lt: "of_nat i < m \<and> of_nat i < (ucast n :: u64)" if "i < unat (capacity r)" for i
    proof -
      have "unat (of_nat i :: u64) = i" using that unat_lt_32 [of "capacity r"] by (simp add: unat_of_nat)
      moreover have "unat (capacity r) \<le> unat m" using m(3) by (simp add: word_le_nat_alt)
      moreover have "unat (capacity r) \<le> unat n" using n(2) by (simp add: word_le_nat_alt r_def)
      ultimately show ?thesis using that u by (simp add: word_less_nat_alt)
    qed
    show ?thesis
    proof (cases "p = 0")
      case True
      then show ?thesis using k by (auto simp: resized_def)
    next
      case False
      then have rz: "resized R (rdata r) m (ucast n) (k_heap s) bs p h bs'" using k(2) by blast
      then obtain m' where "ucast n \<le> m'" "(p - HEADER_SIZE, m') \<in> live bs'" by (auto simp: resized_def)
      then show ?thesis using rz False k(1) lt unfolding resized_def by blast
    qed
  qed
qed

lemma ramfs_grow_spec:
  assumes rep: "file_rep R s node bs xs" and e: "unat e \<le> 2 ^ 31"
    and mem: "4 * ((2 * unat e + 4733) div 4096) \<le> card (frees (h_vmm (k_heap s)))"
  shows "\<exists>err s' bs'. ramfs_grow node e s = Some (err, s') \<and> file_rep R s' node bs' xs \<and> vnodes s' = vnodes s \<and>
     (err = 0 \<and> e \<le> capacity (rnodes s' node) \<or> err = - ENOMEM)"
proof (cases "e \<le> capacity (rnodes s node)")
  case True
  then show ?thesis using rep by (auto simp: ramfs_grow_def Let_def)
next
  case False
  let ?r = "rnodes s node" and ?c0 = "if capacity (rnodes s node) \<noteq> 0 then capacity (rnodes s node) else RAMFS_INIT_CAP"
  have c0: "?c0 \<noteq> 0" by simp
  obtain n where n: "grow_cap ?c0 e = Some n" "e \<le> n" "?c0 \<le> n" "unat n \<le> max (unat ?c0) (2 * unat e)"
    using grow_cap_returns [OF c0 e] by blast
  have cn: "capacity ?r < n" using False n(2) by simp
  then have n0: "n \<noteq> 0" by auto
  have "unat n \<le> 2 * unat e + 512" using n(4) False by (auto simp: word_le_nat_alt split: if_splits)
  then have "4 * ((unat n + 4221) div 4096) \<le> 4 * ((2 * unat e + 4733) div 4096)" by (intro mult_le_mono2 div_le_mono) simp
  then have mem': "4 * ((unat n + 4221) div 4096) \<le> card (frees (h_vmm (k_heap s)))" using mem by linarith
  obtain p h bs' where k: "krealloc (rdata ?r) (ucast n) (k_heap s) = Some (p, h)" "heap_rep R h bs'"
    "p = 0 \<and> live bs' = live bs \<and> bytes h = bytes (k_heap s) \<or>
     p \<noteq> 0 \<and> (\<exists>m. (p - HEADER_SIZE, m) \<in> live bs' \<and> ucast n \<le> m) \<and>
       (\<forall>i < unat (capacity ?r). bytes h (p + of_nat i) = bytes (k_heap s) (rdata ?r + of_nat i))"
    using krealloc_file [OF rep n0 _ mem'] cn by (metis order.strict_implies_order)
  show ?thesis
  proof (cases "p = 0")
    case True
    then have "file_rep R (s\<lparr>k_heap := h\<rparr>) node bs' xs" using rep k by (auto simp: file_rep_def Let_def)
    then show ?thesis using True False n(1) k(1) by (auto simp: ramfs_grow_def Let_def not_le)
  next
    case p: False
    let ?h = "heap_memset (p + ucast (capacity ?r)) 0 (ucast (n - capacity ?r)) h"
    let ?s = "rset node (\<lambda>r. r\<lparr>rdata := p, capacity := n\<rparr>) (s\<lparr>k_heap := ?h\<rparr>)"
    have b: "bytes ?h (p + of_nat i) = (if i < length xs then xs ! i else 0)" if i: "i < unat n" for i
    proof -
      have un: "unat (n - capacity ?r) = unat n - unat (capacity ?r)" using cn by (simp add: unat_sub)
      have ui: "unat (of_nat i :: u64) = i" using i unat_lt_32 [of n] by (simp add: unat_of_nat)
      have le: "length xs \<le> unat (capacity ?r)" using rep by (simp add: file_rep_def Let_def)
      show ?thesis
      proof (cases "i < unat (capacity ?r)")
        case True
        have "\<not> (of_nat i - ucast (capacity ?r) :: u64) < ucast (n - capacity ?r)"
          using True un ui unat_lt_32 [of n] by (simp add: word_less_nat_alt unat_sub_if')
        then have "bytes ?h (p + of_nat i) = bytes (k_heap s) (rdata ?r + of_nat i)"
          using k(3) p True by (simp add: heap_memset_def algebra_simps)
        then show ?thesis using rep True by (simp add: file_rep_def Let_def)
      next
        case f: False
        have "(of_nat i - ucast (capacity ?r) :: u64) < ucast (n - capacity ?r)"
          using f i un ui by (simp add: word_less_nat_alt unat_sub_if')
        then show ?thesis using f le by (simp add: heap_memset_def algebra_simps)
      qed
    qed
    define h1 where "h1 = ?h"
    have h1: "heap_rep R h1 bs'" "\<forall>i < unat n. bytes h1 (p + of_nat i) = (if i < length xs then xs ! i else 0)"
      using k(2) b unfolding h1_def by (simp, blast)
    have "length xs \<le> unat n" using rep cn by (simp add: file_rep_def Let_def word_less_nat_alt)
    then have "file_rep R ?s node bs' xs"
      using rep k(3) p n0 h1 unfolding h1_def [symmetric] by (auto simp: file_rep_def Let_def)
    then show ?thesis using p False n(1,2) k(1) cn
      by (intro exI [of _ 0] exI [of _ ?s] exI [of _ bs']) (simp add: ramfs_grow_def Let_def not_le)
  qed
qed

lemma ramfs_read_spec:
  assumes "file_rep R s node bs xs" and "unat sz < 2 ^ 31"
  shows "ramfs_read node off sz s =
     (int (length (take (unat sz) (drop (unat off) xs))), take (unat sz) (drop (unat off) xs))"
proof -
  let ?v = "vnodes s node" and ?r = "rnodes s node"
  have f: "ntype ?v = VFS_FILE" "unat (nsize ?v) = length xs" "length xs \<le> unat (capacity ?r)"
    "\<And>i. i < length xs \<Longrightarrow> bytes (k_heap s) (rdata ?r + of_nat i) = xs ! i"
    using assms(1) by (auto simp: file_rep_def Let_def)
  show ?thesis
  proof (cases "unat off < length xs")
    case False
    then show ?thesis using f by (simp add: ramfs_read_def Let_def word_le_nat_alt)
  next
    case True
    let ?av = "ucast (nsize ?v - ucast off) :: u32"
    have lt: "ucast off < nsize ?v" using True f(2) by (simp add: word_less_nat_alt)
    have "unat (nsize ?v - ucast off) = length xs - unat off" using lt f(2) by (simp add: unat_sub)
    moreover have "length xs - unat off < 2 ^ 32" using f(3) unat_lt_32 [of "capacity ?r"] by simp
    ultimately have av: "unat ?av = length xs - unat off" by (simp add: unsigned_ucast_eq take_bit_nat_eq_self)
    define n where "n = (if sz < ?av then sz else ?av)"
    have n: "unat n = min (unat sz) (length xs - unat off)" using av by (auto simp: n_def word_less_nat_alt)
    have "sint n = int (unat n)" using n assms(2) by (intro sint_32_small) simp
    moreover have "heap_read (k_heap s) (rdata ?r + ucast off) (unat n) = take (unat sz) (drop (unat off) xs)"
    proof (rule nth_equalityI)
      fix i assume "i < length (heap_read (k_heap s) (rdata ?r + ucast off) (unat n))"
      then have i: "i < unat n" by (simp add: heap_read_def)
      then have lti: "unat off + i < length xs" "i < unat sz" using n by linarith+
      have "rdata ?r + ucast off + of_nat i = rdata ?r + of_nat (unat off + i)"
        by (simp add: of_nat_unat_32)
      then show "heap_read (k_heap s) (rdata ?r + ucast off) (unat n) ! i = take (unat sz) (drop (unat off) xs) ! i"
        using i f(4) [of "unat off + i"] lti by (simp add: heap_read_def add.assoc)
    qed (use n in \<open>simp add: heap_read_def\<close>)
    ultimately show ?thesis using f(1) lt n by (simp add: ramfs_read_def Let_def n_def [symmetric] not_le min.commute)
  qed
qed

lemma ramfs_write_spec:
  assumes rep: "file_rep R s node bs xs" and sz: "unat off + length src < 2 ^ 31"
    and mem: "4 * ((2 * (unat off + length src) + 4733) div 4096) \<le> card (frees (h_vmm (k_heap s)))"
  shows "\<exists>r s' bs'. ramfs_write node src off s = Some (r, s') \<and>
     (r = int (length src) \<and> file_rep R s' node bs' (list_write xs (unat off) src) \<or>
      r = - ENOMEM \<and> file_rep R s' node bs' xs)"
proof -
  let ?n = "of_nat (length src) :: u32" and ?e = "off + of_nat (length src)"
  have n: "unat ?n = length src" using sz by (simp add: unat_of_nat)
  have e: "unat ?e = unat off + length src" using sz n by (simp add: unat_word_ariths)
  obtain err s1 bs1 where g: "ramfs_grow node ?e s = Some (err, s1)" "file_rep R s1 node bs1 xs" "vnodes s1 = vnodes s"
    "err = 0 \<and> ?e \<le> capacity (rnodes s1 node) \<or> err = - ENOMEM"
    using ramfs_grow_spec [OF rep, of ?e] e sz mem by auto
  have ty: "ntype (vnodes s node) = VFS_FILE" using rep by (simp add: file_rep_def Let_def)
  show ?thesis
  proof (cases "err = 0")
    case False
    then show ?thesis using g ty by (auto simp: ramfs_write_def Let_def)
  next
    case True
    let ?r = "rnodes s1 node" and ?ys = "list_write xs (unat off) src"
    define h where "h = heap_write (rdata ?r + ucast off) src (k_heap s1)"
    define s2 where "s2 = s1\<lparr>k_heap := h\<rparr>"
    define s3 where "s3 = (if ucast ?e > nsize (vnodes s2 node) then nset node (\<lambda>v. v\<lparr>nsize := ucast ?e\<rparr>) s2 else s2)"
    have cap: "unat off + length src \<le> unat (capacity ?r)" using g(4) True e by (simp add: word_le_nat_alt)
    have f: "length xs \<le> unat (capacity ?r)" "unat (nsize (vnodes s1 node)) = length xs"
      "\<And>i. i < unat (capacity ?r) \<Longrightarrow> bytes (k_heap s1) (rdata ?r + of_nat i) = (if i < length xs then xs ! i else 0)"
      using g(2) by (auto simp: file_rep_def Let_def)
    have b: "bytes h (rdata ?r + of_nat i) = (if i < length ?ys then ?ys ! i else 0)" if i: "i < unat (capacity ?r)" for i
    proof -
      have ui: "unat (of_nat i :: u64) = i" using i unat_lt_32 [of "capacity ?r"] by (simp add: unat_of_nat)
      have d: "unat (of_nat i - ucast off :: u64) = (if unat off \<le> i then i - unat off else i + 2 ^ 64 - unat off)"
        using ui by (simp add: unat_sub_if' word_le_nat_alt)
      have "length src < 2 ^ 31" using sz by simp
      then have in_src: "unat (of_nat i - ucast off :: u64) < length src \<longleftrightarrow> unat off \<le> i \<and> i < unat off + length src"
        using unat_lt_32 [of off] unfolding d by auto
      show ?thesis
        using in_src d f(3) [OF i] i list_write_nth [of i xs "unat off" src] unfolding h_def
        by (auto simp: heap_write_bytes algebra_simps)
    qed
    have "unat (nsize (vnodes s3 node)) = length ?ys"
      using f(2) e by (auto simp: s3_def s2_def word_less_nat_alt)
    then have "file_rep R s3 node bs1 ?ys"
      using g(2) b cap f(1) by (auto simp: file_rep_def Let_def s3_def s2_def h_def [symmetric]) (auto simp: h_def)
    moreover have "ramfs_write node src off s = Some (int (length src), s3)"
      using g(1) True ty n sz by (simp add: ramfs_write_def Let_def s3_def s2_def h_def sint_32_small)
    ultimately show ?thesis by blast
  qed
qed

section \<open>Directories\<close>

text \<open>A directory as a finite map from names to nodes.\<close>

definition dir_rep :: "kernel \<Rightarrow> u64 \<Rightarrow> bool" where
  "dir_rep s d \<longleftrightarrow> ntype (vnodes s d) = VFS_DIRECTORY \<and> distinct (map fst (children (rnodes s d))) \<and>
     length (children (rnodes s d)) \<le> RAMFS_MAX_CHILDREN \<and> 0 \<notin> snd ` set (children (rnodes s d)) \<and>
     (\<forall>(name, c) \<in> set (children (rnodes s d)). length name \<le> RAMFS_NAME_MAX)"

lemma find_index_map_of:
  "(case find (\<lambda>i. fst (cs ! i) = x) [0..<length cs] of None \<Rightarrow> z | Some i \<Rightarrow> snd (cs ! i)) =
   (case map_of cs x of None \<Rightarrow> z | Some v \<Rightarrow> v)"
proof (induction cs)
  case (Cons c cs)
  have "find (\<lambda>i. fst ((c # cs) ! i) = x) [0..<length (c # cs)] =
      (if fst c = x then Some 0 else map_option Suc (find (\<lambda>i. fst (cs ! i) = x) [0..<length cs]))"
  proof -
    have "find P (map Suc is) = map_option Suc (find (\<lambda>i. P (Suc i)) is)" for P "is" by (induction "is") simp_all
    then show ?thesis by (simp add: upt_conv_Cons map_Suc_upt [symmetric] del: upt_Suc map_Suc_upt)
  qed
  then show ?case using Cons.IH by (cases c) (auto split: option.splits)
qed simp

lemma ramfs_lookup_map_of:
  "dir_rep s d \<Longrightarrow> ramfs_lookup d x s = (case map_of (children (rnodes s d)) x of None \<Rightarrow> 0 | Some v \<Rightarrow> v)"
  by (simp add: ramfs_lookup_def ramfs_find_child_def find_index_map_of dir_rep_def)

lemma compact_nth:
  assumes "i \<le> k" "k < length cs"
  defines "ds \<equiv> fold (\<lambda>j cs. cs[j := cs ! (j + 1)]) [i..<k] cs"
  shows "length ds = length cs \<and> (\<forall>j < length cs. ds ! j = (if i \<le> j \<and> j < k then cs ! Suc j else cs ! j))"
  using assms(1,2) unfolding ds_def
proof (induction k)
  case (Suc k)
  show ?case
  proof (cases "i = Suc k")
    case False
    then show ?thesis using Suc by (auto simp: nth_list_update less_Suc_eq)
  qed auto
qed auto

lemma compact_removes:
  assumes "i < length cs"
  shows "butlast (fold (\<lambda>j cs. cs[j := cs ! (j + 1)]) [i..<length cs - 1] cs) = take i cs @ drop (Suc i) cs"
proof (rule nth_equalityI)
  let ?ds = "fold (\<lambda>j cs. cs[j := cs ! (j + 1)]) [i..<length cs - 1] cs"
  have c: "length ?ds = length cs" "\<And>j. j < length cs \<Longrightarrow> ?ds ! j = (if i \<le> j \<and> j < length cs - 1 then cs ! Suc j else cs ! j)"
    using compact_nth [of i "length cs - 1" cs] assms by auto
  then show "length (butlast ?ds) = length (take i cs @ drop (Suc i) cs)" using assms by simp
  fix j assume "j < length (butlast ?ds)"
  then have j: "j < length cs - 1" using c(1) by simp
  then show "butlast ?ds ! j = (take i cs @ drop (Suc i) cs) ! j"
    using c assms by (simp add: nth_butlast nth_append)
qed

lemma map_of_remove:
  assumes "distinct (map fst cs)" and "i < length cs"
  shows "map_of (take i cs @ drop (Suc i) cs) x = (if x = fst (cs ! i) then None else map_of cs x)"
proof -
  have e: "cs = take i cs @ cs ! i # drop (Suc i) cs" using assms(2) by (simp add: id_take_nth_drop)
  have n: "fst (cs ! i) \<notin> fst ` set (take i cs)" "fst (cs ! i) \<notin> fst ` set (drop (Suc i) cs)"
    using assms(1) by (subst (asm) e, simp)+
  have "map_of cs x = map_of (take i cs @ cs ! i # drop (Suc i) cs) x" using e by simp
  moreover have "map_of (take i cs) (fst (cs ! i)) = None" "map_of (drop (Suc i) cs) (fst (cs ! i)) = None"
    using n by (simp_all add: map_of_eq_None_iff)
  ultimately show ?thesis by (cases "cs ! i") (auto simp: map_add_def split: option.splits)
qed

text \<open>A new node is at an address where the heap had none.\<close>

lemma ramfs_alloc_fresh:
  assumes "heap_owns R (k_heap s) L" and "(d, n) \<in> L" and "SIZEOF_RamfsNode \<le> n"
    and "heap_ready SIZEOF_RamfsNode (k_heap s)" and "ramfs_alloc_node ty s = Some (c, s')"
  shows "c \<noteq> d" and "x \<noteq> c \<Longrightarrow> c \<noteq> 0 \<Longrightarrow> vnodes s' x = vnodes s x \<and> rnodes s' x = rnodes s x"
    and "c \<noteq> 0 \<Longrightarrow> ntype (vnodes s' c) = ty \<and> children (rnodes s' c) = [] \<and> nsize (vnodes s' c) = 0 \<and> rdata (rnodes s' c) = 0"
    and "c = 0 \<Longrightarrow> vnodes s' d = vnodes s d \<and> rnodes s' d = rnodes s d"
proof -
  have n: "88 \<le> unat n" using assms(3) by (simp add: word_le_nat_alt)
  have d0: "d \<noteq> 0"
  proof -
    obtain bs where bs: "heap_rep R (k_heap s) bs" "(d - HEADER_SIZE, n) \<in> live bs"
      using assms(1,2) by (auto simp: heap_owns_def)
    then obtain xs ys where "bs = xs @ (d - HEADER_SIZE, n, False) # ys" by (auto simp: live_def dest: split_list)
    then show ?thesis using block_ptr(3) [of R "k_heap s" xs "d - HEADER_SIZE" n False ys] bs(1) by simp
  qed
  obtain rn h where k: "kmalloc SIZEOF_RamfsNode GFP_ZERO (k_heap s) = Some (rn, h)"
    using assms(5) by (auto simp: ramfs_alloc_node_def k_alloc_def split: bind_splits)
  have ne: "rn \<noteq> d"
    using kmem.malloc_apart [OF assms(1,4) k _ assms(2)] n d0 by (cases "rn = 0") auto
  show "c \<noteq> d" using assms(5) k ne d0
    by (auto simp: ramfs_alloc_node_def k_alloc_def Let_def split: bind_splits if_splits)
  show "vnodes s' x = vnodes s x \<and> rnodes s' x = rnodes s x" if "x \<noteq> c" "c \<noteq> 0"
    using assms(5) k that by (auto simp: ramfs_alloc_node_def k_alloc_def Let_def split: bind_splits if_splits)
  show "ntype (vnodes s' c) = ty \<and> children (rnodes s' c) = [] \<and> nsize (vnodes s' c) = 0 \<and> rdata (rnodes s' c) = 0" if "c \<noteq> 0"
    using assms(5) k that
    by (auto simp: ramfs_alloc_node_def k_alloc_def Let_def zero_node_def zero_ramfs_def split: bind_splits if_splits)
  show "vnodes s' d = vnodes s d \<and> rnodes s' d = rnodes s d" if "c = 0"
    using assms(5) k ne d0 that
    by (auto simp: ramfs_alloc_node_def k_alloc_def k_free_def Let_def split: bind_splits if_splits)
qed

text \<open>
  Removing a name: a directory that is not empty stays; otherwise the name is gone, and no other
  lookup in the directory changes.
\<close>

lemma ramfs_unlink_spec:
  assumes "dir_rep s d" and "ramfs_unlink d name s = Some (r, s')"
  shows "(r = 0 \<longrightarrow> ramfs_lookup d name s \<noteq> 0 \<and> dir_rep s' d \<and>
       (\<forall>x. ramfs_lookup d x s' = (if x = name then 0 else ramfs_lookup d x s))) \<and>
     (r \<noteq> 0 \<longrightarrow> s' = s \<and> (r = - ENOENT \<and> ramfs_lookup d name s = 0 \<or> r = - ENOTEMPTY \<and> ramfs_lookup d name s \<noteq> 0))"
proof (cases "ramfs_find_child (rnodes s d) name")
  case None
  then show ?thesis using assms by (auto simp: ramfs_unlink_def ramfs_lookup_def dir_rep_def)
next
  case (Some i)
  let ?cs = "children (rnodes s d)"
  have i: "i < length ?cs" "fst (?cs ! i) = name" using Some by (auto simp: ramfs_find_child_def find_Some_iff)
  have lk: "ramfs_lookup d name s = snd (?cs ! i)" using Some assms(1) by (simp add: ramfs_lookup_def dir_rep_def)
  then have nz: "ramfs_lookup d name s \<noteq> 0" using i(1) assms(1) by (auto simp: dir_rep_def dest!: nth_mem intro: rev_image_eqI)
  show ?thesis
  proof (cases "r = 0")
    case False
    then show ?thesis using assms Some nz by (auto simp: ramfs_unlink_def dir_rep_def Let_def split: if_splits bind_splits)
  next
    case True
    have fr: "vnodes s1 = vnodes s \<and> rnodes s1 = rnodes s" if "ramfs_free_node c s = Some s1" for c s1
      using that by (auto simp: ramfs_free_node_def k_free_def split: bind_splits if_splits)
    have s': "vnodes s' d = vnodes s d" "rnodes s' d = (rnodes s d)\<lparr>children := take i ?cs @ drop (Suc i) ?cs\<rparr>"
      using assms Some True i(1) fr
      by (auto simp: ramfs_unlink_def dir_rep_def Let_def compact_removes [simplified] split: if_splits bind_splits)
    have "set (take i ?cs @ drop (Suc i) ?cs) \<subseteq> set ?cs" by (auto dest: in_set_takeD in_set_dropD)
    moreover have "distinct (map fst (take i ?cs @ drop (Suc i) ?cs))"
      using assms(1) i(1) by (simp add: dir_rep_def take_map [symmetric] drop_map [symmetric] set_take_disj_set_drop_if_distinct)
    ultimately have rep: "dir_rep s' d" using assms(1) s' by (auto simp: dir_rep_def)
    have "ramfs_lookup d x s' = (if x = name then 0 else ramfs_lookup d x s)" for x
      using map_of_remove [of ?cs i x] i assms(1)
      by (simp add: ramfs_lookup_map_of [OF rep] ramfs_lookup_map_of [OF assms(1)] s' dir_rep_def)
    then show ?thesis using True nz rep by simp
  qed
qed

section \<open>Properties\<close>



text \<open>
  C29.  The loop that doubles the capacity of a file ends exactly for sizes up to \<open>2^31\<close>; beyond that
  the 32-bit capacity wraps to 0 and a write never returns.
\<close>

theorem ramfs_growth_ends: "(\<exists>n. grow_cap RAMFS_INIT_CAP e = Some n) \<longleftrightarrow> unat e \<le> 2 ^ 31"
proof
  assume "unat e \<le> 2 ^ 31"
  then show "\<exists>n. grow_cap RAMFS_INIT_CAP e = Some n" using grow_cap_returns [of RAMFS_INIT_CAP e] by auto
next
  assume "\<exists>n. grow_cap RAMFS_INIT_CAP e = Some n"
  then obtain k where "e \<le> 512 * 2 ^ k" using grow_cap_result by blast
  then have e: "unat e \<le> unat (2 ^ (9 + k) :: u32)" by (simp add: word_le_nat_alt power_add)
  show "unat e \<le> 2 ^ 31"
  proof (cases "9 + k < 32")
    case True
    have "(2 :: nat) ^ (9 + k) < 2 ^ 32" using True by (intro power_strict_increasing) simp_all
    moreover have "unat (of_nat (2 ^ (9 + k)) :: u32) = 2 ^ (9 + k) mod 2 ^ 32" by (simp only: unat_of_nat) simp
    ultimately have "unat (2 ^ (9 + k) :: u32) = 2 ^ (9 + k)" by simp
    moreover have "(2 :: nat) ^ (9 + k) \<le> 2 ^ 31" using True by (intro power_increasing) simp_all
    ultimately show ?thesis using e by linarith
  next
    case False
    then have z: "(2 ^ (9 + k) :: u32) = 0" by (simp only: exp_eq_zero_iff) simp
    show ?thesis using e unfolding z by simp
  qed
qed



end
