(* ===== verification/Tty.thy ===== *)
theory Tty
  imports Signal
begin

text \<open>
  The terminal (\<^verbatim>\<open>kernel/drivers/tty.c\<close>): typed characters are edited in a line buffer; a completed
  line goes into a ring of 256 bytes from which processes read.  Characters emitted, by echo or by a
  write, are appended to \<open>tty_out\<close>; where they go (serial port or framebuffer) is not part of the
  model.  \<open>tty_rep\<close> relates the variables to a queue of bytes and the line being typed.
\<close>

section \<open>Operations\<close>

abbreviation TTY_BUF_SIZE :: nat where "TTY_BUF_SIZE \<equiv> 256"
abbreviation TTY_BUF_MASK :: u32 where "TTY_BUF_MASK \<equiv> 255"
abbreviation TTY_LINE_MAX :: u32 where "TTY_LINE_MAX \<equiv> 256"
abbreviation TTY_CTRL_C :: u8 where "TTY_CTRL_C \<equiv> 3"
abbreviation TTY_CTRL_Z :: u8 where "TTY_CTRL_Z \<equiv> 0x1A"
abbreviation SIGINT :: int where "SIGINT \<equiv> 2"
abbreviation NEWLINE :: u8 where "NEWLINE \<equiv> 10"

definition tty_emit :: "u8 \<Rightarrow> Tty \<Rightarrow> Tty" where
  "tty_emit c t = t\<lparr>tty_out := tty_out t @ [c]\<rparr>"

definition tty_init :: "Tty \<Rightarrow> Tty" where
  "tty_init t = t\<lparr>read_head := 0, read_tail := 0, lines_ready := 0, line_pos := 0\<rparr>"

definition tty_upd :: "(Tty \<Rightarrow> Tty) \<Rightarrow> kernel \<Rightarrow> kernel" where
  "tty_upd f s = s\<lparr>tty := f (tty s)\<rparr>"

definition ring_put :: "u8 \<Rightarrow> Tty \<Rightarrow> Tty" where
  "ring_put c t = t\<lparr>read_buf := (read_buf t)[unat (read_head t AND TTY_BUF_MASK) := c], read_head := read_head t + 1\<rparr>"

text \<open>A signal character: signal to the foreground group, and its name as an echo.\<close>

definition tty_signal :: "int \<Rightarrow> u8 \<Rightarrow> kernel \<Rightarrow> kernel option" where
  "tty_signal signo name s =
     do { s \<leftarrow> (if tty_fg_pgid (tty s) \<noteq> 0
                then do { (_, s) \<leftarrow> sig_send_group (tty_fg_pgid (tty s)) signo s; Some s } else Some s);
          Some (tty_upd (tty_emit NEWLINE \<circ> tty_emit name \<circ> tty_emit 94) s) }"

definition tty_input_char :: "u8 \<Rightarrow> kernel \<Rightarrow> kernel option" where
  "tty_input_char c s =
     (if c = TTY_CTRL_C then tty_signal SIGINT 67 s
      else if c = TTY_CTRL_Z then tty_signal SIGTSTP 90 s
      else if c = 8 \<or> c = 127 then
        Some (if line_pos (tty s) > 0
              then tty_upd (tty_emit 8 \<circ> tty_emit 32 \<circ> tty_emit 8 \<circ> (\<lambda>t. t\<lparr>line_pos := line_pos t - 1\<rparr>)) s else s)
      else if c = NEWLINE \<or> c = 13 then
        do { let t = fold (\<lambda>i t. ring_put (line_buf t ! i) t) [0..<unat (line_pos (tty s))] (tty s);
             let t = ring_put NEWLINE t;
             let t = t\<lparr>line_pos := 0, lines_ready := lines_ready t + 1\<rparr>;
             (_, wq, s) \<leftarrow> wq_wake (tty_read_wq t) s;
             Some (s\<lparr>tty := tty_emit NEWLINE (t\<lparr>tty_read_wq := wq\<rparr>)\<rparr>) }
      else if line_pos (tty s) < TTY_LINE_MAX - 1 then
        do { b \<leftarrow> arr_set (line_buf (tty s)) (unat (line_pos (tty s))) c;
             Some (tty_upd (tty_emit c \<circ> (\<lambda>t. t\<lparr>line_buf := b, line_pos := line_pos t + 1\<rparr>)) s) }
      else Some s)"

text \<open>The copying loop of \<^verbatim>\<open>tty_read\<close>: at most \<open>n\<close> bytes, up to and including a newline.\<close>

fun tty_take :: "nat \<Rightarrow> Tty \<Rightarrow> u8 list \<times> Tty" where
  "tty_take 0 t = ([], t)"
| "tty_take (Suc n) t =
     (if read_tail t \<noteq> read_head t then
        (let ch = read_buf t ! unat (read_tail t AND TTY_BUF_MASK);
             t = t\<lparr>read_tail := read_tail t + 1\<rparr>
         in if ch = NEWLINE then ([ch], t)
            else let (out, t) = tty_take n t in (ch # out, t))
      else ([], t))"

text \<open>A pass of \<^verbatim>\<open>tty_read\<close>: \<open>Inr\<close> with the bytes, or \<open>Inl\<close> after sleeping for a line.\<close>

definition tty_read_pass :: "u32 \<Rightarrow> kernel \<Rightarrow> ((unit + u8 list) \<times> kernel) option" where
  "tty_read_pass count s =
     (if count = 0 then Some (Inr [], s) else
      let cur = proc_current s;
          s = (if cur \<noteq> 0 then tty_upd (\<lambda>t. t\<lparr>tty_fg_pgid := pgid (procs s cur)\<rparr>) s else s)
      in do { (lk, s) \<leftarrow> acquire (tty_lock (tty s)) s;
              let t = tty s;
              if lines_ready t = 0 then
                do { (wq, lk, s) \<leftarrow> wq_sleep (tty_read_wq t) lk s;
                     Some (Inl (), s\<lparr>tty := t\<lparr>tty_lock := lk, tty_read_wq := wq\<rparr>\<rparr>) }
              else
                (let (lk, s) = release lk s;
                     (out, t) = tty_take (unat count) (t\<lparr>tty_lock := lk\<rparr>);
                     t = (if out \<noteq> [] \<and> last out = NEWLINE then t\<lparr>lines_ready := lines_ready t - 1\<rparr> else t)
                 in Some (Inr out, s\<lparr>tty := t\<rparr>)) })"

definition tty_set_fg_pid :: "u32 \<Rightarrow> kernel \<Rightarrow> kernel" where
  "tty_set_fg_pid n = tty_upd (\<lambda>t. t\<lparr>tty_fg_pgid := n\<rparr>)"

definition tty_set_fg_pgid :: "u32 \<Rightarrow> kernel \<Rightarrow> kernel" where
  "tty_set_fg_pgid n = tty_upd (\<lambda>t. t\<lparr>tty_fg_pgid := n\<rparr>)"

definition tty_write :: "u8 list \<Rightarrow> kernel \<Rightarrow> int \<times> kernel" where
  "tty_write src s = (int (length src), tty_upd (\<lambda>t. fold tty_emit src t) s)"

section \<open>The line discipline\<close>

text \<open>What typing a character does to the queue of bytes and the current line.\<close>

fun line_step :: "u8 \<Rightarrow> u8 list \<times> u8 list \<Rightarrow> u8 list \<times> u8 list" where
  "line_step c (q, l) =
     (if c = 8 \<or> c = 127 then (q, butlast l)
      else if c = NEWLINE \<or> c = 13 then (q @ l @ [NEWLINE], [])
      else if length l < 255 then (q, l @ [c]) else (q, l))"

definition tty_ring :: "Tty \<Rightarrow> u8 list \<Rightarrow> bool" where
  "tty_ring t q \<longleftrightarrow> length (read_buf t) = TTY_BUF_SIZE \<and> length q \<le> TTY_BUF_SIZE \<and>
     read_head t = read_tail t + of_nat (length q) \<and>
     (\<forall>i < length q. read_buf t ! unat ((read_tail t + of_nat i) AND TTY_BUF_MASK) = q ! i)"

definition tty_rep :: "Tty \<Rightarrow> u8 list \<Rightarrow> u8 list \<Rightarrow> bool" where
  "tty_rep t q l \<longleftrightarrow> tty_ring t q \<and> lines_ready t = of_nat (count_list q NEWLINE) \<and>
     length (line_buf t) = 256 \<and> length l \<le> 255 \<and> line_pos t = of_nat (length l) \<and>
     take (length l) (line_buf t) = l \<and> NEWLINE \<notin> set l"

definition tty_inv :: "kernel \<Rightarrow> u64 list \<Rightarrow> u64 list \<Rightarrow> u8 list \<Rightarrow> u8 list \<Rightarrow> bool" where
  "tty_inv s rq ws q l \<longleftrightarrow> sync_inv s rq (tty_read_wq (tty s)) ws \<and> tty_rep (tty s) q l"

section \<open>The ring\<close>

lemma slot_256: "unat ((x + of_nat i) AND TTY_BUF_MASK) = (unat x + i) mod 256"
proof -
  have "(x + of_nat i) AND TTY_BUF_MASK = take_bit 8 (x + of_nat i)" by (simp add: take_bit_eq_mask mask_eq_exp_minus_1)
  then have "unat ((x + of_nat i) AND TTY_BUF_MASK) = take_bit 8 (unat (x + of_nat i))" by (simp only: unsigned_take_bit_eq)
  also have "\<dots> = unat (x + of_nat i) mod 256" by (simp add: take_bit_eq_mod)
  also have "\<dots> = ((unat x + i mod 2 ^ 32) mod 2 ^ 32) mod 256" by (simp add: unat_word_ariths unat_of_nat)
  also have "\<dots> = (unat x + i) mod 256" by (simp only: mod_add_right_eq) (simp add: mod_mod_cancel)
  finally show ?thesis .
qed

lemma slots_differ: "i < j \<Longrightarrow> j - i < (256 :: nat) \<Longrightarrow> (a + i) mod 256 \<noteq> (a + j) mod 256"
  by (metis add_le_cancel_left diff_add_inverse2 add_diff_cancel_left dvd_imp_le less_imp_le mod_eq_dvd_iff_nat not_le zero_less_diff)

lemma ring_put_rep:
  assumes "tty_ring t q" and "length q < 256"
  shows "tty_ring (ring_put c t) (q @ [c])"
proof -
  let ?n = "length q" and ?a = "unat (read_tail t)"
  have h: "unat (read_head t AND TTY_BUF_MASK) = (?a + ?n) mod 256"
    using assms(1) slot_256 [of "read_tail t" ?n] by (simp add: tty_ring_def)
  have "(read_buf t)[(?a + ?n) mod 256 := c] ! ((?a + i) mod 256) = (q @ [c]) ! i" if "i < Suc ?n" for i
  proof (cases "i = ?n")
    case False
    then have i: "i < ?n" using that by simp
    then have "(?a + i) mod 256 \<noteq> (?a + ?n) mod 256" using slots_differ [of i ?n ?a] assms(2) by simp
    then show ?thesis using i assms(1) by (simp add: tty_ring_def slot_256 nth_append)
  qed (use assms(1) in \<open>simp add: tty_ring_def\<close>)
  then show ?thesis using assms by (simp add: tty_ring_def ring_put_def h slot_256)
qed

lemma ring_put_keeps [simp]:
  "line_buf (ring_put c t) = line_buf t" "lines_ready (ring_put c t) = lines_ready t" "tty_read_wq (ring_put c t) = tty_read_wq t"
  "line_pos (ring_put c t) = line_pos t" "tty_lock (ring_put c t) = tty_lock t"
  by (simp_all add: ring_put_def)

lemma ring_puts_rep:
  assumes "tty_ring t q" and "length q + n \<le> 256" and "n \<le> length (line_buf t)"
  defines "t' \<equiv> fold (\<lambda>i t. ring_put (line_buf t ! i) t) [0..<n] t"
  shows "tty_ring t' (q @ take n (line_buf t)) \<and> line_buf t' = line_buf t \<and> lines_ready t' = lines_ready t \<and>
     tty_read_wq t' = tty_read_wq t \<and> tty_lock t' = tty_lock t"
  using assms(2,3) unfolding t'_def
proof (induction n)
  case 0
  then show ?case using assms(1) by simp
next
  case (Suc n)
  then show ?case
    using ring_put_rep [of "fold (\<lambda>i t. ring_put (line_buf t ! i) t) [0..<n] t" "q @ take n (line_buf t)" "line_buf t ! n"]
    by (simp add: take_Suc_conv_app_nth)
qed

lemma tty_take_rep:
  assumes "tty_ring t q" and "tty_take n t = (out, t')"
  shows "out = take n (if NEWLINE \<in> set q then takeWhile (\<lambda>c. c \<noteq> NEWLINE) q @ [NEWLINE] else q) \<and> tty_ring t' (drop (length out) q) \<and>
     line_buf t' = line_buf t \<and> lines_ready t' = lines_ready t \<and> tty_read_wq t' = tty_read_wq t \<and> tty_lock t' = tty_lock t \<and>
     line_pos t' = line_pos t"
  using assms
proof (induction n arbitrary: t q out t')
  case 0
  then show ?case by simp
next
  case (Suc n)
  show ?case
  proof (cases q)
    case Nil
    then show ?thesis using Suc.prems by (simp add: tty_ring_def)
  next
    case (Cons c r)
    let ?t = "t\<lparr>read_tail := read_tail t + 1\<rparr>"
    have "unat (of_nat (length q) :: u32) = length q" using Suc.prems(1) by (simp add: tty_ring_def unat_of_nat)
    then have "(of_nat (length q) :: u32) \<noteq> 0" using Cons by (metis length_0_conv list.discI unat_0)
    then have ne: "read_tail t \<noteq> read_head t" using Suc.prems(1) by (simp add: tty_ring_def)
    have nth: "\<forall>i < length q. read_buf t ! unat ((read_tail t + of_nat i) AND TTY_BUF_MASK) = q ! i"
      using Suc.prems(1) by (simp add: tty_ring_def)
    have c: "read_buf t ! unat (read_tail t AND TTY_BUF_MASK) = c" using spec [OF nth, of 0] Cons by simp
    have "read_buf t ! unat ((read_tail t + 1 + of_nat i) AND TTY_BUF_MASK) = r ! i" if "i < length r" for i
      using spec [OF nth, of "Suc i"] Cons that by (simp add: add.assoc)
    then have r: "tty_ring ?t r" using Suc.prems(1) Cons by (simp add: tty_ring_def add.assoc)
    show ?thesis
    proof (cases "c = NEWLINE")
      case True
      then have "out = [c]" "t' = ?t" using Suc.prems(2) ne c by (simp_all add: Let_def)
      then show ?thesis using True r Cons by simp
    next
      case False
      obtain o' u where o: "tty_take n ?t = (o', u)" by (cases "tty_take n ?t")
      then have "out = c # o'" "t' = u" using Suc.prems(2) ne c False by (simp_all add: Let_def)
      then show ?thesis using Suc.IH [OF r o] False Cons by (elim conjE) simp
    qed
  qed
qed

section \<open>Typing and reading\<close>

lemma sync_inv_tty [simp]: "sync_inv (s\<lparr>tty := t\<rparr>) q wq ws = sync_inv s q wq ws"
  by (simp add: sync_inv_def waitq_def sched_inv_def runq_def tn_def [abs_def])

lemma tty_sync_inv_flags [simp]: "sync_inv (set_flags fl s) q wq ws = sync_inv s q wq ws"
  by (simp add: sync_inv_def waitq_def sched_inv_def runq_def tn_def [abs_def])

lemma tty_emit_keeps [simp]:
  "tty_rep (tty_emit c t) q l = tty_rep t q l" "tty_read_wq (tty_emit c t) = tty_read_wq t" "line_pos (tty_emit c t) = line_pos t"
  by (simp_all add: tty_emit_def tty_rep_def tty_ring_def)

lemma tty_rep_wq [simp]: "tty_rep (t\<lparr>tty_read_wq := wq\<rparr>) q l = tty_rep t q l" "tty_rep (t\<lparr>tty_lock := lk\<rparr>) q l = tty_rep t q l"
  "tty_rep (t\<lparr>tty_fg_pgid := g\<rparr>) q l = tty_rep t q l"
  by (simp_all add: tty_rep_def tty_ring_def)

lemma line_len: "tty_rep t q l \<Longrightarrow> unat (line_pos t) = length l"
  by (simp add: tty_rep_def unat_of_nat)

text \<open>A character that is no signal character, when a completed line fits into the ring.\<close>

lemma tty_input_step:
  assumes inv: "tty_inv s rq ws q l" and c: "c \<noteq> TTY_CTRL_C" "c \<noteq> TTY_CTRL_Z" and room: "length (fst (line_step c (q, l))) \<le> 256"
  shows "\<exists>s' rq' ws'. tty_input_char c s = Some s' \<and> tty_inv s' rq' ws' (fst (line_step c (q, l))) (snd (line_step c (q, l)))"
proof -
  let ?t = "tty s"
  have rep: "tty_rep ?t q l" and sy: "sync_inv s rq (tty_read_wq ?t) ws" using inv by (simp_all add: tty_inv_def)
  note ll = line_len [OF rep]
  consider "c = 8 \<or> c = 127" | "c = NEWLINE \<or> c = 13" | "c \<notin> {8, 127, NEWLINE, 13}" by blast
  then show ?thesis
  proof cases
    case 1
    show ?thesis
    proof (cases "l = []")
      case True
      then have "tty_input_char c s = Some s" using 1 c rep by (auto simp: tty_input_char_def tty_rep_def)
      then show ?thesis using inv 1 True by auto
    next
      case False
      then have "(of_nat (length l) - 1 :: u32) = of_nat (length (butlast l))" by (cases l rule: rev_cases) simp_all
      moreover have "take (length (butlast l)) (line_buf ?t) = butlast l"
        using rep False unfolding tty_rep_def by (metis butlast_take diff_le_self length_butlast order_trans take_all_iff nat_le_linear)
      ultimately have "tty_rep (?t\<lparr>line_pos := line_pos ?t - 1\<rparr>) q (butlast l)"
        using rep by (auto simp: tty_rep_def tty_ring_def dest: in_set_butlastD)
      moreover have "line_pos ?t > 0" using ll False by (simp add: word_less_nat_alt)
      ultimately show ?thesis using 1 c sy
        by (intro exI [of _ "the (tty_input_char c s)"] exI [of _ rq] exI [of _ ws]) (auto simp: tty_input_char_def tty_inv_def tty_upd_def)
    qed
  next
    case 2
    have len: "length q + length l + 1 \<le> 256" using 2 room by auto
    define t1 where "t1 = fold (\<lambda>i t. ring_put (line_buf t ! i) t) [0..<length l] ?t"
    have lb: "take (length l) (line_buf ?t) = l" "length l \<le> length (line_buf ?t)" using rep by (auto simp: tty_rep_def)
    have t1: "tty_ring t1 (q @ l)" "line_buf t1 = line_buf ?t" "lines_ready t1 = lines_ready ?t" "tty_read_wq t1 = tty_read_wq ?t"
      using ring_puts_rep [of ?t q "length l"] rep len lb unfolding t1_def by (auto simp: tty_rep_def)
    define t2 where "t2 = (ring_put NEWLINE t1)\<lparr>line_pos := 0, lines_ready := lines_ready ?t + 1\<rparr>"
    have "tty_ring (ring_put NEWLINE t1) (q @ l @ [NEWLINE])" using ring_put_rep [OF t1(1), of NEWLINE] len by simp
    moreover have "count_list l NEWLINE = 0" using rep by (simp add: tty_rep_def count_list_0_iff)
    ultimately have r2: "tty_rep t2 (q @ l @ [NEWLINE]) []"
      using rep t1 by (simp add: t2_def tty_rep_def tty_ring_def)
    obtain n wq s' where w: "wq_wake (tty_read_wq ?t) s = Some (n, wq, s')" "sync_inv s' (if ws = [] then rq else rq @ [hd ws]) wq (tl ws)"
      using wq_wake_spec [OF sy] by blast
    have "tty_input_char c s = Some (s'\<lparr>tty := tty_emit NEWLINE (t2\<lparr>tty_read_wq := wq\<rparr>)\<rparr>)"
      using 2 c w(1) t1 ll by (auto simp: tty_input_char_def Let_def t1_def [symmetric] t2_def)
    moreover have "tty_inv (s'\<lparr>tty := tty_emit NEWLINE (t2\<lparr>tty_read_wq := wq\<rparr>)\<rparr>) (if ws = [] then rq else rq @ [hd ws]) (tl ws)
        (q @ l @ [NEWLINE]) []" using r2 w(2) by (simp add: tty_inv_def)
    ultimately show ?thesis using 2 by auto
  next
    case 3
    show ?thesis
    proof (cases "length l < 255")
      case False
      then have "\<not> line_pos ?t < TTY_LINE_MAX - 1" using ll by (simp add: word_less_nat_alt)
      then have "tty_input_char c s = Some s" using 3 c by (simp add: tty_input_char_def)
      then show ?thesis using inv 3 False by auto
    next
      case True
      let ?b = "(line_buf ?t)[length l := c]"
      have lt: "line_pos ?t < TTY_LINE_MAX - 1" "length l < length (line_buf ?t)" using ll True rep by (auto simp: word_less_nat_alt tty_rep_def)
      have "take (Suc (length l)) ?b = take (length l) (line_buf ?t) @ [c]" using lt(2) by (simp add: take_Suc_conv_app_nth)
      then have "tty_rep (?t\<lparr>line_buf := ?b, line_pos := line_pos ?t + 1\<rparr>) q (l @ [c])"
        using rep True 3 by (auto simp: tty_rep_def tty_ring_def)
      then show ?thesis using 3 c sy True lt ll
        by (intro exI [of _ "the (tty_input_char c s)"] exI [of _ rq] exI [of _ ws]) (auto simp: tty_input_char_def tty_inv_def tty_upd_def)
    qed
  qed
qed

lemma line_step_grows: "length q \<le> length (fst (line_step c (q, l)))"
  by simp

lemma line_steps_grow: "length (fst a) \<le> length (fst (fold line_step cs a))"
proof (induction cs arbitrary: a)
  case (Cons c cs)
  have "length (fst a) \<le> length (fst (line_step c a))" by (cases a) (simp del: line_step.simps add: line_step_grows)
  then show ?case using Cons.IH [of "line_step c a"] by simp
qed simp

section \<open>Properties\<close>

text \<open>
  C35.  Typing any characters other than Ctrl+C and Ctrl+Z implements the line discipline: backspace
  takes back the last character of the line, enter appends the line and a newline to the queue, other
  characters extend the line up to 255, as long as the queue does not exceed the 256 bytes of the
  ring.  All stores stay inside the buffers, and the count of complete lines matches the queue.
\<close>

theorem tty_input_correct:
  assumes "tty_inv s rq ws q l" and "set cs \<inter> {TTY_CTRL_C, TTY_CTRL_Z} = {}"
    and "length (fst (fold line_step cs (q, l))) \<le> 256"
  shows "\<exists>s' rq' ws'. for_each tty_input_char cs s = Some s' \<and>
     tty_inv s' rq' ws' (fst (fold line_step cs (q, l))) (snd (fold line_step cs (q, l)))"
  using assms
proof (induction cs arbitrary: s rq ws q l)
  case Nil
  then show ?case by auto
next
  case (Cons c cs)
  obtain q1 l1 where e: "line_step c (q, l) = (q1, l1)" by (cases "line_step c (q, l)")
  have "length q1 \<le> 256" using line_steps_grow [of "(q1, l1)" cs] Cons.prems(3) e by simp
  then obtain s1 rq1 ws1 where s1: "tty_input_char c s = Some s1" "tty_inv s1 rq1 ws1 q1 l1"
    using tty_input_step [OF Cons.prems(1), of c] Cons.prems(2) e by auto
  have "set cs \<inter> {TTY_CTRL_C, TTY_CTRL_Z} = {}" "length (fst (fold line_step cs (q1, l1))) \<le> 256"
    using Cons.prems(2,3) e by auto
  then show ?case using Cons.IH [OF s1(2)] s1(1) e by simp
qed

lemma kernel_example_tty: "tty_inv kernel_example [0x20, 0x30] [] [] []"
proof -
  have "sync_inv kernel_example [0x20, 0x30] (tty_read_wq (tty kernel_example)) []"
    using kernel_example_inv by (simp add: sync_inv_def waitq_def fifo_def) (simp add: kernel_example_def zero_thread_def SPINLOCK_INIT_def)
  moreover have "tty_rep (tty kernel_example) [] []" by (simp add: kernel_example_def tty_rep_def tty_ring_def)
  ultimately show ?thesis by (simp add: tty_inv_def)
qed

theorem tty_input_correct_witness:
  "\<exists>s' rq ws. for_each tty_input_char [97, 98, 8, 99, 13, 100] kernel_example = Some s' \<and> tty_inv s' rq ws [97, 99, NEWLINE] [100]"
  using tty_input_correct [OF kernel_example_tty, of "[97, 98, 8, 99, 13, 100]"] by simp

text \<open>
  C36.  Reading from the terminal: without a complete line the caller goes to sleep as the last of the
  readers; with one it gets the first line of the queue, newline included, cut to the size it asked
  for, and exactly these bytes leave the queue.
\<close>

theorem tty_read_correct:
  assumes "tty_inv s rq ws q l" and "0 < n" and "locked (tty_lock (tty s)) = 0" and "locked (sched_lock s) = 0"
    and "current_thread s \<noteq> idle_thread s"
  shows "\<exists>r s'. tty_read_pass n s = Some (r, s') \<and>
     (if NEWLINE \<in> set q
      then r = Inr (take (unat n) (takeWhile (\<lambda>c. c \<noteq> NEWLINE) q @ [NEWLINE])) \<and>
        tty_inv s' rq ws (drop (unat n) (takeWhile (\<lambda>c. c \<noteq> NEWLINE) q @ [NEWLINE]) @ tl (dropWhile (\<lambda>c. c \<noteq> NEWLINE) q)) l
      else r = Inl () \<and> tty_inv s' (tl rq) (ws @ [current_thread s]) q l)"
proof -
  have rep: "tty_rep (tty s) q l" and sy: "sync_inv s rq (tty_read_wq (tty s)) ws" using assms(1) by (simp_all add: tty_inv_def)
  define s1 where "s1 = (if proc_current s \<noteq> 0 then tty_upd (\<lambda>t. t\<lparr>tty_fg_pgid := pgid (procs s (proc_current s))\<rparr>) s else s)"
  define lk where "lk = (tty_lock (tty s))\<lparr>locked := 1, saved_flags := cpu_flags s\<rparr>"
  define s2 where "s2 = set_flags (cpu_flags s AND NOT RFLAGS_IF) s1"
  have rep1: "tty_rep (tty s1) q l" and wq1: "tty_read_wq (tty s1) = tty_read_wq (tty s)" "tty_lock (tty s1) = tty_lock (tty s)"
    and sy1: "sync_inv s2 rq (tty_read_wq (tty s)) ws" and cf: "cpu_flags s1 = cpu_flags s" "tty s2 = tty s1"
    "sched_lock s2 = sched_lock s" "current_thread s2 = current_thread s" "idle_thread s2 = idle_thread s"
    using rep sy by (auto simp: s1_def s2_def tty_upd_def cpu_flags_def set_flags_def Let_def
        tty_sync_inv_flags [unfolded set_flags_def Let_def])
  have n0: "n \<noteq> 0" using assms(2) by auto
  have ac: "acquire (tty_lock (tty s1)) s1 = Some (lk, s2)" using assms(3) wq1 cf by (simp add: lk_def s2_def)
  have nl: "lines_ready (tty s1) = 0 \<longleftrightarrow> NEWLINE \<notin> set q"
  proof -
    have "count_list q NEWLINE \<le> length q" by (rule count_le_length)
    then have "unat (lines_ready (tty s1)) = count_list q NEWLINE" using rep1 by (simp add: tty_rep_def tty_ring_def unat_of_nat)
    then have "lines_ready (tty s1) = 0 \<longleftrightarrow> count_list q NEWLINE = 0" by (simp flip: unat_eq_zero)
    then show ?thesis by (simp add: count_list_0_iff)
  qed
  show ?thesis
  proof (cases "NEWLINE \<in> set q")
    case False
    obtain wq l' s3 where sl: "wq_sleep (tty_read_wq (tty s)) lk s2 = Some (wq, l', s3)"
      using wq_sleep_total [OF sy1, of lk] assms(4) cf by auto
    note sp = wq_sleep_spec [OF sy1 _ sl]
    have "tty_read_pass n s = Some (Inl (), s3\<lparr>tty := (tty s1)\<lparr>tty_lock := l', tty_read_wq := wq\<rparr>\<rparr>)"
      using assms(2) ac nl False wq1 cf sl by (simp add: tty_read_pass_def Let_def s1_def [symmetric])
    then show ?thesis using False sp(2) rep1 assms(5) cf by (simp add: tty_inv_def)
  next
    case True
    let ?line = "takeWhile (\<lambda>c. c \<noteq> NEWLINE) q @ [NEWLINE]" and ?rest = "tl (dropWhile (\<lambda>c. c \<noteq> NEWLINE) q)"
    have ne: "dropWhile (\<lambda>c. c \<noteq> NEWLINE) q \<noteq> []" using True by (simp add: dropWhile_eq_Nil_conv)
    then have "dropWhile (\<lambda>c. c \<noteq> NEWLINE) q = NEWLINE # ?rest" using hd_dropWhile [OF ne] by (cases "dropWhile (\<lambda>c. c \<noteq> NEWLINE) q") simp_all
    then have q: "q = ?line @ ?rest" using takeWhile_dropWhile_id [of "\<lambda>c. c \<noteq> NEWLINE" q] by simp
    define t where "t = (tty s1)\<lparr>tty_lock := lk\<lparr>locked := 0\<rparr>\<rparr>"
    obtain out t' where tk: "tty_take (unat n) t = (out, t')" by (cases "tty_take (unat n) t")
    have rg: "tty_ring t q" using rep1 by (simp add: t_def tty_rep_def tty_ring_def)
    note tr = tty_take_rep [OF rg tk, unfolded if_P [OF True]]
    have out: "out = take (unat n) ?line" and t': "tty_ring t' (drop (length out) q)" "line_buf t' = line_buf t"
      "lines_ready t' = lines_ready t" "tty_read_wq t' = tty_read_wq t" "line_pos t' = line_pos t" using tr by blast+
    have dr: "drop (length out) q = drop (unat n) ?line @ ?rest" unfolding out by (subst q) (simp add: min_def)
    have tw: "count_list (takeWhile (\<lambda>c. c \<noteq> NEWLINE) q) NEWLINE = 0" by (auto simp: count_list_0_iff dest: set_takeWhileD)
    have cn: "count_list out NEWLINE = (if out \<noteq> [] \<and> last out = NEWLINE then 1 else 0)"
    proof (cases "length ?line \<le> unat n")
      case True
      then show ?thesis using out tw by simp
    next
      case False
      then have o: "out = take (unat n) (takeWhile (\<lambda>c. c \<noteq> NEWLINE) q)" using out by simp
      then have "NEWLINE \<notin> set out" by (auto dest!: in_set_takeD set_takeWhileD)
      then show ?thesis by (metis count_list_0_iff last_in_set)
    qed
    have "count_list q NEWLINE = count_list out NEWLINE + count_list (drop (length out) q) NEWLINE"
      unfolding dr by (subst q, subst out, subst append_take_drop_id [of "unat n", symmetric]) (simp del: append_take_drop_id)
    define t2 where "t2 = (if out \<noteq> [] \<and> last out = NEWLINE then t'\<lparr>lines_ready := lines_ready t' - 1\<rparr> else t')"
    have "tty_rep t2 (drop (length out) q) l"
      using rep1 t' cn \<open>count_list q NEWLINE = _\<close> by (auto simp: t2_def t_def tty_rep_def tty_ring_def)
    moreover have "tty_read_pass n s = Some (Inr out, (set_flags (cpu_flags s) s2)\<lparr>tty := t2\<rparr>)"
      using n0 ac nl True cf tk by (simp add: tty_read_pass_def Let_def s1_def [symmetric] t_def lk_def t2_def)
    moreover have "tty_read_wq t2 = tty_read_wq (tty s)" using t' wq1 by (simp add: t2_def t_def)
    ultimately show ?thesis using True sy1 out dr by (simp add: tty_inv_def)
  qed
qed

theorem tty_read_correct_witness:
  "\<exists>s'. tty_read_pass 10 (kernel_example\<lparr>tty := (tty kernel_example)\<lparr>read_buf := (replicate 256 0)[0 := 97, 1 := NEWLINE],
       read_head := 2, lines_ready := 1\<rparr>\<rparr>) = Some (Inr [97, NEWLINE], s')"
proof -
  let ?t = "(tty kernel_example)\<lparr>read_buf := (replicate 256 0)[0 := 97, 1 := NEWLINE], read_head := 2, lines_ready := 1\<rparr>"
  let ?s = "kernel_example\<lparr>tty := ?t\<rparr>"
  have "tty_rep ?t [97, NEWLINE] []"
    by (simp add: kernel_example_def tty_rep_def tty_ring_def All_less_Suc)
  then have "tty_inv ?s [0x20, 0x30] [] [97, NEWLINE] []" using kernel_example_tty by (simp add: tty_inv_def)
  moreover have "locked (tty_lock (tty ?s)) = 0" "locked (sched_lock ?s) = 0" "current_thread ?s \<noteq> idle_thread ?s"
    by (simp_all add: kernel_example_def SPINLOCK_INIT_def)
  ultimately show ?thesis using tty_read_correct [of ?s "[0x20, 0x30]" "[]" "[97, NEWLINE]" "[]" 10] by auto
qed

end
