(* ===== verification/Path.thy ===== *)
theory Path
  imports Arc_Prelude
begin

text \<open>
  Path normalisation, \<^verbatim>\<open>kernel/fs/path.c\<close>.  A C string argument is the list of its bytes before
  the terminator; the output buffer is an array of \<open>out_size\<close> bytes with the write position
  beside it.  Every write goes through the bounds-checked array, so a result includes that the
  buffer was never overrun.

  The specification reads a path as its components and resolves \<^verbatim>\<open>.\<close> and \<^verbatim>\<open>..\<close> on a stack.
\<close>

abbreviation SLASH :: u8 where "SLASH \<equiv> 47"
abbreviation DOT :: u8 where "DOT \<equiv> 46"

type_synonym path_buf = "u8 list \<times> nat"

section \<open>Operations\<close>

definition append_component :: "u8 list \<Rightarrow> path_buf \<Rightarrow> (int \<times> path_buf) option" where
  "append_component cmp = (\<lambda>(out, pos).
     if pos + 1 + length cmp \<ge> length out then Some (- ENAMETOOLONG, (out, pos)) else
     do { out \<leftarrow> arr_set out pos SLASH;
          (out, pos) \<leftarrow> for_each (\<lambda>c (out, pos). do { out \<leftarrow> arr_set out pos c; Some (out, pos + 1) })
                          cmp (out, pos + 1);
          out \<leftarrow> arr_set out pos 0;
          Some (0, (out, pos)) })"

fun scan_back :: "u8 list \<Rightarrow> nat \<Rightarrow> nat" where
  "scan_back out 0 = 0"
| "scan_back out (Suc n) = (if out ! n \<noteq> SLASH then scan_back out n else Suc n)"

definition pop_component :: "path_buf \<Rightarrow> path_buf option" where
  "pop_component = (\<lambda>(out, pos).
     let pos = scan_back out pos;
         pos = (if pos > 1 then pos - 1 else pos)
     in do { out \<leftarrow> arr_set out pos 0; Some (out, pos) })"

text \<open>The component loop of \<^verbatim>\<open>process_input\<close>; \<open>src\<close> is what is left of the input from index \<^verbatim>\<open>i\<close>.\<close>

function process_input :: "u8 list \<Rightarrow> path_buf \<Rightarrow> (int \<times> path_buf) option" where
  "process_input src b =
     (let src = dropWhile (\<lambda>c. c = SLASH) src in
      if src = [] then Some (0, b) else
      let cmp = takeWhile (\<lambda>c. c \<noteq> SLASH) src;
          rest = dropWhile (\<lambda>c. c \<noteq> SLASH) src in
      if length cmp = 1 \<and> cmp ! 0 = DOT then process_input rest b
      else if length cmp = 2 \<and> cmp ! 0 = DOT \<and> cmp ! 1 = DOT then
        do { b \<leftarrow> pop_component b; process_input rest b }
      else
        do { (err, b) \<leftarrow> append_component cmp b;
             if err \<noteq> 0 then Some (err, b) else process_input rest b })"
  by pat_completeness auto

lemma drop_component_shorter:
  assumes "x = dropWhile (\<lambda>c. c = SLASH) src" and "x \<noteq> []"
  shows "length (dropWhile (\<lambda>c. c \<noteq> SLASH) x) < length src"
proof -
  obtain c cs where x: "x = c # cs" using assms(2) by (cases x) auto
  then have "c \<noteq> SLASH" using assms(1) hd_dropWhile [of "\<lambda>c. c = SLASH" src] by auto
  then have "length (dropWhile (\<lambda>c. c \<noteq> SLASH) x) \<le> length cs"
    using x by (simp add: length_dropWhile_le)
  moreover have "length x \<le> length src" using assms(1) by (simp add: length_dropWhile_le)
  ultimately show ?thesis using x by simp
qed

termination process_input
  by (relation "measure (\<lambda>(src, _). length src)") (simp_all add: drop_component_shorter)

declare process_input.simps [simp del]

text \<open>\<open>None\<close> for the pointer arguments is the null pointer.\<close>

definition path_normalize :: "u8 list option \<Rightarrow> u8 list option \<Rightarrow> u8 list option \<Rightarrow> (int \<times> u8 list) option" where
  "path_normalize cwd input out =
     (case (input, out) of
        (Some input, Some out) \<Rightarrow>
          if length out < 2 then Some (- EINVAL, out) else
          do { out \<leftarrow> arr_set out 0 0;
               (err, (out, pos)) \<leftarrow>
                 (if input \<noteq> [] \<and> hd input = SLASH then process_input input (out, 0)
                  else (case cwd of
                      None \<Rightarrow> Some (- EINVAL, (out, 0))
                    | Some cwd \<Rightarrow>
                        if cwd = [] \<or> hd cwd \<noteq> SLASH then Some (- EINVAL, (out, 0)) else
                        do { (err, b) \<leftarrow> process_input cwd (out, 0);
                             if err \<noteq> 0 then Some (err, b) else process_input input b }));
               if err \<noteq> 0 then Some (err, out)
               else if pos = 0 then
                 do { out \<leftarrow> arr_set out 0 SLASH; out \<leftarrow> arr_set out 1 0; Some (0, out) }
               else Some (0, out) }
      | (Some _, None) \<Rightarrow> Some (- EINVAL, [])
      | (None, Some out) \<Rightarrow> Some (- EINVAL, out)
      | (None, None) \<Rightarrow> Some (- EINVAL, []))"

section \<open>Specification\<close>

text \<open>The components of a path: the maximal runs of bytes that are not slashes.\<close>

function components :: "u8 list \<Rightarrow> u8 list list" where
  "components src =
     (let src = dropWhile (\<lambda>c. c = SLASH) src in
      if src = [] then []
      else takeWhile (\<lambda>c. c \<noteq> SLASH) src # components (dropWhile (\<lambda>c. c \<noteq> SLASH) src))"
  by pat_completeness auto

termination components
  by (relation "measure length") (simp_all add: drop_component_shorter)

declare components.simps [simp del]

text \<open>Resolution of \<^verbatim>\<open>.\<close> and \<^verbatim>\<open>..\<close> over a stack of names; the parent of the root is the root.\<close>

fun resolve :: "u8 list list \<Rightarrow> u8 list list \<Rightarrow> u8 list list" where
  "resolve st [] = st"
| "resolve st (c # cs) =
     (if c = [DOT] then resolve st cs
      else if c = [DOT, DOT] then resolve (butlast st) cs
      else resolve (st @ [c]) cs)"

text \<open>The string in the buffer: the bytes before the terminator.\<close>

definition str_of :: "u8 list \<Rightarrow> u8 list" where
  "str_of out = takeWhile (\<lambda>c. c \<noteq> 0) out"

definition render :: "u8 list list \<Rightarrow> u8 list" where
  "render cs = concat (map (\<lambda>c. SLASH # c) cs)"

definition names :: "u8 list list \<Rightarrow> bool" where
  "names cs \<longleftrightarrow> (\<forall>c \<in> set cs. c \<noteq> [] \<and> SLASH \<notin> set c \<and> 0 \<notin> set c)"

text \<open>
  What the buffer holds for the stack \<open>cs\<close>: the rendered names, after a spare slash when a
  \<^verbatim>\<open>..\<close> has emptied the path before (\<open>fl\<close>).
\<close>

definition holds :: "nat \<Rightarrow> bool \<Rightarrow> u8 list list \<Rightarrow> path_buf \<Rightarrow> bool" where
  "holds sz fl cs = (\<lambda>(out, pos). length out = sz \<and> pos < sz \<and> names cs \<and>
     take (Suc pos) out = (if fl then [SLASH] else []) @ render cs @ [0])"

section \<open>Components and the buffer\<close>

lemma render_simps [simp]:
  "render [] = []" "render (c # cs) = SLASH # c @ render cs" "render (cs @ ds) = render cs @ render ds"
  by (simp_all add: render_def)

lemma names_simps [simp]:
  "names []" "names (c # cs) \<longleftrightarrow> c \<noteq> [] \<and> SLASH \<notin> set c \<and> 0 \<notin> set c \<and> names cs"
  "names (cs @ ds) \<longleftrightarrow> names cs \<and> names ds"
  by (auto simp: names_def)

lemma takeWhile_name [simp]:
  "SLASH \<notin> set c \<Longrightarrow> takeWhile (\<lambda>c. c \<noteq> SLASH) (c @ SLASH # xs) = c"
  "SLASH \<notin> set c \<Longrightarrow> takeWhile (\<lambda>c. c \<noteq> SLASH) c = c"
  "SLASH \<notin> set c \<Longrightarrow> dropWhile (\<lambda>c. c \<noteq> SLASH) (c @ SLASH # xs) = SLASH # xs"
  "SLASH \<notin> set c \<Longrightarrow> dropWhile (\<lambda>c. c \<noteq> SLASH) c = []"
  by (induction c) auto

lemma components_slash [simp]: "components [] = []" "components (SLASH # xs) = components xs"
  by (simp_all add: components.simps [of "SLASH # xs"] components.simps [of xs] components.simps [of "[]"])

lemma components_name:
  assumes "c \<noteq> []" and "SLASH \<notin> set c"
  shows "components (c @ SLASH # xs) = c # components xs" "components c = [c]"
proof -
  obtain d ds where c: "c = d # ds" "d \<noteq> SLASH" using assms by (cases c) auto
  have "components (c @ SLASH # xs) = takeWhile (\<lambda>c. c \<noteq> SLASH) (c @ SLASH # xs) #
          components (dropWhile (\<lambda>c. c \<noteq> SLASH) (c @ SLASH # xs))"
    using c by (subst components.simps) simp
  then show "components (c @ SLASH # xs) = c # components xs" using assms(2) by simp
  have "components c = takeWhile (\<lambda>c. c \<noteq> SLASH) c # components (dropWhile (\<lambda>c. c \<noteq> SLASH) c)"
    using c by (subst components.simps) simp
  then show "components c = [c]" using assms(2) by simp
qed

lemma components_render: "names cs \<Longrightarrow> components (render cs) = cs"
proof (induction cs)
  case (Cons c cs)
  then show ?case using components_name [of c] by (cases cs) auto
qed simp

lemma render_nonzero: "names cs \<Longrightarrow> 0 \<notin> set (render cs)"
  by (induction cs) auto

lemma write_loop:
  "pos + length cs \<le> length out \<Longrightarrow>
   for_each (\<lambda>c (out, pos). do { out \<leftarrow> arr_set out pos c; Some (out, pos + 1) }) cs (out, pos) =
     Some (take pos out @ cs @ drop (pos + length cs) out, pos + length cs)"
proof (induction cs arbitrary: out pos)
  case (Cons c cs)
  have "take (Suc pos) (out[pos := c]) = take pos out @ [c]"
    using Cons.prems by (simp add: take_Suc_conv_app_nth)
  moreover have "drop (Suc (pos + length cs)) (out[pos := c]) = drop (Suc (pos + length cs)) out" by simp
  ultimately show ?case using Cons by simp
qed simp

lemma holds_pos:
  "holds sz fl cs (out, pos) \<Longrightarrow> pos = length ((if fl then [SLASH] else []) @ render cs)"
proof -
  assume h: "holds sz fl cs (out, pos)"
  then have "length (take (Suc pos) out) = Suc (length ((if fl then [SLASH] else []) @ render cs))"
    by (simp add: holds_def)
  then show ?thesis using h by (simp add: holds_def)
qed

lemma holds_prefix:
  "holds sz fl cs (out, pos) \<Longrightarrow> take pos out = (if fl then [SLASH] else []) @ render cs"
proof -
  assume h: "holds sz fl cs (out, pos)"
  have "take pos out = take pos (take (Suc pos) out)" by simp
  also have "\<dots> = take pos ((if fl then [SLASH] else []) @ render cs @ [0])" using h by (simp add: holds_def)
  finally show ?thesis using holds_pos [OF h] by simp
qed

lemma append_holds:
  assumes h: "holds sz fl cs (out, pos)" and c: "c \<noteq> []" "SLASH \<notin> set c" "0 \<notin> set c"
    and fit: "pos + 1 + length c < sz"
  shows "\<exists>b'. append_component c (out, pos) = Some (0, b') \<and> snd b' = pos + 1 + length c \<and> holds sz fl (cs @ [c]) b'"
proof -
  have l: "length out = sz" "names cs" using h by (auto simp: holds_def)
  let ?o = "take (Suc pos) (out[pos := SLASH]) @ c @ drop (Suc pos + length c) out"
  have t: "take (Suc pos) (out[pos := SLASH]) = (if fl then [SLASH] else []) @ render cs @ [SLASH]"
    using holds_prefix [OF h] l fit by (simp add: take_Suc_conv_app_nth)
  have lo: "length ?o = sz" using l fit by simp
  have "append_component c (out, pos) = Some (0, (?o[pos + 1 + length c := 0], pos + 1 + length c))"
    using l fit write_loop [of "pos + 1" c "out[pos := SLASH]"] lo by (simp add: append_component_def)
  moreover have "take (Suc (pos + 1 + length c)) (?o[pos + 1 + length c := 0]) =
      take (pos + 1 + length c) ?o @ [0]" using lo fit by (simp add: take_Suc_conv_app_nth del: append_assoc)
  moreover have "take (pos + 1 + length c) ?o = (if fl then [SLASH] else []) @ render (cs @ [c])"
  proof -
    have "take (pos + 1 + length c) ?o = take (Suc pos) (out[pos := SLASH]) @ c" using l fit by simp
    then show ?thesis unfolding t by simp
  qed
  ultimately show ?thesis using l c fit lo by (auto simp: holds_def)
qed

lemma append_too_long:
  "length out = sz \<Longrightarrow> \<not> pos + 1 + length c < sz \<Longrightarrow> append_component c (out, pos) = Some (- ENAMETOOLONG, (out, pos))"
  by (simp add: append_component_def)

lemma scan_back_name:
  assumes "take (length w + Suc (length c)) out = w @ SLASH # c" and "SLASH \<notin> set c"
  shows "scan_back out (length w + Suc (length c)) = Suc (length w)"
  using assms
proof (induction c rule: rev_induct)
  case Nil
  have "out ! length w = take (length w + 1) out ! length w" by simp
  also have "\<dots> = SLASH" using Nil by (simp add: nth_append)
  finally show ?case by simp
next
  case (snoc d c)
  let ?n = "length w + Suc (length c)"
  have "take ?n out = take ?n (take (Suc ?n) out)" by simp
  also have "\<dots> = w @ SLASH # c" using snoc.prems(1) by simp
  finally have t: "take ?n out = w @ SLASH # c" .
  have "out ! ?n = take (Suc ?n) out ! ?n" by simp
  also have "\<dots> = d" using snoc.prems(1) by (simp add: nth_append)
  finally show ?case using snoc t by simp
qed

lemma pop_holds:
  assumes h: "holds sz fl cs (out, pos)"
  shows "\<exists>fl' b'. pop_component (out, pos) = Some b' \<and> snd b' \<le> pos \<and> holds sz fl' (butlast cs) b'"
proof -
  have l: "length out = sz" "pos < sz" "names cs" using h by (auto simp: holds_def)
  have cut: "holds sz fl' ds (out[n := 0], n)"
    if "n \<le> pos" "take n out = (if fl' then [SLASH] else []) @ render ds" "names ds" for n fl' ds
    using that l by (simp add: holds_def take_Suc_conv_app_nth)
  show ?thesis
  proof (cases cs rule: rev_cases)
    case Nil
    have "scan_back out pos = pos"
      using holds_pos [OF h] holds_prefix [OF h] Nil l
      by (cases fl) (auto simp: take_Suc_conv_app_nth split: if_splits)
    moreover have "pos \<le> 1" using holds_pos [OF h] Nil by (cases fl) auto
    ultimately have "pop_component (out, pos) = Some (out[pos := 0], pos)"
      using l by (simp add: pop_component_def Let_def)
    then show ?thesis using cut [of pos fl cs] holds_prefix [OF h] l Nil by auto
  next
    case (snoc ds c)
    define w where "w = (if fl then [SLASH] else []) @ render ds"
    have pos: "pos = length w + Suc (length c)" using holds_pos [OF h] snoc by (simp add: w_def)
    have t: "take (length w + Suc (length c)) out = w @ SLASH # c"
      using holds_prefix [OF h] snoc unfolding pos by (simp add: w_def)
    have sb: "scan_back out pos = Suc (length w)"
      unfolding pos by (rule scan_back_name [OF t]) (use l snoc in auto)
    let ?n = "if w = [] then 1 else length w"
    have n: "?n < length out" using l pos by simp
    have "pop_component (out, pos) = Some (out[?n := 0], ?n)"
      using n by (simp add: pop_component_def Let_def sb split: if_splits)
    moreover have "?n \<le> pos" using pos by simp
    moreover have "holds sz (fl \<or> w = []) ds (out[?n := 0], ?n)"
    proof (rule cut [OF calculation(2)])
      have "take ?n out = take ?n (take (length w + Suc (length c)) out)" using pos by (simp add: min_def)
      then show "take ?n out = (if fl \<or> w = [] then [SLASH] else []) @ render ds"
        unfolding t using w_def by (auto split: if_splits)
    qed (use l snoc in simp)
    ultimately show ?thesis using snoc by auto
  qed
qed

text \<open>
  Processing an input resolves its components on the stack the buffer holds, or reports that
  the buffer is too small; \<open>pos\<close> plus the input, with a slash for a leading name, bounds the need.
\<close>

definition need :: "u8 list \<Rightarrow> nat" where
  "need src = length src + (if src = [] \<or> hd src = SLASH then 0 else 1)"

lemma need_split:
  assumes "src' = dropWhile (\<lambda>c. c = SLASH) src" and "src' \<noteq> []"
    and "c = takeWhile (\<lambda>c. c \<noteq> SLASH) src'" and "rest = dropWhile (\<lambda>c. c \<noteq> SLASH) src'"
  shows "1 + length c + need rest \<le> need src" "c \<noteq> []" "SLASH \<notin> set c" "set c \<subseteq> set src" "set rest \<subseteq> set src"
proof -
  have sr: "src' = c @ rest" using assms(3,4) by simp
  have "rest = [] \<or> hd rest = SLASH" using assms(4) hd_dropWhile [of "\<lambda>c. c \<noteq> SLASH" src'] by auto
  then have nr: "need rest = length rest" by (auto simp: need_def)
  have "need src \<ge> Suc (length src')"
    using assms(1,2) length_dropWhile_le [of "\<lambda>c. c = SLASH" "tl src"] by (cases src) (auto simp: need_def)
  then show "1 + length c + need rest \<le> need src" using sr nr by simp
  have "hd src' \<noteq> SLASH" using assms(1,2) hd_dropWhile [of "\<lambda>c. c = SLASH" src] by simp
  then show "c \<noteq> []" using assms(2,3) by (cases src') simp_all
  show "SLASH \<notin> set c" using assms(3) by (auto dest: set_takeWhileD)
  have "set src' \<subseteq> set src" using assms(1) by (auto dest: set_dropWhileD)
  then show "set c \<subseteq> set src" "set rest \<subseteq> set src" using sr by auto
qed

lemma process_input_holds:
  "holds sz fl cs b \<Longrightarrow> 0 \<notin> set src \<Longrightarrow>
   \<exists>err fl' b'. process_input src b = Some (err, b') \<and> length (fst b') = sz \<and>
     (err = 0 \<and> holds sz fl' (resolve cs (components src)) b' \<and> snd b' \<le> snd b + need src \<or>
      err = - ENAMETOOLONG \<and> sz \<le> snd b + need src)"
proof (induction "length src" arbitrary: src fl cs b rule: less_induct)
  case less
  let ?src = "dropWhile (\<lambda>c. c = SLASH) src"
  let ?c = "takeWhile (\<lambda>c. c \<noteq> SLASH) ?src" and ?rest = "dropWhile (\<lambda>c. c \<noteq> SLASH) ?src"
  obtain out pos where b: "b = (out, pos)" by (cases b)
  show ?case
  proof (cases "?src = []")
    case True
    then have "components src = []" "process_input src b = Some (0, b)"
      by (simp_all add: components.simps [of src] process_input.simps [of src])
    moreover have "length (fst b) = sz" using less.prems(1) by (auto simp: holds_def)
    ultimately show ?thesis using less.prems(1) by (intro exI [of _ 0] exI [of _ fl] exI [of _ b]) simp
  next
    case False
    note sp = need_split [OF refl False refl refl]
    have comps: "components src = ?c # components ?rest"
      using False by (simp add: components.simps [of src] Let_def)
    have IH: "holds sz fl cs' b' \<Longrightarrow> \<exists>err fl' b''. process_input ?rest b' = Some (err, b'') \<and> length (fst b'') = sz \<and>
       (err = 0 \<and> holds sz fl' (resolve cs' (components ?rest)) b'' \<and> snd b'' \<le> snd b' + need ?rest \<or>
        err = - ENAMETOOLONG \<and> sz \<le> snd b' + need ?rest)" for fl cs' b'
      using less.hyps [OF drop_component_shorter [OF refl False], of fl cs' b'] less.prems(2) sp(5) by blast
    have c0: "0 \<notin> set ?c" using sp(4) less.prems(2) by blast
    note pi = process_input.simps [of src b, unfolded Let_def, simplified False, simplified]
    consider (dot) "?c = [DOT]" | (dd) "?c = [DOT, DOT]" | (nm) "?c \<noteq> [DOT]" "?c \<noteq> [DOT, DOT]" by blast
    then show ?thesis
    proof cases
      case dot
      then have "process_input src b = process_input ?rest b" using pi by simp
      then show ?thesis using IH [OF less.prems(1)] sp(1) comps dot by fastforce
    next
      case dd
      obtain fl' b' where p: "pop_component b = Some b'" "snd b' \<le> pos" "holds sz fl' (butlast cs) b'"
        using pop_holds less.prems(1) unfolding b by blast
      then have "process_input src b = process_input ?rest b'" using pi dd by simp
      then show ?thesis using IH [OF p(3)] sp(1) comps dd p(2) b by fastforce
    next
      case nm
      have ne: "\<not> (length ?c = 1 \<and> ?c ! 0 = DOT)" "\<not> (length ?c = 2 \<and> ?c ! 0 = DOT \<and> ?c ! 1 = DOT)"
        using nm by (auto simp: length_Suc_conv numeral_2_eq_2)
      then have pr: "process_input src b = do { (err, b) \<leftarrow> append_component ?c b;
             if err \<noteq> 0 then Some (err, b) else process_input ?rest b }" using pi by auto
      show ?thesis
      proof (cases "pos + 1 + length ?c < sz")
        case True
        obtain b' where a: "append_component ?c b = Some (0, b')" "snd b' = pos + 1 + length ?c"
          "holds sz fl (cs @ [?c]) b'"
          using append_holds [OF less.prems(1) [unfolded b] sp(2,3) c0 True] b by blast
        then have "process_input src b = process_input ?rest b'" using pr by simp
        then show ?thesis using IH [OF a(3)] sp(1) comps nm a(2) b by fastforce
      next
        case F: False
        have "length out = sz" using less.prems(1) b by (simp add: holds_def)
        then show ?thesis using append_too_long [OF _ F] pr sp(1) F b by auto
      qed
    qed
  qed
qed

section \<open>Correctness\<close>

lemma resolve_append: "resolve st (xs @ ys) = resolve (resolve st xs) ys"
  by (induction xs arbitrary: st) auto

lemma resolve_no_dots:
  "[DOT] \<notin> set st \<Longrightarrow> [DOT, DOT] \<notin> set st \<Longrightarrow> set (resolve st cs) \<inter> {[DOT], [DOT, DOT]} = {}"
  by (induction cs arbitrary: st) (auto dest: in_set_butlastD)

lemma holds_str:
  assumes h: "holds sz fl cs (out, pos)"
  shows "str_of out = (if fl then [SLASH] else []) @ render cs" "components (str_of out) = cs"
proof -
  let ?w = "(if fl then [SLASH] else []) @ render cs"
  have n: "names cs" and t: "take (Suc pos) out = ?w @ [0]" using h by (auto simp: holds_def)
  have "out = ?w @ 0 # drop (Suc pos) out" using t append_take_drop_id [of "Suc pos" out] by simp
  moreover have "0 \<notin> set ?w" using render_nonzero [OF n] by simp
  ultimately show w: "str_of out = ?w"
  proof -
    assume o: "out = ?w @ 0 # drop (Suc pos) out" and z: "0 \<notin> set ?w"
    have "takeWhile (\<lambda>c. c \<noteq> 0) (?w @ 0 # drop (Suc pos) out) = ?w"
      using z by (subst takeWhile_append2) auto
    then show ?thesis unfolding str_of_def using o by metis
  qed
  show "components (str_of out) = cs" unfolding w using components_render [OF n] by simp
qed

definition normal_path :: "u8 list list \<Rightarrow> u8 list \<Rightarrow> bool" where
  "normal_path cs out \<longleftrightarrow> str_of out \<noteq> [] \<and> hd (str_of out) = SLASH \<and> components (str_of out) = resolve [] cs"

text \<open>The end of \<^verbatim>\<open>path_normalize\<close>: an empty buffer becomes the root.\<close>

lemma finish_holds:
  assumes "holds sz fl (resolve [] cs) (out, pos)" and "2 \<le> sz"
  shows "\<exists>out'. (if pos = 0 then do { out \<leftarrow> arr_set out 0 SLASH; out \<leftarrow> arr_set out 1 0; Some (0 :: int, out) }
            else Some (0, out)) = Some (0, out') \<and> length out' = sz \<and> normal_path cs out'"
proof (cases "pos = 0")
  case True
  have l: "length out = sz" using assms(1) by (simp add: holds_def)
  then obtain a b xs where o: "out = a # b # xs" using assms(2) by (auto simp: Suc_le_length_iff numeral_2_eq_2)
  have "resolve [] cs = []" using holds_pos [OF assms(1)] True by (cases "resolve [] cs") (auto split: if_splits)
  then show ?thesis using True o l by (auto simp: normal_path_def str_of_def)
next
  case False
  then have "str_of out \<noteq> []" using holds_str(1) [OF assms(1)] holds_pos [OF assms(1)] by auto
  moreover have "hd (str_of out) = SLASH"
    using calculation holds_str(1) [OF assms(1)] by (cases "resolve [] cs"; cases fl) auto
  ultimately show ?thesis using False assms holds_str(2) [OF assms(1)] by (auto simp: normal_path_def holds_def)
qed

lemma path_normalize_spec:
  assumes "2 \<le> length out" and "0 \<notin> set input" and "0 \<notin> set cwd" and "cwd \<noteq> []" and "hd cwd = SLASH"
  shows "\<exists>err out'. path_normalize (Some cwd) (Some input) (Some out) = Some (err, out') \<and> length out' = length out \<and>
     (err = 0 \<and> normal_path (if input \<noteq> [] \<and> hd input = SLASH then components input
                             else components cwd @ components input) out' \<and>
        set (components (str_of out')) \<inter> {[DOT], [DOT, DOT]} = {} \<or>
      err = - ENAMETOOLONG \<and> length out \<le> length cwd + length input + 1)"
proof -
  let ?sz = "length out" and ?abs = "input \<noteq> [] \<and> hd input = SLASH"
  let ?cs = "if ?abs then components input else components cwd @ components input"
  have h0: "holds ?sz False [] (out[0 := 0], 0)" using assms(1) by (cases out) (auto simp: holds_def)
  have set0: "arr_set out 0 0 = Some (out[0 := 0])" using assms(1) by (cases out) simp_all
  define r where "r = (if ?abs then process_input input (out[0 := 0], 0) else
     do { (err, b) \<leftarrow> process_input cwd (out[0 := 0], 0); if err \<noteq> 0 then Some (err, b) else process_input input b })"
  have "\<exists>err fl b. r = Some (err, b) \<and> length (fst b) = ?sz \<and>
     (err = 0 \<and> holds ?sz fl (resolve [] ?cs) b \<or> err = - ENAMETOOLONG \<and> ?sz \<le> length cwd + length input + 1)"
  proof (cases ?abs)
    case True
    then show ?thesis using process_input_holds [OF h0 assms(2)] by (auto simp: r_def need_def)
  next
    case False
    obtain err fl b where c: "process_input cwd (out[0 := 0], 0) = Some (err, b)" "length (fst b) = ?sz"
      "err = 0 \<and> holds ?sz fl (resolve [] (components cwd)) b \<and> snd b \<le> length cwd \<or>
       err = - ENAMETOOLONG \<and> ?sz \<le> length cwd"
      using process_input_holds [OF h0 assms(3)] assms(4,5) by (auto simp: need_def)
    show ?thesis
    proof (cases "err = 0")
      case True
      then have h1: "holds ?sz fl (resolve [] (components cwd)) b" "snd b \<le> length cwd" using c(3) by auto
      obtain err2 fl2 b2 where i: "process_input input b = Some (err2, b2)" "length (fst b2) = ?sz"
        "err2 = 0 \<and> holds ?sz fl2 (resolve (resolve [] (components cwd)) (components input)) b2 \<and> snd b2 \<le> snd b + need input \<or>
         err2 = - ENAMETOOLONG \<and> ?sz \<le> snd b + need input" using process_input_holds [OF h1(1) assms(2)] by blast
      have "r = Some (err2, b2)" unfolding r_def using False c(1) True i(1) by auto
      moreover have "need input \<le> length input + 1" by (simp add: need_def)
      ultimately show ?thesis using i(2,3) h1(2) unfolding if_not_P [OF False] resolve_append
        by (intro exI [of _ err2] exI [of _ fl2] exI [of _ b2]) auto
    qed (use c False in \<open>cases b; auto simp: r_def\<close>)
  qed
  then obtain err fl out1 pos where r: "r = Some (err, (out1, pos))" "length out1 = ?sz"
     "err = 0 \<and> holds ?sz fl (resolve [] ?cs) (out1, pos) \<or> err = - ENAMETOOLONG \<and> ?sz \<le> length cwd + length input + 1"
    by auto
  have pn: "path_normalize (Some cwd) (Some input) (Some out) = (if err \<noteq> 0 then Some (err, out1)
      else if pos = 0 then do { out \<leftarrow> arr_set out1 0 SLASH; out \<leftarrow> arr_set out 1 0; Some (0, out) } else Some (0, out1))"
  proof -
    have "path_normalize (Some cwd) (Some input) (Some out) = do { (err, (out, pos)) \<leftarrow> r;
        if err \<noteq> 0 then Some (err, out)
        else if pos = 0 then do { out \<leftarrow> arr_set out 0 SLASH; out \<leftarrow> arr_set out 1 0; Some (0, out) }
        else Some (0, out) }"
      using assms(1,4,5) set0 unfolding path_normalize_def r_def by (simp del: Option.bind_assoc)
    then show ?thesis unfolding r(1) by simp
  qed
  show ?thesis
  proof (cases "err = 0")
    case True
    then obtain out' where o: "path_normalize (Some cwd) (Some input) (Some out) = Some (0, out')"
      "length out' = ?sz" "normal_path ?cs out'" using finish_holds r(3) assms(1) pn by force
    then have "set (components (str_of out')) \<inter> {[DOT], [DOT, DOT]} = {}"
      using resolve_no_dots [of "[]" ?cs] by (simp add: normal_path_def)
    then show ?thesis using o by blast
  qed (use pn r in auto)
qed

text \<open>
  C27.  Normalising an absolute path, or a relative one against an absolute working directory,
  returns without leaving the buffer.  Either the buffer holds an absolute path whose components
  are those of the input with \<^verbatim>\<open>.\<close> and \<^verbatim>\<open>..\<close> resolved, none of them left over, or the result is
  \<open>ENAMETOOLONG\<close>, and then the buffer is not larger than the two strings together.
\<close>

theorem path_normalize_correct:
  assumes "2 \<le> length out" and "0 \<notin> set input" and "0 \<notin> set cwd" and "cwd \<noteq> []" and "hd cwd = SLASH"
  shows "\<exists>err out'. path_normalize (Some cwd) (Some input) (Some out) = Some (err, out') \<and> length out' = length out \<and>
     (err = 0 \<and> normal_path (if input \<noteq> [] \<and> hd input = SLASH then components input
                             else components cwd @ components input) out' \<and>
        set (components (str_of out')) \<inter> {[DOT], [DOT, DOT]} = {} \<or>
      err = - ENAMETOOLONG \<and> length out \<le> length cwd + length input + 1)"
  by (rule path_normalize_spec [OF assms])

theorem path_normalize_correct_witness:
  "\<exists>out'. path_normalize (Some [47, 104]) (Some [46, 46, 47, 98]) (Some (replicate 9 0)) = Some (0, out') \<and>
     components (str_of out') = [[98]]"
  using path_normalize_correct [of "replicate 9 0" "[46, 46, 47, 98]" "[47, 104]"]
  by (auto simp: normal_path_def components.simps [of "47 # _"] components.simps [of "46 # _"]
      components.simps [of "98 # _"] components.simps [of "104 # _"])

text \<open>
  A \<^verbatim>\<open>..\<close> that reaches the root leaves its slash in the buffer, so the next name is written after
  two slashes: \<^verbatim>\<open>/a/../b\<close> becomes \<^verbatim>\<open>//b\<close>, although \<^verbatim>\<open>path.h\<close> promises collapsed slashes.
\<close>

lemma path_normalize_double_slash:
  "path_normalize None (Some [47, 97, 47, 46, 46, 47, 98]) (Some (replicate 8 0)) =
     Some (0, [47, 47, 98, 0, 0, 0, 0, 0])"
  by code_simp

end
