(* ===== verification/Vfs.thy ===== *)
theory Vfs
  imports Ramfs Tty Path
begin

text \<open>
  The virtual file system (\<^verbatim>\<open>kernel/fs/vfs.c\<close>) and the device file system (\<^verbatim>\<open>kernel/fs/devfs.c\<close>).

  The operation tables of C are the constructors of \<open>VfsOps\<close>; calling through a table is a case
  distinction, and an operation a table leaves out is \<open>None\<close> in \<open>has_*\<close>.  Strings are byte lists
  without terminator, a null path is \<open>None\<close>.  Reads and writes of pipes and of the terminal may put
  the caller to sleep; a pass then ends with \<open>Inl\<close>.  Tables of file systems outside this development
  (FAT32, procfs) are not among the constructors.
\<close>

section \<open>Devices\<close>

definition devfs_null_read :: "u32 \<Rightarrow> int \<times> u8 list" where "devfs_null_read sz = (0, [])"

definition devfs_null_write :: "u8 list \<Rightarrow> int" where "devfs_null_write src = int (length src)"

definition devfs_zero_read :: "u32 \<Rightarrow> int \<times> u8 list" where "devfs_zero_read sz = (sint sz, replicate (unat sz) 0)"

definition devfs_zero_write :: "u8 list \<Rightarrow> int" where "devfs_zero_write src = int (length src)"

definition devfs_tty_read :: "u32 \<Rightarrow> kernel \<Rightarrow> ((unit + u8 list) \<times> kernel) option" where
  "devfs_tty_read sz s = tty_read_pass sz s"

definition devfs_tty_write :: "u8 list \<Rightarrow> kernel \<Rightarrow> int \<times> kernel" where
  "devfs_tty_write src s = tty_write src s"

definition dev_entries :: "kernel \<Rightarrow> (u8 list \<times> u64) list" where
  "dev_entries s = [([110, 117, 108, 108], dev_null_node s), ([122, 101, 114, 111], dev_zero_node s), ([116, 116, 121], dev_tty_node s)]"

definition devfs_dir_lookup :: "u8 list \<Rightarrow> kernel \<Rightarrow> u64" where
  "devfs_dir_lookup name s = (case find (\<lambda>e. fst e = name) (dev_entries s) of None \<Rightarrow> 0 | Some e \<Rightarrow> snd e)"

definition devfs_dir_readdir :: "u32 \<Rightarrow> kernel \<Rightarrow> int \<times> VfsDirEntry list" where
  "devfs_dir_readdir mx s =
     (let count = (if 3 < unat mx then 3 else unat mx) in
      (int count, map (\<lambda>(name, n). \<lparr>de_name = name, de_inode_num = inode_num (vnodes s n), de_type = ntype (vnodes s n)\<rparr>)
         (take count (dev_entries s))))"

definition devfs_init_node :: "u64 \<Rightarrow> u64 \<Rightarrow> u8 \<Rightarrow> u32 \<Rightarrow> VfsOps \<Rightarrow> kernel \<Rightarrow> kernel" where
  "devfs_init_node n ino ty m op =
     nset n (\<lambda>v. v\<lparr>inode_num := ino, ntype := ty, nsize := 0, mode := m, ops := op, private_data := n\<rparr>)"

definition devfs_init :: "kernel \<Rightarrow> u64 \<times> kernel" where
  "devfs_init s =
     (let s = devfs_init_node (dev_root_node s) 1000 VFS_DIRECTORY 493 devfs_dir_ops s;
          s = devfs_init_node (dev_null_node s) 1001 VFS_FILE 438 devfs_null_ops s;
          s = devfs_init_node (dev_zero_node s) 1002 VFS_FILE 438 devfs_zero_ops s;
          s = devfs_init_node (dev_tty_node s) 1003 VFS_FILE 438 devfs_tty_ops s
      in (dev_root_node s, s))"

section \<open>Calls through the operation tables\<close>

fun has_read :: "VfsOps \<Rightarrow> bool" where
  "has_read ramfs_ops = True" | "has_read pipe_read_ops = True" | "has_read devfs_null_ops = True"
| "has_read devfs_zero_ops = True" | "has_read devfs_tty_ops = True" | "has_read _ = False"

fun has_write :: "VfsOps \<Rightarrow> bool" where
  "has_write ramfs_ops = True" | "has_write pipe_write_ops = True" | "has_write devfs_null_ops = True"
| "has_write devfs_zero_ops = True" | "has_write devfs_tty_ops = True" | "has_write _ = False"

fun has_lookup :: "VfsOps \<Rightarrow> bool" where
  "has_lookup ramfs_ops = True" | "has_lookup devfs_dir_ops = True" | "has_lookup _ = False"

text \<open>Creating, unlinking and truncating are operations of the RAM file system only.\<close>

definition has_create :: "VfsOps \<Rightarrow> bool" where "has_create op = (op = ramfs_ops)"

definition ops_read :: "u64 \<Rightarrow> u32 \<Rightarrow> u32 \<Rightarrow> kernel \<Rightarrow> ((unit + int \<times> u8 list) \<times> kernel) option" where
  "ops_read node off sz s =
     (let blocking = (\<lambda>(r, s). (case r of Inl u \<Rightarrow> Inl u | Inr bs \<Rightarrow> Inr (int (length bs), bs), s)) in
      case ops (vnodes s node) of
        ramfs_ops \<Rightarrow> Some (Inr (ramfs_read node off sz s), s)
      | pipe_read_ops \<Rightarrow> map_option blocking (pipe_read_pass node sz s)
      | devfs_null_ops \<Rightarrow> Some (Inr (devfs_null_read sz), s)
      | devfs_zero_ops \<Rightarrow> Some (Inr (devfs_zero_read sz), s)
      | devfs_tty_ops \<Rightarrow> map_option blocking (devfs_tty_read sz s)
      | _ \<Rightarrow> None)"

definition ops_write :: "u64 \<Rightarrow> u8 list \<Rightarrow> u32 \<Rightarrow> kernel \<Rightarrow> (((nat \<times> u8 list) + int) \<times> kernel) option" where
  "ops_write node src off s =
     (case ops (vnodes s node) of
        ramfs_ops \<Rightarrow> map_option (\<lambda>(r, s). (Inr r, s)) (ramfs_write node src off s)
      | pipe_write_ops \<Rightarrow> pipe_write_pass node 0 src s
      | devfs_null_ops \<Rightarrow> Some (Inr (devfs_null_write src), s)
      | devfs_zero_ops \<Rightarrow> Some (Inr (devfs_zero_write src), s)
      | devfs_tty_ops \<Rightarrow> (let (r, s) = devfs_tty_write src s in Some (Inr r, s))
      | _ \<Rightarrow> None)"

definition ops_lookup :: "u64 \<Rightarrow> u8 list \<Rightarrow> kernel \<Rightarrow> u64" where
  "ops_lookup node name s =
     (case ops (vnodes s node) of ramfs_ops \<Rightarrow> ramfs_lookup node name s | devfs_dir_ops \<Rightarrow> devfs_dir_lookup name s | _ \<Rightarrow> 0)"

section \<open>Permissions and the root\<close>

abbreviation R_OK :: u32 where "R_OK \<equiv> 4"
abbreviation W_OK :: u32 where "W_OK \<equiv> 2"
abbreviation X_OK :: u32 where "X_OK \<equiv> 1"
abbreviation O_RDONLY :: u32 where "O_RDONLY \<equiv> 0"
abbreviation O_WRONLY :: u32 where "O_WRONLY \<equiv> 1"
abbreviation O_RDWR :: u32 where "O_RDWR \<equiv> 2"
abbreviation O_CREAT :: u32 where "O_CREAT \<equiv> 0x40"
abbreviation O_TRUNC :: u32 where "O_TRUNC \<equiv> 0x200"
abbreviation O_APPEND :: u32 where "O_APPEND \<equiv> 0x400"
abbreviation O_ACCMODE :: u32 where "O_ACCMODE \<equiv> 3"
abbreviation VFS_NAME_MAX :: nat where "VFS_NAME_MAX \<equiv> 256"
abbreviation VFS_MAX_MOUNTS :: nat where "VFS_MAX_MOUNTS \<equiv> 8"

definition vfs_check_perm :: "VfsNode \<Rightarrow> u32 \<Rightarrow> u32 \<Rightarrow> u32 \<Rightarrow> int" where
  "vfs_check_perm node u g want =
     (if u = 0 then 0 else
      let perm = (if u = nuid node then drop_bit 6 (mode node) AND 7
                  else if g = ngid node then drop_bit 3 (mode node) AND 7
                  else mode node AND 7)
      in if perm AND want = want then 0 else - EACCES)"

definition vfs_init :: "kernel \<Rightarrow> kernel" where "vfs_init s = s\<lparr>vfs_root := 0\<rparr>"

definition vfs_set_root :: "u64 \<Rightarrow> kernel \<Rightarrow> kernel" where "vfs_set_root n s = s\<lparr>vfs_root := n\<rparr>"

definition vfs_get_root :: "kernel \<Rightarrow> u64" where "vfs_get_root s = vfs_root s"

section \<open>Path resolution\<close>

text \<open>The next component, cut to \<open>comp_size - 1\<close> bytes, and the rest of the path; \<open>None\<close> at the end.\<close>

definition path_next_component :: "u8 list \<Rightarrow> nat \<Rightarrow> (u8 list \<times> u8 list) option" where
  "path_next_component xs comp_size =
     (let xs = dropWhile (\<lambda>c. c = SLASH) xs in
      if xs = [] then None else
      let cmp = take (comp_size - 1) (takeWhile (\<lambda>c. c \<noteq> SLASH) xs)
      in Some (cmp, dropWhile (\<lambda>c. c = SLASH) (drop (length cmp) xs)))"

definition vfs_find_mount :: "u8 list \<Rightarrow> kernel \<Rightarrow> u64" where
  "vfs_find_mount name s = (case find (\<lambda>(n, r). r \<noteq> 0 \<and> n = name) (mount_table s) of None \<Rightarrow> 0 | Some (n, r) \<Rightarrow> r)"

definition is_dir :: "u64 \<Rightarrow> kernel \<Rightarrow> bool" where
  "is_dir node s \<longleftrightarrow> ntype (vnodes s node) = VFS_DIRECTORY \<and> ops (vnodes s node) \<noteq> No_ops \<and> has_lookup (ops (vnodes s node))"

definition child_of :: "u64 \<Rightarrow> u8 list \<Rightarrow> kernel \<Rightarrow> u64" where
  "child_of node cmp s =
     (let child = ops_lookup node cmp s in if child = 0 \<and> node = vfs_root s then vfs_find_mount cmp s else child)"

lemma path_next_component_shorter:
  assumes "path_next_component xs n = Some (cmp, rest)" and "1 < n"
  shows "length rest < length xs"
proof -
  let ?p = "dropWhile (\<lambda>c. c = SLASH) xs" and ?w = "\<lambda>p. takeWhile (\<lambda>c. c \<noteq> SLASH) p"
  have ne: "?p \<noteq> []" and c: "cmp = take (n - 1) (?w ?p)" and r: "rest = dropWhile (\<lambda>c. c = SLASH) (drop (length cmp) ?p)"
    using assms(1) by (auto simp: path_next_component_def Let_def split: if_splits)
  have "hd ?p \<noteq> SLASH" using hd_dropWhile [OF ne] by simp
  then have "?w ?p \<noteq> []" using ne by (cases ?p) auto
  then have "0 < length cmp" using c assms(2) by simp
  then have "length (drop (length cmp) ?p) < length ?p" using ne by simp
  then show ?thesis unfolding r
    using length_dropWhile_le [of "\<lambda>c. c = SLASH" "drop (length cmp) ?p"] length_dropWhile_le [of "\<lambda>c. c = SLASH" xs] by linarith
qed

function resolve_walk :: "u8 list \<Rightarrow> u64 \<Rightarrow> kernel \<Rightarrow> u64" where
  "resolve_walk cursor node s =
     (case path_next_component cursor VFS_NAME_MAX of
        None \<Rightarrow> node
      | Some (cmp, rest) \<Rightarrow>
          if \<not> is_dir node s then 0
          else if child_of node cmp s = 0 then 0 else resolve_walk rest (child_of node cmp s) s)"
  by pat_completeness auto
termination
  by (relation "measure (\<lambda>(xs, _, _). length xs)") (auto dest: path_next_component_shorter)

declare resolve_walk.simps [simp del]

definition vfs_resolve :: "u8 list option \<Rightarrow> kernel \<Rightarrow> u64" where
  "vfs_resolve pth s =
     (case pth of None \<Rightarrow> 0
      | Some xs \<Rightarrow> if xs = [] \<or> hd xs \<noteq> SLASH \<or> vfs_root s = 0 then 0 else resolve_walk xs (vfs_root s) s)"

text \<open>The walk to the parent: it stops when at most \<open>m\<close> bytes, the last slash and the name, are left.\<close>

function parent_walk :: "nat \<Rightarrow> u8 list \<Rightarrow> u64 \<Rightarrow> kernel \<Rightarrow> int + u64" where
  "parent_walk m cursor node s =
     (if length cursor > m then
        (case path_next_component cursor VFS_NAME_MAX of
           None \<Rightarrow> Inr node
         | Some (cmp, rest) \<Rightarrow>
             if \<not> is_dir node s then Inl ENOTDIR
             else if child_of node cmp s = 0 then Inl ENOENT
             else parent_walk m rest (child_of node cmp s) s)
      else Inr node)"
  by pat_completeness auto
termination
  by (relation "measure (\<lambda>(_, xs, _, _). length xs)") (auto dest: path_next_component_shorter)

declare parent_walk.simps [simp del]

definition vfs_resolve_parent :: "u8 list option \<Rightarrow> kernel \<Rightarrow> int + (u64 \<times> u8 list)" where
  "vfs_resolve_parent pth s =
     (case pth of None \<Rightarrow> Inl EINVAL
      | Some xs \<Rightarrow>
          if xs = [] \<or> hd xs \<noteq> SLASH \<or> vfs_root s = 0 then Inl EINVAL else
          let name = rev (takeWhile (\<lambda>c. c \<noteq> SLASH) (rev xs)) in
          if name = [] then Inl EINVAL else
          let name_out = take (VFS_NAME_MAX - 1) name in
          if length xs = length name + 1 then Inr (vfs_root s, name_out) else
          (case parent_walk (length name + 1) xs (vfs_root s) s of
             Inl err \<Rightarrow> Inl err
           | Inr node \<Rightarrow> if ntype (vnodes s node) \<noteq> VFS_DIRECTORY then Inl ENOTDIR else Inr (node, name_out)))"

section \<open>Files\<close>

definition may_change :: "u64 \<Rightarrow> kernel \<Rightarrow> int" where
  "may_change par s =
     (let p = proc_current s in
      if p \<noteq> 0 then vfs_check_perm (vnodes s par) (euid (procs s p)) (egid (procs s p)) (W_OK OR X_OK) else 0)"

definition open_perm :: "u64 \<Rightarrow> u32 \<Rightarrow> kernel \<Rightarrow> int" where
  "open_perm node flags s =
     (let p = proc_current s in
      if p = 0 then 0 else
      let acc = flags AND O_ACCMODE;
          want = (if acc = O_RDONLY \<or> acc = O_RDWR then R_OK else 0);
          want = (if acc = O_WRONLY \<or> acc = O_RDWR then want OR W_OK else want)
      in if want \<noteq> 0 then vfs_check_perm (vnodes s node) (euid (procs s p)) (egid (procs s p)) want else 0)"

text \<open>The part of \<^verbatim>\<open>vfs_open\<close> that creates a file: an error, or the new node.\<close>

definition open_create :: "u8 list option \<Rightarrow> u32 \<Rightarrow> kernel \<Rightarrow> ((int + u64) \<times> kernel) option" where
  "open_create pth flags s =
     (if flags AND O_CREAT = 0 then Some (Inl (- ENOENT), s) else
      case vfs_resolve_parent pth s of
        Inl err \<Rightarrow> Some (Inl (- err), s)
      | Inr (par, name) \<Rightarrow>
          let perr = may_change par s in
          if perr \<noteq> 0 then Some (Inl perr, s)
          else if ops (vnodes s par) = No_ops \<or> \<not> has_create (ops (vnodes s par)) then Some (Inl (- EINVAL), s)
          else do { (node, s) \<leftarrow> ramfs_create par name VFS_FILE s;
                    if node = 0 then Some (Inl (- ENOMEM), s) else
                    let p = proc_current s in
                    Some (Inr node,
                      if p \<noteq> 0
                      then nset node (\<lambda>v. v\<lparr>nuid := euid (procs s p), ngid := egid (procs s p),
                             mode := 438 AND NOT (umask (procs s p))\<rparr>) s
                      else nset node (\<lambda>v. v\<lparr>mode := 438\<rparr>) s) })"

definition vfs_open :: "u8 list option \<Rightarrow> u32 \<Rightarrow> bool \<Rightarrow> kernel \<Rightarrow> (int \<times> VfsFile option \<times> kernel) option" where
  "vfs_open pth flags out s =
     (if \<not> out then Some (- EINVAL, None, s) else
      let node = vfs_resolve pth s in
      if node \<noteq> 0 \<and> open_perm node flags s \<noteq> 0 then Some (open_perm node flags s, None, s) else
      do { (r, s) \<leftarrow> (if node = 0 then open_create pth flags s else Some (Inr node, s));
           case r of Inl err \<Rightarrow> Some (err, None, s)
           | Inr node \<Rightarrow>
               if ntype (vnodes s node) = VFS_DIRECTORY then Some (- EISDIR, None, s) else
               do { s \<leftarrow> (if flags AND O_TRUNC \<noteq> 0 \<and> ops (vnodes s node) = ramfs_ops then ramfs_truncate node 0 s else Some s);
                    Some (0, Some \<lparr>fnode = node, offset = (if flags AND O_APPEND \<noteq> 0 then nsize (vnodes s node) else 0),
                                   fflags = flags\<rparr>, s) } })"

definition vfs_close :: "VfsFile option \<Rightarrow> int \<times> VfsFile option" where
  "vfs_close file = (case file of None \<Rightarrow> (- EINVAL, None) | Some f \<Rightarrow> (0, Some (f\<lparr>fnode := 0, offset := 0, fflags := 0\<rparr>)))"

text \<open>\<open>ubuf\<close> says whether the caller passes a buffer.\<close>

definition vfs_read :: "VfsFile option \<Rightarrow> bool \<Rightarrow> u32 \<Rightarrow> kernel \<Rightarrow> ((unit + int \<times> u8 list) \<times> VfsFile option \<times> kernel) option" where
  "vfs_read file ubuf sz s =
     (case file of None \<Rightarrow> Some (Inr (- EINVAL, []), None, s)
      | Some f \<Rightarrow>
          if fnode f = 0 \<or> \<not> ubuf then Some (Inr (- EINVAL, []), file, s)
          else if fflags f AND O_ACCMODE = O_WRONLY then Some (Inr (- EINVAL, []), file, s)
          else if ops (vnodes s (fnode f)) = No_ops \<or> \<not> has_read (ops (vnodes s (fnode f))) then Some (Inr (- EINVAL, []), file, s)
          else do { (r, s) \<leftarrow> ops_read (fnode f) (ucast (offset f)) sz s;
                    Some (case r of Inl u \<Rightarrow> (Inl u, file, s)
                          | Inr (n, bs) \<Rightarrow> (Inr (n, bs), Some (if n > 0 then f\<lparr>offset := offset f + of_int n\<rparr> else f), s)) })"

definition vfs_write :: "VfsFile option \<Rightarrow> u8 list option \<Rightarrow> kernel \<Rightarrow> (((nat \<times> u8 list) + int) \<times> VfsFile option \<times> kernel) option" where
  "vfs_write file ubuf s =
     (case (file, ubuf) of
        (Some f, Some src) \<Rightarrow>
          if fnode f = 0 then Some (Inr (- EINVAL), file, s)
          else if fflags f AND O_ACCMODE = O_RDONLY then Some (Inr (- EINVAL), file, s)
          else if ops (vnodes s (fnode f)) = No_ops \<or> \<not> has_write (ops (vnodes s (fnode f))) then Some (Inr (- EINVAL), file, s)
          else
            let f = (if fflags f AND O_APPEND \<noteq> 0 then f\<lparr>offset := nsize (vnodes s (fnode f))\<rparr> else f) in
            do { (r, s) \<leftarrow> ops_write (fnode f) src (ucast (offset f)) s;
                 Some (case r of Inl p \<Rightarrow> (Inl p, Some f, s)
                       | Inr n \<Rightarrow> (Inr n, Some (if n > 0 then f\<lparr>offset := offset f + of_int n\<rparr> else f), s)) }
      | _ \<Rightarrow> Some (Inr (- EINVAL), file, s))"

definition vfs_seek :: "VfsFile option \<Rightarrow> u64 \<Rightarrow> int \<Rightarrow> kernel \<Rightarrow> int \<times> VfsFile option" where
  "vfs_seek file off whence s =
     (case file of None \<Rightarrow> (- EINVAL, None)
      | Some f \<Rightarrow>
          if fnode f = 0 then (- EINVAL, file) else
          if whence \<notin> {0, 1, 2} then (- EINVAL, file) else
          let new_offset = (if whence = 0 then off else if whence = 1 then offset f + off else nsize (vnodes s (fnode f)) + off) in
          if sint new_offset < 0 then (- EINVAL, file) else (0, Some (f\<lparr>offset := new_offset\<rparr>)))"

record VfsStat =
  st_inode_num :: u64
  st_type :: u8
  st_size :: u64
  st_mode :: u32
  st_uid :: u32
  st_gid :: u32

definition vfs_stat :: "u8 list option \<Rightarrow> bool \<Rightarrow> kernel \<Rightarrow> int \<times> VfsStat option" where
  "vfs_stat pth out s =
     (if \<not> out then (- EINVAL, None) else
      let node = vfs_resolve pth s; v = vnodes s node in
      if node = 0 then (- ENOENT, None) else
      (0, Some \<lparr>st_inode_num = inode_num v, st_type = ntype v, st_size = nsize v, st_mode = mode v, st_uid = nuid v, st_gid = ngid v\<rparr>))"

section \<open>Directories and mounts\<close>

definition vfs_mkdir :: "u8 list option \<Rightarrow> u32 \<Rightarrow> kernel \<Rightarrow> (int \<times> kernel) option" where
  "vfs_mkdir pth m s =
     (if pth = None \<or> vfs_root s = 0 then Some (- EINVAL, s)
      else if vfs_resolve pth s \<noteq> 0 then Some (- EEXIST, s)
      else case vfs_resolve_parent pth s of
        Inl err \<Rightarrow> Some (- err, s)
      | Inr (par, name) \<Rightarrow>
          let perr = may_change par s in
          if perr \<noteq> 0 then Some (perr, s)
          else if ops (vnodes s par) = No_ops \<or> \<not> has_create (ops (vnodes s par)) then Some (- EINVAL, s)
          else do { (d, s) \<leftarrow> ramfs_create par name VFS_DIRECTORY s;
                    if d = 0 then Some (- ENOMEM, s) else
                    let p = proc_current s in
                    Some (0, if p \<noteq> 0
                             then nset d (\<lambda>v. v\<lparr>mode := m AND NOT (umask (procs s p)), nuid := euid (procs s p), ngid := egid (procs s p)\<rparr>) s
                             else nset d (\<lambda>v. v\<lparr>mode := m\<rparr>) s) })"

definition vfs_readdir :: "u8 list option \<Rightarrow> bool \<Rightarrow> u32 \<Rightarrow> kernel \<Rightarrow> int \<times> VfsDirEntry list" where
  "vfs_readdir pth out mx s =
     (if \<not> out then (- EINVAL, []) else
      let node = vfs_resolve pth s; v = vnodes s node in
      if node = 0 then (- ENOENT, [])
      else if ntype v \<noteq> VFS_DIRECTORY then (- ENOTDIR, [])
      else if ops v \<noteq> ramfs_ops \<and> ops v \<noteq> devfs_dir_ops then (- EINVAL, [])
      else
        let (count, es) = (if ops v = ramfs_ops then ramfs_readdir node mx s else devfs_dir_readdir mx s) in
        if node = vfs_root s \<and> count \<ge> 0 then
          fold (\<lambda>(name, r) (count, es).
              if nat count < unat mx \<and> r \<noteq> 0
              then (count + 1, es @ [\<lparr>de_name = take (VFS_NAME_MAX - 1) name, de_inode_num = inode_num (vnodes s r), de_type = ntype (vnodes s r)\<rparr>])
              else (count, es)) (mount_table s) (count, es)
        else (count, es))"

definition vfs_unlink :: "u8 list option \<Rightarrow> kernel \<Rightarrow> (int \<times> kernel) option" where
  "vfs_unlink pth s =
     (if pth = None \<or> vfs_root s = 0 then Some (- EINVAL, s) else
      case vfs_resolve_parent pth s of
        Inl err \<Rightarrow> Some (- err, s)
      | Inr (par, name) \<Rightarrow>
          let perr = may_change par s in
          if perr \<noteq> 0 then Some (perr, s)
          else if ops (vnodes s par) = No_ops \<or> \<not> has_create (ops (vnodes s par)) then Some (- EINVAL, s)
          else ramfs_unlink par name s)"

definition vfs_mount :: "u8 list option \<Rightarrow> u64 \<Rightarrow> kernel \<Rightarrow> int \<times> kernel" where
  "vfs_mount pth fs_root s =
     (case pth of None \<Rightarrow> (- EINVAL, s)
      | Some xs \<Rightarrow>
          if fs_root = 0 then (- EINVAL, s)
          else if xs = [] \<or> hd xs \<noteq> SLASH then (- EINVAL, s)
          else
            let name = tl xs in
            if name = [] \<or> SLASH \<in> set name then (- EINVAL, s)
            else if \<exists>(n, r) \<in> set (mount_table s). r \<noteq> 0 \<and> n = name then (- EEXIST, s)
            else if length (mount_table s) \<ge> VFS_MAX_MOUNTS then (- ENOMEM, s)
            else (0, s\<lparr>mount_table := mount_table s @ [(take (VFS_NAME_MAX - 1) name, fs_root)]\<rparr>))"

section \<open>What resolution computes\<close>

text \<open>The walk along a list of names.\<close>

fun walk :: "u8 list list \<Rightarrow> u64 \<Rightarrow> kernel \<Rightarrow> u64" where
  "walk [] n s = n"
| "walk (c # cs) n s = (if is_dir n s \<and> child_of n c s \<noteq> 0 then walk cs (child_of n c s) s else 0)"

lemma components_skip: "components (dropWhile (\<lambda>c. c = SLASH) xs) = components xs"
  by (subst (1 2) components.simps) simp

lemma next_component_components:
  assumes "\<And>c. c \<in> set (components xs) \<Longrightarrow> length c \<le> 255"
  shows "path_next_component xs VFS_NAME_MAX = None \<longleftrightarrow> components xs = []"
    "path_next_component xs VFS_NAME_MAX = Some (c, rest) \<Longrightarrow> components xs = c # components rest"
proof -
  let ?p = "dropWhile (\<lambda>c. c = SLASH) xs"
  have cs: "components xs = (if ?p = [] then [] else takeWhile (\<lambda>c. c \<noteq> SLASH) ?p # components (dropWhile (\<lambda>c. c \<noteq> SLASH) ?p))"
    by (subst components.simps) (simp add: Let_def)
  show "path_next_component xs VFS_NAME_MAX = None \<longleftrightarrow> components xs = []" by (simp add: path_next_component_def Let_def cs)
  assume "path_next_component xs VFS_NAME_MAX = Some (c, rest)"
  then have ne: "?p \<noteq> []" and c: "c = take 255 (takeWhile (\<lambda>c. c \<noteq> SLASH) ?p)"
    and r: "rest = dropWhile (\<lambda>c. c = SLASH) (drop (length c) ?p)"
    by (auto simp: path_next_component_def Let_def split: if_splits)
  have "length (takeWhile (\<lambda>c. c \<noteq> SLASH) ?p) \<le> 255" using assms cs ne by simp
  then have c': "c = takeWhile (\<lambda>c. c \<noteq> SLASH) ?p" using c by simp
  have "drop (length c) ?p = dropWhile (\<lambda>c. c \<noteq> SLASH) ?p" unfolding c' by (rule dropWhile_eq_drop [symmetric])
  then have "components rest = components (dropWhile (\<lambda>c. c \<noteq> SLASH) ?p)" unfolding r by (simp only: components_skip)
  then show "components xs = c # components rest" using cs ne c' by simp
qed

lemma resolve_walk_components:
  "(\<And>c. c \<in> set (components xs) \<Longrightarrow> length c \<le> 255) \<Longrightarrow> resolve_walk xs n s = walk (components xs) n s"
proof (induction xs n s rule: resolve_walk.induct)
  case (1 xs n s)
  have nc: "path_next_component xs VFS_NAME_MAX = None \<longleftrightarrow> components xs = []"
    "path_next_component xs VFS_NAME_MAX = Some (c, rest) \<Longrightarrow> components xs = c # components rest" for c rest
    using next_component_components(1) [of xs] next_component_components(2) [of xs c rest] 1(2) by auto
  show ?case
  proof (cases "path_next_component xs VFS_NAME_MAX")
    case None
    then show ?thesis using nc(1) by (simp add: resolve_walk.simps [of xs])
  next
    case (Some x)
    then obtain c rest where x: "path_next_component xs VFS_NAME_MAX = Some (c, rest)" by (cases x) auto
    have cs: "components xs = c # components rest" using nc(2) [OF x] .
    have "resolve_walk rest (child_of n c s) s = walk (components rest) (child_of n c s) s"
      if "is_dir n s" "child_of n c s \<noteq> 0"
      using 1(1) [OF x] that 1(2) cs by simp
    then show ?thesis by (simp add: resolve_walk.simps [of xs] x cs)
  qed
qed

lemma resolve_subset: "set (resolve st cs) \<subseteq> set st \<union> set cs"
  by (induction st cs rule: resolve.induct) (auto dest: in_set_butlastD)

text \<open>The permission bits that apply to a user: those of the owner, the group or the others.\<close>

definition right :: "nat \<Rightarrow> u32 \<Rightarrow> u32 \<Rightarrow> VfsNode \<Rightarrow> bool" where
  "right k u g v \<longleftrightarrow> u = 0 \<or> bit (mode v) (k + (if u = nuid v then 6 else if g = ngid v then 3 else 0))"

lemma check_perm_right:
  assumes "vfs_check_perm v u g want = 0" and "bit want k" and "k < 3"
  shows "right k u g v"
proof (cases "u = 0")
  case False
  let ?sh = "if u = nuid v then 6 else if g = ngid v then 3 else (0 :: nat)"
  have "(drop_bit ?sh (mode v) AND 7) AND want = want"
    using assms(1) False by (auto simp: vfs_check_perm_def Let_def split: if_splits)
  then have "bit ((drop_bit ?sh (mode v) AND 7) AND want) k" using assms(2) by simp
  then have "bit (drop_bit ?sh (mode v)) k" by (simp add: bit_and_iff)
  then show ?thesis by (simp add: right_def bit_drop_bit_eq add.commute)
qed (simp add: right_def)

lemma and_3_cases: "(x :: u32) AND 3 \<in> {0, 1, 2, 3}"
proof -
  have "x AND 3 = take_bit 2 x" by (simp add: take_bit_eq_mask mask_eq_exp_minus_1)
  then have "unat (x AND 3) = take_bit 2 (unat x)" by (simp only: unsigned_take_bit_eq)
  then have "unat (x AND 3) < 4" by (simp add: take_bit_eq_mod)
  moreover define k where "k = unat (x AND 3)"
  ultimately have "k = 0 \<or> k = 1 \<or> k = 2 \<or> k = 3" by linarith
  moreover have "x AND 3 = of_nat k" by (simp add: k_def)
  ultimately show ?thesis by auto
qed

section \<open>Properties\<close>


text \<open>A file system for the witnesses: a root directory with one file \<^verbatim>\<open>/a\<close>, owned by user 1000.\<close>

definition fs_example :: kernel where
  "fs_example = kernel_example\<lparr>vfs_root := 0x70, proc_table := replicate 64 0x200, procs := (\<lambda>_. zero_process\<lparr>euid := 1000\<rparr>),
     vnodes := (\<lambda>_. zero_node)(0x70 := zero_node\<lparr>ntype := VFS_DIRECTORY, ops := ramfs_ops\<rparr>,
       0x80 := zero_node\<lparr>mode := 420, nuid := 1000, ops := ramfs_ops\<rparr>),
     rnodes := (\<lambda>_. zero_ramfs)(0x70 := zero_ramfs\<lparr>children := [([97], 0x80)]\<rparr>)\<rparr>"

lemma fs_example_resolve: "vfs_resolve (Some [SLASH, 97]) fs_example = 0x80"
  by (simp add: vfs_resolve_def resolve_walk.simps [of "[SLASH, 97]"] resolve_walk.simps [of "[]"] path_next_component_def
      is_dir_def child_of_def ops_lookup_def ramfs_lookup_def ramfs_find_child_def fs_example_def zero_ramfs_def zero_node_def)

lemma fs_example_current: "proc_current fs_example = 0x200"
  by (simp add: fs_example_def proc_current_def thread_current_def kernel_example_def zero_thread_def)


text \<open>
  The access mode 3, which is none of reading, writing and both, asks for no permission at all, but
  neither \<^verbatim>\<open>vfs_read\<close> nor \<^verbatim>\<open>vfs_write\<close> refuses a handle with it: any file can be opened for both.
\<close>

lemma vfs_open_mode_3_unchecked:
  assumes "vfs_resolve pth s = n" and "n \<noteq> 0" and "ntype (vnodes s n) = VFS_FILE" and "ops (vnodes s n) = ramfs_ops"
  shows "vfs_open pth 3 True s = Some (0, Some \<lparr>fnode = n, offset = 0, fflags = 3\<rparr>, s)"
    and "vfs_write (Some \<lparr>fnode = n, offset = 0, fflags = 3\<rparr>) (Some src) s =
      do { (r, s) \<leftarrow> ramfs_write n src 0 s;
           Some (Inr r, Some (if r > 0 then \<lparr>fnode = n, offset = of_int r, fflags = 3\<rparr> else \<lparr>fnode = n, offset = 0, fflags = 3\<rparr>), s) }"
proof -
  have "open_perm n 3 s = 0" by (simp add: open_perm_def Let_def)
  then show "vfs_open pth 3 True s = Some (0, Some \<lparr>fnode = n, offset = 0, fflags = 3\<rparr>, s)"
    using assms by (simp add: vfs_open_def)
  show "vfs_write (Some \<lparr>fnode = n, offset = 0, fflags = 3\<rparr>) (Some src) s =
      do { (r, s) \<leftarrow> ramfs_write n src 0 s;
           Some (Inr r, Some (if r > 0 then \<lparr>fnode = n, offset = of_int r, fflags = 3\<rparr> else \<lparr>fnode = n, offset = 0, fflags = 3\<rparr>), s) }"
    using assms by (cases "ramfs_write n src 0 s") (auto simp: vfs_write_def ops_write_def)
qed

text \<open>Opening with truncation asks only for the permission of the access mode: reading is enough.\<close>

lemma vfs_open_truncates_with_read:
  assumes "vfs_resolve pth s = n" and "n \<noteq> 0" and "ntype (vnodes s n) = VFS_FILE" and "ops (vnodes s n) = ramfs_ops"
    and "vfs_check_perm (vnodes s n) (euid (procs s (proc_current s))) (egid (procs s (proc_current s))) R_OK = 0"
  shows "vfs_open pth O_TRUNC True s =
     do { s \<leftarrow> ramfs_truncate n 0 s; Some (0, Some \<lparr>fnode = n, offset = 0, fflags = O_TRUNC\<rparr>, s) }"
proof -
  have "open_perm n O_TRUNC s = 0" using assms(5) by (simp add: open_perm_def Let_def)
  then show ?thesis using assms by (simp add: vfs_open_def)
qed

text \<open>
  C26.  Normalising a path and then resolving it is the walk from the root along the names of the
  working directory and the path with \<^verbatim>\<open>.\<close> and \<^verbatim>\<open>..\<close> resolved, when no name is longer than 255 bytes.
\<close>

theorem vfs_resolve_normalized:
  assumes "2 \<le> length out" and "0 \<notin> set input" and "0 \<notin> set wd" and "wd \<noteq> []" and "hd wd = SLASH"
    and "path_normalize (Some wd) (Some input) (Some out) = Some (0, out')" and "vfs_root s \<noteq> 0"
    and "\<forall>c \<in> set (components wd) \<union> set (components input). length c \<le> 255"
  shows "vfs_resolve (Some (str_of out')) s =
     walk (resolve [] (if input \<noteq> [] \<and> hd input = SLASH then components input else components wd @ components input)) (vfs_root s) s"
proof -
  let ?cs = "if input \<noteq> [] \<and> hd input = SLASH then components input else components wd @ components input"
  have n: "normal_path ?cs out'" using path_normalize_spec [OF assms(1-5)] assms(6) by auto
  have "set (components (str_of out')) \<subseteq> set (components wd) \<union> set (components input)"
    using n resolve_subset [of "[]" ?cs] by (auto simp: normal_path_def split: if_splits)
  then have "resolve_walk (str_of out') (vfs_root s) s = walk (components (str_of out')) (vfs_root s) s"
    using assms(8) by (intro resolve_walk_components) blast
  then show ?thesis using n assms(7) by (simp add: vfs_resolve_def normal_path_def)
qed

theorem vfs_resolve_normalized_witness:
  "\<exists>out'. path_normalize (Some [SLASH, 104]) (Some [DOT, DOT, SLASH, 97]) (Some (replicate 9 0)) = Some (0, out') \<and>
     vfs_resolve (Some (str_of out')) fs_example = 0x80"
proof -
  have "\<exists>out'. path_normalize (Some [SLASH, 104]) (Some [DOT, DOT, SLASH, 97]) (Some (replicate 9 0)) = Some (0, out')"
    using path_normalize_spec [of "replicate 9 0" "[DOT, DOT, SLASH, 97]" "[SLASH, 104]"] by auto
  then obtain out' where o: "path_normalize (Some [SLASH, 104]) (Some [DOT, DOT, SLASH, 97]) (Some (replicate 9 0)) = Some (0, out')" by blast
  have cs: "components [SLASH, 104] = [[104]]" "components [DOT, DOT, SLASH, 97] = [[DOT, DOT], [97]]"
    by (simp_all add: components.simps [of "SLASH # _"] components.simps [of "DOT # _"] components.simps [of "[]"]
        components.simps [of "97 # _"] components.simps [of "104 # _"])
  have "vfs_resolve (Some (str_of out')) fs_example = walk [[97]] (vfs_root fs_example) fs_example"
    using vfs_resolve_normalized [OF _ _ _ _ _ o, of fs_example] cs by (simp add: fs_example_def)
  also have "\<dots> = 0x80"
    by (simp add: is_dir_def child_of_def ops_lookup_def ramfs_lookup_def ramfs_find_child_def fs_example_def zero_ramfs_def zero_node_def)
  finally show ?thesis using o by blast
qed

end
