(* ===== verification/Console.thy ===== *)
theory Console
  imports Font
begin

text \<open>
  The framebuffer console (\<^verbatim>\<open>kernel/drivers/fb_console.c\<close>) and the parser of ANSI escape sequences
  in front of it (\<^verbatim>\<open>kernel/drivers/ansi.c\<close>).  The framebuffer is the list of its bytes; a store outside
  of it has no result.  The C type \<^verbatim>\<open>int\<close> of the parser's parameters is a 32-bit word read with its
  sign, so that a parameter that overflows wraps around.
\<close>

section \<open>State\<close>

record Framebuffer =
  address :: u64
  width :: u64
  height :: u64
  pitch :: u64
  bpp :: u16
  red_mask_shift :: u8
  green_mask_shift :: u8
  blue_mask_shift :: u8

text \<open>
  No code sets \<^verbatim>\<open>backbuf\<close>, and the render target is always the hardware framebuffer, whose bytes are
  \<open>fb_mem\<close>.
\<close>

record Fb =
  fb_mem :: "u8 list"
  backbuf :: "u8 list option"
  fb_width :: u64
  fb_height :: u64
  fb_pitch :: u64
  fb_bpp :: u16
  fb_red_shift :: u8
  fb_green_shift :: u8
  fb_blue_shift :: u8
  cols :: u32
  rows :: u32
  cur_col :: u32
  cur_row :: u32
  fg_color :: u32
  bg_color :: u32
  fb_initialized :: bool
  fb_dirty :: bool

record Ansi =
  astate :: nat
  params :: "u32 list"
  param_count :: nat
  cur_fg :: u32
  cur_bg :: u32
  bold :: bool

record Console =
  fb :: Fb
  ansi :: Ansi

section \<open>Memory of the framebuffer\<close>

definition store32 :: "nat \<Rightarrow> u32 \<Rightarrow> u8 list \<Rightarrow> u8 list option" where
  "store32 a v m =
     (if a + 4 \<le> length m
      then Some (m[a := ucast v, a + 1 := ucast (drop_bit 8 v), a + 2 := ucast (drop_bit 16 v), a + 3 := ucast (drop_bit 24 v)])
      else None)"

definition fb_move :: "nat \<Rightarrow> nat \<Rightarrow> nat \<Rightarrow> u8 list \<Rightarrow> u8 list option" where
  "fb_move dst src n m =
     (if dst + n \<le> length m \<and> src + n \<le> length m
      then Some (take dst m @ take n (drop src m) @ drop (dst + n) m) else None)"

definition fb_fill :: "nat \<Rightarrow> u8 \<Rightarrow> nat \<Rightarrow> u8 list \<Rightarrow> u8 list option" where
  "fb_fill dst v n m =
     (if dst + n \<le> length m then Some (take dst m @ replicate n v @ drop (dst + n) m) else None)"

section \<open>The framebuffer console\<close>

definition pack_color :: "u32 \<Rightarrow> Fb \<Rightarrow> u32" where
  "pack_color rgb s =
     (let r = drop_bit 16 rgb AND 0xFF; g = drop_bit 8 rgb AND 0xFF; b = rgb AND 0xFF in
      push_bit (unat (fb_red_shift s)) r OR push_bit (unat (fb_green_shift s)) g OR push_bit (unat (fb_blue_shift s)) b)"

definition put_pixel :: "u32 \<Rightarrow> u32 \<Rightarrow> u32 \<Rightarrow> Fb \<Rightarrow> Fb option" where
  "put_pixel x y color s =
     (if ucast x \<ge> fb_width s \<or> ucast y \<ge> fb_height s then Some s
      else
        let bytes_per_pixel = ucast (fb_bpp s div 8) :: u32;
            pixel = ucast y * fb_pitch s + ucast (x * bytes_per_pixel)
        in do { m \<leftarrow> store32 (unat pixel) color (fb_mem s); Some (s\<lparr>fb_mem := m\<rparr>) })"

text \<open>The two nested loops over the pixels of a character cell.\<close>

definition paint :: "u32 \<Rightarrow> u32 \<Rightarrow> (nat \<Rightarrow> nat \<Rightarrow> u32) \<Rightarrow> Fb \<Rightarrow> Fb option" where
  "paint px py color =
     for_each (\<lambda>gy. for_each (\<lambda>gx. put_pixel (px + of_nat gx) (py + of_nat gy) (color gx gy)) [0..<FONT_WIDTH]) [0..<FONT_HEIGHT]"

definition glyph_color :: "u8 list \<Rightarrow> u32 \<Rightarrow> u32 \<Rightarrow> nat \<Rightarrow> nat \<Rightarrow> u32" where
  "glyph_color glyph fg bg gx gy = (if glyph ! gy AND drop_bit gx 0x80 \<noteq> 0 then fg else bg)"

definition render_glyph :: "u32 \<Rightarrow> u32 \<Rightarrow> u8 \<Rightarrow> Fb \<Rightarrow> Fb option" where
  "render_glyph col row ch s =
     do { glyph \<leftarrow> arr_get font8x16_data (unat (ch AND 0x7F));
          s \<leftarrow> paint (col * of_nat FONT_WIDTH) (row * of_nat FONT_HEIGHT) (glyph_color glyph (fg_color s) (bg_color s)) s;
          Some (s\<lparr>fb_dirty := True\<rparr>) }"

definition clear_cell :: "u32 \<Rightarrow> u32 \<Rightarrow> Fb \<Rightarrow> Fb option" where
  "clear_cell col row s =
     do { s \<leftarrow> paint (col * of_nat FONT_WIDTH) (row * of_nat FONT_HEIGHT) (\<lambda>gx gy. bg_color s) s;
          Some (s\<lparr>fb_dirty := True\<rparr>) }"

definition scroll_up :: "Fb \<Rightarrow> Fb option" where
  "scroll_up s =
     (let row_bytes = fb_pitch s * of_nat FONT_HEIGHT;
          copy_size = row_bytes * ucast (rows s - 1)
      in do { m \<leftarrow> fb_move 0 (unat row_bytes) (unat copy_size) (fb_mem s);
              m \<leftarrow> fb_fill (unat (row_bytes * ucast (rows s - 1))) 0 (unat row_bytes) m;
              Some (s\<lparr>fb_mem := m, fb_dirty := True\<rparr>) })"

definition newline :: "Fb \<Rightarrow> Fb option" where
  "newline s =
     (let s = s\<lparr>cur_col := 0, cur_row := cur_row s + 1\<rparr> in
      if cur_row s \<ge> rows s then do { s \<leftarrow> scroll_up s; Some (s\<lparr>cur_row := rows s - 1\<rparr>) } else Some s)"

definition fb_console_clear :: "Fb \<Rightarrow> Fb option" where
  "fb_console_clear s =
     (if \<not> fb_initialized s then Some s
      else do { m \<leftarrow> fb_fill 0 0 (unat (fb_pitch s * fb_height s)) (fb_mem s);
                Some (s\<lparr>fb_mem := m, cur_col := 0, cur_row := 0, fb_dirty := True\<rparr>) })"

text \<open>The bytes at the address of the framebuffer are the argument \<open>m\<close>.\<close>

definition fb_console_init :: "Framebuffer option \<Rightarrow> u8 list \<Rightarrow> Fb \<Rightarrow> (int \<times> Fb) option" where
  "fb_console_init fbp m s =
     (case fbp of
        None \<Rightarrow> Some (-1, s)
      | Some f \<Rightarrow>
          if address f = 0 \<or> bpp f < 24 then Some (-1, s)
          else
            let s = s\<lparr>fb_mem := m, fb_width := width f, fb_height := height f, fb_pitch := pitch f, fb_bpp := bpp f,
                     fb_red_shift := red_mask_shift f, fb_green_shift := green_mask_shift f, fb_blue_shift := blue_mask_shift f\<rparr>;
                s = s\<lparr>cols := ucast (fb_width s div of_nat FONT_WIDTH), rows := ucast (fb_height s div of_nat FONT_HEIGHT),
                     cur_col := 0, cur_row := 0\<rparr>;
                s = s\<lparr>fg_color := pack_color 0xAAAAAA s, bg_color := pack_color 0 s\<rparr>;
                s = s\<lparr>backbuf := None, fb_initialized := True, fb_dirty := False\<rparr>
            in do { s \<leftarrow> fb_console_clear s; Some (0, s) })"

definition fb_console_putchar :: "u8 \<Rightarrow> Fb \<Rightarrow> Fb option" where
  "fb_console_putchar c s =
     (if \<not> fb_initialized s then Some s
      else if c = 10 then newline s
      else if c = 13 then Some (s\<lparr>cur_col := 0\<rparr>)
      else if c = 9 then
        (let s = s\<lparr>cur_col := (cur_col s + 8) AND NOT 7\<rparr> in if cur_col s \<ge> cols s then newline s else Some s)
      else if c = 8 then
        (if cur_col s > 0 then (let s = s\<lparr>cur_col := cur_col s - 1\<rparr> in clear_cell (cur_col s) (cur_row s) s) else Some s)
      else if c \<ge> 0x20 \<and> c < 0x7F then
        do { s \<leftarrow> render_glyph (cur_col s) (cur_row s) c s;
             let s = s\<lparr>cur_col := cur_col s + 1\<rparr>;
             (if cur_col s \<ge> cols s then newline s else Some s) }
      else Some s)"

definition fb_console_puts :: "u8 list \<Rightarrow> Fb \<Rightarrow> Fb option" where
  "fb_console_puts = for_each fb_console_putchar"

definition fb_console_set_colors :: "u32 \<Rightarrow> u32 \<Rightarrow> Fb \<Rightarrow> Fb" where
  "fb_console_set_colors fg bg s = s\<lparr>fg_color := pack_color fg s, bg_color := pack_color bg s\<rparr>"

definition fb_console_get_cursor :: "Fb \<Rightarrow> u32 \<times> u32" where
  "fb_console_get_cursor s = (cur_col s, cur_row s)"

definition fb_console_set_cursor :: "u32 \<Rightarrow> u32 \<Rightarrow> Fb \<Rightarrow> Fb" where
  "fb_console_set_cursor col row s =
     s\<lparr>cur_col := if col \<ge> cols s then cols s - 1 else col, cur_row := if row \<ge> rows s then rows s - 1 else row\<rparr>"

text \<open>
  The loops that clear the cells of a row, from a column to the end and from the start up to and
  including a column; the second never ends at the largest column number.
\<close>

definition clear_from :: "u32 \<Rightarrow> u32 \<Rightarrow> Fb \<Rightarrow> Fb option" where
  "clear_from c row s = for_each (\<lambda>c. clear_cell (of_nat c) row) [unat c..<unat (cols s)] s"

definition clear_upto :: "u32 \<Rightarrow> u32 \<Rightarrow> Fb \<Rightarrow> Fb option" where
  "clear_upto c row s = (if c = - 1 then None else for_each (\<lambda>c. clear_cell (of_nat c) row) [0..<Suc (unat c)] s)"

definition fb_console_erase_display :: "int \<Rightarrow> Fb \<Rightarrow> Fb option" where
  "fb_console_erase_display mode s =
     (if \<not> fb_initialized s then Some s
      else do {
        s \<leftarrow> (if mode = 2 then
                do { m \<leftarrow> fb_fill 0 0 (unat (fb_pitch s * fb_height s)) (fb_mem s);
                     Some (s\<lparr>fb_mem := m, cur_col := 0, cur_row := 0\<rparr>) }
              else if mode = 0 then
                do { s \<leftarrow> clear_from (cur_col s) (cur_row s) s;
                     for_each (\<lambda>r. clear_from 0 (of_nat r)) [unat (cur_row s + 1)..<unat (rows s)] s }
              else if mode = 1 then
                do { s \<leftarrow> for_each (\<lambda>r. clear_from 0 (of_nat r)) [0..<unat (cur_row s)] s;
                     clear_upto (cur_col s) (cur_row s) s }
              else Some s);
        Some (s\<lparr>fb_dirty := True\<rparr>) })"

definition fb_console_erase_line :: "int \<Rightarrow> Fb \<Rightarrow> Fb option" where
  "fb_console_erase_line mode s =
     (if \<not> fb_initialized s then Some s
      else do {
        s \<leftarrow> (if mode = 2 then clear_from 0 (cur_row s) s
              else if mode = 0 then clear_from (cur_col s) (cur_row s) s
              else if mode = 1 then clear_upto (cur_col s) (cur_row s) s
              else Some s);
        Some (s\<lparr>fb_dirty := True\<rparr>) })"

definition fb_console_flush :: "Fb \<Rightarrow> Fb option" where
  "fb_console_flush s =
     (case backbuf s of
        None \<Rightarrow> Some s
      | Some b \<Rightarrow>
          if \<not> fb_initialized s \<or> \<not> fb_dirty s then Some s
          else let n = unat (fb_pitch s * fb_height s) in
            if n \<le> length b \<and> n \<le> length (fb_mem s)
            then Some (s\<lparr>fb_mem := take n b @ drop n (fb_mem s), fb_dirty := False\<rparr>) else None)"

section \<open>The escape sequence parser\<close>

abbreviation STATE_NORMAL :: nat where "STATE_NORMAL \<equiv> 0"
abbreviation STATE_ESC :: nat where "STATE_ESC \<equiv> 1"
abbreviation STATE_CSI :: nat where "STATE_CSI \<equiv> 2"
abbreviation MAX_PARAMS :: nat where "MAX_PARAMS \<equiv> 8"
abbreviation DEFAULT_FG :: u32 where "DEFAULT_FG \<equiv> 0xAAAAAA"
abbreviation DEFAULT_BG :: u32 where "DEFAULT_BG \<equiv> 0"

definition ansi_colors :: "u32 list" where
  "ansi_colors = [0x000000, 0xAA0000, 0x00AA00, 0xAA5500, 0x0000AA, 0xAA00AA, 0x00AAAA, 0xAAAAAA]"

definition ansi_bright :: "u32 list" where
  "ansi_bright = [0x555555, 0xFF5555, 0x55FF55, 0xFFFF55, 0x5555FF, 0xFF55FF, 0x55FFFF, 0xFFFFFF]"

definition ansi_init :: "Ansi \<Rightarrow> Ansi" where
  "ansi_init a = a\<lparr>astate := STATE_NORMAL, param_count := 0, bold := False, cur_fg := DEFAULT_FG, cur_bg := DEFAULT_BG\<rparr>"

definition ansi_reset :: "Ansi \<Rightarrow> Ansi" where
  "ansi_reset a = ansi_init a"

definition get_param :: "nat \<Rightarrow> int \<Rightarrow> Ansi \<Rightarrow> int option" where
  "get_param idx d a =
     (if idx < param_count a then do { p \<leftarrow> arr_get (params a) idx; Some (if sint p > 0 then sint p else d) } else Some d)"

text \<open>One parameter of a colour sequence.\<close>

definition sgr_param :: "int \<Rightarrow> Ansi \<Rightarrow> Ansi option" where
  "sgr_param p a =
     (if p = 0 then Some (a\<lparr>cur_fg := DEFAULT_FG, cur_bg := DEFAULT_BG, bold := False\<rparr>)
      else if p = 1 then Some (a\<lparr>bold := True\<rparr>)
      else if p \<ge> 30 \<and> p \<le> 37 then
        do { c \<leftarrow> arr_get (if bold a then ansi_bright else ansi_colors) (nat (p - 30)); Some (a\<lparr>cur_fg := c\<rparr>) }
      else if p = 39 then Some (a\<lparr>cur_fg := DEFAULT_FG\<rparr>)
      else if p \<ge> 40 \<and> p \<le> 47 then do { c \<leftarrow> arr_get ansi_colors (nat (p - 40)); Some (a\<lparr>cur_bg := c\<rparr>) }
      else if p = 49 then Some (a\<lparr>cur_bg := DEFAULT_BG\<rparr>)
      else if p \<ge> 90 \<and> p \<le> 97 then do { c \<leftarrow> arr_get ansi_bright (nat (p - 90)); Some (a\<lparr>cur_fg := c\<rparr>) }
      else if p \<ge> 100 \<and> p \<le> 107 then do { c \<leftarrow> arr_get ansi_bright (nat (p - 100)); Some (a\<lparr>cur_bg := c\<rparr>) }
      else Some a)"

definition handle_sgr :: "Console \<Rightarrow> Console option" where
  "handle_sgr s =
     do { a \<leftarrow> (if param_count (ansi s) = 0
                then Some ((ansi s)\<lparr>cur_fg := DEFAULT_FG, cur_bg := DEFAULT_BG, bold := False\<rparr>)
                else for_each (\<lambda>i a. do { p \<leftarrow> arr_get (params a) i; sgr_param (sint p) a }) [0..<param_count (ansi s)] (ansi s));
          Some (s\<lparr>ansi := a, fb := fb_console_set_colors (cur_fg a) (cur_bg a) (fb s)\<rparr>) }"

definition dispatch_csi :: "u8 \<Rightarrow> Console \<Rightarrow> Console option" where
  "dispatch_csi final s =
     (let (col, row) = fb_console_get_cursor (fb s);
          goto = (\<lambda>col row. Some (s\<lparr>fb := fb_console_set_cursor col row (fb s)\<rparr>))
      in
      if final = 65 then
        do { n \<leftarrow> get_param 0 1 (ansi s); goto col (if sint row \<ge> n then row - of_int n else 0) }
      else if final = 66 then
        do { n \<leftarrow> get_param 0 1 (ansi s); goto col (row + of_int n) }
      else if final = 67 then
        do { n \<leftarrow> get_param 0 1 (ansi s); goto (col + of_int n) row }
      else if final = 68 then
        do { n \<leftarrow> get_param 0 1 (ansi s); goto (if sint col \<ge> n then col - of_int n else 0) row }
      else if final = 72 \<or> final = 102 then
        do { r \<leftarrow> get_param 0 1 (ansi s);
             c \<leftarrow> get_param 1 1 (ansi s);
             goto (of_int (max 0 (c - 1))) (of_int (max 0 (r - 1))) }
      else if final = 74 then
        do { mode \<leftarrow> get_param 0 0 (ansi s); f \<leftarrow> fb_console_erase_display mode (fb s); Some (s\<lparr>fb := f\<rparr>) }
      else if final = 75 then
        do { mode \<leftarrow> get_param 0 0 (ansi s); f \<leftarrow> fb_console_erase_line mode (fb s); Some (s\<lparr>fb := f\<rparr>) }
      else if final = 109 then handle_sgr s
      else Some s)"

text \<open>The digits are \<open>48\<close> to \<open>57\<close>, the separator is \<open>59\<close>, the bracket \<open>91\<close> and the escape character \<open>27\<close>.\<close>

definition ansi_putchar :: "u8 \<Rightarrow> Console \<Rightarrow> Console option" where
  "ansi_putchar c s =
     (let a = ansi s in
      if astate a = STATE_NORMAL then
        (if c = 27 then Some (s\<lparr>ansi := a\<lparr>astate := STATE_ESC\<rparr>\<rparr>)
         else do { f \<leftarrow> fb_console_putchar c (fb s); Some (s\<lparr>fb := f\<rparr>) })
      else if astate a = STATE_ESC then
        (if c = 91 then Some (s\<lparr>ansi := a\<lparr>astate := STATE_CSI, param_count := 0, params := replicate MAX_PARAMS 0\<rparr>\<rparr>)
         else Some (s\<lparr>ansi := a\<lparr>astate := STATE_NORMAL\<rparr>\<rparr>))
      else if astate a = STATE_CSI then
        (if c \<ge> 48 \<and> c \<le> 57 then
           let a = (if param_count a = 0 then a\<lparr>param_count := 1\<rparr> else a) in
           do { p \<leftarrow> arr_get (params a) (param_count a - 1);
                ps \<leftarrow> arr_set (params a) (param_count a - 1) (p * 10 + ucast (c - 48));
                Some (s\<lparr>ansi := a\<lparr>params := ps\<rparr>\<rparr>) }
         else if c = 59 then
           Some (s\<lparr>ansi := a\<lparr>param_count := if param_count a < MAX_PARAMS then param_count a + 1 else param_count a\<rparr>\<rparr>)
         else do { s \<leftarrow> dispatch_csi c s; Some (s\<lparr>ansi := (ansi s)\<lparr>astate := STATE_NORMAL\<rparr>\<rparr>) })
      else Some s)"

section \<open>Pixels\<close>

text \<open>
  The invariant of the console: 32 bits per pixel, rows of pixels that fit in the pitch, a memory of
  the size of the screen, at least one character cell, and a cursor on the screen.
\<close>

definition fb_geo :: "Fb \<Rightarrow> bool" where
  "fb_geo s \<longleftrightarrow> fb_initialized s \<and> fb_bpp s = 32 \<and> unat (fb_width s) < 2 ^ 30 \<and> unat (fb_height s) < 2 ^ 31 \<and>
     4 * unat (fb_width s) \<le> unat (fb_pitch s) \<and> unat (fb_pitch s) * unat (fb_height s) < 2 ^ 64 \<and>
     length (fb_mem s) = unat (fb_pitch s) * unat (fb_height s) \<and>
     unat (cols s) = unat (fb_width s) div FONT_WIDTH \<and> unat (rows s) = unat (fb_height s) div FONT_HEIGHT \<and>
     0 < cols s \<and> 0 < rows s"

definition fb_ok :: "Fb \<Rightarrow> bool" where
  "fb_ok s \<longleftrightarrow> fb_geo s \<and> cur_col s < cols s \<and> cur_row s < rows s"

definition load32 :: "nat \<Rightarrow> u8 list \<Rightarrow> u32" where
  "load32 a m = ucast (m ! a) OR push_bit 8 (ucast (m ! (a + 1))) OR push_bit 16 (ucast (m ! (a + 2))) OR push_bit 24 (ucast (m ! (a + 3)))"

definition pixel :: "Fb \<Rightarrow> nat \<Rightarrow> nat \<Rightarrow> u32" where
  "pixel s x y = load32 (y * unat (fb_pitch s) + 4 * x) (fb_mem s)"

text \<open>\<open>drawn s t A f\<close>: from \<open>s\<close> to \<open>t\<close> only pixels have changed, those of the area \<open>A\<close> to the colour \<open>f\<close>.\<close>

definition drawn :: "Fb \<Rightarrow> Fb \<Rightarrow> (nat \<Rightarrow> nat \<Rightarrow> bool) \<Rightarrow> (nat \<Rightarrow> nat \<Rightarrow> u32) \<Rightarrow> bool" where
  "drawn s t A f \<longleftrightarrow> t = s\<lparr>fb_mem := fb_mem t, fb_dirty := fb_dirty t\<rparr> \<and> length (fb_mem t) = length (fb_mem s) \<and>
     (\<forall>x < unat (fb_width s). \<forall>y < unat (fb_height s). pixel t x y = (if A x y then f x y else pixel s x y))"

lemma load32_store32:
  assumes "store32 a v m = Some m'"
  shows "length m' = length m" and "load32 a m' = v" and "b + 4 \<le> a \<or> a + 4 \<le> b \<Longrightarrow> load32 b m' = load32 b m"
  using assms by (auto simp: store32_def load32_def nth_list_update bytes_join split: if_splits)

lemma fb_geoD:
  assumes "fb_geo s"
  shows "unat (cols s) * 8 \<le> unat (fb_width s)" and "unat (rows s) * 16 \<le> unat (fb_height s)"
    and "unat (fb_width s) < 2 ^ 30" and "unat (fb_height s) < 2 ^ 31"
  using assms by (auto simp: fb_geo_def)

lemma pixel_offset:
  assumes "fb_geo s" and "x < unat (fb_width s)" and "y < unat (fb_height s)"
  shows "y * unat (fb_pitch s) + 4 * x + 4 \<le> unat (fb_pitch s) * unat (fb_height s)"
proof -
  have "4 * x + 4 \<le> unat (fb_pitch s)" using assms by (auto simp: fb_geo_def)
  moreover have "Suc y * unat (fb_pitch s) \<le> unat (fb_height s) * unat (fb_pitch s)" using assms(3) by (intro mult_le_mono1) simp
  ultimately show ?thesis by (simp add: mult.commute)
qed

lemma pixel_apart:
  assumes "fb_geo s" and "x < unat (fb_width s)" and "x' < unat (fb_width s)" and "\<not> (x' = x \<and> y' = y)"
  shows "y' * unat (fb_pitch s) + 4 * x' + 4 \<le> y * unat (fb_pitch s) + 4 * x \<or> y * unat (fb_pitch s) + 4 * x + 4 \<le> y' * unat (fb_pitch s) + 4 * x'"
proof -
  let ?p = "unat (fb_pitch s)"
  have p: "4 * x + 4 \<le> ?p" "4 * x' + 4 \<le> ?p" using assms by (auto simp: fb_geo_def)
  consider "y = y'" | "Suc y \<le> y'" | "Suc y' \<le> y" by linarith
  then show ?thesis
  proof cases
    case 1 then show ?thesis using assms(4) by auto
  next
    case 2 then have "Suc y * ?p \<le> y' * ?p" by (intro mult_le_mono1)
    then show ?thesis using p by simp
  next
    case 3 then have "Suc y' * ?p \<le> y * ?p" by (intro mult_le_mono1)
    then show ?thesis using p by simp
  qed
qed

lemma unat_pixel:
  fixes x y :: u32
  assumes "fb_geo s" and "unat x < unat (fb_width s)" and "unat y < unat (fb_height s)"
  shows "unat (ucast y * fb_pitch s + ucast (x * ucast (fb_bpp s div 8)) :: u64) = unat y * unat (fb_pitch s) + 4 * unat x"
proof -
  have b: "fb_bpp s div 8 = 4" using assms(1) by (simp add: fb_geo_def)
  have x: "unat (x * 4) = 4 * unat x" using assms(1,2) fb_geoD(3) [OF assms(1)] by (subst unat_mult_no_overflow) auto
  have ux: "unat (ucast (x * 4) :: u64) = 4 * unat x" "unat (ucast y :: u64) = unat y" by (simp_all add: x)
  have le: "unat y * unat (fb_pitch s) + 4 * unat x + 4 < 2 ^ 64 + 4"
    using pixel_offset [OF assms] assms(1) by (auto simp: fb_geo_def)
  then have "unat (ucast y * fb_pitch s) = unat y * unat (fb_pitch s)" by (subst unat_mult_no_overflow) (simp_all add: ux(2))
  then show ?thesis unfolding b using le by (subst unat_plus_no_overflow) (simp_all add: x)
qed

lemma drawn_refl: "drawn s s (\<lambda>_ _. False) f"
  by (simp add: drawn_def)

lemma drawn_sel:
  assumes "drawn s t A f"
  shows "fb_width t = fb_width s" "fb_height t = fb_height s" "fb_pitch t = fb_pitch s" "cols t = cols s" "rows t = rows s"
    "cur_col t = cur_col s" "cur_row t = cur_row s" "fg_color t = fg_color s" "bg_color t = bg_color s" "fb_initialized t = fb_initialized s"
    "fb_bpp t = fb_bpp s" "fb_red_shift t = fb_red_shift s" "fb_green_shift t = fb_green_shift s" "fb_blue_shift t = fb_blue_shift s"
proof -
  have "t = s\<lparr>fb_mem := fb_mem t, fb_dirty := fb_dirty t\<rparr>" using assms by (simp add: drawn_def)
  from arg_cong [OF this, of fb_width] arg_cong [OF this, of fb_height] arg_cong [OF this, of fb_pitch] arg_cong [OF this, of cols]
    arg_cong [OF this, of rows] arg_cong [OF this, of cur_col] arg_cong [OF this, of cur_row] arg_cong [OF this, of fg_color]
    arg_cong [OF this, of bg_color] arg_cong [OF this, of fb_initialized] arg_cong [OF this, of fb_bpp] arg_cong [OF this, of fb_red_shift]
    arg_cong [OF this, of fb_green_shift] arg_cong [OF this, of fb_blue_shift]
  show "fb_width t = fb_width s" "fb_height t = fb_height s" "fb_pitch t = fb_pitch s" "cols t = cols s" "rows t = rows s"
    "cur_col t = cur_col s" "cur_row t = cur_row s" "fg_color t = fg_color s" "bg_color t = bg_color s" "fb_initialized t = fb_initialized s"
    "fb_bpp t = fb_bpp s" "fb_red_shift t = fb_red_shift s" "fb_green_shift t = fb_green_shift s" "fb_blue_shift t = fb_blue_shift s"
    by simp_all
qed

lemma drawn_geo: "drawn s t A f \<Longrightarrow> fb_geo t = fb_geo s"
  using drawn_sel [of s t A f] by (simp add: fb_geo_def) (simp add: drawn_def)

lemma drawn_ok: "drawn s t A f \<Longrightarrow> fb_ok t = fb_ok s"
  using drawn_sel [of s t A f] drawn_geo [of s t A f] by (simp add: fb_ok_def)

lemma drawn_trans:
  assumes "drawn s t A f" and "drawn t u B g" and "\<And>x y. C x y = (A x y \<or> B x y)"
    and "\<And>x y. B x y \<Longrightarrow> h x y = g x y" and "\<And>x y. A x y \<Longrightarrow> \<not> B x y \<Longrightarrow> h x y = f x y"
  shows "drawn s u C h"
proof -
  have "u = s\<lparr>fb_mem := fb_mem u, fb_dirty := fb_dirty u\<rparr>"
    using assms(1,2) unfolding drawn_def by (cases s; cases t; cases u) simp
  then show ?thesis using assms drawn_sel [OF assms(1)] by (auto simp: drawn_def)
qed

lemma put_pixel_drawn:
  assumes "fb_geo s" and "unat x < unat (fb_width s)" and "unat y < unat (fb_height s)"
  shows "\<exists>t. put_pixel x y c s = Some t \<and> drawn s t (\<lambda>x' y'. x' = unat x \<and> y' = unat y) (\<lambda>_ _. c)"
proof -
  have lt: "\<not> (ucast x \<ge> fb_width s \<or> ucast y \<ge> fb_height s)"
    using assms(2,3) by (simp add: word_less_nat_alt not_le)
  have "unat y * unat (fb_pitch s) + 4 * unat x + 4 \<le> length (fb_mem s)"
    using pixel_offset [OF assms] assms(1) by (simp add: fb_geo_def)
  then obtain m where m: "store32 (unat y * unat (fb_pitch s) + 4 * unat x) c (fb_mem s) = Some m" by (simp add: store32_def)
  have "put_pixel x y c s = Some (s\<lparr>fb_mem := m\<rparr>)"
    unfolding put_pixel_def if_not_P [OF lt] Let_def unat_pixel [OF assms] m by simp
  moreover have "drawn s (s\<lparr>fb_mem := m\<rparr>) (\<lambda>x' y'. x' = unat x \<and> y' = unat y) (\<lambda>_ _. c)"
    using load32_store32 [OF m] pixel_apart [OF assms(1,2)] by (auto simp: drawn_def pixel_def)
  ultimately show ?thesis by blast
qed

definition cell :: "nat \<Rightarrow> nat \<Rightarrow> nat \<Rightarrow> nat \<Rightarrow> bool" where
  "cell c r x y \<longleftrightarrow> c * FONT_WIDTH \<le> x \<and> x < c * FONT_WIDTH + FONT_WIDTH \<and> r * FONT_HEIGHT \<le> y \<and> y < r * FONT_HEIGHT + FONT_HEIGHT"

lemma paint_row_drawn:
  assumes "fb_geo s" and "unat px + FONT_WIDTH \<le> unat (fb_width s)" and "unat y < unat (fb_height s)"
  shows "\<exists>t. for_each (\<lambda>gx. put_pixel (px + of_nat gx) y (f gx)) [0..<FONT_WIDTH] s = Some t \<and>
     drawn s t (\<lambda>x' y'. unat px \<le> x' \<and> x' < unat px + FONT_WIDTH \<and> y' = unat y) (\<lambda>x' y'. f (x' - unat px))"
proof (rule for_each_upt_rule [where I = "\<lambda>i t. drawn s t (\<lambda>x' y'. unat px \<le> x' \<and> x' < unat px + i \<and> y' = unat y) (\<lambda>x' y'. f (x' - unat px))"])
  show "drawn s s (\<lambda>x' y'. unat px \<le> x' \<and> x' < unat px + 0 \<and> y' = unat y) (\<lambda>x' y'. f (x' - unat px))"
    by (auto simp: drawn_def)
next
  fix i t
  assume i: "i < FONT_WIDTH" and d: "drawn s t (\<lambda>x' y'. unat px \<le> x' \<and> x' < unat px + i \<and> y' = unat y) (\<lambda>x' y'. f (x' - unat px))"
  have u: "unat (px + of_nat i) = unat px + i"
    using i assms(2) fb_geoD(3) [OF assms(1)] by (subst unat_plus_no_overflow) (simp_all add: unat_of_nat_less)
  obtain t' where t': "put_pixel (px + of_nat i) y (f i) t = Some t'" "drawn t t' (\<lambda>x' y'. x' = unat px + i \<and> y' = unat y) (\<lambda>_ _. f i)"
    using put_pixel_drawn [of t "px + of_nat i" y "f i"] drawn_geo [OF d] drawn_sel [OF d] assms i by (auto simp: u)
  have "drawn s t' (\<lambda>x' y'. unat px \<le> x' \<and> x' < unat px + Suc i \<and> y' = unat y) (\<lambda>x' y'. f (x' - unat px))"
    by (rule drawn_trans [OF d t'(2)]) auto
  then show "\<exists>t'. put_pixel (px + of_nat i) y (f i) t = Some t' \<and>
      drawn s t' (\<lambda>x' y'. unat px \<le> x' \<and> x' < unat px + Suc i \<and> y' = unat y) (\<lambda>x' y'. f (x' - unat px))" using t'(1) by blast
qed simp

lemma paint_drawn:
  assumes "fb_geo s" and "unat px + FONT_WIDTH \<le> unat (fb_width s)" and "unat py + FONT_HEIGHT \<le> unat (fb_height s)"
  shows "\<exists>t. paint px py f s = Some t \<and>
     drawn s t (\<lambda>x y. unat px \<le> x \<and> x < unat px + FONT_WIDTH \<and> unat py \<le> y \<and> y < unat py + FONT_HEIGHT)
       (\<lambda>x y. f (x - unat px) (y - unat py))"
  unfolding paint_def
proof (rule for_each_upt_rule [where I = "\<lambda>i t. drawn s t (\<lambda>x y. unat px \<le> x \<and> x < unat px + FONT_WIDTH \<and> unat py \<le> y \<and> y < unat py + i)
    (\<lambda>x y. f (x - unat px) (y - unat py))"])
  show "drawn s s (\<lambda>x y. unat px \<le> x \<and> x < unat px + FONT_WIDTH \<and> unat py \<le> y \<and> y < unat py + 0) (\<lambda>x y. f (x - unat px) (y - unat py))"
    by (auto simp: drawn_def)
next
  fix i t
  assume i: "i < FONT_HEIGHT"
    and d: "drawn s t (\<lambda>x y. unat px \<le> x \<and> x < unat px + FONT_WIDTH \<and> unat py \<le> y \<and> y < unat py + i) (\<lambda>x y. f (x - unat px) (y - unat py))"
  have u: "unat (py + of_nat i) = unat py + i"
    using i assms(3) fb_geoD(4) [OF assms(1)] by (subst unat_plus_no_overflow) (simp_all add: unat_of_nat_less)
  obtain t' where t': "for_each (\<lambda>gx. put_pixel (px + of_nat gx) (py + of_nat i) (f gx i)) [0..<FONT_WIDTH] t = Some t'"
    "drawn t t' (\<lambda>x y. unat px \<le> x \<and> x < unat px + FONT_WIDTH \<and> y = unat py + i) (\<lambda>x y. f (x - unat px) i)"
    using paint_row_drawn [of t px "py + of_nat i" "\<lambda>gx. f gx i"] drawn_geo [OF d] drawn_sel [OF d] assms i by (auto simp: u)
  have "drawn s t' (\<lambda>x y. unat px \<le> x \<and> x < unat px + FONT_WIDTH \<and> unat py \<le> y \<and> y < unat py + Suc i) (\<lambda>x y. f (x - unat px) (y - unat py))"
    by (rule drawn_trans [OF d t'(2)]) auto
  then show "\<exists>t'. for_each (\<lambda>gx. put_pixel (px + of_nat gx) (py + of_nat i) (f gx i)) [0..<FONT_WIDTH] t = Some t' \<and>
      drawn s t' (\<lambda>x y. unat px \<le> x \<and> x < unat px + FONT_WIDTH \<and> unat py \<le> y \<and> y < unat py + Suc i) (\<lambda>x y. f (x - unat px) (y - unat py))"
    using t'(1) by blast
qed simp

lemma unat_cell:
  assumes "fb_geo s" and "c < cols s" and "r < rows s"
  shows "unat (c * of_nat FONT_WIDTH) = unat c * FONT_WIDTH" and "unat (r * of_nat FONT_HEIGHT) = unat r * FONT_HEIGHT"
    and "unat c * FONT_WIDTH + FONT_WIDTH \<le> unat (fb_width s)" and "unat r * FONT_HEIGHT + FONT_HEIGHT \<le> unat (fb_height s)"
proof -
  have "unat c < unat (cols s)" "unat r < unat (rows s)" using assms(2,3) by (simp_all add: word_less_nat_alt)
  then have b: "unat c * 8 + 8 \<le> unat (fb_width s)" "unat r * 16 + 16 \<le> unat (fb_height s)"
    using fb_geoD(1,2) [OF assms(1)] by linarith+
  then show "unat c * FONT_WIDTH + FONT_WIDTH \<le> unat (fb_width s)" "unat r * FONT_HEIGHT + FONT_HEIGHT \<le> unat (fb_height s)" by simp_all
  show "unat (c * of_nat FONT_WIDTH) = unat c * FONT_WIDTH" "unat (r * of_nat FONT_HEIGHT) = unat r * FONT_HEIGHT"
    using b fb_geoD(3,4) [OF assms(1)] by (simp_all add: unat_mult_no_overflow)
qed

lemma paint_cell_drawn:
  assumes "fb_geo s" and "c < cols s" and "r < rows s"
  shows "\<exists>t. paint (c * of_nat FONT_WIDTH) (r * of_nat FONT_HEIGHT) f s = Some t \<and>
     drawn s t (cell (unat c) (unat r)) (\<lambda>x y. f (x - unat c * FONT_WIDTH) (y - unat r * FONT_HEIGHT))"
proof -
  have "cell (unat c) (unat r) = (\<lambda>x y. unat c * FONT_WIDTH \<le> x \<and> x < unat c * FONT_WIDTH + FONT_WIDTH \<and>
      unat r * FONT_HEIGHT \<le> y \<and> y < unat r * FONT_HEIGHT + FONT_HEIGHT)" by (simp add: cell_def fun_eq_iff)
  then show ?thesis
    using paint_drawn [of s "c * of_nat FONT_WIDTH" "r * of_nat FONT_HEIGHT" f] assms(1) unat_cell [OF assms] by simp
qed

lemma drawn_dirty: "drawn s t A f \<Longrightarrow> drawn s (t\<lparr>fb_dirty := b\<rparr>) A f"
  by (cases s; cases t) (simp add: drawn_def pixel_def)

lemma render_glyph_drawn:
  assumes "fb_geo s" and "c < cols s" and "r < rows s"
  shows "\<exists>t. render_glyph c r ch s = Some t \<and> drawn s t (cell (unat c) (unat r))
     (\<lambda>x y. glyph_color (font8x16_data ! unat (ch AND 0x7F)) (fg_color s) (bg_color s) (x - unat c * FONT_WIDTH) (y - unat r * FONT_HEIGHT))"
proof -
  have "ch AND 0x7F \<le> 0x7F" by (rule word_and_le1)
  then have "unat (ch AND 0x7F) < 128" by (simp add: word_le_nat_alt)
  then show ?thesis
    using paint_cell_drawn [OF assms, of "glyph_color (font8x16_data ! unat (ch AND 0x7F)) (fg_color s) (bg_color s)"]
    by (auto simp: render_glyph_def intro: drawn_dirty)
qed

lemma clear_cell_drawn:
  assumes "fb_geo s" and "c < cols s" and "r < rows s"
  shows "\<exists>t. clear_cell c r s = Some t \<and> drawn s t (cell (unat c) (unat r)) (\<lambda>x y. bg_color s)"
  using paint_cell_drawn [OF assms, of "\<lambda>_ _. bg_color s"] by (auto simp: clear_cell_def intro: drawn_dirty)

text \<open>Scrolling moves every text row up by one and blanks the last one.\<close>

definition scrolled :: "Fb \<Rightarrow> Fb \<Rightarrow> bool" where
  "scrolled s t \<longleftrightarrow> t = s\<lparr>fb_mem := fb_mem t, fb_dirty := True\<rparr> \<and> length (fb_mem t) = length (fb_mem s) \<and>
     (\<forall>x < unat (fb_width s). \<forall>y < unat (rows s) * FONT_HEIGHT.
        pixel t x y = (if y < (unat (rows s) - 1) * FONT_HEIGHT then pixel s x (y + FONT_HEIGHT) else 0))"

lemma load32_cong:
  assumes "\<And>i. i < 4 \<Longrightarrow> m ! (a + i) = m' ! (b + i)"
  shows "load32 a m = load32 b m'"
  using assms [of 0] assms [of 1] assms [of 2] assms [of 3] by (simp add: load32_def)

lemma load32_zero:
  assumes "\<And>i. i < 4 \<Longrightarrow> m ! (a + i) = 0"
  shows "load32 a m = 0"
  using assms [of 0] assms [of 1] assms [of 2] assms [of 3] by (simp add: load32_def)

lemma scroll_nth:
  fixes m :: "u8 list"
  assumes "n + rb \<le> length m" and "i < n + rb"
  shows "(take n (take n (drop rb m) @ drop n m) @ replicate rb 0 @ drop (n + rb) (take n (drop rb m) @ drop n m)) ! i =
     (if i < n then m ! (i + rb) else 0)"
proof -
  have "\<not> i < n \<Longrightarrow> i - n < rb" using assms(2) by linarith
  then show ?thesis using assms by (simp add: nth_append add.commute)
qed

lemma scroll_up_spec:
  assumes g: "fb_geo s"
  shows "\<exists>t. scroll_up s = Some t \<and> scrolled s t"
proof -
  let ?p = "unat (fb_pitch s)" and ?r = "unat (rows s)" and ?m = "fb_mem s"
  let ?rb = "?p * 16"
  let ?n = "?rb * (?r - 1)"
  have r: "1 \<le> ?r" "?r * 16 \<le> unat (fb_height s)" using g by (auto simp: fb_geo_def word_less_nat_alt)
  have "?p * (?r * 16) \<le> ?p * unat (fb_height s)" using r(2) by (intro mult_le_mono2)
  then have n: "?n + ?rb \<le> length ?m" "length ?m < 2 ^ 64" using g r(1) by (auto simp: fb_geo_def algebra_simps diff_mult_distrib2)
  have r1: "unat (rows s - 1) = ?r - 1" using r(1) by (simp add: unat_sub_if' word_le_nat_alt)
  have rb: "unat (fb_pitch s * of_nat FONT_HEIGHT) = ?rb" using n by (simp add: unat_mult_no_overflow)
  then have cp: "unat (fb_pitch s * of_nat FONT_HEIGHT * ucast (rows s - 1)) = ?n"
    using n r1 by (subst unat_mult_no_overflow) simp_all
  define m where "m = take ?n (take ?n (drop ?rb ?m) @ drop ?n ?m) @ replicate ?rb 0 @ drop (?n + ?rb) (take ?n (drop ?rb ?m) @ drop ?n ?m)"
  have len: "length m = length ?m" using n(1) by (simp add: m_def)
  have nth: "m ! i = (if i < ?n then ?m ! (i + ?rb) else 0)" if "i < ?n + ?rb" for i
    unfolding m_def by (rule scroll_nth [OF n(1) that])
  have "scroll_up s = Some (s\<lparr>fb_mem := m, fb_dirty := True\<rparr>)"
    using n len unfolding scroll_up_def Let_def cp rb fb_move_def fb_fill_def by (simp add: m_def)
  moreover have "scrolled s (s\<lparr>fb_mem := m, fb_dirty := True\<rparr>)"
    unfolding scrolled_def pixel_def
  proof (intro conjI allI impI)
    fix x y assume x: "x < unat (fb_width s)" and y: "y < ?r * FONT_HEIGHT"
    have x4: "4 * x + 4 \<le> ?p" using g x by (auto simp: fb_geo_def)
    have a: "y * ?p + 4 * x + 4 \<le> Suc y * ?p" using x4 by simp
    show "load32 (y * unat (fb_pitch (s\<lparr>fb_mem := m, fb_dirty := True\<rparr>)) + 4 * x) (fb_mem (s\<lparr>fb_mem := m, fb_dirty := True\<rparr>)) =
       (if y < (?r - 1) * FONT_HEIGHT then load32 ((y + FONT_HEIGHT) * ?p + 4 * x) ?m else 0)"
    proof (cases "y < (?r - 1) * FONT_HEIGHT")
      case True
      then have "Suc y * ?p \<le> ((?r - 1) * 16) * ?p" by (intro mult_le_mono1) simp
      then have le: "y * ?p + 4 * x + 4 \<le> ?n" using a by (simp add: ac_simps)
      have "load32 (y * ?p + 4 * x) m = load32 ((y + 16) * ?p + 4 * x) ?m"
        using le by (intro load32_cong) (simp add: nth algebra_simps)
      then show ?thesis using True by simp
    next
      case False
      then have "((?r - 1) * 16) * ?p \<le> y * ?p" by (intro mult_le_mono1) simp
      then have ge: "?n \<le> y * ?p" by (simp add: ac_simps)
      have "Suc y * ?p \<le> (?r * 16) * ?p" using y by (intro mult_le_mono1) simp
      also have "\<dots> = ?n + ?rb" using r(1) by (simp add: algebra_simps diff_mult_distrib2)
      finally have e: "Suc y * ?p \<le> ?n + ?rb" .
      have z: "m ! i = 0" if "?n \<le> i" "i < ?n + ?rb" for i using nth [OF that(2)] that(1) by simp
      have "load32 (y * ?p + 4 * x) m = 0"
        by (intro load32_zero z) (use ge a e in linarith)+
      then show ?thesis using False by simp
    qed
  qed (simp_all add: len)
  ultimately show ?thesis by blast
qed

section \<open>The cursor stays on the screen\<close>

lemma scrolled_sel:
  assumes "scrolled s t"
  shows "fb_geo t = fb_geo s" "cols t = cols s" "rows t = rows s" "cur_col t = cur_col s" "cur_row t = cur_row s"
proof -
  have "t = s\<lparr>fb_mem := fb_mem t, fb_dirty := True\<rparr>" "length (fb_mem t) = length (fb_mem s)" using assms by (simp_all add: scrolled_def)
  then have "\<exists>m. t = s\<lparr>fb_mem := m, fb_dirty := True\<rparr> \<and> length m = length (fb_mem s)" by blast
  then show "fb_geo t = fb_geo s" "cols t = cols s" "rows t = rows s" "cur_col t = cur_col s" "cur_row t = cur_row s"
    by (auto simp: fb_geo_def)
qed

lemma fb_geo_upd [simp]:
  "fb_geo (s\<lparr>cur_col := c\<rparr>) = fb_geo s" "fb_geo (s\<lparr>cur_row := r\<rparr>) = fb_geo s" "fb_geo (s\<lparr>fb_dirty := b\<rparr>) = fb_geo s"
  "fb_geo (s\<lparr>fg_color := v\<rparr>) = fb_geo s" "fb_geo (s\<lparr>bg_color := v\<rparr>) = fb_geo s"
  by (simp_all add: fb_geo_def)

lemma newline_spec:
  assumes "fb_geo s" and "cur_row s < rows s"
  shows "\<exists>t. newline s = Some t \<and> fb_ok t \<and> cur_col t = 0 \<and>
     (if cur_row s + 1 < rows s then t = s\<lparr>cur_col := 0, cur_row := cur_row s + 1\<rparr>
      else \<exists>u. scrolled s u \<and> t = u\<lparr>cur_col := 0, cur_row := rows s - 1\<rparr>)"
proof (cases "cur_row s + 1 < rows s")
  case True
  moreover from True have "\<not> rows s \<le> cur_row s + 1" by (simp add: not_le)
  moreover have "0 < cols s" using assms by (simp add: fb_geo_def)
  ultimately show ?thesis using assms(1) by (simp add: newline_def Let_def fb_ok_def)
next
  case False
  let ?s = "s\<lparr>cur_col := 0, cur_row := cur_row s + 1\<rparr>"
  obtain u where u: "scroll_up ?s = Some u" "scrolled ?s u" using scroll_up_spec [of ?s] assms(1) by auto
  obtain m where m: "u = ?s\<lparr>fb_mem := m, fb_dirty := True\<rparr>" "length m = length (fb_mem s)" using u(2) unfolding scrolled_def by auto
  have "scrolled s (s\<lparr>fb_mem := m, fb_dirty := True\<rparr>)" using u(2) unfolding m(1) scrolled_def by (simp add: pixel_def)
  moreover have "newline s = Some (s\<lparr>fb_mem := m, fb_dirty := True, cur_col := 0, cur_row := rows s - 1\<rparr>)"
    using False u(1) by (simp add: newline_def Let_def not_less m(1))
  moreover have "fb_ok (s\<lparr>fb_mem := m, fb_dirty := True, cur_col := 0, cur_row := rows s - 1\<rparr>)"
    using assms(1) m(2) by (auto simp: fb_ok_def fb_geo_def word_less_nat_alt unat_sub_if' word_le_nat_alt)
  ultimately show ?thesis using False by auto
qed

lemma fb_console_putchar_ok:
  assumes "fb_ok s"
  shows "\<exists>t. fb_console_putchar c s = Some t \<and> fb_ok t"
proof -
  have g: "fb_geo s" and i: "fb_initialized s" and c0: "0 < cols s" and k: "cur_col s < cols s" "cur_row s < rows s"
    using assms by (auto simp: fb_ok_def fb_geo_def)
  have nl: "\<exists>t. newline u = Some t \<and> fb_ok t" if "fb_geo u" "cur_row u < rows u" for u
    using newline_spec [OF that] by blast
  have tab: "\<exists>t. (if cols s \<le> v then newline (s\<lparr>cur_col := v\<rparr>) else Some (s\<lparr>cur_col := v\<rparr>)) = Some t \<and> fb_ok t" for v
    using nl [of "s\<lparr>cur_col := v\<rparr>"] g k by (auto simp: fb_ok_def)
  have bs: "\<exists>t. clear_cell (cur_col s - 1) (cur_row s) (s\<lparr>cur_col := cur_col s - 1\<rparr>) = Some t \<and> fb_ok t" if "cur_col s > 0"
  proof -
    have lt: "cur_col s - 1 < cols s" using k(1) that by (auto simp: word_less_nat_alt unat_sub_if' word_le_nat_alt)
    then obtain t where "clear_cell (cur_col s - 1) (cur_row s) (s\<lparr>cur_col := cur_col s - 1\<rparr>) = Some t"
      "drawn (s\<lparr>cur_col := cur_col s - 1\<rparr>) t (cell (unat (cur_col s - 1)) (unat (cur_row s))) (\<lambda>_ _. bg_color s)"
      using clear_cell_drawn [of "s\<lparr>cur_col := cur_col s - 1\<rparr>" "cur_col s - 1" "cur_row s"] g k(2) by auto
    then show ?thesis using drawn_ok lt g k(2) by (fastforce simp: fb_ok_def)
  qed
  have gl: "\<exists>t. (do { s \<leftarrow> render_glyph (cur_col s) (cur_row s) c s; let s = s\<lparr>cur_col := cur_col s + 1\<rparr>;
        (if cur_col s \<ge> cols s then newline s else Some s) }) = Some t \<and> fb_ok t"
  proof -
    obtain t where t: "render_glyph (cur_col s) (cur_row s) c s = Some t" "fb_ok t" and "cols t = cols s"
      using render_glyph_drawn [OF g k] drawn_ok drawn_sel(4) assms by metis
    then show ?thesis using nl [of "t\<lparr>cur_col := cur_col t + 1\<rparr>"] by (auto simp: fb_ok_def Let_def)
  qed
  show ?thesis using assms i nl [OF g k(2)] tab bs gl c0 by (auto simp: fb_console_putchar_def Let_def fb_ok_def)
qed

section \<open>Erasing\<close>

definition area :: "(nat \<times> nat) set \<Rightarrow> nat \<Rightarrow> nat \<Rightarrow> bool" where
  "area C x y \<longleftrightarrow> (\<exists>c r. (c, r) \<in> C \<and> cell c r x y)"

lemma area_simps: "area {} x y = False" "area {(c, r)} x y = cell c r x y" "area (C \<union> D) x y = (area C x y \<or> area D x y)"
  by (auto simp: area_def)

lemma clear_run_drawn:
  assumes "fb_geo s" and "lo \<le> hi" and "hi \<le> unat (cols s)" and "row < rows s"
  shows "\<exists>t. for_each (\<lambda>c. clear_cell (of_nat c) row) [lo..<hi] s = Some t \<and> drawn s t (area ({lo..<hi} \<times> {unat row})) (\<lambda>_ _. bg_color s)"
proof (rule for_each_upt_rule [where I = "\<lambda>i t. drawn s t (area ({lo..<i} \<times> {unat row})) (\<lambda>_ _. bg_color s)"])
  show "drawn s s (area ({lo..<lo} \<times> {unat row})) (\<lambda>_ _. bg_color s)" by (simp add: drawn_def area_simps)
next
  fix i t
  assume i: "lo \<le> i" "i < hi" and d: "drawn s t (area ({lo..<i} \<times> {unat row})) (\<lambda>_ _. bg_color s)"
  have u: "unat (of_nat i :: u32) = i" using i(2) assms(3) unat_lt_32 [of "cols s"] by (intro unat_of_nat_less) simp
  have "of_nat i < cols s" using i(2) assms(3) by (simp add: word_less_nat_alt u)
  then obtain t' where t': "clear_cell (of_nat i) row t = Some t'" "drawn t t' (cell i (unat row)) (\<lambda>_ _. bg_color s)"
    using clear_cell_drawn [of t "of_nat i" row] drawn_geo [OF d] drawn_sel [OF d] assms(1,4) by (auto simp: u)
  have "drawn s t' (area ({lo..<Suc i} \<times> {unat row})) (\<lambda>_ _. bg_color s)"
    by (rule drawn_trans [OF d t'(2)]) (use i(1) in \<open>auto simp: area_def less_Suc_eq\<close>)
  then show "\<exists>t'. clear_cell (of_nat i) row t = Some t' \<and> drawn s t' (area ({lo..<Suc i} \<times> {unat row})) (\<lambda>_ _. bg_color s)"
    using t'(1) by blast
qed (rule assms(2))

lemma clear_from_drawn:
  assumes "fb_geo s" and "c \<le> cols s" and "row < rows s"
  shows "\<exists>t. clear_from c row s = Some t \<and> drawn s t (area ({unat c..<unat (cols s)} \<times> {unat row})) (\<lambda>_ _. bg_color s)"
  using clear_run_drawn [OF assms(1) _ _ assms(3), of "unat c" "unat (cols s)"] assms(2) by (simp add: clear_from_def word_le_nat_alt)

lemma clear_upto_drawn:
  assumes "fb_geo s" and "c < cols s" and "row < rows s"
  shows "\<exists>t. clear_upto c row s = Some t \<and> drawn s t (area ({0..unat c} \<times> {unat row})) (\<lambda>_ _. bg_color s)"
proof -
  have "c \<noteq> - 1" using assms(2) by auto
  then show ?thesis using clear_run_drawn [OF assms(1) _ _ assms(3), of 0 "Suc (unat c)"] assms(2)
    by (simp add: clear_upto_def word_less_nat_alt atLeastLessThanSuc_atLeastAtMost Suc_le_eq)
qed

lemma clear_rows_drawn:
  assumes "fb_geo s" and "lo \<le> hi" and "hi \<le> unat (rows s)"
  shows "\<exists>t. for_each (\<lambda>r. clear_from 0 (of_nat r)) [lo..<hi] s = Some t \<and>
     drawn s t (area ({0..<unat (cols s)} \<times> {lo..<hi})) (\<lambda>_ _. bg_color s)"
proof (rule for_each_upt_rule [where I = "\<lambda>i t. drawn s t (area ({0..<unat (cols s)} \<times> {lo..<i})) (\<lambda>_ _. bg_color s)"])
  show "drawn s s (area ({0..<unat (cols s)} \<times> {lo..<lo})) (\<lambda>_ _. bg_color s)" by (simp add: drawn_def area_simps)
next
  fix i t
  assume i: "lo \<le> i" "i < hi" and d: "drawn s t (area ({0..<unat (cols s)} \<times> {lo..<i})) (\<lambda>_ _. bg_color s)"
  have u: "unat (of_nat i :: u32) = i" using i(2) assms(3) unat_lt_32 [of "rows s"] by (intro unat_of_nat_less) simp
  have "of_nat i < rows s" using i(2) assms(3) by (simp add: word_less_nat_alt u)
  then obtain t' where t': "clear_from 0 (of_nat i) t = Some t'" "drawn t t' (area ({0..<unat (cols s)} \<times> {i})) (\<lambda>_ _. bg_color s)"
    using clear_from_drawn [of t 0 "of_nat i"] drawn_geo [OF d] drawn_sel [OF d] assms(1) by (auto simp: u)
  have "drawn s t' (area ({0..<unat (cols s)} \<times> {lo..<Suc i})) (\<lambda>_ _. bg_color s)"
    by (rule drawn_trans [OF d t'(2)]) (use i(1) in \<open>auto simp: area_def less_Suc_eq\<close>)
  then show "\<exists>t'. clear_from 0 (of_nat i) t = Some t' \<and> drawn s t' (area ({0..<unat (cols s)} \<times> {lo..<Suc i})) (\<lambda>_ _. bg_color s)"
    using t'(1) by blast
qed (rule assms(2))

text \<open>
  Erasing: from the cursor to the end (mode 0), from the start to the cursor (mode 1), everything
  (mode 2).  The whole-screen case also moves the cursor to the origin; other modes do nothing.
\<close>

definition after_cursor :: "Fb \<Rightarrow> (nat \<times> nat) set" where
  "after_cursor s = {unat (cur_col s)..<unat (cols s)} \<times> {unat (cur_row s)} \<union> {0..<unat (cols s)} \<times> {Suc (unat (cur_row s))..<unat (rows s)}"

definition before_cursor :: "Fb \<Rightarrow> (nat \<times> nat) set" where
  "before_cursor s = {0..<unat (cols s)} \<times> {0..<unat (cur_row s)} \<union> {0..unat (cur_col s)} \<times> {unat (cur_row s)}"

lemma fb_okD:
  assumes "fb_ok s"
  shows "fb_geo s" "fb_initialized s" "cur_col s < cols s" "cur_row s < rows s" "0 < cols s" "0 < rows s"
  using assms by (auto simp: fb_ok_def fb_geo_def)

lemma fb_ok_dirty [simp]: "fb_ok (s\<lparr>fb_dirty := b\<rparr>) = fb_ok s"
  by (simp add: fb_ok_def)

lemma next_row: "cur_row s < rows s \<Longrightarrow> unat (cur_row s + 1) = Suc (unat (cur_row s))"
  using unat_lt_32 [of "rows s"] by (subst unat_plus_no_overflow) (simp_all add: word_less_nat_alt)

lemma erase_all:
  assumes "fb_ok s"
  shows "\<exists>m. fb_fill 0 0 (unat (fb_pitch s * fb_height s)) (fb_mem s) = Some m \<and> length m = length (fb_mem s) \<and> set m \<subseteq> {0}"
proof -
  have "unat (fb_pitch s * fb_height s) = length (fb_mem s)"
    using fb_okD(1) [OF assms] by (simp add: fb_geo_def unat_mult_no_overflow)
  then show ?thesis by (simp add: fb_fill_def set_replicate_conv_if)
qed

lemma fb_ok_fill: "fb_ok s \<Longrightarrow> length m = length (fb_mem s) \<Longrightarrow> fb_ok (s\<lparr>fb_mem := m, cur_col := 0, cur_row := 0, fb_dirty := b\<rparr>)"
  by (auto simp: fb_ok_def fb_geo_def)

lemma erase_display_drawn:
  assumes "fb_ok s"
  shows "\<exists>t. fb_console_erase_display 0 s = Some t \<and> drawn s t (area (after_cursor s)) (\<lambda>_ _. bg_color s)"
    and "\<exists>t. fb_console_erase_display 1 s = Some t \<and> drawn s t (area (before_cursor s)) (\<lambda>_ _. bg_color s)"
proof -
  note k = fb_okD [OF assms]
  obtain u where u: "clear_from (cur_col s) (cur_row s) s = Some u"
    "drawn s u (area ({unat (cur_col s)..<unat (cols s)} \<times> {unat (cur_row s)})) (\<lambda>_ _. bg_color s)"
    using clear_from_drawn [OF k(1) order.strict_implies_order [OF k(3)] k(4)] by blast
  note us = drawn_sel [OF u(2)]
  have "Suc (unat (cur_row s)) \<le> unat (rows s)" using k(4) by (simp add: word_less_nat_alt)
  then obtain t where t: "for_each (\<lambda>r. clear_from 0 (of_nat r)) [Suc (unat (cur_row s))..<unat (rows s)] u = Some t"
    "drawn u t (area ({0..<unat (cols s)} \<times> {Suc (unat (cur_row s))..<unat (rows s)})) (\<lambda>_ _. bg_color s)"
    using clear_rows_drawn [of u "Suc (unat (cur_row s))" "unat (rows s)"] drawn_geo [OF u(2)] k(1) us by auto
  have "drawn s t (area (after_cursor s)) (\<lambda>_ _. bg_color s)"
    by (rule drawn_trans [OF u(2) t(2)]) (simp_all add: after_cursor_def area_simps)
  then show "\<exists>t. fb_console_erase_display 0 s = Some t \<and> drawn s t (area (after_cursor s)) (\<lambda>_ _. bg_color s)"
    using u(1) t(1) k(2) next_row [OF k(4)] us drawn_dirty by (auto simp: fb_console_erase_display_def)
  obtain v where v: "for_each (\<lambda>r. clear_from 0 (of_nat r)) [0..<unat (cur_row s)] s = Some v"
    "drawn s v (area ({0..<unat (cols s)} \<times> {0..<unat (cur_row s)})) (\<lambda>_ _. bg_color s)"
    using clear_rows_drawn [OF k(1), of 0 "unat (cur_row s)"] k(4) by (auto simp: word_less_nat_alt)
  note vs = drawn_sel [OF v(2)]
  obtain w where w: "clear_upto (cur_col s) (cur_row s) v = Some w"
    "drawn v w (area ({0..unat (cur_col s)} \<times> {unat (cur_row s)})) (\<lambda>_ _. bg_color s)"
    using clear_upto_drawn [of v "cur_col s" "cur_row s"] drawn_geo [OF v(2)] k vs by auto
  have "drawn s w (area (before_cursor s)) (\<lambda>_ _. bg_color s)"
    by (rule drawn_trans [OF v(2) w(2)]) (simp_all add: before_cursor_def area_simps)
  then show "\<exists>t. fb_console_erase_display 1 s = Some t \<and> drawn s t (area (before_cursor s)) (\<lambda>_ _. bg_color s)"
    using v(1) w(1) k(2) vs drawn_dirty by (auto simp: fb_console_erase_display_def)
qed

lemma erase_display_ok:
  assumes "fb_ok s"
  shows "\<exists>t. fb_console_erase_display mode s = Some t \<and> fb_ok t"
proof -
  consider "mode = 0" | "mode = 1" | "mode = 2" | "mode \<notin> {0, 1, 2}" by blast
  then show ?thesis
  proof cases
    case 1 then show ?thesis using erase_display_drawn(1) [OF assms] drawn_ok assms by blast
  next
    case 2 then show ?thesis using erase_display_drawn(2) [OF assms] drawn_ok assms by blast
  next
    case 3 then show ?thesis using erase_all [OF assms] fb_ok_fill [OF assms] assms by (auto simp: fb_console_erase_display_def)
  next
    case 4 then show ?thesis using assms by (simp add: fb_console_erase_display_def fb_ok_def)
  qed
qed

lemma erase_line_ok:
  assumes "fb_ok s"
  shows "\<exists>t. fb_console_erase_line mode s = Some t \<and> fb_ok t"
proof -
  note k = fb_okD [OF assms]
  have fin: "\<exists>t. (do { s \<leftarrow> x; Some (s\<lparr>fb_dirty := True\<rparr>) }) = Some t \<and> fb_ok t" if "\<exists>t. x = Some t \<and> fb_ok t" for x
    using that by (auto simp: fb_ok_def)
  have ok: "\<exists>t. x = Some t \<and> fb_ok t" if "\<exists>t. x = Some t \<and> drawn s t A f" for x A f
    using that drawn_ok assms by blast
  note ok [OF clear_from_drawn [OF k(1) word_zero_le k(4)]] ok [OF clear_from_drawn [OF k(1) order.strict_implies_order [OF k(3)] k(4)]]
    ok [OF clear_upto_drawn [OF k(1,3,4)]]
  then show ?thesis unfolding fb_console_erase_line_def using k(2) assms by (auto intro!: fin)
qed

section \<open>The parser\<close>

text \<open>The type of the parser's state: the state number, the parameter array and its count, and palette colours.\<close>

definition ansi_ok :: "Ansi \<Rightarrow> bool" where
  "ansi_ok a \<longleftrightarrow> astate a \<le> STATE_CSI \<and> length (params a) = MAX_PARAMS \<and> param_count a \<le> MAX_PARAMS \<and>
     {cur_fg a, cur_bg a} \<subseteq> set (ansi_colors @ ansi_bright)"

lemma get_param_ok: "ansi_ok a \<Longrightarrow> \<exists>n. get_param i d a = Some n \<and> (n = d \<or> 0 < n)"
  by (auto simp: get_param_def ansi_ok_def)

lemma sgr_param_ok:
  assumes "ansi_ok a"
  shows "\<exists>b. sgr_param p a = Some b \<and> ansi_ok b \<and> params b = params a \<and> param_count b = param_count a"
proof -
  let ?Q = "\<lambda>x. \<exists>b. x = Some b \<and> ansi_ok b \<and> params b = params a \<and> param_count b = param_count a"
  have get: "?Q (arr_get L (nat (p - k)) \<bind> (\<lambda>c. Some (a\<lparr>cur_fg := c\<rparr>)))" "?Q (arr_get L (nat (p - k)) \<bind> (\<lambda>c. Some (a\<lparr>cur_bg := c\<rparr>)))"
    if "L \<in> {ansi_colors, ansi_bright}" "k \<le> p \<and> p \<le> k + 7" for L k
  proof -
    have "nat (p - k) < length L" using that by (auto simp: ansi_colors_def ansi_bright_def)
    then have "arr_get L (nat (p - k)) = Some (L ! nat (p - k))" "L ! nat (p - k) \<in> set (ansi_colors @ ansi_bright)"
      using that(1) nth_mem by auto
    then show "?Q (arr_get L (nat (p - k)) \<bind> (\<lambda>c. Some (a\<lparr>cur_fg := c\<rparr>)))" "?Q (arr_get L (nat (p - k)) \<bind> (\<lambda>c. Some (a\<lparr>cur_bg := c\<rparr>)))"
      using assms by (simp_all add: ansi_ok_def)
  qed
  have "?Q (Some (a\<lparr>cur_fg := DEFAULT_FG, cur_bg := DEFAULT_BG, bold := False\<rparr>))" "?Q (Some (a\<lparr>bold := True\<rparr>))"
    "?Q (Some (a\<lparr>cur_fg := DEFAULT_FG\<rparr>))" "?Q (Some (a\<lparr>cur_bg := DEFAULT_BG\<rparr>))" "?Q (Some a)"
    using assms by (simp_all add: ansi_ok_def ansi_colors_def)
  note base = this
  show ?thesis
    unfolding sgr_param_def
    by (intro if_split [where P = ?Q, THEN iffD2] conjI impI base get) simp_all
qed

lemma set_colors_ok [simp]: "fb_ok (fb_console_set_colors fg bg s) = fb_ok s"
  by (simp add: fb_console_set_colors_def fb_ok_def fb_geo_def)

lemma set_cursor_ok: "fb_ok s \<Longrightarrow> fb_ok (fb_console_set_cursor c r s)"
  by (auto simp: fb_console_set_cursor_def fb_ok_def word_less_nat_alt word_le_nat_alt unat_sub_if' not_le)

lemma handle_sgr_ok:
  assumes "fb_ok (fb s)" and "ansi_ok (ansi s)"
  shows "\<exists>t. handle_sgr s = Some t \<and> fb_ok (fb t) \<and> ansi_ok (ansi t)"
proof (cases "param_count (ansi s) = 0")
  case True
  then show ?thesis using assms by (simp add: handle_sgr_def ansi_ok_def ansi_colors_def)
next
  case False
  let ?I = "\<lambda>i a. ansi_ok a \<and> params a = params (ansi s) \<and> param_count a = param_count (ansi s)"
  have "\<exists>a. for_each (\<lambda>i a. do { p \<leftarrow> arr_get (params a) i; sgr_param (sint p) a }) [0..<param_count (ansi s)] (ansi s) = Some a \<and>
      ?I (param_count (ansi s)) a"
  proof (rule for_each_upt_rule [where I = ?I])
    fix i a assume i: "i < param_count (ansi s)" and a: "?I i a"
    then have "arr_get (params a) i = Some (params a ! i)" by (auto simp: ansi_ok_def)
    then show "\<exists>b. (do { p \<leftarrow> arr_get (params a) i; sgr_param (sint p) a }) = Some b \<and> ?I (Suc i) b"
      using a sgr_param_ok [of a "sint (params a ! i)"] by auto
  qed (use assms in simp_all)
  then show ?thesis using False assms(1) by (auto simp: handle_sgr_def)
qed

lemma dispatch_csi_ok:
  assumes "fb_ok (fb s)" and "ansi_ok (ansi s)"
  shows "\<exists>t. dispatch_csi c s = Some t \<and> fb_ok (fb t) \<and> ansi_ok (ansi t)"
proof -
  obtain n where n: "get_param 0 1 (ansi s) = Some n" using get_param_ok [OF assms(2)] by blast
  obtain m where m: "get_param 1 1 (ansi s) = Some m" using get_param_ok [OF assms(2)] by blast
  obtain d where d: "get_param 0 0 (ansi s) = Some d" using get_param_ok [OF assms(2)] by blast
  show ?thesis
    unfolding dispatch_csi_def fb_console_get_cursor_def Let_def prod.case
    using handle_sgr_ok [OF assms] erase_display_ok [OF assms(1), of d] erase_line_ok [OF assms(1), of d] assms
    by (auto simp: n m [unfolded One_nat_def] d intro!: set_cursor_ok)
qed

lemma ansi_putchar_ok:
  assumes "fb_ok (fb s)" and "ansi_ok (ansi s)"
  shows "\<exists>t. ansi_putchar c s = Some t \<and> fb_ok (fb t) \<and> ansi_ok (ansi t)"
proof -
  have a: "astate (ansi s) \<le> 2" "length (params (ansi s)) = 8" "param_count (ansi s) \<le> 8" using assms(2) by (auto simp: ansi_ok_def)
  consider "astate (ansi s) = 0" | "astate (ansi s) = 1" | "astate (ansi s) = 2" using a(1) by linarith
  then show ?thesis
  proof cases
    case 1 then show ?thesis using fb_console_putchar_ok [OF assms(1), of c] assms by (auto simp: ansi_putchar_def Let_def ansi_ok_def)
  next
    case 2 then show ?thesis using assms by (auto simp: ansi_putchar_def Let_def ansi_ok_def)
  next
    case 3
    obtain t where "dispatch_csi c s = Some t" "fb_ok (fb t)" "ansi_ok (ansi t)" using dispatch_csi_ok [OF assms] by blast
    then show ?thesis using 3 a assms by (auto simp: ansi_putchar_def Let_def ansi_ok_def)
  qed
qed

lemma ansi_text_ok:
  assumes "fb_ok (fb s)" and "ansi_ok (ansi s)"
  shows "\<exists>t. for_each ansi_putchar cs s = Some t \<and> fb_ok (fb t) \<and> ansi_ok (ansi t)"
  using assms
proof (induction cs arbitrary: s)
  case (Cons c cs)
  then show ?case using ansi_putchar_ok [OF Cons.prems, of c] by fastforce
qed simp

lemma unat_ucast_64_32: "unat (n :: u64) < 2 ^ 32 \<Longrightarrow> unat (ucast n :: u32) = unat n"
  by (simp add: unsigned_ucast_eq take_bit_nat_eq_self)

lemma fb_console_init_ok:
  assumes "address f \<noteq> 0" and "bpp f = 32" and "8 \<le> unat (width f)" and "unat (width f) < 2 ^ 30" and "16 \<le> unat (height f)"
    and "unat (height f) < 2 ^ 31" and "4 * unat (width f) \<le> unat (pitch f)" and "unat (pitch f) * unat (height f) < 2 ^ 64"
    and "length m = unat (pitch f) * unat (height f)"
  shows "\<exists>t. fb_console_init (Some f) m s = Some (0, t) \<and> fb_ok t \<and> cur_col t = 0 \<and> cur_row t = 0 \<and> cols t = ucast (width f div 8) \<and> rows t = ucast (height f div 16)"
proof -
  have w: "unat (width f div 8) = unat (width f) div 8" "unat (height f div 16) = unat (height f) div 16" by (simp_all add: unat_div)
  have "unat (width f) div 8 < 2 ^ 32" "unat (height f) div 16 < 2 ^ 32" using assms(4,6) by (auto intro: le_less_trans [OF div_le_dividend])
  then have c: "unat (ucast (width f div 8) :: u32) = unat (width f) div 8" "unat (ucast (height f div 16) :: u32) = unat (height f) div 16"
    by (simp_all add: unat_ucast_64_32 w)
  moreover have "1 \<le> unat (width f) div 8" "1 \<le> unat (height f) div 16" using assms(3,5) by linarith+
  ultimately have pos: "0 < (ucast (width f div 8) :: u32)" "0 < (ucast (height f div 16) :: u32)" by (simp_all add: word_less_nat_alt)
  have "unat (pitch f * height f) = length m" using assms(8,9) by (simp add: unat_mult_no_overflow)
  then show ?thesis using assms c pos
    by (simp add: fb_console_init_def Let_def fb_console_clear_def fb_fill_def fb_ok_def fb_geo_def)
qed

text \<open>
  C37.  After the console has been set up on a framebuffer of 32 bits per pixel, any sequence of
  characters, escape sequences well-formed or not, is processed without a store outside of the
  framebuffer or of the parameter array; the cursor stays on the screen, and the parser's state keeps
  its type: one of the three states, at most eight parameters, colours of the palette.
\<close>

theorem console_in_bounds:
  assumes "address f \<noteq> 0" and "bpp f = 32" and "8 \<le> unat (width f)" and "unat (width f) < 2 ^ 30" and "16 \<le> unat (height f)"
    and "unat (height f) < 2 ^ 31" and "4 * unat (width f) \<le> unat (pitch f)" and "unat (pitch f) * unat (height f) < 2 ^ 64"
    and "length m = unat (pitch f) * unat (height f)" and "length (params a) = MAX_PARAMS"
  shows "\<exists>s t. fb_console_init (Some f) m s0 = Some (0, s) \<and> for_each ansi_putchar cs \<lparr>fb = s, ansi = ansi_init a\<rparr> = Some t \<and>
     fb_ok (fb t) \<and> ansi_ok (ansi t)"
proof -
  obtain s where s: "fb_console_init (Some f) m s0 = Some (0, s)" "fb_ok s" using fb_console_init_ok [OF assms(1-9)] by blast
  have "ansi_ok (ansi_init a)" using assms(10) by (simp add: ansi_ok_def ansi_init_def ansi_colors_def)
  then show ?thesis using ansi_text_ok [of "\<lparr>fb = s, ansi = ansi_init a\<rparr>" cs] s by auto
qed

definition fb_blank :: Fb where
  "fb_blank = \<lparr>fb_mem = [], backbuf = None, fb_width = 0, fb_height = 0, fb_pitch = 0, fb_bpp = 0, fb_red_shift = 0, fb_green_shift = 0,
     fb_blue_shift = 0, cols = 0, rows = 0, cur_col = 0, cur_row = 0, fg_color = 0, bg_color = 0, fb_initialized = False, fb_dirty = False\<rparr>"

definition fb_example :: Framebuffer where
  "fb_example = \<lparr>address = 0x1000, width = 640, height = 480, pitch = 2560, bpp = 32, red_mask_shift = 16, green_mask_shift = 8, blue_mask_shift = 0\<rparr>"

definition ansi_blank :: Ansi where
  "ansi_blank = \<lparr>astate = 0, params = replicate MAX_PARAMS 0, param_count = 0, cur_fg = DEFAULT_FG, cur_bg = DEFAULT_BG, bold = False\<rparr>"

theorem console_in_bounds_witness:
  "\<exists>s t. fb_console_init (Some fb_example) (replicate 1228800 0) fb_blank = Some (0, s) \<and>
     for_each ansi_putchar [27, 91, 57, 57, 57, 66, 65, 10] \<lparr>fb = s, ansi = ansi_init ansi_blank\<rparr> = Some t \<and> fb_ok (fb t) \<and> ansi_ok (ansi t)"
  by (rule console_in_bounds) (simp_all add: fb_example_def ansi_blank_def)

lemma putchar_spec:
  assumes "fb_ok s" and "0x20 \<le> ch" and "ch < 0x7F"
  shows "\<exists>u t. fb_console_putchar ch s = Some t \<and>
     drawn s u (cell (unat (cur_col s)) (unat (cur_row s)))
       (\<lambda>x y. glyph_color (font8x16_data ! unat ch) (fg_color s) (bg_color s)
          (x - unat (cur_col s) * FONT_WIDTH) (y - unat (cur_row s) * FONT_HEIGHT)) \<and>
     (if cur_col s + 1 < cols s then t = u\<lparr>cur_col := cur_col s + 1\<rparr>
      else if cur_row s + 1 < rows s then t = u\<lparr>cur_col := 0, cur_row := cur_row s + 1\<rparr>
      else \<exists>v. scrolled (u\<lparr>cur_col := cur_col s + 1\<rparr>) v \<and> t = v\<lparr>cur_col := 0, cur_row := rows s - 1\<rparr>)"
proof -
  note k = fb_okD [OF assms(1)]
  have "unat ch < 128" using assms(3) by (simp add: word_less_nat_alt)
  moreover have "ch AND 0x7F = take_bit 7 ch" by (simp add: take_bit_eq_mask mask_eq_exp_minus_1)
  ultimately have mask: "ch AND 0x7F = ch" by (simp add: word_unat_eq_iff unsigned_take_bit_eq take_bit_nat_eq_self)
  obtain u where u: "render_glyph (cur_col s) (cur_row s) ch s = Some u"
    "drawn s u (cell (unat (cur_col s)) (unat (cur_row s)))
       (\<lambda>x y. glyph_color (font8x16_data ! unat ch) (fg_color s) (bg_color s) (x - unat (cur_col s) * FONT_WIDTH) (y - unat (cur_row s) * FONT_HEIGHT))"
    using render_glyph_drawn [OF k(1,3,4), of ch] unfolding mask by blast
  note us = drawn_sel [OF u(2)]
  have ch: "ch \<noteq> 10" "ch \<noteq> 13" "ch \<noteq> 9" "ch \<noteq> 8" using assms(2) by (auto simp: word_le_nat_alt)
  have pc: "fb_console_putchar ch s = (if cols s \<le> cur_col s + 1 then newline (u\<lparr>cur_col := cur_col s + 1\<rparr>) else Some (u\<lparr>cur_col := cur_col s + 1\<rparr>))"
    using ch k(2) u(1) us assms(2,3) by (simp add: fb_console_putchar_def Let_def)
  show ?thesis
  proof (cases "cur_col s + 1 < cols s")
    case True
    then have "\<not> cols s \<le> cur_col s + 1" by (simp add: not_le)
    then have "fb_console_putchar ch s = Some (u\<lparr>cur_col := cur_col s + 1\<rparr>)" using pc by simp
    then show ?thesis using u(2) True by auto
  next
    case False
    let ?u = "u\<lparr>cur_col := cur_col s + 1\<rparr>"
    from False have "cols s \<le> cur_col s + 1" by (simp add: not_less)
    then have pc': "fb_console_putchar ch s = newline ?u" using pc by simp
    obtain t where t: "newline ?u = Some t"
      "if cur_row ?u + 1 < rows ?u then t = ?u\<lparr>cur_col := 0, cur_row := cur_row ?u + 1\<rparr>
       else \<exists>v. scrolled ?u v \<and> t = v\<lparr>cur_col := 0, cur_row := rows ?u - 1\<rparr>"
      using newline_spec [of ?u] drawn_geo [OF u(2)] k(1,4) us by auto
    show ?thesis
      using pc' t u(2) False us by (cases "cur_row s + 1 < rows s") auto
  qed
qed

text \<open>
  C38.  Writing a printable character paints exactly the cell at the cursor, with the pixels of its
  glyph in the current colours, and no other pixel; then the cursor advances, to the next line at the
  end of a line, and at the end of the screen all text moves up by one row and the last row is blank.
\<close>

theorem fb_console_putchar_renders:
  assumes "fb_ok s" and "0x20 \<le> ch" and "ch < 0x7F"
  shows "\<exists>u t. fb_console_putchar ch s = Some t \<and>
     drawn s u (cell (unat (cur_col s)) (unat (cur_row s)))
       (\<lambda>x y. glyph_color (font8x16_data ! unat ch) (fg_color s) (bg_color s)
          (x - unat (cur_col s) * FONT_WIDTH) (y - unat (cur_row s) * FONT_HEIGHT)) \<and>
     (if cur_col s + 1 < cols s then t = u\<lparr>cur_col := cur_col s + 1\<rparr>
      else if cur_row s + 1 < rows s then t = u\<lparr>cur_col := 0, cur_row := cur_row s + 1\<rparr>
      else \<exists>v. scrolled (u\<lparr>cur_col := cur_col s + 1\<rparr>) v \<and> t = v\<lparr>cur_col := 0, cur_row := rows s - 1\<rparr>)"
  by (rule putchar_spec [OF assms])

theorem fb_console_putchar_renders_witness:
  "\<exists>s t u. fb_console_init (Some fb_example) (replicate 1228800 0) fb_blank = Some (0, s) \<and> fb_console_putchar 65 s = Some t \<and>
     t = u\<lparr>cur_col := 1\<rparr> \<and> drawn s u (cell 0 0) (\<lambda>x y. glyph_color (font8x16_data ! 65) (fg_color s) (bg_color s) x y)"
proof -
  obtain s where s: "fb_console_init (Some fb_example) (replicate 1228800 0) fb_blank = Some (0, s)" "fb_ok s" "cur_col s = 0" "cur_row s = 0"
    "cols s = ucast (width fb_example div 8)"
    using fb_console_init_ok [of fb_example "replicate 1228800 0" fb_blank] by (auto simp: fb_example_def)
  have "cols s = 80" using s(5) by (simp add: fb_example_def)
  then show ?thesis using fb_console_putchar_renders [OF s(2), of 65] s(1,3,4) by auto
qed

section \<open>Escape sequences\<close>

text \<open>The text of a control sequence: decimal parameters with semicolons between them.\<close>

fun dec :: "nat \<Rightarrow> u8 list" where
  "dec n = (if n < 10 then [48 + of_nat n] else dec (n div 10) @ [48 + of_nat (n mod 10)])"

fun csi :: "nat list \<Rightarrow> u8 list" where
  "csi [] = []"
| "csi [p] = dec p"
| "csi (p # q # ps) = dec p @ 59 # csi (q # ps)"

declare dec.simps [simp del]

lemma digit_char:
  assumes "d < 10"
  shows "48 \<le> (48 + of_nat d :: u8)" "(48 + of_nat d :: u8) \<le> 57" "ucast (48 + of_nat d - 48 :: u8) = (of_nat d :: u32)"
proof -
  have "d \<in> {0, 1, 2, 3, 4, 5, 6, 7, 8, 9}" using assms by auto
  then show "48 \<le> (48 + of_nat d :: u8)" "(48 + of_nat d :: u8) \<le> 57" "ucast (48 + of_nat d - 48 :: u8) = (of_nat d :: u32)"
    by (auto simp: unsigned_ucast_eq)
qed

lemma ansi_digit:
  assumes "astate (ansi s) = STATE_CSI" and "length (params (ansi s)) = MAX_PARAMS" and "param_count (ansi s) = k" and "1 \<le> k" and "k \<le> MAX_PARAMS" and "d < 10"
  shows "ansi_putchar (48 + of_nat d) s =
     Some (s\<lparr>ansi := (ansi s)\<lparr>params := (params (ansi s))[k - 1 := params (ansi s) ! (k - 1) * 10 + of_nat d]\<rparr>\<rparr>)"
  using assms digit_char [OF assms(6)] by (simp add: ansi_putchar_def Let_def)

lemma ansi_dec:
  assumes "astate (ansi s) = STATE_CSI" and "length (params (ansi s)) = MAX_PARAMS" and "param_count (ansi s) = k" and "1 \<le> k" and "k \<le> MAX_PARAMS"
    and "params (ansi s) ! (k - 1) = 0"
  shows "for_each ansi_putchar (dec n) s = Some (s\<lparr>ansi := (ansi s)\<lparr>params := (params (ansi s))[k - 1 := of_nat n]\<rparr>\<rparr>)"
proof (induction n rule: dec.induct)
  case (1 n)
  show ?case
  proof (cases "n < 10")
    case True
    then show ?thesis using ansi_digit [OF assms(1-5) True] assms(6) by (simp add: dec.simps [of n])
  next
    case False
    let ?s = "s\<lparr>ansi := (ansi s)\<lparr>params := (params (ansi s))[k - 1 := of_nat (n div 10)]\<rparr>\<rparr>"
    have "ansi_putchar (48 + of_nat (n mod 10)) ?s = Some (?s\<lparr>ansi := (ansi ?s)\<lparr>params := (params (ansi ?s))[k - 1 := params (ansi ?s) ! (k - 1) * 10 + of_nat (n mod 10)]\<rparr>\<rparr>)"
      using assms by (intro ansi_digit) simp_all
    moreover have "params (ansi ?s) ! (k - 1) * 10 + of_nat (n mod 10) = of_nat n"
    proof -
      have "params (ansi ?s) ! (k - 1) = of_nat (n div 10)" using assms(2,4,5) by simp
      moreover have "(of_nat (n div 10) :: u32) * 10 + of_nat (n mod 10) = of_nat (n div 10 * 10 + n mod 10)" by (simp only: of_nat_add of_nat_mult of_nat_numeral)
      ultimately show ?thesis by simp
    qed
    ultimately show ?thesis using 1 [OF False] False by (simp add: dec.simps [of n] for_each_append)
  qed
qed

lemma dec_Cons: "\<exists>d cs. dec n = (48 + of_nat d) # cs \<and> d < 10"
proof (induction n rule: dec.induct)
  case (1 n)
  then show ?case by (cases "n < 10") (auto simp: dec.simps [of n])
qed

text \<open>The first digit starts the first parameter.\<close>

lemma ansi_first_digit:
  assumes "astate (ansi s) = STATE_CSI" and "param_count (ansi s) = 0" and "ps \<noteq> []"
  shows "for_each ansi_putchar (csi ps) s = for_each ansi_putchar (csi ps) (s\<lparr>ansi := (ansi s)\<lparr>param_count := 1\<rparr>\<rparr>)"
proof -
  obtain p qs where "ps = p # qs" using assms(3) by (cases ps) auto
  then obtain d cs where d: "csi ps = (48 + of_nat d) # cs" "d < 10" using dec_Cons [of p] by (cases qs) auto
  have "ansi_putchar (48 + of_nat d) s = ansi_putchar (48 + of_nat d) (s\<lparr>ansi := (ansi s)\<lparr>param_count := 1\<rparr>\<rparr>)"
    using assms(1,2) digit_char [OF d(2)] by (simp add: ansi_putchar_def Let_def)
  then show ?thesis by (simp add: d(1))
qed

lemma ansi_csi:
  assumes "ps \<noteq> []" and "astate (ansi s) = STATE_CSI" and "param_count (ansi s) = Suc (length xs)" and "length xs + length ps \<le> MAX_PARAMS"
    and "params (ansi s) = xs @ replicate (MAX_PARAMS - length xs) 0"
  shows "for_each ansi_putchar (csi ps) s = Some (s\<lparr>ansi := (ansi s)\<lparr>params := xs @ map of_nat ps @ replicate (MAX_PARAMS - length xs - length ps) 0,
     param_count := length xs + length ps\<rparr>\<rparr>)"
  using assms
proof (induction ps arbitrary: s xs rule: csi.induct)
  case (2 p)
  then have "for_each ansi_putchar (dec p) s = Some (s\<lparr>ansi := (ansi s)\<lparr>params := (params (ansi s))[length xs := of_nat p]\<rparr>\<rparr>)"
    using ansi_dec [of s "Suc (length xs)" p] by (simp add: nth_append)
  moreover have "replicate (8 - length xs) (0 :: u32) = 0 # replicate (7 - length xs) 0" using 2 by (simp flip: replicate_Suc add: Suc_diff_le)
  ultimately show ?case using 2 by (simp add: list_update_append)
next
  case (3 p q ps)
  let ?s = "s\<lparr>ansi := (ansi s)\<lparr>params := (xs @ [of_nat p]) @ replicate (MAX_PARAMS - length (xs @ [of_nat p :: u32])) 0, param_count := Suc (length (xs @ [of_nat p :: u32]))\<rparr>\<rparr>"
  have "for_each ansi_putchar (dec p) s = Some (s\<lparr>ansi := (ansi s)\<lparr>params := (params (ansi s))[length xs := of_nat p]\<rparr>\<rparr>)"
    using ansi_dec [of s "Suc (length xs)" p] 3 by (simp add: nth_append)
  moreover have "replicate (8 - length xs) (0 :: u32) = 0 # replicate (7 - length xs) 0" using 3 by (simp flip: replicate_Suc add: Suc_diff_le)
  ultimately have d: "for_each ansi_putchar (dec p) s = Some (s\<lparr>ansi := (ansi s)\<lparr>params := xs @ of_nat p # replicate (7 - length xs) 0\<rparr>\<rparr>)"
    using 3 by (simp add: list_update_append)
  have "ansi_putchar 59 (s\<lparr>ansi := (ansi s)\<lparr>params := xs @ of_nat p # replicate (7 - length xs) 0\<rparr>\<rparr>) = Some ?s"
    using 3 by (simp add: ansi_putchar_def Let_def)
  moreover have "for_each ansi_putchar (csi (q # ps)) ?s = Some (?s\<lparr>ansi := (ansi ?s)\<lparr>params := (xs @ [of_nat p]) @ map of_nat (q # ps) @
     replicate (MAX_PARAMS - length (xs @ [of_nat p :: u32]) - length (q # ps)) 0, param_count := length (xs @ [of_nat p :: u32]) + length (q # ps)\<rparr>\<rparr>)"
    using 3 by (intro "3.IH") simp_all
  ultimately show ?case using d by (simp add: for_each_append)
qed simp

text \<open>
  C39.  The parser reads what a control sequence says: the escape character, a bracket, one to eight
  decimal numbers separated by semicolons and a final character have exactly the effect of that
  command with those parameters, and the parser is back in its normal state.
\<close>

theorem ansi_sequence_round_trip:
  assumes "astate (ansi s) = STATE_NORMAL" and "ps \<noteq> []" and "length ps \<le> MAX_PARAMS" and "final < 48 \<or> 57 < final" and "final \<noteq> 59"
  shows "for_each ansi_putchar (27 # 91 # csi ps @ [final]) s =
     map_option (\<lambda>t. t\<lparr>ansi := (ansi t)\<lparr>astate := STATE_NORMAL\<rparr>\<rparr>)
       (dispatch_csi final (s\<lparr>ansi := (ansi s)\<lparr>astate := STATE_CSI, param_count := length ps,
          params := map of_nat ps @ replicate (MAX_PARAMS - length ps) 0\<rparr>\<rparr>))"
proof -
  let ?s = "s\<lparr>ansi := (ansi s)\<lparr>astate := STATE_CSI, param_count := 0, params := replicate MAX_PARAMS 0\<rparr>\<rparr>"
  have start: "for_each ansi_putchar (27 # 91 # cs) s = for_each ansi_putchar cs ?s" for cs
    using assms(1) by (simp add: ansi_putchar_def Let_def)
  have "for_each ansi_putchar (csi ps) ?s = for_each ansi_putchar (csi ps) (?s\<lparr>ansi := (ansi ?s)\<lparr>param_count := 1\<rparr>\<rparr>)"
    using assms(2) by (intro ansi_first_digit) simp_all
  also have "\<dots> = Some (s\<lparr>ansi := (ansi s)\<lparr>astate := STATE_CSI, param_count := length ps, params := map of_nat ps @ replicate (MAX_PARAMS - length ps) 0\<rparr>\<rparr>)"
    using ansi_csi [of ps "?s\<lparr>ansi := (ansi ?s)\<lparr>param_count := 1\<rparr>\<rparr>" "[]"] assms(2,3) by simp
  finally have b: "for_each ansi_putchar (csi ps) ?s =
      Some (s\<lparr>ansi := (ansi s)\<lparr>astate := STATE_CSI, param_count := length ps, params := map of_nat ps @ replicate (MAX_PARAMS - length ps) 0\<rparr>\<rparr>)" .
  have f: "ansi_putchar final t = map_option (\<lambda>t. t\<lparr>ansi := (ansi t)\<lparr>astate := STATE_NORMAL\<rparr>\<rparr>) (dispatch_csi final t)"
    if "astate (ansi t) = STATE_CSI" for t
    using that assms(4,5) by (cases "dispatch_csi final t") (auto simp: ansi_putchar_def Let_def)
  have "for_each ansi_putchar [final] t = ansi_putchar final t" for t by (cases "ansi_putchar final t") simp_all
  then show ?thesis unfolding start by (simp add: for_each_append b f del: for_each.simps)
qed

theorem ansi_sequence_round_trip_witness:
  "for_each ansi_putchar [27, 91, 53, 59, 49, 48, 72] \<lparr>fb = fb_blank\<lparr>cols := 80, rows := 25\<rparr>, ansi = ansi_blank\<rparr> =
     Some \<lparr>fb = fb_blank\<lparr>cols := 80, rows := 25, cur_col := 9, cur_row := 4\<rparr>, ansi = ansi_blank\<lparr>params := [5, 10, 0, 0, 0, 0, 0, 0], param_count := 2\<rparr>\<rparr>"
proof -
  let ?s = "\<lparr>fb = fb_blank\<lparr>cols := 80, rows := 25\<rparr>, ansi = ansi_blank\<rparr>"
  let ?t = "?s\<lparr>ansi := (ansi ?s)\<lparr>astate := STATE_CSI, param_count := length [5, 10 :: nat],
          params := map of_nat [5, 10 :: nat] @ replicate (MAX_PARAMS - length [5, 10 :: nat]) 0\<rparr>\<rparr>"
  have tx: "27 # 91 # csi [5, 10] @ [72] = [27, 91, 53, 59, 49, 48, 72]" by (simp add: dec.simps)
  have "for_each ansi_putchar [27, 91, 53, 59, 49, 48, 72] ?s = map_option (\<lambda>t. t\<lparr>ansi := (ansi t)\<lparr>astate := STATE_NORMAL\<rparr>\<rparr>) (dispatch_csi 72 ?t)"
    unfolding tx [symmetric] by (rule ansi_sequence_round_trip) (simp_all add: ansi_blank_def)
  moreover have "get_param 0 1 (ansi ?t) = Some 5" "get_param 1 1 (ansi ?t) = Some 10" by (simp_all add: get_param_def arr_get_def)
  then have "dispatch_csi 72 ?t = Some (?t\<lparr>fb := fb_blank\<lparr>cols := 80, rows := 25, cur_col := 9, cur_row := 4\<rparr>\<rparr>)"
    by (simp add: dispatch_csi_def fb_console_get_cursor_def fb_console_set_cursor_def fb_blank_def)
  moreover have "replicate (MAX_PARAMS - length [5, 10 :: nat]) (0 :: u32) = [0, 0, 0, 0, 0, 0]" by (simp add: numeral_eq_Suc)
  ultimately show ?thesis by (simp add: ansi_blank_def)
qed

text \<open>An empty first parameter is lost: the number after the leading semicolon becomes the first parameter, the row.\<close>

lemma ansi_empty_first_parameter:
  "for_each ansi_putchar [27, 91, 59, 53, 72] \<lparr>fb = fb_blank\<lparr>cols := 80, rows := 25\<rparr>, ansi = ansi_blank\<rparr> =
   for_each ansi_putchar [27, 91, 53, 72] \<lparr>fb = fb_blank\<lparr>cols := 80, rows := 25\<rparr>, ansi = ansi_blank\<rparr>"
  by (simp add: ansi_putchar_def ansi_blank_def)

text \<open>With 24 bits per pixel the last pixel of the screen is written with four bytes, one of them outside of the framebuffer.\<close>

lemma put_pixel_24_bits_overflows:
  "put_pixel 7 15 c (fb_blank\<lparr>fb_mem := replicate 384 0, fb_width := 8, fb_height := 16, fb_pitch := 24, fb_bpp := 24\<rparr>) = None"
  by (simp add: put_pixel_def fb_blank_def store32_def)

end
