(* ===== verification/Vt.thy ===== *)
theory Vt
  imports Tty Console
begin

text \<open>
  The virtual terminals (\<^verbatim>\<open>kernel/drivers/vt.c\<close>) and the keyboard driver (\<^verbatim>\<open>kernel/drivers/keyboard.c\<close>).
  A screen buffer is the list of its cells, \<open>None\<close> for a buffer that could not be allocated.  The
  driver's interrupt handler works on the kernel state, the console and the terminals together.
\<close>

section \<open>Virtual terminals\<close>

abbreviation VT_COUNT :: nat where "VT_COUNT \<equiv> 6"
abbreviation SIZEOF_VtCell :: u64 where "SIZEOF_VtCell \<equiv> 12"

record VtCell =
  ch :: u8
  fg :: u32
  bg :: u32

record VirtualTerminal =
  buffer :: "VtCell list option"
  vt_col :: u32
  vt_row :: u32
  vt_fg :: u32
  vt_bg :: u32
  ansi_state :: nat
  ansi_param_count :: nat
  vt_bold :: bool

record Vt =
  vts :: "VirtualTerminal list"
  active_vt :: nat
  screen_cols :: u32
  screen_rows :: u32
  vt_initialized :: bool

definition vt_init_one :: "u32 \<Rightarrow> u32 \<Rightarrow> nat \<Rightarrow> Vt \<times> kernel \<Rightarrow> (Vt \<times> kernel) option" where
  "vt_init_one ncols nrows i = (\<lambda>(v, k).
     do { let buf_size = ucast ncols * ucast nrows * SIZEOF_VtCell;
          (p, k) \<leftarrow> k_alloc buf_size GFP_ZERO k;
          t \<leftarrow> arr_get (vts v) i;
          (if p = 0 then Some (v\<lparr>vts := (vts v)[i := t\<lparr>buffer := None\<rparr>]\<rparr>, k)
           else do {
             let cells = replicate (unat (ucast ncols * ucast nrows :: u64)) \<lparr>ch = 0, fg = 0, bg = 0\<rparr>;
             cells \<leftarrow> for_each (\<lambda>j cells. arr_set cells j \<lparr>ch = 32, fg = 0xAAAAAA, bg = 0\<rparr>) [0..<unat (ncols * nrows)] cells;
             let t = t\<lparr>buffer := Some cells, vt_col := 0, vt_row := 0, vt_fg := 0xAAAAAA, vt_bg := 0, ansi_state := 0, ansi_param_count := 0, vt_bold := False\<rparr>;
             Some (v\<lparr>vts := (vts v)[i := t]\<rparr>, k) }) })"

definition vt_init :: "u32 \<Rightarrow> u32 \<Rightarrow> Vt \<times> kernel \<Rightarrow> (Vt \<times> kernel) option" where
  "vt_init ncols nrows = (\<lambda>(v, k).
     do { let v = v\<lparr>screen_cols := ncols, screen_rows := nrows, active_vt := 0\<rparr>;
          (v, k) \<leftarrow> for_each (vt_init_one ncols nrows) [0..<VT_COUNT] (v, k);
          Some (v\<lparr>vt_initialized := True\<rparr>, k) })"

definition redraw_cell :: "VtCell \<Rightarrow> u32 \<Rightarrow> u32 \<Rightarrow> Fb \<Rightarrow> Fb option" where
  "redraw_cell vc col row f =
     (if ch vc \<noteq> 32 \<or> bg vc \<noteq> 0
      then fb_console_putchar (ch vc) (fb_console_set_cursor col row (fb_console_set_colors (fg vc) (bg vc) f))
      else Some f)"

definition vt_redraw :: "Vt \<Rightarrow> Fb \<Rightarrow> Fb option" where
  "vt_redraw v f =
     do { t \<leftarrow> arr_get (vts v) (active_vt v);
          (case buffer t of
             None \<Rightarrow> Some f
           | Some cells \<Rightarrow>
               do { f \<leftarrow> fb_console_clear f;
                    f \<leftarrow> for_each (\<lambda>row. for_each (\<lambda>col f.
                          do { vc \<leftarrow> arr_get cells (unat (of_nat row * screen_cols v + of_nat col));
                               redraw_cell vc (of_nat col) (of_nat row) f }) [0..<unat (screen_cols v)]) [0..<unat (screen_rows v)] f;
                    let f = fb_console_set_colors (vt_fg t) (vt_bg t) f;
                    Some (fb_console_set_cursor (vt_col t) (vt_row t) f) }) }"

definition vt_switch :: "int \<Rightarrow> Vt \<times> Fb \<Rightarrow> (Vt \<times> Fb) option" where
  "vt_switch n = (\<lambda>(v, f).
     if \<not> vt_initialized v \<or> n < 0 \<or> n \<ge> int VT_COUNT \<or> n = int (active_vt v) then Some (v, f)
     else do {
       old \<leftarrow> arr_get (vts v) (active_vt v);
       let (col, row) = fb_console_get_cursor f;
       let v = v\<lparr>vts := (vts v)[active_vt v := old\<lparr>vt_col := col, vt_row := row\<rparr>], active_vt := nat n\<rparr>;
       f \<leftarrow> vt_redraw v f;
       Some (v, f) })"

definition vt_active :: "Vt \<Rightarrow> nat" where
  "vt_active v = active_vt v"

text \<open>Scrolling a buffer: the rows move up by one and the last one is filled with blanks.\<close>

definition vt_scroll :: "u32 \<Rightarrow> u32 \<Rightarrow> VirtualTerminal \<Rightarrow> VtCell list \<Rightarrow> VtCell list option" where
  "vt_scroll ncols nrows t cells =
     (let n = unat (ucast (nrows - 1) * ucast ncols :: u64) in
      if unat ncols + n \<le> length cells
      then for_each (\<lambda>c cells. arr_set cells (unat ((nrows - 1) * ncols + of_nat c)) \<lparr>ch = 32, fg = vt_fg t, bg = vt_bg t\<rparr>)
             [0..<unat ncols] (take n (drop (unat ncols) cells) @ drop n cells)
      else None)"

text \<open>The move to the start of the next line, with scrolling at the end of the screen.\<close>

definition vt_next_line :: "u32 \<Rightarrow> u32 \<Rightarrow> VirtualTerminal \<Rightarrow> VtCell list \<Rightarrow> VirtualTerminal option" where
  "vt_next_line ncols nrows t cells =
     (let t = t\<lparr>vt_col := 0, vt_row := vt_row t + 1\<rparr> in
      if vt_row t \<ge> nrows
      then do { cells \<leftarrow> vt_scroll ncols nrows t cells; Some (t\<lparr>buffer := Some cells, vt_row := nrows - 1\<rparr>) }
      else Some (t\<lparr>buffer := Some cells\<rparr>))"

definition vt_buffer_putchar :: "u32 \<Rightarrow> u32 \<Rightarrow> u8 \<Rightarrow> VirtualTerminal \<Rightarrow> VirtualTerminal option" where
  "vt_buffer_putchar ncols nrows c t =
     (case buffer t of
        None \<Rightarrow> Some t
      | Some cells \<Rightarrow>
          if c = 10 then vt_next_line ncols nrows t cells
          else if c = 13 then Some (t\<lparr>vt_col := 0\<rparr>)
          else if c = 8 then Some (if vt_col t > 0 then t\<lparr>vt_col := vt_col t - 1\<rparr> else t)
          else if c = 9 then
            (let t = t\<lparr>vt_col := (vt_col t + 8) AND NOT 7\<rparr> in
             if vt_col t \<ge> ncols
             then let t = t\<lparr>vt_col := 0, vt_row := vt_row t + 1\<rparr> in Some (if vt_row t \<ge> nrows then t\<lparr>vt_row := nrows - 1\<rparr> else t)
             else Some t)
          else if c \<ge> 0x20 \<and> c < 0x7F then
            do { cells \<leftarrow> arr_set cells (unat (vt_row t * ncols + vt_col t)) \<lparr>ch = c, fg = vt_fg t, bg = vt_bg t\<rparr>;
                 let t = t\<lparr>buffer := Some cells, vt_col := vt_col t + 1\<rparr>;
                 (if vt_col t \<ge> ncols then vt_next_line ncols nrows t cells else Some t) }
          else Some t)"

definition vt_putchar :: "int \<Rightarrow> u8 \<Rightarrow> Vt \<Rightarrow> Vt option" where
  "vt_putchar i c v =
     (if \<not> vt_initialized v \<or> i < 0 \<or> i \<ge> int VT_COUNT then Some v
      else do { t \<leftarrow> arr_get (vts v) (nat i);
                t \<leftarrow> vt_buffer_putchar (screen_cols v) (screen_rows v) c t;
                Some (v\<lparr>vts := (vts v)[nat i := t]\<rparr>) })"

section \<open>The keyboard driver\<close>

record Machine =
  kern :: kernel
  console :: Console
  terminals :: Vt

text \<open>The tables map a scancode to its character; the C initialisers fill the rest of the 128 entries with 0.\<close>

definition scancode_to_ascii :: "u8 list" where
  "scancode_to_ascii =
     [0, 27, 49, 50, 51, 52, 53, 54, 55, 56, 57, 48, 45, 61, 8,
      9, 113, 119, 101, 114, 116, 121, 117, 105, 111, 112, 91, 93, 10,
      0,
      97, 115, 100, 102, 103, 104, 106, 107, 108, 59, 39, 96,
      0,
      92, 122, 120, 99, 118, 98, 110, 109, 44, 46, 47,
      0,
      42,
      0,
      32,
      0] @ replicate 69 0"

definition scancode_shift :: "u8 list" where
  "scancode_shift =
     [0, 27, 33, 64, 35, 36, 37, 94, 38, 42, 40, 41, 95, 43, 8,
      9, 81, 87, 69, 82, 84, 89, 85, 73, 79, 80, 123, 125, 10,
      0,
      65, 83, 68, 70, 71, 72, 74, 75, 76, 58, 34, 126,
      0,
      124, 90, 88, 67, 86, 66, 78, 77, 60, 62, 63,
      0,
      42,
      0,
      32,
      0] @ replicate 69 0"

text \<open>A modifier key changes only the modifier state; \<open>None\<close> for any other scancode.\<close>

definition kbd_modifier :: "u8 \<Rightarrow> Keyboard \<Rightarrow> Keyboard option" where
  "kbd_modifier sc k =
     (if sc = 0x2A \<or> sc = 0x36 then Some (k\<lparr>shift_held := True\<rparr>)
      else if sc = 0xAA \<or> sc = 0xB6 then Some (k\<lparr>shift_held := False\<rparr>)
      else if sc = 0x1D then Some (k\<lparr>ctrl_held := True\<rparr>)
      else if sc = 0x9D then Some (k\<lparr>ctrl_held := False\<rparr>)
      else if sc = 0x38 then Some (k\<lparr>alt_held := True\<rparr>)
      else if sc = 0xB8 then Some (k\<lparr>alt_held := False\<rparr>)
      else if sc = 0x3A then Some (k\<lparr>caps_lock := \<not> caps_lock k\<rparr>)
      else None)"

definition kbd_char :: "u8 \<Rightarrow> Keyboard \<Rightarrow> u8 option" where
  "kbd_char sc k =
     do { let shifted = (shift_held k \<noteq> caps_lock k);
          c \<leftarrow> arr_get (if shifted then scancode_shift else scancode_to_ascii) (unat sc);
          Some (if ctrl_held k \<and> c \<ge> 97 \<and> c \<le> 122 then c - 97 + 1 else c) }"

definition keyboard_irq_handler :: "u8 \<Rightarrow> Machine \<Rightarrow> Machine option" where
  "keyboard_irq_handler sc m =
     (if sc = 0xE0 then Some m
      else case kbd_modifier sc (kbd (kern m)) of
        Some k \<Rightarrow> Some (m\<lparr>kern := (kern m)\<lparr>kbd := k\<rparr>\<rparr>)
      | None \<Rightarrow>
          if sc AND 0x80 \<noteq> 0 then Some m
          else if alt_held (kbd (kern m)) \<and> sc \<ge> 0x3B \<and> sc \<le> 0x40 then
            do { (v, f) \<leftarrow> vt_switch (int (unat (sc - 0x3B))) (terminals m, fb (console m));
                 Some (m\<lparr>terminals := v, console := (console m)\<lparr>fb := f\<rparr>\<rparr>) }
          else do {
            c \<leftarrow> kbd_char sc (kbd (kern m));
            (if c \<noteq> 0 then do { k \<leftarrow> tty_input_char c (kern m); Some (m\<lparr>kern := k\<rparr>) } else Some m) })"

definition keyboard_init :: "kernel \<Rightarrow> kernel" where
  "keyboard_init s = s\<lparr>kbd := \<lparr>shift_held = False, ctrl_held = False, alt_held = False, caps_lock = False\<rparr>\<rparr>"

section \<open>Switching shows the terminal\<close>

text \<open>
  \<open>painted s t A f\<close>: the screen of \<open>t\<close> is that of \<open>s\<close>, but for the pixels of the area \<open>A\<close>, which have the
  colour \<open>f\<close>; cursor and colours may differ.
\<close>

definition painted :: "Fb \<Rightarrow> Fb \<Rightarrow> (nat \<Rightarrow> nat \<Rightarrow> bool) \<Rightarrow> (nat \<Rightarrow> nat \<Rightarrow> u32) \<Rightarrow> bool" where
  "painted s t A f \<longleftrightarrow> fb_ok t \<and> fb_width t = fb_width s \<and> fb_height t = fb_height s \<and> cols t = cols s \<and> rows t = rows s \<and>
     fb_red_shift t = fb_red_shift s \<and> fb_green_shift t = fb_green_shift s \<and> fb_blue_shift t = fb_blue_shift s \<and>
     (\<forall>x < unat (fb_width s). \<forall>y < unat (fb_height s). pixel t x y = (if A x y then f x y else pixel s x y))"

definition blank :: "VtCell \<Rightarrow> bool" where
  "blank b \<longleftrightarrow> ch b = 32 \<and> bg b = 0"

text \<open>The colour of a pixel when the screen shows the given cells.\<close>

definition cells_color :: "VtCell list \<Rightarrow> Fb \<Rightarrow> nat \<Rightarrow> nat \<Rightarrow> u32" where
  "cells_color cells s x y =
     (let b = cells ! (y div FONT_HEIGHT * unat (cols s) + x div FONT_WIDTH) in
      glyph_color (font8x16_data ! unat (ch b)) (pack_color (fg b) s) (pack_color (bg b) s) (x mod FONT_WIDTH) (y mod FONT_HEIGHT))"

lemma painted_trans:
  assumes "painted s t A f" and "painted t u B g" and "\<And>x y. C x y = (A x y \<or> B x y)"
    and "\<And>x y. B x y \<Longrightarrow> h x y = g x y" and "\<And>x y. A x y \<Longrightarrow> \<not> B x y \<Longrightarrow> h x y = f x y"
  shows "painted s u C h"
  using assms by (auto simp: painted_def)

lemma cell_div: "cell c r x y \<longleftrightarrow> x div FONT_WIDTH = c \<and> y div FONT_HEIGHT = r"
  by (auto simp: cell_def)

lemma cell_mod: "cell c r x y \<Longrightarrow> x - c * FONT_WIDTH = x mod FONT_WIDTH \<and> y - r * FONT_HEIGHT = y mod FONT_HEIGHT"
  by (auto simp: cell_div minus_div_mult_eq_mod)

lemma set_cursor_inside: "c < cols s \<Longrightarrow> r < rows s \<Longrightarrow> fb_console_set_cursor c r s = s\<lparr>cur_col := c, cur_row := r\<rparr>"
  by (simp add: fb_console_set_cursor_def not_le [symmetric])

lemma redraw_cell_painted:
  assumes "fb_ok s" and "c < cols s" and "r < rows s" and "32 \<le> ch b" and "ch b < 127" and "\<not> blank b"
    and "c + 1 < cols s \<or> r + 1 < rows s"
  shows "\<exists>t. redraw_cell b c r s = Some t \<and> painted s t (cell (unat c) (unat r))
     (\<lambda>x y. glyph_color (font8x16_data ! unat (ch b)) (pack_color (fg b) s) (pack_color (bg b) s) (x mod FONT_WIDTH) (y mod FONT_HEIGHT))"
proof -
  let ?s = "fb_console_set_cursor c r (fb_console_set_colors (fg b) (bg b) s)"
  have e: "?s = s\<lparr>fg_color := pack_color (fg b) s, bg_color := pack_color (bg b) s, cur_col := c, cur_row := r\<rparr>"
    using assms(2,3) by (subst set_cursor_inside) (simp_all add: fb_console_set_colors_def)
  have ok: "fb_ok ?s" using assms(1) by (intro set_cursor_ok) simp
  have sel: "cur_col ?s = c" "cur_row ?s = r" "cols ?s = cols s" "rows ?s = rows s" "fg_color ?s = pack_color (fg b) s"
    "bg_color ?s = pack_color (bg b) s" by (simp_all add: e)
  obtain u t where ut: "fb_console_putchar (ch b) ?s = Some t"
    "drawn ?s u (cell (unat c) (unat r)) (\<lambda>x y. glyph_color (font8x16_data ! unat (ch b)) (pack_color (fg b) s) (pack_color (bg b) s)
       (x - unat c * FONT_WIDTH) (y - unat r * FONT_HEIGHT))"
    and mv: "if c + 1 < cols s then t = u\<lparr>cur_col := c + 1\<rparr> else if r + 1 < rows s then t = u\<lparr>cur_col := 0, cur_row := r + 1\<rparr>
      else \<exists>v. scrolled (u\<lparr>cur_col := c + 1\<rparr>) v \<and> t = v\<lparr>cur_col := 0, cur_row := rows s - 1\<rparr>"
    using putchar_spec [OF ok assms(4,5)] unfolding sel by blast
  have cr: "\<exists>c' r'. t = u\<lparr>cur_col := c', cur_row := r'\<rparr>"
  proof (cases "c + 1 < cols s")
    case True
    then have "t = u\<lparr>cur_col := c + 1, cur_row := cur_row u\<rparr>" using mv by simp
    then show ?thesis by blast
  next
    case False
    then have "t = u\<lparr>cur_col := 0, cur_row := r + 1\<rparr>" using mv assms(7) by simp
    then show ?thesis by blast
  qed
  obtain t' where "fb_console_putchar (ch b) ?s = Some t'" "fb_ok t'" using fb_console_putchar_ok [OF ok] by blast
  then have tok: "fb_ok t" using ut(1) by simp
  have px: "pixel t x y = pixel u x y" "pixel ?s x y = pixel s x y" for x y using cr by (auto simp: pixel_def e)
  have "painted s t (cell (unat c) (unat r))
     (\<lambda>x y. glyph_color (font8x16_data ! unat (ch b)) (pack_color (fg b) s) (pack_color (bg b) s) (x mod FONT_WIDTH) (y mod FONT_HEIGHT))"
    using tok ut(2) cr drawn_sel [OF ut(2)] cell_mod unfolding painted_def px drawn_def by (auto simp: e px)
  then show ?thesis using ut(1) assms(6) by (auto simp: redraw_cell_def blank_def)
qed

lemma space_glyph: "font8x16_data ! 32 = replicate FONT_HEIGHT 0"
  by (simp add: font8x16_data_def numeral_eq_Suc)

lemma blank_color: "blank b \<Longrightarrow> glyph_color (font8x16_data ! unat (ch b)) v (pack_color (bg b) s) gx (y mod FONT_HEIGHT) = 0"
  by (simp add: blank_def glyph_color_def space_glyph pack_color_def)

lemma pack_color_painted: "painted s t A f \<Longrightarrow> pack_color v t = pack_color v s"
  by (simp add: painted_def pack_color_def)

text \<open>One cell more: on a cleared screen a blank cell needs no drawing.\<close>

lemma redraw_step:
  assumes p: "painted s t (area C) (cells_color cells s)" and clear: "\<And>x y. x < unat (fb_width s) \<Longrightarrow> y < unat (fb_height s) \<Longrightarrow> pixel s x y = 0"
    and "c < unat (cols s)" and "r < unat (rows s)" and b: "b = cells ! (r * unat (cols s) + c)" "32 \<le> ch b" "ch b < 127"
    and "blank b \<or> Suc c < unat (cols s) \<or> Suc r < unat (rows s)"
  shows "\<exists>t'. redraw_cell b (of_nat c) (of_nat r) t = Some t' \<and> painted s t' (area (insert (c, r) C)) (cells_color cells s)"
proof (cases "blank b")
  case True
  then have "cells_color cells s x y = 0" if "cell c r x y" for x y
    using that blank_color [OF True] by (simp add: cells_color_def b(1) [symmetric] cell_div)
  then have "painted s t (area (insert (c, r) C)) (cells_color cells s)"
    using p clear unfolding painted_def by (auto simp: area_def)
  then show ?thesis using True by (simp add: redraw_cell_def blank_def)
next
  case False
  have u: "unat (of_nat c :: u32) = c" "unat (of_nat r :: u32) = r"
    using assms(3,4) unat_lt_32 [of "cols s"] unat_lt_32 [of "rows s"] by (auto intro!: unat_of_nat_less)
  have S: "unat (of_nat n + 1 :: u32) = Suc n" if "Suc n < unat (k :: u32)" for n k
  proof -
    have "of_nat n + 1 = (of_nat (Suc n) :: u32)" by simp
    then show ?thesis using that unat_lt_32 [of k] by (simp only:) (intro unat_of_nat_less, simp)
  qed
  have eq: "cols t = cols s" "rows t = rows s" "fb_ok t" using p by (simp_all add: painted_def)
  have lt: "of_nat c < cols t" "of_nat r < rows t" using assms(3,4) by (simp_all only: eq word_less_nat_alt u)
  have nl: "(of_nat c :: u32) + 1 < cols t \<or> (of_nat r :: u32) + 1 < rows t"
    using assms(8) False S [of c "cols s"] S [of r "rows s"] by (auto simp only: eq word_less_nat_alt)
  obtain t' where t': "redraw_cell b (of_nat c) (of_nat r) t = Some t'"
    "painted t t' (cell c r) (\<lambda>x y. glyph_color (font8x16_data ! unat (ch b)) (pack_color (fg b) s) (pack_color (bg b) s) (x mod FONT_WIDTH) (y mod FONT_HEIGHT))"
    using redraw_cell_painted [OF eq(3) lt b(2,3) False nl] unfolding u pack_color_painted [OF p] by blast
  have "painted s t' (area (insert (c, r) C)) (cells_color cells s)"
    by (rule painted_trans [OF p t'(2)]) (auto simp: area_def cells_color_def b(1) [symmetric] cell_div Let_def)
  then show ?thesis using t'(1) by blast
qed

lemma cell_index:
  assumes "unat (ncols :: u32) * nrows < 2 ^ 32" and "c < unat ncols" and "r < nrows"
  shows "unat (of_nat r * ncols + of_nat c) = r * unat ncols + c" and "r * unat ncols + c < unat ncols * nrows"
proof -
  have "Suc r * unat ncols \<le> nrows * unat ncols" using assms(3) by (intro mult_le_mono1) simp
  then show i: "r * unat ncols + c < unat ncols * nrows" using assms(2) by (simp add: mult.commute)
  have "of_nat r * ncols + of_nat c = of_nat (r * unat ncols + c)" by simp
  then show "unat (of_nat r * ncols + of_nat c) = r * unat ncols + c"
    using i assms(1) by (simp add: unat_of_nat_less del: of_nat_add of_nat_mult)
qed

text \<open>The cells of a terminal's buffer: one per position of the screen, each a printable character.\<close>

definition cells_ok :: "u32 \<Rightarrow> u32 \<Rightarrow> VtCell list \<Rightarrow> bool" where
  "cells_ok ncols nrows cells \<longleftrightarrow> unat ncols * unat nrows < 2 ^ 32 \<and> length cells = unat ncols * unat nrows \<and>
     (\<forall>b \<in> set cells. 32 \<le> ch b \<and> ch b < 127)"

abbreviation redraw_loop :: "VtCell list \<Rightarrow> u32 \<Rightarrow> u32 \<Rightarrow> Fb \<Rightarrow> Fb option" where
  "redraw_loop cells ncols nrows \<equiv> for_each (\<lambda>row. for_each (\<lambda>col f.
     do { vc \<leftarrow> arr_get cells (unat (of_nat row * ncols + of_nat col)); redraw_cell vc (of_nat col) (of_nat row) f })
     [0..<unat ncols]) [0..<unat nrows]"

lemma redraw_loop_painted:
  assumes ok: "fb_ok s" and clear: "\<And>x y. x < unat (fb_width s) \<Longrightarrow> y < unat (fb_height s) \<Longrightarrow> pixel s x y = 0"
    and cells: "cells_ok (cols s) (rows s) cells" and last: "blank (last cells)"
  shows "\<exists>t. redraw_loop cells (cols s) (rows s) s = Some t \<and> painted s t (area ({0..<unat (cols s)} \<times> {0..<unat (rows s)})) (cells_color cells s)"
proof (rule for_each_upt_rule [where I = "\<lambda>r t. painted s t (area ({0..<unat (cols s)} \<times> {0..<r})) (cells_color cells s)"])
  show "painted s s (area ({0..<unat (cols s)} \<times> {0..<0})) (cells_color cells s)" using ok by (simp add: painted_def area_simps)
next
  fix r t
  assume r: "r < unat (rows s)" and p: "painted s t (area ({0..<unat (cols s)} \<times> {0..<r})) (cells_color cells s)"
  let ?C = "\<lambda>c. {0..<unat (cols s)} \<times> {0..<r} \<union> {0..<c} \<times> {r}"
  have "\<exists>t'. for_each (\<lambda>col f. do { vc \<leftarrow> arr_get cells (unat (of_nat r * cols s + of_nat col)); redraw_cell vc (of_nat col) (of_nat r) f })
      [0..<unat (cols s)] t = Some t' \<and> painted s t' (area (?C (unat (cols s)))) (cells_color cells s)"
  proof (rule for_each_upt_rule [where I = "\<lambda>c t. painted s t (area (?C c)) (cells_color cells s)"])
    fix c t
    assume c: "c < unat (cols s)" and p: "painted s t (area (?C c)) (cells_color cells s)"
    note ix = cell_index [of "cols s" "unat (rows s)" c r, OF _ c r]
    let ?b = "cells ! (r * unat (cols s) + c)"
    have i: "unat (of_nat r * cols s + of_nat c) = r * unat (cols s) + c" "r * unat (cols s) + c < length cells"
      using ix cells by (auto simp: cells_ok_def)
    then have pr: "32 \<le> ch ?b" "ch ?b < 127" using cells nth_mem [OF i(2)] by (auto simp: cells_ok_def)
    have lc: "?b = last cells" if "\<not> (Suc c < unat (cols s) \<or> Suc r < unat (rows s))"
    proof -
      have k: "Suc c = unat (cols s)" "Suc r = unat (rows s)" using that c r by linarith+
      have "length cells = unat (cols s) * Suc r" using cells by (simp add: cells_ok_def k(2))
      then have "r * unat (cols s) + c = length cells - 1" using k(1) by (simp add: mult.commute)
      then show ?thesis using i(2) by (subst last_conv_nth) auto
    qed
    have "blank ?b \<or> Suc c < unat (cols s) \<or> Suc r < unat (rows s)" using lc last by metis
    then obtain t' where "redraw_cell ?b (of_nat c) (of_nat r) t = Some t'" "painted s t' (area (insert (c, r) (?C c))) (cells_color cells s)"
      using redraw_step [OF p clear c r refl pr] by blast
    moreover have "insert (c, r) (?C c) = ?C (Suc c)" by auto
    ultimately show "\<exists>t'. (do { vc \<leftarrow> arr_get cells (unat (of_nat r * cols s + of_nat c)); redraw_cell vc (of_nat c) (of_nat r) t }) = Some t' \<and>
        painted s t' (area (?C (Suc c))) (cells_color cells s)" using i by simp
  qed (use p in simp_all)
  moreover have "?C (unat (cols s)) = {0..<unat (cols s)} \<times> {0..<Suc r}" by auto
  ultimately show "\<exists>t'. for_each (\<lambda>col f. do { vc \<leftarrow> arr_get cells (unat (of_nat r * cols s + of_nat col)); redraw_cell vc (of_nat col) (of_nat r) f })
      [0..<unat (cols s)] t = Some t' \<and> painted s t' (area ({0..<unat (cols s)} \<times> {0..<Suc r})) (cells_color cells s)" by simp
qed simp

lemma clear_painted:
  assumes "fb_ok s"
  shows "\<exists>t. fb_console_clear s = Some t \<and> painted s t (\<lambda>_ _. True) (\<lambda>_ _. 0)"
proof -
  obtain m where m: "fb_fill 0 0 (unat (fb_pitch s * fb_height s)) (fb_mem s) = Some m" "length m = length (fb_mem s)" "set m \<subseteq> {0}"
    using erase_all [OF assms] by blast
  let ?t = "s\<lparr>fb_mem := m, cur_col := 0, cur_row := 0, fb_dirty := True\<rparr>"
  have "pixel ?t x y = 0" if "x < unat (fb_width s)" "y < unat (fb_height s)" for x y
  proof -
    have le: "y * unat (fb_pitch s) + 4 * x + 4 \<le> length m"
      using pixel_offset [OF fb_okD(1) [OF assms] that] fb_okD(1) [OF assms] m(2) by (simp add: fb_geo_def)
    have "load32 (y * unat (fb_pitch s) + 4 * x) m = 0"
    proof (rule load32_zero)
      fix i :: nat assume "i < 4"
      then have "y * unat (fb_pitch s) + 4 * x + i < length m" using le by linarith
      then show "m ! (y * unat (fb_pitch s) + 4 * x + i) = 0" using m(3) nth_mem by blast
    qed
    then show ?thesis by (simp add: pixel_def)
  qed
  then have "painted s ?t (\<lambda>_ _. True) (\<lambda>_ _. 0)" using fb_ok_fill [OF assms m(2)] by (simp add: painted_def)
  moreover have "fb_console_clear s = Some ?t" using fb_okD(2) [OF assms] m(1) by (simp add: fb_console_clear_def)
  ultimately show ?thesis by blast
qed

lemma vt_redraw_spec:
  assumes "fb_ok f" and "active_vt v < length (vts v)" and "buffer (vts v ! active_vt v) = Some cells"
    and "screen_cols v = cols f" and "screen_rows v = rows f" and "cells_ok (cols f) (rows f) cells" and "blank (last cells)"
  shows "\<exists>f'. vt_redraw v f = Some f' \<and> fb_ok f' \<and> cur_col f' = min (vt_col (vts v ! active_vt v)) (cols f - 1) \<and>
     cur_row f' = min (vt_row (vts v ! active_vt v)) (rows f - 1) \<and>
     (\<forall>x y. x div FONT_WIDTH < unat (cols f) \<longrightarrow> y div FONT_HEIGHT < unat (rows f) \<longrightarrow> pixel f' x y = cells_color cells f x y)"
proof -
  let ?t = "vts v ! active_vt v"
  obtain g where g: "fb_console_clear f = Some g" "painted f g (\<lambda>_ _. True) (\<lambda>_ _. 0)" using clear_painted [OF assms(1)] by blast
  have ge: "cols g = cols f" "rows g = rows f" "fb_ok g" "\<And>x y. x < unat (fb_width g) \<Longrightarrow> y < unat (fb_height g) \<Longrightarrow> pixel g x y = 0"
    using g(2) by (auto simp: painted_def)
  obtain h where h: "redraw_loop cells (cols f) (rows f) g = Some h"
    "painted g h (area ({0..<unat (cols f)} \<times> {0..<unat (rows f)})) (cells_color cells g)"
    using redraw_loop_painted [OF ge(3,4), of cells] assms(6,7) unfolding ge(1,2) by blast
  let ?f = "fb_console_set_cursor (vt_col ?t) (vt_row ?t) (fb_console_set_colors (vt_fg ?t) (vt_bg ?t) h)"
  have "vt_redraw v f = Some ?f" using assms(2-5) g(1) h(1) by (simp add: vt_redraw_def)
  moreover have "fb_ok ?f" using h(2) by (intro set_cursor_ok) (simp add: painted_def)
  moreover have eq: "cols h = cols f" "rows h = rows f" "fb_width h = fb_width f" "fb_height h = fb_height f"
    using h(2) g(2) by (simp_all add: painted_def)
  have "cur_col ?f = min (vt_col ?t) (cols f - 1)" "cur_row ?f = min (vt_row ?t) (rows f - 1)"
    using fb_okD(5,6) [OF assms(1)] by (auto simp: fb_console_set_cursor_def fb_console_set_colors_def eq min_def word_le_nat_alt word_less_nat_alt unat_sub_if')
  moreover have "pixel ?f x y = cells_color cells f x y" if "x div FONT_WIDTH < unat (cols f)" "y div FONT_HEIGHT < unat (rows f)" for x y
  proof -
    have "pixel ?f x y = pixel h x y" by (simp add: fb_console_set_cursor_def fb_console_set_colors_def pixel_def)
    moreover have "x < unat (fb_width g)" "y < unat (fb_height g)"
      using that fb_geoD(1,2) [OF fb_okD(1) [OF assms(1)]] g(2) by (auto simp: painted_def div_less_iff_less_mult)
    moreover have "area ({0..<unat (cols f)} \<times> {0..<unat (rows f)}) x y" using that by (simp add: area_def cell_div)
    moreover have "cells_color cells g x y = cells_color cells f x y" by (simp add: cells_color_def ge(1) pack_color_painted [OF g(2)])
    ultimately show ?thesis using h(2) by (simp add: painted_def)
  qed
  ultimately show ?thesis by blast
qed


definition vt_example :: "Vt" where
  "vt_example = \<lparr>vts = replicate VT_COUNT \<lparr>buffer = Some (\<lparr>ch = 65, fg = 0xAAAAAA, bg = 0\<rparr> # replicate 2399 \<lparr>ch = 32, fg = 0xAAAAAA, bg = 0\<rparr>),
       vt_col = 1, vt_row = 0, vt_fg = 0xAAAAAA, vt_bg = 0, ansi_state = 0, ansi_param_count = 0, vt_bold = False\<rparr>,
     active_vt = 0, screen_cols = 80, screen_rows = 30, vt_initialized = True\<rparr>"


text \<open>
  The condition on the bottom right cell is needed: drawing it makes the console advance past the end
  of the screen and scroll up what has been redrawn.
\<close>

lemma redraw_last_cell_scrolls:
  assumes "fb_ok s" and "32 \<le> ch b" and "ch b < 127" and "\<not> blank b"
  shows "\<exists>u v t. redraw_cell b (cols s - 1) (rows s - 1) s = Some t \<and> scrolled u v \<and> t = v\<lparr>cur_col := 0, cur_row := rows s - 1\<rparr>"
proof -
  let ?s = "fb_console_set_cursor (cols s - 1) (rows s - 1) (fb_console_set_colors (fg b) (bg b) s)"
  have ok: "fb_ok ?s" using assms(1) by (intro set_cursor_ok) simp
  have lt: "cols s - 1 < cols s" "rows s - 1 < rows s"
    using fb_okD(5,6) [OF assms(1)] by (auto simp: word_less_nat_alt unat_sub_if' word_le_nat_alt)
  have sel: "cur_col ?s = cols s - 1" "cur_row ?s = rows s - 1" "cols ?s = cols s" "rows ?s = rows s"
    using lt by (auto simp: fb_console_set_cursor_def fb_console_set_colors_def not_le [symmetric])
  show ?thesis using putchar_spec [OF ok assms(2,3)] assms(4) unfolding sel by (auto simp: redraw_cell_def blank_def)
qed

section \<open>Writing to a terminal\<close>

text \<open>A terminal is in order if its cursor is on the screen and its buffer has a printable character in every cell.\<close>

definition term_ok :: "u32 \<Rightarrow> u32 \<Rightarrow> VirtualTerminal \<Rightarrow> bool" where
  "term_ok ncols nrows t \<longleftrightarrow>
     (case buffer t of None \<Rightarrow> True | Some cells \<Rightarrow> cells_ok ncols nrows cells \<and> vt_col t < ncols \<and> vt_row t < nrows)"

lemma cells_ok_set: "cells_ok m n cells \<Longrightarrow> i < length cells \<Longrightarrow> 32 \<le> ch b \<Longrightarrow> ch b < 127 \<Longrightarrow> cells_ok m n (cells[i := b])"
  by (auto simp: cells_ok_def dest: set_update_subset_insert [THEN subsetD])

lemma vt_scroll_ok:
  assumes c: "cells_ok ncols nrows cells" and n: "0 < nrows"
  shows "\<exists>cells'. vt_scroll ncols nrows t cells = Some cells' \<and> cells_ok ncols nrows cells'"
proof -
  let ?n = "(unat nrows - 1) * unat ncols"
  have r1: "unat (nrows - 1) = unat nrows - 1" "1 \<le> unat nrows" using n by (auto simp: unat_sub_if' word_le_nat_alt word_less_nat_alt)
  have len: "length cells = ?n + unat ncols" "?n + unat ncols < 2 ^ 32"
    using c r1(2) by (auto simp: cells_ok_def algebra_simps diff_mult_distrib2)
  have u: "unat (ucast (nrows - 1) * ucast ncols :: u64) = ?n" using len(2) r1 by (subst unat_mult_no_overflow) simp_all
  have start: "cells_ok ncols nrows (take ?n (drop (unat ncols) cells) @ drop ?n cells)"
    using c len(1) by (auto simp: cells_ok_def dest: in_set_takeD in_set_dropD)
  have "\<exists>cells'. for_each (\<lambda>c cells. arr_set cells (unat ((nrows - 1) * ncols + of_nat c)) \<lparr>ch = 32, fg = vt_fg t, bg = vt_bg t\<rparr>)
      [0..<unat ncols] (take ?n (drop (unat ncols) cells) @ drop ?n cells) = Some cells' \<and> cells_ok ncols nrows cells'"
  proof (rule for_each_upt_rule [where I = "\<lambda>_. cells_ok ncols nrows"])
    fix i cs assume i: "i < unat ncols" and cs: "cells_ok ncols nrows cs"
    have "(nrows - 1) * ncols + of_nat i = of_nat (unat nrows - 1) * ncols + of_nat i" using r1(1) [symmetric] by simp
    then have ix: "unat ((nrows - 1) * ncols + of_nat i) = ?n + i" "?n + i < length cs"
      using cell_index [of ncols "unat nrows" i "unat nrows - 1"] cs i r1(2) by (auto simp: cells_ok_def)
    then show "\<exists>cs'. arr_set cs (unat ((nrows - 1) * ncols + of_nat i)) \<lparr>ch = 32, fg = vt_fg t, bg = vt_bg t\<rparr> = Some cs' \<and> cells_ok ncols nrows cs'"
      using cells_ok_set [OF cs] by simp
  qed (use start in simp_all)
  then show ?thesis using len(1) by (simp add: vt_scroll_def Let_def u)
qed

lemma vt_next_line_ok:
  assumes "cells_ok ncols nrows cells" and "0 < ncols" and "vt_row t < nrows"
  shows "\<exists>t'. vt_next_line ncols nrows t cells = Some t' \<and> term_ok ncols nrows t'"
proof -
  have n: "0 < nrows" using assms(3) by (metis word_gt_0 word_not_simps(1))
  obtain cells' where "vt_scroll ncols nrows (t\<lparr>vt_col := 0, vt_row := vt_row t + 1\<rparr>) cells = Some cells'" "cells_ok ncols nrows cells'"
    using vt_scroll_ok [OF assms(1) n] by blast
  moreover have "nrows - 1 < nrows" using n by (auto simp: word_less_nat_alt unat_sub_if' word_le_nat_alt)
  ultimately show ?thesis using assms by (auto simp: vt_next_line_def Let_def term_ok_def)
qed

lemma vt_buffer_putchar_ok:
  assumes "term_ok ncols nrows t" and "0 < ncols" and "0 < nrows"
  shows "\<exists>t'. vt_buffer_putchar ncols nrows c t = Some t' \<and> term_ok ncols nrows t'"
proof (cases "buffer t")
  case None
  then show ?thesis by (simp add: vt_buffer_putchar_def term_ok_def)
next
  case (Some cells)
  then have k: "cells_ok ncols nrows cells" "vt_col t < ncols" "vt_row t < nrows" using assms(1) by (simp_all add: term_ok_def)
  have r1: "nrows - 1 < nrows" using assms(3) by (auto simp: word_less_nat_alt unat_sub_if' word_le_nat_alt)
  have c1: "vt_col t - 1 < ncols" if "vt_col t > 0" using k(2) that by (auto simp: word_less_nat_alt unat_sub_if' word_le_nat_alt)
  have "unat (vt_row t * ncols + vt_col t) < length cells"
    using cell_index [of ncols "unat nrows" "unat (vt_col t)" "unat (vt_row t)"] k by (auto simp: cells_ok_def word_less_nat_alt)
  then obtain cells' where s: "arr_set cells (unat (vt_row t * ncols + vt_col t)) \<lparr>ch = c, fg = vt_fg t, bg = vt_bg t\<rparr> = Some cells'"
    "0x20 \<le> c \<Longrightarrow> c < 0x7F \<Longrightarrow> cells_ok ncols nrows cells'" using cells_ok_set [OF k(1)] by auto
  show ?thesis
    using Some k r1 c1 s assms(2) vt_next_line_ok [OF k(1) assms(2), of t] vt_next_line_ok [of ncols nrows cells' "t\<lparr>buffer := Some cells', vt_col := vt_col t + 1\<rparr>"]
    by (auto simp: vt_buffer_putchar_def Let_def term_ok_def)
qed

text \<open>
  Whatever is written to whichever terminal, no store leaves a buffer and every terminal stays in order;
  the terminals that are not written to do not change.
\<close>

lemma vt_putchar_ok:
  assumes "length (vts v) = VT_COUNT" and "\<forall>t \<in> set (vts v). term_ok (screen_cols v) (screen_rows v) t" and "0 < screen_cols v" and "0 < screen_rows v"
  shows "\<exists>t. vt_putchar i c v = Some (v\<lparr>vts := (vts v)[nat i := t]\<rparr>) \<and> term_ok (screen_cols v) (screen_rows v) t \<or> vt_putchar i c v = Some v"
proof (cases "\<not> vt_initialized v \<or> i < 0 \<or> i \<ge> int VT_COUNT")
  case True
  then show ?thesis by (auto simp: vt_putchar_def)
next
  case False
  then have "nat i < length (vts v)" using assms(1) by auto
  moreover from this have "term_ok (screen_cols v) (screen_rows v) (vts v ! nat i)" using assms(2) nth_mem by blast
  moreover from this obtain t where "vt_buffer_putchar (screen_cols v) (screen_rows v) c (vts v ! nat i) = Some t"
    "term_ok (screen_cols v) (screen_rows v) t" using vt_buffer_putchar_ok [OF _ assms(3,4)] by blast
  ultimately show ?thesis using False by (auto simp: vt_putchar_def)
qed

section \<open>Scancodes\<close>

lemma scancode_tables [simp]: "length scancode_to_ascii = 128" "length scancode_shift = 128"
  by (simp_all add: scancode_to_ascii_def scancode_shift_def)

text \<open>A key press indexes the tables inside their 128 entries.\<close>

lemma kbd_char_total:
  assumes "sc AND 0x80 = 0"
  shows "\<exists>c. kbd_char sc k = Some c"
proof -
  have "\<not> bit sc 7" using arg_cong [OF assms, of "\<lambda>w. bit w 7"] by (simp add: bit_simps)
  then have "take_bit 7 sc = sc"
    by (intro bit_word_eqI) (auto simp: bit_take_bit_iff less_Suc_eq numeral_eq_Suc)
  then have "unat sc = take_bit 7 (unat sc)" by (metis unsigned_take_bit_eq)
  then have "unat sc < 128" using take_bit_nat_less_exp [of 7 "unat sc"] by simp
  then show ?thesis by (simp add: kbd_char_def Let_def)
qed

text \<open>
  Caps lock shifts the digits too, and together with shift or caps lock the control key has no effect:
  the interrupt character cannot be typed then.
\<close>

lemma kbd_caps_shifts_digits: "kbd_char 2 \<lparr>shift_held = False, ctrl_held = False, alt_held = False, caps_lock = True\<rparr> = Some 33"
  by (simp add: kbd_char_def arr_get_def scancode_shift_def)

lemma kbd_control_needs_lower_case:
  "kbd_char 0x2E \<lparr>shift_held = False, ctrl_held = True, alt_held = False, caps_lock = False\<rparr> = Some TTY_CTRL_C"
  "kbd_char 0x2E \<lparr>shift_held = False, ctrl_held = True, alt_held = False, caps_lock = True\<rparr> = Some 67"
  by (simp_all add: kbd_char_def arr_get_def scancode_to_ascii_def scancode_shift_def)

end
