(* ===== verification/Net.thy ===== *)
theory Net
  imports Sync
begin

text \<open>
  The packets of the network stack (\<^verbatim>\<open>kernel/net\<close>): byte order and checksum (\<^verbatim>\<open>net_util\<close>), interfaces
  (\<^verbatim>\<open>netif.c\<close>), Ethernet frames, the ARP cache, and the sending of IPv4, UDP and TCP packets.  A packet is
  the list of its bytes; a header is laid out byte by byte as the packed C structs are on the little
  endian machine.  A read behind the end of a packet has no result.  What the driver of an interface is
  given to send is appended to \<open>wire\<close>; what it returns is a field of the interface.
\<close>

section \<open>Byte order\<close>

definition htons :: "u16 \<Rightarrow> u16" where
  "htons h = drop_bit 8 h OR push_bit 8 h"

definition htonl :: "u32 \<Rightarrow> u32" where
  "htonl h = (drop_bit 24 h AND 0xFF) OR (drop_bit 8 h AND 0xFF00) OR (push_bit 8 h AND 0xFF0000) OR (push_bit 24 h AND 0xFF000000)"

definition IP4 :: "u8 \<Rightarrow> u8 \<Rightarrow> u8 \<Rightarrow> u8 \<Rightarrow> u32" where
  "IP4 a b c d = ucast a OR push_bit 8 (ucast b) OR push_bit 16 (ucast c) OR push_bit 24 (ucast d)"

section \<open>The Internet checksum\<close>

fun sum_words :: "u8 list \<Rightarrow> u32 \<Rightarrow> u32" where
  "sum_words (a # b # d) acc = sum_words d (acc + (push_bit 8 (ucast a) OR ucast b))"
| "sum_words [a] acc = acc + push_bit 8 (ucast a)"
| "sum_words [] acc = acc"

function fold_carry :: "u32 \<Rightarrow> u32" where
  "fold_carry acc = (if drop_bit 16 acc = 0 then acc else fold_carry ((acc AND 0xFFFF) + drop_bit 16 acc))"
  by auto

lemma unat_low: "unat (acc AND 0xFFFF :: u32) = unat acc mod 65536" and unat_high: "unat (drop_bit 16 acc :: u32) = unat acc div 65536"
proof -
  have "acc AND 0xFFFF = take_bit 16 acc" by (simp add: take_bit_eq_mask mask_eq_exp_minus_1)
  moreover have "unat (take_bit 16 acc) = take_bit 16 (unat acc)" by (rule unsigned_take_bit_eq)
  moreover have "take_bit 16 (unat acc) = unat acc mod 65536" by (simp add: take_bit_eq_mod)
  ultimately show "unat (acc AND 0xFFFF) = unat acc mod 65536" by simp
  have "take_bit 32 (unat acc) = unat acc" using unat_lt_32 [of acc] by (simp add: take_bit_nat_eq_self)
  then have "unat (drop_bit 16 acc) = drop_bit 16 (unat acc)" by (simp only: unsigned_drop_bit_eq len_num0 len_num1 len_bit0 len_bit1) simp
  also have "\<dots> = unat acc div 65536" by (simp add: drop_bit_eq_div)
  finally show "unat (drop_bit 16 acc) = unat acc div 65536" .
qed

lemma fold_step:
  fixes acc :: u32
  shows "unat ((acc AND 0xFFFF) + drop_bit 16 acc) = unat acc mod 65536 + unat acc div 65536"
proof -
  have "unat acc div 65536 < 65536" using unat_lt_32 [of acc] by (simp add: div_less_iff_less_mult)
  then show ?thesis using mod_less_divisor [of 65536 "unat acc"] by (subst unat_plus_no_overflow) (simp_all only: unat_low unat_high, simp_all)
qed

lemma drop_16_iff: "drop_bit 16 (acc :: u32) = 0 \<longleftrightarrow> unat acc < 65536"
proof -
  have "drop_bit 16 acc = 0 \<longleftrightarrow> unat (drop_bit 16 acc) = 0" by (metis unat_0 unat_eq_0)
  then show ?thesis by (simp only: unat_high) (simp add: div_eq_0_iff)
qed

lemma fold_less: "65536 \<le> (m :: nat) \<Longrightarrow> m mod 65536 + m div 65536 < m"
  using div_mult_mod_eq [of m 65536] div_greater_zero_iff [of m 65536] by linarith

termination fold_carry
proof (relation "measure unat")
  fix acc :: u32
  assume "drop_bit 16 acc \<noteq> 0"
  then have "65536 \<le> unat acc" by (simp only: drop_16_iff not_less)
  then show "((acc AND 0xFFFF) + drop_bit 16 acc, acc) \<in> measure unat" unfolding in_measure fold_step by (rule fold_less)
qed simp

declare fold_carry.simps [simp del]

definition net_checksum :: "u8 list \<Rightarrow> u16" where
  "net_checksum d = ucast (NOT (fold_carry (sum_words d 0)))"

section \<open>Interfaces and frames\<close>

abbreviation ETH_ALEN :: nat where "ETH_ALEN \<equiv> 6"
abbreviation ETH_HEADER_SIZE :: nat where "ETH_HEADER_SIZE \<equiv> 14"
abbreviation ETH_MTU :: nat where "ETH_MTU \<equiv> 1500"
abbreviation ETH_TYPE_ARP :: u16 where "ETH_TYPE_ARP \<equiv> 0x0806"
abbreviation ETH_TYPE_IPV4 :: u16 where "ETH_TYPE_IPV4 \<equiv> 0x0800"
abbreviation NETIF_MAX :: nat where "NETIF_MAX \<equiv> 4"
abbreviation ARP_CACHE_SIZE :: nat where "ARP_CACHE_SIZE \<equiv> 16"
abbreviation SOCK_RXBUF_SIZE :: nat where "SOCK_RXBUF_SIZE \<equiv> 8192"
abbreviation SOCK_BACKLOG_MAX :: nat where "SOCK_BACKLOG_MAX \<equiv> 8"
abbreviation SOCKET_MAX :: nat where "SOCKET_MAX \<equiv> 64"

record NetIf =
  mac :: "u8 list"
  ip_addr :: u32
  netmask :: u32
  gateway :: u32
  send_ret :: int

record ArpEntry =
  ae_ip :: u32
  ae_mac :: "u8 list"
  ae_valid :: bool

record Socket =
  family :: u16
  stype :: u16
  sstate :: u32
  local_ip :: u32
  local_port :: u16
  remote_ip :: u32
  remote_port :: u16
  rx_buf :: "u8 list"
  rx_head :: u32
  rx_tail :: u32
  rx_count :: u32
  snd_una :: u32
  snd_nxt :: u32
  rcv_nxt :: u32
  sk_lock :: Spinlock
  rx_wq :: WaitQueue
  accept_wq :: WaitQueue
  accept_queue :: "u64 list"
  accept_head :: nat
  accept_tail :: nat
  closed :: bool

record Net =
  nk :: kernel
  interfaces :: "NetIf list"
  arp_cache :: "ArpEntry list"
  arp_next_slot :: nat
  ip_id_counter :: u16
  wire :: "u8 list list"
  sockets :: "u64 \<Rightarrow> Socket"
  socket_table :: "u64 list"
  socket_table_lock :: Spinlock
  ephemeral_port_next :: u16

definition netif_register :: "NetIf \<Rightarrow> Net \<Rightarrow> int \<times> Net" where
  "netif_register nif n =
     (if length (interfaces n) \<ge> NETIF_MAX then (-1, n) else (int (length (interfaces n)), n\<lparr>interfaces := interfaces n @ [nif]\<rparr>))"

definition netif_get_default :: "Net \<Rightarrow> NetIf option" where
  "netif_get_default n = (case interfaces n of [] \<Rightarrow> None | nif # _ \<Rightarrow> Some nif)"

definition eth_send :: "NetIf \<Rightarrow> u8 list \<Rightarrow> u16 \<Rightarrow> u8 list \<Rightarrow> Net \<Rightarrow> int \<times> Net" where
  "eth_send nif dst ethertype pay n =
     (if length pay > ETH_MTU then (-1, n)
      else (send_ret nif, n\<lparr>wire := wire n @ [dst @ mac nif @ le16 (htons ethertype) @ pay]\<rparr>))"

section \<open>ARP\<close>

definition arp_init :: "Net \<Rightarrow> Net" where
  "arp_init n = n\<lparr>arp_cache := replicate ARP_CACHE_SIZE \<lparr>ae_ip = 0, ae_mac = replicate ETH_ALEN 0, ae_valid = False\<rparr>, arp_next_slot := 0\<rparr>"

definition arp_hit :: "u32 \<Rightarrow> ArpEntry \<Rightarrow> bool" where
  "arp_hit ip e \<longleftrightarrow> ae_valid e \<and> ae_ip e = ip"

definition arp_insert :: "u32 \<Rightarrow> u8 list \<Rightarrow> Net \<Rightarrow> Net option" where
  "arp_insert ip m n =
     (case find (\<lambda>i. arp_hit ip (arp_cache n ! i)) [0..<length (arp_cache n)] of
        Some i \<Rightarrow> Some (n\<lparr>arp_cache := (arp_cache n)[i := (arp_cache n ! i)\<lparr>ae_mac := m\<rparr>]\<rparr>)
      | None \<Rightarrow>
          do { c \<leftarrow> arr_set (arp_cache n) (arp_next_slot n) \<lparr>ae_ip = ip, ae_mac = m, ae_valid = True\<rparr>;
               Some (n\<lparr>arp_cache := c, arp_next_slot := (arp_next_slot n + 1) mod ARP_CACHE_SIZE\<rparr>) })"

definition arp_lookup :: "u32 \<Rightarrow> Net \<Rightarrow> u8 list option" where
  "arp_lookup ip n = map_option ae_mac (find (arp_hit ip) (arp_cache n))"

definition arp_packet :: "u16 \<Rightarrow> u8 list \<Rightarrow> u32 \<Rightarrow> u8 list \<Rightarrow> u32 \<Rightarrow> u8 list" where
  "arp_packet oper sha spa tha tpa =
     le16 (htons 1) @ le16 (htons ETH_TYPE_IPV4) @ [of_nat ETH_ALEN, 4] @ le16 (htons oper) @ sha @ le32 spa @ tha @ le32 tpa"

definition arp_rx :: "NetIf \<Rightarrow> u8 list \<Rightarrow> Net \<Rightarrow> Net option" where
  "arp_rx nif d n =
     (if length d < 28 then Some n
      else do {
        htype \<leftarrow> rd16 d 0; ptype \<leftarrow> rd16 d 2; hlen \<leftarrow> arr_get d 4; plen \<leftarrow> arr_get d 5; oper \<leftarrow> rd16 d 6;
        sha \<leftarrow> rd_bytes d 8 ETH_ALEN; spa \<leftarrow> rd32 d 14; tpa \<leftarrow> rd32 d 24;
        (if htons htype \<noteq> 1 \<or> htons ptype \<noteq> ETH_TYPE_IPV4 \<or> hlen \<noteq> of_nat ETH_ALEN \<or> plen \<noteq> 4 then Some n
         else do {
           n \<leftarrow> arp_insert spa sha n;
           Some (if htons oper = 1 \<and> tpa = ip_addr nif
                 then snd (eth_send nif sha ETH_TYPE_ARP (arp_packet 2 (mac nif) (ip_addr nif) sha spa) n) else n) }) })"

section \<open>Sending\<close>

abbreviation IPV4_HEADER_SIZE :: nat where "IPV4_HEADER_SIZE \<equiv> 20"
abbreviation IPV4_PROTO_ICMP :: u8 where "IPV4_PROTO_ICMP \<equiv> 1"
abbreviation IPV4_PROTO_TCP :: u8 where "IPV4_PROTO_TCP \<equiv> 6"
abbreviation IPV4_PROTO_UDP :: u8 where "IPV4_PROTO_UDP \<equiv> 17"
abbreviation UDP_HEADER_SIZE :: nat where "UDP_HEADER_SIZE \<equiv> 8"
abbreviation TCP_HEADER_SIZE :: nat where "TCP_HEADER_SIZE \<equiv> 20"

definition ipv4_header :: "u16 \<Rightarrow> u16 \<Rightarrow> u8 \<Rightarrow> u16 \<Rightarrow> u32 \<Rightarrow> u32 \<Rightarrow> u8 list" where
  "ipv4_header total_len ident protocol checksum src dst =
     [0x45, 0] @ le16 (htons total_len) @ le16 (htons ident) @ le16 0 @ [64, protocol] @ le16 checksum @ le32 src @ le32 dst"

definition ipv4_send :: "NetIf \<Rightarrow> u32 \<Rightarrow> u8 \<Rightarrow> u8 list \<Rightarrow> Net \<Rightarrow> int \<times> Net" where
  "ipv4_send nif dst protocol pay n =
     (let total_len = IPV4_HEADER_SIZE + length pay in
      if total_len > ETH_MTU then (-1, n)
      else
        let hdr = ipv4_header (of_nat total_len) (ip_id_counter n) protocol 0 (ip_addr nif) dst;
            hdr = ipv4_header (of_nat total_len) (ip_id_counter n) protocol (htons (net_checksum hdr)) (ip_addr nif) dst;
            n = n\<lparr>ip_id_counter := ip_id_counter n + 1\<rparr>;
            next_hop = (if dst AND netmask nif \<noteq> ip_addr nif AND netmask nif then gateway nif else dst)
        in case arp_lookup next_hop n of
             None \<Rightarrow> (-1, n)
           | Some dst_mac \<Rightarrow> eth_send nif dst_mac ETH_TYPE_IPV4 (hdr @ pay) n)"

definition udp_send :: "NetIf \<Rightarrow> u16 \<Rightarrow> u32 \<Rightarrow> u16 \<Rightarrow> u8 list \<Rightarrow> Net \<Rightarrow> int \<times> Net" where
  "udp_send nif src_port dst dst_port pay n =
     (let total = UDP_HEADER_SIZE + length pay in
      if total > 1480 then (-1, n)
      else ipv4_send nif dst IPV4_PROTO_UDP (le16 src_port @ le16 dst_port @ le16 (htons (of_nat total)) @ le16 0 @ pay) n)"

text \<open>TCP sums the 16-bit words in the byte order of the machine.\<close>

fun sum_le_words :: "u8 list \<Rightarrow> u32 \<Rightarrow> u32" where
  "sum_le_words (a # b # d) acc = sum_le_words d (acc + (ucast a OR push_bit 8 (ucast b)))"
| "sum_le_words [a] acc = acc + ucast a"
| "sum_le_words [] acc = acc"

definition tcp_checksum :: "u32 \<Rightarrow> u32 \<Rightarrow> u8 list \<Rightarrow> u16" where
  "tcp_checksum src dst segment =
     (let pseudo = le32 src @ le32 dst @ [0, IPV4_PROTO_TCP] @ le16 (htons (of_nat (length segment)));
          acc = sum_le_words segment (sum_le_words pseudo 0)
      in ucast (NOT (fold_carry acc)))"

definition tcp_segment :: "u16 \<Rightarrow> u16 \<Rightarrow> u32 \<Rightarrow> u32 \<Rightarrow> u8 \<Rightarrow> u16 \<Rightarrow> u8 list \<Rightarrow> u8 list" where
  "tcp_segment src_port dst_port sq ack_num flags checksum pay =
     le16 src_port @ le16 dst_port @ le32 (htonl sq) @ le32 (htonl ack_num) @ [push_bit 4 (of_nat (TCP_HEADER_SIZE div 4)), flags] @
     le16 (htons (of_nat SOCK_RXBUF_SIZE)) @ le16 checksum @ le16 0 @ pay"

definition tcp_send :: "NetIf \<Rightarrow> u32 \<Rightarrow> u16 \<Rightarrow> u32 \<Rightarrow> u16 \<Rightarrow> u32 \<Rightarrow> u32 \<Rightarrow> u8 \<Rightarrow> u8 list \<Rightarrow> Net \<Rightarrow> int \<times> Net" where
  "tcp_send nif src src_port dst dst_port sq ack_num flags pay n =
     (let total = TCP_HEADER_SIZE + length pay in
      if total > 1480 then (-1, n)
      else
        let c = tcp_checksum src dst (tcp_segment src_port dst_port sq ack_num flags 0 pay)
        in ipv4_send nif dst IPV4_PROTO_TCP (tcp_segment src_port dst_port sq ack_num flags c pay) n)"

end
