(* ===== verification/Socket.thy ===== *)
theory Socket
  imports Net
begin

text \<open>
  Sockets (\<^verbatim>\<open>kernel/net/socket.c\<close>) and the reception of packets (\<^verbatim>\<open>icmp.c\<close>, \<^verbatim>\<open>udp.c\<close>, \<^verbatim>\<open>tcp.c\<close>, \<^verbatim>\<open>ipv4.c\<close>,
  \<^verbatim>\<open>ethernet.c\<close>, \<^verbatim>\<open>loopback.c\<close>, \<^verbatim>\<open>net.c\<close>).  Sockets are addressed by their pointers, 0 is \<^verbatim>\<open>NULL\<close>.  The
  blocking calls are divided into passes, each from taking the socket's lock to the result (\<open>Inr\<close>) or
  to the sleep (\<open>Inl\<close>), after which the caller runs the same pass again.
\<close>

section \<open>Socket table\<close>

abbreviation AF_INET :: u16 where "AF_INET \<equiv> 2"
abbreviation SOCK_STREAM :: u16 where "SOCK_STREAM \<equiv> 1"
abbreviation SOCK_DGRAM :: u16 where "SOCK_DGRAM \<equiv> 2"
abbreviation SOCK_STATE_CLOSED :: u32 where "SOCK_STATE_CLOSED \<equiv> 0"
abbreviation SOCK_STATE_LISTEN :: u32 where "SOCK_STATE_LISTEN \<equiv> 1"
abbreviation SOCK_STATE_SYN_SENT :: u32 where "SOCK_STATE_SYN_SENT \<equiv> 2"
abbreviation SOCK_STATE_SYN_RECV :: u32 where "SOCK_STATE_SYN_RECV \<equiv> 3"
abbreviation SOCK_STATE_ESTABLISHED :: u32 where "SOCK_STATE_ESTABLISHED \<equiv> 4"
abbreviation SOCK_STATE_FIN_WAIT_1 :: u32 where "SOCK_STATE_FIN_WAIT_1 \<equiv> 5"
abbreviation SOCK_STATE_FIN_WAIT_2 :: u32 where "SOCK_STATE_FIN_WAIT_2 \<equiv> 6"
abbreviation SOCK_STATE_CLOSE_WAIT :: u32 where "SOCK_STATE_CLOSE_WAIT \<equiv> 7"
abbreviation SOCK_STATE_LAST_ACK :: u32 where "SOCK_STATE_LAST_ACK \<equiv> 8"
abbreviation SOCK_STATE_TIME_WAIT :: u32 where "SOCK_STATE_TIME_WAIT \<equiv> 9"
abbreviation ENETUNREACH :: int where "ENETUNREACH \<equiv> 101"
abbreviation ENOTCONN :: int where "ENOTCONN \<equiv> 107"
abbreviation ECONNREFUSED :: int where "ECONNREFUSED \<equiv> 111"
abbreviation SIZEOF_Socket :: u64 where "SIZEOF_Socket \<equiv> 8400"
abbreviation TCP_FIN :: u8 where "TCP_FIN \<equiv> 1"
abbreviation TCP_SYN :: u8 where "TCP_SYN \<equiv> 2"
abbreviation TCP_RST :: u8 where "TCP_RST \<equiv> 4"
abbreviation TCP_PSH :: u8 where "TCP_PSH \<equiv> 8"
abbreviation TCP_ACK :: u8 where "TCP_ACK \<equiv> 16"

definition zero_wq :: WaitQueue where
  "zero_wq = \<lparr>wq_lock = SPINLOCK_INIT, wq_head = 0, wq_tail = 0\<rparr>"

text \<open>A control block as \<^verbatim>\<open>kmalloc\<close> with \<^verbatim>\<open>GFP_ZERO\<close> returns it.\<close>

definition zero_socket :: Socket where
  "zero_socket = \<lparr>family = 0, stype = 0, sstate = 0, local_ip = 0, local_port = 0, remote_ip = 0, remote_port = 0,
     rx_buf = replicate SOCK_RXBUF_SIZE 0, rx_head = 0, rx_tail = 0, rx_count = 0, snd_una = 0, snd_nxt = 0, rcv_nxt = 0,
     sk_lock = SPINLOCK_INIT, rx_wq = zero_wq, accept_wq = zero_wq, accept_queue = replicate SOCK_BACKLOG_MAX 0,
     accept_head = 0, accept_tail = 0, closed = False\<rparr>"

definition skset :: "u64 \<Rightarrow> (Socket \<Rightarrow> Socket) \<Rightarrow> Net \<Rightarrow> Net" where
  "skset p f n = n\<lparr>sockets := (sockets n)(p := f (sockets n p))\<rparr>"

definition sk_acquire :: "u64 \<Rightarrow> Net \<Rightarrow> Net option" where
  "sk_acquire p n = do { (lk, k) \<leftarrow> acquire (sk_lock (sockets n p)) (nk n); Some (skset p (sk_lock_update (\<lambda>_. lk)) (n\<lparr>nk := k\<rparr>)) }"

definition sk_release :: "u64 \<Rightarrow> Net \<Rightarrow> Net" where
  "sk_release p n = (let (lk, k) = release (sk_lock (sockets n p)) (nk n) in skset p (sk_lock_update (\<lambda>_. lk)) (n\<lparr>nk := k\<rparr>))"

definition wake_rx :: "u64 \<Rightarrow> Net \<Rightarrow> Net option" where
  "wake_rx p n = do { (_, wq, k) \<leftarrow> wq_wake (rx_wq (sockets n p)) (nk n); Some (skset p (rx_wq_update (\<lambda>_. wq)) (n\<lparr>nk := k\<rparr>)) }"

definition wake_accept :: "u64 \<Rightarrow> Net \<Rightarrow> Net option" where
  "wake_accept p n =
     do { (_, wq, k) \<leftarrow> wq_wake (accept_wq (sockets n p)) (nk n); Some (skset p (accept_wq_update (\<lambda>_. wq)) (n\<lparr>nk := k\<rparr>)) }"

definition sleep_rx :: "u64 \<Rightarrow> Net \<Rightarrow> Net option" where
  "sleep_rx p n =
     do { (wq, lk, k) \<leftarrow> wq_sleep (rx_wq (sockets n p)) (sk_lock (sockets n p)) (nk n);
          Some (skset p (rx_wq_update (\<lambda>_. wq) \<circ> sk_lock_update (\<lambda>_. lk)) (n\<lparr>nk := k\<rparr>)) }"

definition sleep_accept :: "u64 \<Rightarrow> Net \<Rightarrow> Net option" where
  "sleep_accept p n =
     do { (wq, lk, k) \<leftarrow> wq_sleep (accept_wq (sockets n p)) (sk_lock (sockets n p)) (nk n);
          Some (skset p (accept_wq_update (\<lambda>_. wq) \<circ> sk_lock_update (\<lambda>_. lk)) (n\<lparr>nk := k\<rparr>)) }"

text \<open>The search for a free entry of the table, with the table's lock held.\<close>

definition table_add :: "u64 \<Rightarrow> Net \<Rightarrow> (nat option \<times> Net) option" where
  "table_add p n =
     do { (lk, k) \<leftarrow> acquire (socket_table_lock n) (nk n);
          let idx = find (\<lambda>i. socket_table n ! i = 0) [0..<length (socket_table n)];
          let tab = (case idx of None \<Rightarrow> socket_table n | Some i \<Rightarrow> (socket_table n)[i := p]);
          let (lk, k) = release lk k;
          Some (idx, n\<lparr>socket_table := tab, socket_table_lock := lk, nk := k\<rparr>) }"

definition sk_alloc :: "Net \<Rightarrow> (u64 \<times> Net) option" where
  "sk_alloc n =
     do { (p, k) \<leftarrow> k_alloc SIZEOF_Socket GFP_ZERO (nk n);
          Some (p, if p = 0 then n\<lparr>nk := k\<rparr> else skset p (\<lambda>_. zero_socket) (n\<lparr>nk := k\<rparr>)) }"

definition sk_kfree :: "u64 \<Rightarrow> Net \<Rightarrow> Net option" where
  "sk_kfree p n = do { k \<leftarrow> k_free p (nk n); Some (n\<lparr>nk := k\<rparr>) }"

definition socket_create :: "u16 \<Rightarrow> u16 \<Rightarrow> Net \<Rightarrow> (int \<times> Net) option" where
  "socket_create fam ty n =
     (if fam \<noteq> AF_INET then Some (- ENOSYS, n)
      else if ty \<noteq> SOCK_DGRAM \<and> ty \<noteq> SOCK_STREAM then Some (- EINVAL, n)
      else do {
        (p, n) \<leftarrow> sk_alloc n;
        if p = 0 then Some (- ENOMEM, n)
        else do {
          let n = skset p (\<lambda>s. s\<lparr>family := fam, stype := ty, sstate := SOCK_STATE_CLOSED, sk_lock := SPINLOCK_INIT,
                 rx_wq := wq_init (rx_wq s), accept_wq := wq_init (accept_wq s)\<rparr>) n;
          (idx, n) \<leftarrow> table_add p n;
          (case idx of None \<Rightarrow> do { n \<leftarrow> sk_kfree p n; Some (- ENOMEM, n) } | Some i \<Rightarrow> Some (int i, n)) } })"

definition socket_get :: "int \<Rightarrow> Net \<Rightarrow> u64 option" where
  "socket_get idx n = (if idx < 0 \<or> idx \<ge> int SOCKET_MAX then Some 0 else arr_get (socket_table n) (nat idx))"

definition socket_free :: "int \<Rightarrow> Net \<Rightarrow> Net option" where
  "socket_free idx n =
     (if idx < 0 \<or> idx \<ge> int SOCKET_MAX then Some n
      else do {
        (lk, k) \<leftarrow> acquire (socket_table_lock n) (nk n);
        p \<leftarrow> arr_get (socket_table n) (nat idx);
        let (lk, k) = release lk k;
        let n = n\<lparr>socket_table := (socket_table n)[nat idx := 0], socket_table_lock := lk, nk := k\<rparr>;
        if p = 0 then Some n
        else do {
          let n = skset p (\<lambda>s. s\<lparr>closed := True\<rparr>) n;
          (_, wq, k) \<leftarrow> wq_wake_all (rx_wq (sockets n p)) (nk n);
          let n = skset p (\<lambda>s. s\<lparr>rx_wq := wq\<rparr>) (n\<lparr>nk := k\<rparr>);
          (_, wq, k) \<leftarrow> wq_wake_all (accept_wq (sockets n p)) (nk n);
          let n = skset p (\<lambda>s. s\<lparr>accept_wq := wq\<rparr>) (n\<lparr>nk := k\<rparr>);
          sk_kfree p n } })"

definition socket_alloc_ephemeral_port :: "Net \<Rightarrow> (u16 \<times> Net) option" where
  "socket_alloc_ephemeral_port n =
     do { (lk, k) \<leftarrow> acquire (socket_table_lock n) (nk n);
          let port = htons (ephemeral_port_next n);
          let nxt = ephemeral_port_next n + 1;
          let nxt = (if nxt > 65534 then 49152 else nxt);
          let (lk, k) = release lk k;
          Some (port, n\<lparr>ephemeral_port_next := nxt, socket_table_lock := lk, nk := k\<rparr>) }"

definition socket_bind :: "u64 \<Rightarrow> u32 \<Rightarrow> u16 \<Rightarrow> Net \<Rightarrow> (int \<times> Net) option" where
  "socket_bind p ip port n =
     (if p = 0 then Some (- EINVAL, n)
      else do { n \<leftarrow> sk_acquire p n;
                let n = skset p (\<lambda>s. s\<lparr>local_ip := ip, local_port := port\<rparr>) n;
                Some (0, sk_release p n) })"

definition socket_listen :: "u64 \<Rightarrow> Net \<Rightarrow> (int \<times> Net) option" where
  "socket_listen p n =
     (if p = 0 \<or> stype (sockets n p) \<noteq> SOCK_STREAM then Some (- EINVAL, n)
      else do { n \<leftarrow> sk_acquire p n;
                let n = skset p (\<lambda>s. s\<lparr>sstate := SOCK_STATE_LISTEN\<rparr>) n;
                Some (0, sk_release p n) })"

section \<open>Connections\<close>

definition accept_pass :: "u64 \<Rightarrow> Net \<Rightarrow> ((unit + int \<times> (u16 \<times> u32) option) \<times> Net) option" where
  "accept_pass p n =
     do { n \<leftarrow> sk_acquire p n;
          let s = sockets n p;
          if accept_head s = accept_tail s \<and> \<not> closed s then do { n \<leftarrow> sleep_accept p n; Some (Inl (), n) }
          else if closed s then Some (Inr (- EBADF, None), sk_release p n)
          else do {
            child \<leftarrow> arr_get (accept_queue s) (accept_head s);
            let n = sk_release p (skset p (\<lambda>s. s\<lparr>accept_head := (accept_head s + 1) mod SOCK_BACKLOG_MAX\<rparr>) n);
            (idx, n) \<leftarrow> table_add child n;
            (case idx of
               None \<Rightarrow> do { n \<leftarrow> sk_kfree child n; Some (Inr (- ENOMEM, None), n) }
             | Some i \<Rightarrow> Some (Inr (int i, Some (remote_port (sockets n child), remote_ip (sockets n child))), n)) } }"

definition socket_accept :: "u64 \<Rightarrow> Net \<Rightarrow> ((unit + int \<times> (u16 \<times> u32) option) \<times> Net) option" where
  "socket_accept p n =
     (if p = 0 \<or> sstate (sockets n p) \<noteq> SOCK_STATE_LISTEN then Some (Inr (- EINVAL, None), n) else accept_pass p n)"

definition connect_pass :: "u64 \<Rightarrow> Net \<Rightarrow> ((unit + int) \<times> Net) option" where
  "connect_pass p n =
     do { n \<leftarrow> sk_acquire p n;
          let s = sockets n p;
          if sstate s = SOCK_STATE_SYN_SENT \<and> \<not> closed s then do { n \<leftarrow> sleep_rx p n; Some (Inl (), n) }
          else Some (Inr (if sstate s = SOCK_STATE_ESTABLISHED then 0 else - ECONNREFUSED), sk_release p n) }"

text \<open>A socket without a port gets a free one.\<close>

definition ensure_port :: "u64 \<Rightarrow> Net \<Rightarrow> Net option" where
  "ensure_port p n =
     (if local_port (sockets n p) = 0
      then do { (port, n) \<leftarrow> socket_alloc_ephemeral_port n; Some (skset p (\<lambda>s. s\<lparr>local_port := port\<rparr>) n) } else Some n)"

definition socket_connect :: "u64 \<Rightarrow> u32 \<Rightarrow> u16 \<Rightarrow> Net \<Rightarrow> ((unit + int) \<times> Net) option" where
  "socket_connect p ip port n =
     (if p = 0 then Some (Inr (- EINVAL), n)
      else do {
        n \<leftarrow> sk_acquire p n;
        let n = skset p (\<lambda>s. s\<lparr>remote_ip := ip, remote_port := port\<rparr>) n;
        n \<leftarrow> ensure_port p n;
        if stype (sockets n p) = SOCK_DGRAM
        then Some (Inr 0, sk_release p (skset p (\<lambda>s. s\<lparr>sstate := SOCK_STATE_ESTABLISHED\<rparr>) n))
        else case netif_get_default n of
          None \<Rightarrow> Some (Inr (- ENETUNREACH), sk_release p n)
        | Some nif \<Rightarrow>
            do { let n = skset p (\<lambda>s. s\<lparr>local_ip := ip_addr nif, snd_nxt := 1000, snd_una := 1000, sstate := SOCK_STATE_SYN_SENT\<rparr>) n;
                 let sq = snd_nxt (sockets n p);
                 let n = sk_release p (skset p (\<lambda>s. s\<lparr>snd_nxt := snd_nxt s + 1\<rparr>) n);
                 let n = snd (tcp_send nif (ip_addr nif) (local_port (sockets n p)) ip port sq 0 TCP_SYN [] n);
                 connect_pass p n } })"

section \<open>Sending\<close>

definition socket_sendto :: "u64 \<Rightarrow> u8 list \<Rightarrow> u32 \<Rightarrow> u16 \<Rightarrow> Net \<Rightarrow> (int \<times> Net) option" where
  "socket_sendto p src dst_ip dst_port n =
     (if p = 0 \<or> stype (sockets n p) \<noteq> SOCK_DGRAM then Some (- EINVAL, n)
      else case netif_get_default n of
        None \<Rightarrow> Some (- ENETUNREACH, n)
      | Some nif \<Rightarrow>
          do { n \<leftarrow> ensure_port p n;
               let (ret, n) = udp_send nif (local_port (sockets n p)) dst_ip dst_port src n;
               Some (if ret = 0 then int (length src) else ret, n) })"

abbreviation max_seg :: nat where "max_seg \<equiv> 1440"

function send_segments :: "NetIf \<Rightarrow> u64 \<Rightarrow> u8 list \<Rightarrow> Net \<Rightarrow> Net option" where
  "send_segments nif p src n =
     (if src = [] then Some n
      else do {
        let chunk = take max_seg src;
        n \<leftarrow> sk_acquire p n;
        let sq = snd_nxt (sockets n p);
        let n = sk_release p (skset p (\<lambda>s. s\<lparr>snd_nxt := snd_nxt s + of_nat (length chunk)\<rparr>) n);
        let s = sockets n p;
        let n = snd (tcp_send nif (local_ip s) (local_port s) (remote_ip s) (remote_port s) sq (rcv_nxt s) (TCP_ACK OR TCP_PSH) chunk n);
        send_segments nif p (drop max_seg src) n })"
  by auto

termination send_segments
  by (relation "measure (\<lambda>(nif, p, src, n). length src)") auto

definition socket_send :: "u64 \<Rightarrow> u8 list \<Rightarrow> Net \<Rightarrow> (int \<times> Net) option" where
  "socket_send p src n =
     (if p = 0 then Some (- EINVAL, n)
      else if stype (sockets n p) = SOCK_DGRAM then socket_sendto p src (remote_ip (sockets n p)) (remote_port (sockets n p)) n
      else if sstate (sockets n p) \<noteq> SOCK_STATE_ESTABLISHED then Some (- ENOTCONN, n)
      else case netif_get_default n of
        None \<Rightarrow> Some (- ENETUNREACH, n)
      | Some nif \<Rightarrow> do { n \<leftarrow> send_segments nif p src n; Some (int (length src), n) })"

section \<open>Receiving\<close>

text \<open>The copying loop of the receive ring, at most \<open>k\<close> bytes.\<close>

fun rx_take :: "nat \<Rightarrow> Socket \<Rightarrow> (u8 list \<times> Socket) option" where
  "rx_take 0 s = Some ([], s)"
| "rx_take (Suc k) s =
     do { b \<leftarrow> arr_get (rx_buf s) (unat (rx_tail s));
          (bs, s) \<leftarrow> rx_take k (s\<lparr>rx_tail := (rx_tail s + 1) mod of_nat SOCK_RXBUF_SIZE\<rparr>);
          Some (b # bs, s) }"

definition recv_pass :: "u64 \<Rightarrow> u32 \<Rightarrow> Net \<Rightarrow> ((unit + u8 list) \<times> Net) option" where
  "recv_pass p len n =
     do { n \<leftarrow> sk_acquire p n;
          let s = sockets n p;
          if rx_count s = 0 \<and> \<not> closed s \<and> sstate s \<noteq> SOCK_STATE_CLOSE_WAIT then do { n \<leftarrow> sleep_rx p n; Some (Inl (), n) }
          else if rx_count s = 0 then Some (Inr [], sk_release p n)
          else do {
            let to_copy = min len (rx_count s);
            (bs, s) \<leftarrow> rx_take (unat to_copy) s;
            Some (Inr bs, sk_release p (skset p (\<lambda>_. s\<lparr>rx_count := rx_count s - to_copy\<rparr>) n)) } }"

definition socket_recv :: "u64 \<Rightarrow> u32 \<Rightarrow> Net \<Rightarrow> ((unit + (int + u8 list)) \<times> Net) option" where
  "socket_recv p len n =
     (if p = 0 then Some (Inr (Inl (- EINVAL)), n) else map_option (apfst (map_sum id Inr)) (recv_pass p len n))"

definition recvfrom_pass :: "u64 \<Rightarrow> u32 \<Rightarrow> Net \<Rightarrow> ((unit + (int + u8 list \<times> (u32 \<times> u16) option)) \<times> Net) option" where
  "recvfrom_pass p len n =
     do { n \<leftarrow> sk_acquire p n;
          let s = sockets n p;
          if rx_count s = 0 \<and> \<not> closed s then do { n \<leftarrow> sleep_rx p n; Some (Inl (), n) }
          else if rx_count s = 0 then Some (Inr (Inr ([], None)), sk_release p n)
          else if rx_count s < 8 then Some (Inr (Inl (- EIO)), sk_release p n)
          else do {
            (meta, s) \<leftarrow> rx_take 8 s;
            src_ip \<leftarrow> rd32 meta 0;
            src_port \<leftarrow> rd16 meta 4;
            data_len \<leftarrow> rd16 meta 6;
            let s = s\<lparr>rx_count := rx_count s - 8\<rparr>;
            let to_copy = min (min (ucast data_len) len) (rx_count s);
            (bs, s) \<leftarrow> rx_take (unat to_copy) s;
            let discard = ucast data_len - to_copy;
            let s = s\<lparr>rx_tail := ((\<lambda>t. (t + 1) mod of_nat SOCK_RXBUF_SIZE) ^^ unat discard) (rx_tail s), rx_count := rx_count s - ucast data_len\<rparr>;
            Some (Inr (Inr (bs, Some (src_ip, src_port))), sk_release p (skset p (\<lambda>_. s) n)) } }"

definition socket_recvfrom :: "u64 \<Rightarrow> u32 \<Rightarrow> Net \<Rightarrow> ((unit + (int + u8 list \<times> (u32 \<times> u16) option)) \<times> Net) option" where
  "socket_recvfrom p len n = (if p = 0 then Some (Inr (Inl (- EINVAL)), n) else recvfrom_pass p len n)"

section \<open>Delivery\<close>

definition find_socket :: "u16 \<Rightarrow> u16 \<Rightarrow> u32 \<Rightarrow> u16 \<Rightarrow> Net \<Rightarrow> u64" where
  "find_socket port ty rip rport n =
     (case find (\<lambda>p. p \<noteq> 0 \<and> stype (sockets n p) = ty \<and> local_port (sockets n p) = port \<and>
                     remote_ip (sockets n p) = rip \<and> remote_port (sockets n p) = rport) (socket_table n) of
        Some p \<Rightarrow> p
      | None \<Rightarrow>
          (case find (\<lambda>p. p \<noteq> 0 \<and> stype (sockets n p) = ty \<and> local_port (sockets n p) = port \<and>
                          (remote_ip (sockets n p) = 0 \<or> sstate (sockets n p) = SOCK_STATE_LISTEN)) (socket_table n) of
             Some p \<Rightarrow> p
           | None \<Rightarrow> 0))"

definition rx_put :: "u8 \<Rightarrow> Socket \<Rightarrow> Socket option" where
  "rx_put b s =
     do { m \<leftarrow> arr_set (rx_buf s) (unat (rx_head s)) b;
          Some (s\<lparr>rx_buf := m, rx_head := (rx_head s + 1) mod of_nat SOCK_RXBUF_SIZE\<rparr>) }"

definition rx_enqueue :: "u8 list \<Rightarrow> Socket \<Rightarrow> (int \<times> Socket) option" where
  "rx_enqueue d s =
     (if rx_count s + of_nat (length d) > of_nat SOCK_RXBUF_SIZE then Some (-1, s)
      else do { s \<leftarrow> for_each rx_put d s; Some (0, s\<lparr>rx_count := rx_count s + of_nat (length d)\<rparr>) })"

definition udp_meta :: "u32 \<Rightarrow> u16 \<Rightarrow> u16 \<Rightarrow> u8 list" where
  "udp_meta src_ip src_port data_len = le32 src_ip @ le16 src_port @ le16 data_len"

definition socket_udp_deliver :: "u32 \<Rightarrow> u16 \<Rightarrow> u16 \<Rightarrow> u8 list \<Rightarrow> Net \<Rightarrow> Net option" where
  "socket_udp_deliver src_ip src_port dst_port d n =
     (let p = find_socket dst_port SOCK_DGRAM 0 0 n in
      if p = 0 then Some n
      else do {
        n \<leftarrow> sk_acquire p n;
        (r, s) \<leftarrow> rx_enqueue (udp_meta src_ip src_port (of_nat (length d))) (sockets n p);
        (_, s) \<leftarrow> (if r = 0 then rx_enqueue d s else Some (r, s));
        let n = sk_release p (skset p (\<lambda>_. s) n);
        wake_rx p n })"

text \<open>A segment without data that answers on the given socket.\<close>

definition tcp_reply :: "u64 \<Rightarrow> u32 \<Rightarrow> u16 \<Rightarrow> u8 \<Rightarrow> Net \<Rightarrow> Net" where
  "tcp_reply p src_ip src_port flags n =
     (let s = sockets n p in
      case netif_get_default n of
        None \<Rightarrow> n
      | Some nif \<Rightarrow> snd (tcp_send nif (local_ip s) (local_port s) src_ip src_port (snd_nxt s) (rcv_nxt s) flags [] n))"

definition tcp_listen :: "u64 \<Rightarrow> u32 \<Rightarrow> u16 \<Rightarrow> u8 \<Rightarrow> u32 \<Rightarrow> Net \<Rightarrow> Net option" where
  "tcp_listen p src_ip src_port flags sq n =
     (if flags AND TCP_SYN = 0 then Some (sk_release p n)
      else do {
        (c, n) \<leftarrow> sk_alloc n;
        if c = 0 then Some (sk_release p n)
        else do {
          let par = sockets n p;
          let n = skset c (\<lambda>s. s\<lparr>family := AF_INET, stype := SOCK_STREAM, local_ip := local_ip par, local_port := local_port par,
                 remote_ip := src_ip, remote_port := src_port, rcv_nxt := sq + 1, snd_nxt := 2000, snd_una := 2000,
                 sstate := SOCK_STATE_SYN_RECV, sk_lock := SPINLOCK_INIT, rx_wq := wq_init (rx_wq s), accept_wq := wq_init (accept_wq s)\<rparr>) n;
          let n = (case netif_get_default n of
                     None \<Rightarrow> n
                   | Some nif \<Rightarrow>
                       let s = sockets n c; n = skset c (\<lambda>s. s\<lparr>snd_nxt := snd_nxt s + 1\<rparr>) n
                       in snd (tcp_send nif (local_ip s) (local_port s) src_ip src_port (snd_nxt s) (rcv_nxt s) (TCP_SYN OR TCP_ACK) [] n));
          let nxt = (accept_tail (sockets n p) + 1) mod SOCK_BACKLOG_MAX;
          n \<leftarrow> (if nxt \<noteq> accept_head (sockets n p)
                then do { q \<leftarrow> arr_set (accept_queue (sockets n p)) (accept_tail (sockets n p)) c;
                          Some (skset p (\<lambda>s. s\<lparr>accept_queue := q, accept_tail := nxt\<rparr>) n) }
                else sk_kfree c n);
          Some (sk_release p n) } })"

definition tcp_syn_recv :: "u64 \<Rightarrow> u8 \<Rightarrow> u32 \<Rightarrow> Net \<Rightarrow> Net option" where
  "tcp_syn_recv p flags ack n =
     (if flags AND TCP_ACK = 0 then Some (sk_release p n)
      else
        let n = sk_release p (skset p (\<lambda>s. s\<lparr>snd_una := ack, sstate := SOCK_STATE_ESTABLISHED\<rparr>) n)
        in case find (\<lambda>q. q \<noteq> 0 \<and> sstate (sockets n q) = SOCK_STATE_LISTEN \<and> local_port (sockets n q) = local_port (sockets n p)) (socket_table n) of
             Some q \<Rightarrow> wake_accept q n
           | None \<Rightarrow> Some n)"

definition tcp_syn_sent :: "u64 \<Rightarrow> u32 \<Rightarrow> u16 \<Rightarrow> u8 \<Rightarrow> u32 \<Rightarrow> u32 \<Rightarrow> Net \<Rightarrow> Net option" where
  "tcp_syn_sent p src_ip src_port flags sq ack n =
     (if flags AND (TCP_SYN OR TCP_ACK) = TCP_SYN OR TCP_ACK then
        let n = skset p (\<lambda>s. s\<lparr>snd_una := ack, rcv_nxt := sq + 1, sstate := SOCK_STATE_ESTABLISHED\<rparr>) n;
            n = tcp_reply p src_ip src_port TCP_ACK n
        in wake_rx p (sk_release p n)
      else if flags AND TCP_RST \<noteq> 0 then
        wake_rx p (sk_release p (skset p (\<lambda>s. s\<lparr>sstate := SOCK_STATE_CLOSED\<rparr>) n))
      else Some (sk_release p n))"

definition tcp_established :: "u64 \<Rightarrow> u32 \<Rightarrow> u16 \<Rightarrow> u8 \<Rightarrow> u32 \<Rightarrow> u8 list \<Rightarrow> Net \<Rightarrow> Net option" where
  "tcp_established p src_ip src_port flags ack pay n =
     (if flags AND TCP_RST \<noteq> 0 then
        wake_rx p (sk_release p (skset p (\<lambda>s. s\<lparr>sstate := SOCK_STATE_CLOSED\<rparr>) n))
      else do {
        let n = (if flags AND TCP_ACK \<noteq> 0 then skset p (\<lambda>s. s\<lparr>snd_una := ack\<rparr>) n else n);
        n \<leftarrow> (if pay \<noteq> []
              then do { (_, s) \<leftarrow> rx_enqueue pay (sockets n p);
                        let n = skset p (\<lambda>_. s\<lparr>rcv_nxt := rcv_nxt s + of_nat (length pay)\<rparr>) n;
                        Some (tcp_reply p src_ip src_port TCP_ACK n) }
              else Some n);
        let n = (if flags AND TCP_FIN \<noteq> 0
                 then tcp_reply p src_ip src_port TCP_ACK (skset p (\<lambda>s. s\<lparr>rcv_nxt := rcv_nxt s + 1, sstate := SOCK_STATE_CLOSE_WAIT\<rparr>) n)
                 else n);
        let n = sk_release p n;
        (if pay \<noteq> [] \<or> flags AND TCP_FIN \<noteq> 0 then wake_rx p n else Some n) })"

text \<open>The remaining states: both sides of closing a connection.\<close>

definition tcp_closing :: "u64 \<Rightarrow> u32 \<Rightarrow> u16 \<Rightarrow> u8 \<Rightarrow> u32 \<Rightarrow> Net \<Rightarrow> Net" where
  "tcp_closing p src_ip src_port flags sq n =
     (let st = sstate (sockets n p);
          time_wait = tcp_reply p src_ip src_port TCP_ACK (skset p (\<lambda>s. s\<lparr>rcv_nxt := sq + 1, sstate := SOCK_STATE_TIME_WAIT\<rparr>) n)
      in sk_release p
        (if st = SOCK_STATE_FIN_WAIT_1 then
           (if flags AND TCP_ACK \<noteq> 0 \<and> flags AND TCP_FIN \<noteq> 0 then time_wait
            else if flags AND TCP_ACK \<noteq> 0 then skset p (\<lambda>s. s\<lparr>sstate := SOCK_STATE_FIN_WAIT_2\<rparr>) n else n)
         else if st = SOCK_STATE_FIN_WAIT_2 then (if flags AND TCP_FIN \<noteq> 0 then time_wait else n)
         else if st = SOCK_STATE_LAST_ACK \<and> flags AND TCP_ACK \<noteq> 0 then skset p (\<lambda>s. s\<lparr>sstate := SOCK_STATE_CLOSED\<rparr>) n
         else n))"

definition socket_tcp_deliver :: "u32 \<Rightarrow> u16 \<Rightarrow> u32 \<Rightarrow> u16 \<Rightarrow> u8 list \<Rightarrow> u32 \<Rightarrow> Net \<Rightarrow> Net option" where
  "socket_tcp_deliver src_ip src_port dst_ip dst_port d len n =
     do { flags \<leftarrow> arr_get d 13;
          sq \<leftarrow> rd32 d 4;
          ack \<leftarrow> rd32 d 8;
          off \<leftarrow> arr_get d 12;
          let sq = htonl sq;
          let ack = htonl ack;
          let data_off = drop_bit 4 off * 4;
          pay \<leftarrow> rd_bytes d (unat data_off) (unat (len - ucast data_off));
          let p = find_socket dst_port SOCK_STREAM src_ip src_port n;
          let p = (if p = 0 then find_socket dst_port SOCK_STREAM 0 0 n else p);
          if p = 0 then
            Some (case netif_get_default n of
                    None \<Rightarrow> n
                  | Some nif \<Rightarrow>
                      if flags AND TCP_RST = 0
                      then snd (tcp_send nif dst_ip dst_port src_ip src_port ack (sq + 1) (TCP_RST OR TCP_ACK) [] n) else n)
          else do {
            n \<leftarrow> sk_acquire p n;
            let st = sstate (sockets n p);
            if st = SOCK_STATE_LISTEN then tcp_listen p src_ip src_port flags sq n
            else if st = SOCK_STATE_SYN_RECV then tcp_syn_recv p flags ack n
            else if st = SOCK_STATE_SYN_SENT then tcp_syn_sent p src_ip src_port flags sq ack n
            else if st = SOCK_STATE_ESTABLISHED then tcp_established p src_ip src_port flags ack pay n
            else Some (tcp_closing p src_ip src_port flags sq n) } }"

section \<open>Reception\<close>

text \<open>
  The received packet is the list of the bytes from its start to the end of the driver's buffer, and
  its length is a separate argument, as in the C code.
\<close>

definition udp_rx :: "u32 \<Rightarrow> u8 list \<Rightarrow> u32 \<Rightarrow> Net \<Rightarrow> Net option" where
  "udp_rx src_ip d len n =
     (if len < of_nat UDP_HEADER_SIZE then Some n
      else do {
        src_port \<leftarrow> rd16 d 0; dst_port \<leftarrow> rd16 d 2; l \<leftarrow> rd16 d 4;
        let udp_len = htons l;
        if udp_len < of_nat UDP_HEADER_SIZE \<or> ucast udp_len > len then Some n
        else do {
          pay \<leftarrow> rd_bytes d UDP_HEADER_SIZE (unat (udp_len - of_nat UDP_HEADER_SIZE));
          socket_udp_deliver src_ip src_port dst_port pay n } })"

definition tcp_rx :: "u32 \<Rightarrow> u32 \<Rightarrow> u8 list \<Rightarrow> u32 \<Rightarrow> Net \<Rightarrow> Net option" where
  "tcp_rx src_ip dst_ip d len n =
     (if len < of_nat TCP_HEADER_SIZE then Some n
      else do {
        src_port \<leftarrow> rd16 d 0; dst_port \<leftarrow> rd16 d 2; off \<leftarrow> arr_get d 12;
        let data_off = drop_bit 4 off * 4;
        if data_off < of_nat TCP_HEADER_SIZE \<or> ucast data_off > len then Some n
        else do {
          segment \<leftarrow> rd_bytes d 0 (unat len);
          if tcp_checksum src_ip dst_ip segment \<noteq> 0 then Some n
          else socket_tcp_deliver src_ip src_port dst_ip dst_port d len n } })"

definition icmp_rx :: "NetIf \<Rightarrow> u32 \<Rightarrow> u8 list \<Rightarrow> u32 \<Rightarrow> Net \<Rightarrow> Net option" where
  "icmp_rx nif src_ip d len n =
     (if len < 8 then Some n
      else do {
        packet \<leftarrow> rd_bytes d 0 (unat len);
        if net_checksum packet \<noteq> 0 then Some n
        else if packet ! 0 = 8 \<and> packet ! 1 = 0 then
          do { body \<leftarrow> (if length packet \<le> ETH_MTU then Some (drop 4 packet) else None);
               let reply = [0, 0, 0, 0] @ body;
               let reply = [0, 0] @ le16 (htons (net_checksum reply)) @ body;
               Some (snd (ipv4_send nif src_ip IPV4_PROTO_ICMP reply n)) }
        else Some n })"

definition ipv4_rx :: "NetIf \<Rightarrow> u8 list \<Rightarrow> u32 \<Rightarrow> Net \<Rightarrow> Net option" where
  "ipv4_rx nif d len n =
     (if len < of_nat IPV4_HEADER_SIZE then Some n
      else do {
        ver_ihl \<leftarrow> arr_get d 0;
        let version = drop_bit 4 ver_ihl;
        let ihl = ver_ihl AND 0x0F;
        if version \<noteq> 4 \<or> ihl < 5 then Some n
        else do {
          let hdr_len = ucast ihl * 4;
          if len < hdr_len then Some n
          else do {
            hdr \<leftarrow> rd_bytes d 0 (unat hdr_len);
            total_len \<leftarrow> rd16 d 2; protocol \<leftarrow> arr_get d 9; src_ip \<leftarrow> rd32 d 12; dst_ip \<leftarrow> rd32 d 16;
            let bcast = ip_addr nif OR NOT (netmask nif);
            let pay_len = ucast (htons total_len) - hdr_len;
            if net_checksum hdr \<noteq> 0 then Some n
            else if dst_ip \<noteq> ip_addr nif \<and> dst_ip \<noteq> 0xFFFFFFFF \<and> dst_ip \<noteq> bcast then Some n
            else if hdr_len + pay_len > len then Some n
            else if protocol = IPV4_PROTO_ICMP then icmp_rx nif src_ip (drop (unat hdr_len) d) pay_len n
            else if protocol = IPV4_PROTO_UDP then udp_rx src_ip (drop (unat hdr_len) d) pay_len n
            else if protocol = IPV4_PROTO_TCP then tcp_rx src_ip dst_ip (drop (unat hdr_len) d) pay_len n
            else Some n } } })"

definition eth_rx :: "NetIf \<Rightarrow> u8 list \<Rightarrow> u32 \<Rightarrow> Net \<Rightarrow> Net option" where
  "eth_rx nif frame len n =
     (if len < of_nat ETH_HEADER_SIZE then Some n
      else do {
        ty \<leftarrow> rd16 frame 12;
        let pay = drop ETH_HEADER_SIZE frame;
        let pay_len = len - of_nat ETH_HEADER_SIZE;
        if htons ty = ETH_TYPE_ARP then do { d \<leftarrow> rd_bytes pay 0 (unat pay_len); arp_rx nif d n }
        else if htons ty = ETH_TYPE_IPV4 then ipv4_rx nif pay pay_len n
        else Some n })"

definition loopback_send :: "NetIf \<Rightarrow> u8 list \<Rightarrow> Net \<Rightarrow> (int \<times> Net) option" where
  "loopback_send nif frame n =
     (if length frame < ETH_HEADER_SIZE then Some (-1, n)
      else do { n \<leftarrow> ipv4_rx nif (drop ETH_HEADER_SIZE frame) (of_nat (length frame) - of_nat ETH_HEADER_SIZE) n; Some (0, n) })"

definition loopback_init :: "Net \<Rightarrow> int \<times> Net" where
  "loopback_init n =
     (let (slot, n) = netif_register \<lparr>mac = replicate ETH_ALEN 0, ip_addr = IP4 127 0 0 1, netmask = IP4 255 0 0 0, gateway = 0, send_ret = 0\<rparr> n
      in (if slot < 0 then -1 else 0, n))"

definition net_init :: "Net \<Rightarrow> Net" where
  "net_init n =
     (let n = snd (loopback_init (arp_init n)) in
      case interfaces n of
        [] \<Rightarrow> n
      | nif # r \<Rightarrow> n\<lparr>interfaces := nif\<lparr>ip_addr := IP4 10 0 2 15, netmask := IP4 255 255 255 0, gateway := IP4 10 0 2 2\<rparr> # r\<rparr>)"

section \<open>The checksum of a header verifies\<close>

lemma fold_carry_less: "unat (fold_carry acc) < 65536"
proof (induction acc rule: fold_carry.induct)
  case (1 acc)
  show ?case
  proof (cases "drop_bit 16 acc = 0")
    case True
    then show ?thesis using drop_16_iff [of acc] by (simp add: fold_carry.simps [of acc])
  next
    case False
    then show ?thesis using 1 by (simp add: fold_carry.simps [of acc])
  qed
qed

lemma fold_mod: "(m mod 65536 + m div 65536) mod 65535 = m mod (65535 :: nat)"
proof -
  have "m = (m mod 65536 + m div 65536) + 65535 * (m div 65536)" using div_mult_mod_eq [of m 65536] by linarith
  then show ?thesis by (metis mod_mult_self2)
qed

lemma fold_carry_mod: "unat (fold_carry acc) mod 65535 = unat acc mod 65535"
proof (induction acc rule: fold_carry.induct)
  case (1 acc)
  show ?case
  proof (cases "drop_bit 16 acc = 0")
    case True
    then show ?thesis by (simp add: fold_carry.simps [of acc])
  next
    case False
    have "unat (fold_carry acc) mod 65535 = unat ((acc AND 0xFFFF) + drop_bit 16 acc) mod 65535"
      using 1 [OF False] False by (simp only: fold_carry.simps [of acc] if_False)
    then show ?thesis by (simp only: fold_step fold_mod)
  qed
qed

lemma fold_carry_0: "unat (fold_carry acc) = 0 \<longleftrightarrow> unat acc = 0"
proof (induction acc rule: fold_carry.induct)
  case (1 acc)
  show ?case
  proof (cases "drop_bit 16 acc = 0")
    case True
    then show ?thesis by (simp add: fold_carry.simps [of acc])
  next
    case False
    then have "65536 \<le> unat acc" using drop_16_iff by (simp add: not_less)
    then have "unat acc div 65536 \<noteq> 0" "unat acc \<noteq> 0" by (simp_all add: div_eq_0_iff)
    then show ?thesis using 1 [OF False] False unfolding fold_step by (simp only: fold_carry.simps [of acc] if_False) simp
  qed
qed

lemma unat_checksum: "unat (net_checksum d) = 65535 - unat (fold_carry (sum_words d 0))"
proof -
  let ?f = "fold_carry (sum_words d 0)"
  have f: "unat ?f < 65536" by (rule fold_carry_less)
  have "NOT ?f = - 1 - ?f" by (simp add: not_eq_complement)
  moreover have m1: "(- 1 :: u32) = 0xFFFFFFFF" by simp
  have "unat (0xFFFFFFFF - ?f) = 0xFFFFFFFF - unat ?f" using f by (simp add: unat_sub_if')
  ultimately have "unat (NOT ?f) = 2 ^ 32 - 1 - unat ?f" unfolding m1 by simp
  also have "\<dots> = 65535 * 65536 + (65535 - unat ?f)" using f by simp
  finally have "unat (NOT ?f) mod 65536 = ((65535 - unat ?f) + 65536 * 65535) mod 65536" by (simp only: ac_simps)
  then have "unat (NOT ?f) mod 65536 = 65535 - unat ?f" by (simp only: mod_mult_self2) simp
  then show ?thesis by (simp add: net_checksum_def unsigned_ucast_eq take_bit_eq_mod)
qed

lemma sum_words_acc: "sum_words d acc = acc + sum_words d 0"
proof (induction d arbitrary: acc rule: induct_list012)
  case (3 a b d)
  show ?case using 3(1) [of "acc + (push_bit 8 (ucast a) OR ucast b)"] 3(1) [of "push_bit 8 (ucast a) OR ucast b"] by (simp add: add.assoc)
qed simp_all

lemma sum_words_append: "even (length xs) \<Longrightarrow> sum_words (xs @ ys) 0 = sum_words xs 0 + sum_words ys 0"
proof (induction xs rule: induct_list012)
  case (3 a b xs)
  let ?w = "push_bit 8 (ucast a) OR ucast b :: u32"
  show ?case using 3 sum_words_acc [of "xs @ ys" ?w] sum_words_acc [of xs ?w] by (simp add: add.assoc)
qed simp_all

lemma be_word_bound: "unat (push_bit 8 (ucast (a :: u8)) OR ucast (b :: u8) :: u32) < 65536"
proof -
  have "push_bit 8 (ucast a) OR ucast b = (take_bit 16 (push_bit 8 (ucast a) OR ucast b) :: u32)"
    by (rule bit_word_eqI) (auto simp: bit_simps dest: bit_imp_le_length)
  then have "unat (push_bit 8 (ucast a) OR ucast b :: u32) = unat (take_bit 16 (push_bit 8 (ucast a) OR ucast b) :: u32)" by (rule arg_cong)
  also have "\<dots> = take_bit 16 (unat (push_bit 8 (ucast a) OR ucast b :: u32))" by (rule unsigned_take_bit_eq)
  also have "\<dots> < 2 ^ 16" by (rule take_bit_nat_less_exp)
  finally show ?thesis by simp
qed

lemma sum_words_bound: "even (length d) \<Longrightarrow> length d \<le> 1000 \<Longrightarrow> unat (sum_words d 0) \<le> 65535 * (length d div 2)"
proof (induction d rule: induct_list012)
  case (3 a b d)
  let ?w = "push_bit 8 (ucast a) OR ucast b :: u32"
  have w: "unat ?w < 65536" by (rule be_word_bound)
  have IH: "unat (sum_words d 0) \<le> 65535 * (length d div 2)" using 3 by simp
  have "length d div 2 \<le> 500" using 3 by simp
  then have "unat (?w + sum_words d 0) = unat ?w + unat (sum_words d 0)" using w IH by (subst unat_plus_no_overflow) simp_all
  then show ?case using w IH by (simp add: sum_words_acc [of d ?w])
qed simp_all

lemma be_checksum: "push_bit 8 (ucast (ucast (htons c) :: u8)) OR ucast (ucast (drop_bit 8 (htons c)) :: u8) = (ucast (c :: u16) :: u32)"
  by (rule bit_word_eqI) (auto simp: htons_def bit_simps dest: bit_imp_le_length)

lemma checksum_verifies:
  assumes "even (length xs)" and "even (length ys)" and "length xs + length ys \<le> 900"
  shows "net_checksum (xs @ le16 (htons (net_checksum (xs @ [0, 0] @ ys))) @ ys) = 0"
proof -
  define c where "c = net_checksum (xs @ [0, 0] @ ys)"
  let ?S = "sum_words xs 0 + sum_words ys 0"
  have "unat (sum_words xs 0) \<le> 65535 * 450" "unat (sum_words ys 0) \<le> 65535 * 450"
    using sum_words_bound [of xs] sum_words_bound [of ys] assms by linarith+
  then have S: "unat ?S < 2 ^ 31" by (subst unat_plus_no_overflow) simp_all
  have s0: "sum_words (xs @ [0, 0] @ ys) 0 = ?S" using sum_words_append [OF assms(1), of "[0, 0] @ ys"] by simp
  have s1: "sum_words (xs @ le16 (htons c) @ ys) 0 = ?S + ucast c"
    using sum_words_append [OF assms(1), of "le16 (htons c) @ ys"] sum_words_acc [of ys "ucast c"] by (simp add: le16_def be_checksum ac_simps)
  have cu: "unat c = 65535 - unat (fold_carry ?S)" by (simp only: c_def unat_checksum s0)
  have u: "unat (ucast c :: u32) = unat c" using unsigned_less [of c, where 'a = nat] by (simp add: unsigned_ucast_eq take_bit_nat_eq_self)
  have f: "unat (fold_carry ?S) < 65536" by (rule fold_carry_less)
  have t: "unat (?S + ucast c) = unat ?S + (65535 - unat (fold_carry ?S))" using S by (subst unat_plus_no_overflow) (simp_all add: u cu)
  let ?g = "fold_carry (?S + ucast c)"
  have "(unat ?S + (65535 - unat (fold_carry ?S))) mod 65535 = 0"
  proof -
    have "(unat ?S + (65535 - unat (fold_carry ?S))) mod 65535 = (unat ?S mod 65535 + (65535 - unat (fold_carry ?S))) mod 65535" by (simp add: mod_add_left_eq)
    also have "\<dots> = (unat (fold_carry ?S) mod 65535 + (65535 - unat (fold_carry ?S))) mod 65535" by (simp only: fold_carry_mod)
    also have "\<dots> = (unat (fold_carry ?S) + (65535 - unat (fold_carry ?S))) mod 65535" by (simp add: mod_add_left_eq)
    also have "\<dots> = 0" using f by simp
    finally show ?thesis .
  qed
  then have "unat ?g mod 65535 = 0" by (simp only: fold_carry_mod t)
  moreover have "unat ?g \<noteq> 0" using fold_carry_0 [of ?S] fold_carry_0 [of "?S + ucast c"] unfolding t by auto
  ultimately have "unat ?g = 65535" using fold_carry_less [of "?S + ucast c"] by (auto simp: mod_eq_0_iff_dvd dvd_def)
  then have "unat (net_checksum (xs @ le16 (htons c) @ ys)) = 0" by (simp only: unat_checksum s1)
  then show ?thesis by (simp only: unat_eq_zero c_def)
qed

section \<open>The receive ring\<close>

text \<open>The ring holds the bytes \<open>q\<close> from its tail on.\<close>

definition rx_ring :: "Socket \<Rightarrow> u8 list \<Rightarrow> bool" where
  "rx_ring s q \<longleftrightarrow> length (rx_buf s) = SOCK_RXBUF_SIZE \<and> unat (rx_tail s) < SOCK_RXBUF_SIZE \<and> length q \<le> SOCK_RXBUF_SIZE \<and>
     unat (rx_head s) = (unat (rx_tail s) + length q) mod SOCK_RXBUF_SIZE \<and>
     (\<forall>i < length q. rx_buf s ! ((unat (rx_tail s) + i) mod SOCK_RXBUF_SIZE) = q ! i)"

definition rx_rep :: "Socket \<Rightarrow> u8 list \<Rightarrow> bool" where
  "rx_rep s q \<longleftrightarrow> rx_ring s q \<and> rx_count s = of_nat (length q)"

text \<open>Only the ring of a socket has changed.\<close>

definition ring_only :: "Socket \<Rightarrow> Socket \<Rightarrow> bool" where
  "ring_only s s' \<longleftrightarrow> s' = s\<lparr>rx_buf := rx_buf s', rx_head := rx_head s', rx_tail := rx_tail s', rx_count := rx_count s'\<rparr>"

lemma ring_only_trans: "ring_only s t \<Longrightarrow> ring_only t u \<Longrightarrow> ring_only s u"
  unfolding ring_only_def by (cases s; cases t; cases u) simp

lemma ring_only_upd [simp]:
  "ring_only s (s\<lparr>rx_tail := a\<rparr>)" "ring_only s (s\<lparr>rx_count := b\<rparr>)" "ring_only s (s\<lparr>rx_buf := m, rx_head := a\<rparr>)" "ring_only s s"
  by (simp_all add: ring_only_def)

lemma rx_ring_count [simp]: "rx_ring (s\<lparr>rx_count := c\<rparr>) q = rx_ring s q"
  by (simp add: rx_ring_def)

lemma slot_step: "unat t < 8192 \<Longrightarrow> unat ((t + 1) mod of_nat SOCK_RXBUF_SIZE :: u32) = (unat t + 1) mod SOCK_RXBUF_SIZE"
  by (simp add: unat_mod unat_plus_no_overflow)

lemma slot_neq:
  assumes "i < j" and "j < 8192"
  shows "(t + i) mod 8192 \<noteq> (t + j) mod (8192 :: nat)"
proof
  assume "(t + i) mod 8192 = (t + j) mod 8192"
  then have "8192 dvd (t + j) - (t + i)" using assms(1) by (metis add_le_cancel_left less_imp_le mod_eq_dvd_iff_nat)
  then show False using assms by (auto dest!: dvd_imp_le)
qed

lemma rx_put_ring:
  assumes "rx_ring s q" and "length q < SOCK_RXBUF_SIZE"
  shows "\<exists>s'. rx_put b s = Some s' \<and> rx_ring s' (q @ [b]) \<and> ring_only s s' \<and> rx_count s' = rx_count s"
proof -
  let ?h = "unat (rx_head s)" and ?t = "unat (rx_tail s)"
  let ?s = "s\<lparr>rx_buf := (rx_buf s)[?h := b], rx_head := (rx_head s + 1) mod of_nat SOCK_RXBUF_SIZE\<rparr>"
  have r: "length (rx_buf s) = 8192" "?t < 8192" "?h = (?t + length q) mod 8192" "\<And>i. i < length q \<Longrightarrow> rx_buf s ! ((?t + i) mod 8192) = q ! i"
    using assms(1) by (simp_all add: rx_ring_def)
  have h: "?h < 8192" using r(3) by simp
  have "rx_put b s = Some ?s" using h r(1) by (simp add: rx_put_def)
  moreover have "unat ((rx_head s + 1) mod of_nat SOCK_RXBUF_SIZE) = (?t + Suc (length q)) mod 8192"
    using slot_step [OF h] r(3) by (simp add: mod_Suc_eq)
  moreover have "(rx_buf s)[?h := b] ! ((?t + i) mod 8192) = (q @ [b]) ! i" if "i < Suc (length q)" for i
  proof (cases "i = length q")
    case True
    then show ?thesis using h r(1,3) by simp
  next
    case False
    then have i: "i < length q" using that by simp
    then have "(?t + i) mod 8192 \<noteq> ?h" using slot_neq [OF i, of ?t] assms(2) r(3) by simp
    then show ?thesis using r(4) [OF i] i by (simp add: nth_append)
  qed
  ultimately show ?thesis using assms r(1,2) by (auto simp: rx_ring_def)
qed

lemma rx_puts_ring:
  "rx_ring s q \<Longrightarrow> length q + length d \<le> SOCK_RXBUF_SIZE \<Longrightarrow>
     \<exists>s'. for_each rx_put d s = Some s' \<and> rx_ring s' (q @ d) \<and> ring_only s s' \<and> rx_count s' = rx_count s"
proof (induction d arbitrary: s q)
  case (Cons b d)
  obtain s1 where s1: "rx_put b s = Some s1" "rx_ring s1 (q @ [b])" "ring_only s s1" "rx_count s1 = rx_count s"
    using rx_put_ring [OF Cons.prems(1), of b] Cons.prems(2) by auto
  obtain s' where "for_each rx_put d s1 = Some s'" "rx_ring s' ((q @ [b]) @ d)" "ring_only s1 s'" "rx_count s' = rx_count s1"
    using Cons.IH [OF s1(2)] Cons.prems(2) by auto
  then show ?case using s1(1,4) ring_only_trans [OF s1(3), of s'] by auto
qed simp

lemma rx_enqueue_rep:
  assumes "rx_rep s q" and "length q + length d \<le> SOCK_RXBUF_SIZE"
  shows "\<exists>s'. rx_enqueue d s = Some (0, s') \<and> rx_rep s' (q @ d) \<and> ring_only s s'"
proof -
  obtain s1 where s1: "for_each rx_put d s = Some s1" "rx_ring s1 (q @ d)" "ring_only s s1" "rx_count s1 = rx_count s"
    using rx_puts_ring [of s q d] assms by (auto simp: rx_rep_def)
  have c: "rx_count s + of_nat (length d) = of_nat (length (q @ d))" using assms(1) by (simp add: rx_rep_def)
  have "unat (of_nat (length (q @ d)) :: u32) = length (q @ d)" using assms(2) by (intro unat_of_nat_less) simp
  then have "\<not> rx_count s + of_nat (length d) > of_nat SOCK_RXBUF_SIZE"
    unfolding c word_less_nat_alt using assms(2) by (simp del: of_nat_add length_append) simp
  then have "rx_enqueue d s = Some (0, s1\<lparr>rx_count := rx_count s1 + of_nat (length d)\<rparr>)" using s1(1) by (simp add: rx_enqueue_def)
  moreover have "rx_rep (s1\<lparr>rx_count := rx_count s1 + of_nat (length d)\<rparr>) (q @ d)" using s1(2,4) c by (simp add: rx_rep_def)
  moreover have "ring_only s (s1\<lparr>rx_count := rx_count s1 + of_nat (length d)\<rparr>)" using ring_only_trans [OF s1(3)] by simp
  ultimately show ?thesis by blast
qed

lemma rx_enqueue_full:
  assumes "rx_rep s q" and "SOCK_RXBUF_SIZE < length q + length d" and "length d < 2 ^ 16"
  shows "rx_enqueue d s = Some (-1, s)"
proof -
  have "length q \<le> 8192" using assms(1) by (simp add: rx_rep_def rx_ring_def)
  then have "unat (of_nat (length (q @ d)) :: u32) = length (q @ d)" using assms(3) by (intro unat_of_nat_less) simp
  moreover have "rx_count s + of_nat (length d) = of_nat (length (q @ d))" using assms(1) by (simp add: rx_rep_def)
  ultimately have "rx_count s + of_nat (length d) > of_nat SOCK_RXBUF_SIZE"
    unfolding word_less_nat_alt using assms(2) by (simp del: of_nat_add length_append) simp
  then show ?thesis by (simp add: rx_enqueue_def)
qed

lemma rx_take_ring:
  "rx_ring s q \<Longrightarrow> k \<le> length q \<Longrightarrow>
     \<exists>s'. rx_take k s = Some (take k q, s') \<and> rx_ring s' (drop k q) \<and> ring_only s s' \<and> rx_count s' = rx_count s"
proof (induction k arbitrary: s q)
  case (Suc k)
  let ?s = "s\<lparr>rx_tail := (rx_tail s + 1) mod of_nat SOCK_RXBUF_SIZE\<rparr>"
  let ?t = "unat (rx_tail s)"
  obtain b r where q: "q = b # r" using Suc.prems(2) by (cases q) auto
  have r: "length (rx_buf s) = 8192" "?t < 8192" "unat (rx_head s) = (?t + Suc (length r)) mod 8192"
    "\<And>i. i < Suc (length r) \<Longrightarrow> rx_buf s ! ((?t + i) mod 8192) = (b # r) ! i" "Suc (length r) \<le> 8192"
    using Suc.prems(1) by (simp_all add: rx_ring_def q)
  have st: "unat (rx_tail ?s) = (?t + 1) mod 8192" using slot_step [OF r(2)] by simp
  have "rx_ring ?s r"
    unfolding rx_ring_def
  proof (intro conjI allI impI)
    fix i assume "i < length r"
    then show "rx_buf ?s ! ((unat (rx_tail ?s) + i) mod SOCK_RXBUF_SIZE) = r ! i"
      using r(4) [of "Suc i"] unfolding st by (simp add: mod_add_left_eq)
  qed (use r in \<open>simp_all only: st, simp_all add: mod_Suc_eq mod_add_left_eq\<close>)
  then obtain s' where "rx_take k ?s = Some (take k r, s')" "rx_ring s' (drop k r)" "ring_only ?s s'" "rx_count s' = rx_count ?s"
    using Suc.IH [of ?s r] Suc.prems(2) q by auto
  moreover have "rx_buf s ! ?t = b" using r(4) [of 0] r(2) by simp
  ultimately show ?case using r(1,2) q ring_only_trans [of s ?s s'] by auto
qed simp

section \<open>Datagrams\<close>

text \<open>A datagram in a ring: sender's address and port, and the data.  A socket holds a list of datagrams.\<close>

type_synonym datagram = "u32 \<times> u16 \<times> u8 list"

definition enc :: "datagram \<Rightarrow> u8 list" where
  "enc = (\<lambda>(ip, port, d). udp_meta ip port (of_nat (length d)) @ d)"

definition msgs :: "Socket \<Rightarrow> datagram list \<Rightarrow> bool" where
  "msgs s ms \<longleftrightarrow> rx_rep s (concat (map enc ms)) \<and> (\<forall>(ip, port, d) \<in> set ms. length d < 2 ^ 16)"

definition sk_free :: "Socket \<Rightarrow> bool" where
  "sk_free s \<longleftrightarrow> locked (sk_lock s) = 0 \<and> locked (wq_lock (rx_wq s)) = 0"

lemma rx_rep_upd [simp]: "rx_rep (s\<lparr>sk_lock := lk\<rparr>) q = rx_rep s q" "rx_rep (s\<lparr>rx_wq := wq\<rparr>) q = rx_rep s q"
  by (simp_all add: rx_rep_def rx_ring_def)

lemma wq_wake_total:
  assumes "locked (wq_lock wq) = 0"
  shows "\<exists>r wq' k'. wq_wake wq k = Some (r, wq', k') \<and> locked (wq_lock wq') = 0"
  using assms by (auto simp: wq_wake_def acquire_free release_simp Let_def split: prod.splits)

lemma sk_acquire_free:
  assumes "locked (sk_lock (sockets n p)) = 0"
  shows "\<exists>lk k. sk_acquire p n = Some (skset p (\<lambda>s. s\<lparr>sk_lock := lk\<rparr>) (n\<lparr>nk := k\<rparr>))"
  using assms by (simp add: sk_acquire_def acquire_free) blast

lemma sk_release_free: "\<exists>lk k. sk_release p n = skset p (\<lambda>s. s\<lparr>sk_lock := lk\<rparr>) (n\<lparr>nk := k\<rparr>) \<and> locked lk = 0"
  by (simp add: sk_release_def release_simp Let_def) auto

lemma rx_take_tail: "rx_take k s = Some (bs, s') \<Longrightarrow> s' = s\<lparr>rx_tail := ((\<lambda>t. (t + 1) mod of_nat SOCK_RXBUF_SIZE) ^^ k) (rx_tail s)\<rparr>"
proof (induction k arbitrary: s bs)
  case (Suc k)
  then obtain bs' where "rx_take k (s\<lparr>rx_tail := (rx_tail s + 1) mod of_nat SOCK_RXBUF_SIZE\<rparr>) = Some (bs', s')"
    by (auto split: bind_splits)
  then have "s' = s\<lparr>rx_tail := (rx_tail s + 1) mod of_nat SOCK_RXBUF_SIZE\<rparr>\<lparr>rx_tail := ((\<lambda>t. (t + 1) mod of_nat SOCK_RXBUF_SIZE) ^^ k)
      (rx_tail (s\<lparr>rx_tail := (rx_tail s + 1) mod of_nat SOCK_RXBUF_SIZE\<rparr>))\<rparr>" by (rule Suc.IH)
  then show ?case by (simp add: funpow_Suc_right del: funpow.simps)
qed simp

lemma rx_skip_ring:
  assumes "rx_ring s q" and "k \<le> length q"
  shows "rx_ring (s\<lparr>rx_tail := ((\<lambda>t. (t + 1) mod of_nat SOCK_RXBUF_SIZE) ^^ k) (rx_tail s)\<rparr>) (drop k q)"
  using rx_take_ring [OF assms] rx_take_tail by auto

lemma udp_meta_fields:
  "length (udp_meta ip port l) = 8" "rd32 (udp_meta ip port l) 0 = Some ip" "rd16 (udp_meta ip port l) 4 = Some port" "rd16 (udp_meta ip port l) 6 = Some l"
  by (simp_all add: udp_meta_def le16_def le32_def rd16_def rd32_def arr_get_def bytes_join bytes_join16)

lemma udp_deliver_spec:
  assumes "p = find_socket dport SOCK_DGRAM 0 0 n" and "p \<noteq> 0" and "sk_free (sockets n p)" and "msgs (sockets n p) ms"
    and "length (concat (map enc ms)) + UDP_HEADER_SIZE + length d \<le> SOCK_RXBUF_SIZE"
  shows "\<exists>n'. socket_udp_deliver ip port dport d n = Some n' \<and> msgs (sockets n' p) (ms @ [(ip, port, d)]) \<and> sk_free (sockets n' p) \<and>
     (\<forall>q. q \<noteq> p \<longrightarrow> sockets n' q = sockets n q) \<and> wire n' = wire n"
proof -
  let ?q = "concat (map enc ms)" and ?m = "udp_meta ip port (of_nat (length d))"
  obtain lk k where a: "sk_acquire p n = Some (skset p (\<lambda>s. s\<lparr>sk_lock := lk\<rparr>) (n\<lparr>nk := k\<rparr>))"
    using sk_acquire_free [of n p] assms(3) by (auto simp: sk_free_def)
  let ?s = "(sockets n p)\<lparr>sk_lock := lk\<rparr>"
  have rep: "rx_rep ?s ?q" using assms(4) by (simp add: msgs_def)
  obtain s1 where s1: "rx_enqueue ?m ?s = Some (0, s1)" "rx_rep s1 (?q @ ?m)" "ring_only ?s s1"
    using rx_enqueue_rep [OF rep, of ?m] assms(5) by (auto simp: udp_meta_fields(1))
  obtain s2 where s2: "rx_enqueue d s1 = Some (0, s2)" "rx_rep s2 ((?q @ ?m) @ d)" "ring_only s1 s2"
    using rx_enqueue_rep [OF s1(2), of d] assms(5) by (auto simp: udp_meta_fields(1))
  have ro: "ring_only ?s s2" by (rule ring_only_trans [OF s1(3) s2(3)])
  have wq: "rx_wq s2 = rx_wq (sockets n p)" using arg_cong [OF ro [unfolded ring_only_def], of rx_wq] by simp
  let ?n = "skset p (\<lambda>_. s2) (skset p (\<lambda>s. s\<lparr>sk_lock := lk\<rparr>) (n\<lparr>nk := k\<rparr>))"
  obtain lk' k' where r: "sk_release p ?n = skset p (\<lambda>s. s\<lparr>sk_lock := lk'\<rparr>) (?n\<lparr>nk := k'\<rparr>)" "locked lk' = 0"
    using sk_release_free by blast
  obtain x wq' k'' where w: "wq_wake (rx_wq s2) k' = Some (x, wq', k'')" "locked (wq_lock wq') = 0"
    using wq_wake_total [of "rx_wq s2" k'] assms(3) by (auto simp: sk_free_def wq)
  let ?n' = "n\<lparr>nk := k'', sockets := (sockets n)(p := s2\<lparr>sk_lock := lk', rx_wq := wq'\<rparr>)\<rparr>"
  have "socket_udp_deliver ip port dport d n = Some ?n'"
    using assms(1,2) a s1(1) s2(1) r(1) w(1) by (simp add: socket_udp_deliver_def Let_def wake_rx_def skset_def)
  moreover have "length d < 2 ^ 16" using assms(5) by simp
  then have "msgs (sockets ?n' p) (ms @ [(ip, port, d)])" using assms(4) s2(2) by (auto simp: msgs_def enc_def)
  ultimately show ?thesis using r(2) w(2) by (auto simp: sk_free_def)
qed

lemma recvfrom_spec:
  assumes "sk_free (sockets n p)" and "msgs (sockets n p) ((ip, port, d) # ms)"
  shows "\<exists>n'. recvfrom_pass p len n = Some (Inr (Inr (take (unat len) d, Some (ip, port))), n') \<and> msgs (sockets n' p) ms \<and> sk_free (sockets n' p)"
proof -
  let ?q = "concat (map enc ms)" and ?m = "udp_meta ip port (of_nat (length d))"
  let ?f = "\<lambda>t. (t + 1) mod of_nat SOCK_RXBUF_SIZE :: u32"
  obtain lk k where a: "sk_acquire p n = Some (skset p (\<lambda>s. s\<lparr>sk_lock := lk\<rparr>) (n\<lparr>nk := k\<rparr>))"
    using sk_acquire_free [of n p] assms(1) by (auto simp: sk_free_def)
  let ?s = "(sockets n p)\<lparr>sk_lock := lk\<rparr>"
  have rep: "rx_rep ?s (?m @ d @ ?q)" and dl: "length d < 65536" using assms(2) by (simp_all add: msgs_def enc_def)
  then have ring: "rx_ring ?s (?m @ d @ ?q)" and cnt: "rx_count ?s = of_nat (length (?m @ d @ ?q))" by (simp_all add: rx_rep_def)
  have tot: "8 + length d + length ?q \<le> 8192" using ring by (simp add: rx_ring_def udp_meta_fields(1))
  then have uc: "unat (rx_count ?s) = 8 + length d + length ?q"
    unfolding cnt by (subst unat_of_nat_less) (simp_all add: udp_meta_fields(1))
  have nz: "rx_count ?s \<noteq> 0" "\<not> rx_count ?s < 8" using uc by (auto simp: word_less_nat_alt)
  obtain s1 where s1: "rx_take 8 ?s = Some (?m, s1)" "rx_ring s1 (d @ ?q)" "ring_only ?s s1" "rx_count s1 = rx_count ?s"
    using rx_take_ring [OF ring, of 8] by (auto simp: udp_meta_fields(1))
  let ?s1 = "s1\<lparr>rx_count := rx_count s1 - 8\<rparr>"
  have c1: "unat (rx_count ?s1) = length d + length ?q" using uc nz(2) by (simp add: s1(4) unat_sub_if' word_le_nat_alt)
  have ud: "unat (ucast (of_nat (length d) :: u16) :: u32) = length d"
    using dl by (simp add: unsigned_ucast_eq unat_of_nat_less take_bit_nat_eq_self)
  define K where "K = min (min (ucast (of_nat (length d) :: u16)) len) (rx_count ?s1)"
  have uk: "unat K = min (length d) (unat len)"
    using c1 ud by (auto simp: K_def min_def word_le_nat_alt)
  have r1: "rx_ring ?s1 (d @ ?q)" by (simp add: s1(2))
  have kle: "unat K \<le> length (d @ ?q)" by (simp only: uk length_append)
  obtain s2 where s2: "rx_take (unat K) ?s1 = Some (take (unat K) (d @ ?q), s2)" "rx_ring s2 (drop (unat K) (d @ ?q))" "ring_only ?s1 s2" "rx_count s2 = rx_count ?s1"
    using rx_take_ring [OF r1 kle] by blast
  define D where "D = ucast (of_nat (length d) :: u16) - K"
  have udis: "unat D = length d - unat K" using ud uk by (simp add: D_def unat_sub_if' word_le_nat_alt)
  let ?s3 = "s2\<lparr>rx_tail := (?f ^^ unat D) (rx_tail s2), rx_count := rx_count s2 - ucast (of_nat (length d) :: u16)\<rparr>"
  have tk: "take (unat K) (d @ ?q) = take (unat len) d" "drop (unat D) (drop (unat K) (d @ ?q)) = ?q" by (simp_all add: uk udis min_def)
  have "rx_ring (s2\<lparr>rx_tail := (?f ^^ unat D) (rx_tail s2)\<rparr>) ?q"
    using rx_skip_ring [OF s2(2), of "unat D"] tk(2) by (simp add: udis uk)
  moreover have "unat (rx_count s2 - ucast (of_nat (length d) :: u16)) = length ?q"
    using c1 s2(4) ud by (simp add: unat_sub_if' word_le_nat_alt)
  then have "rx_count s2 - ucast (of_nat (length d) :: u16) = of_nat (length ?q)" by (metis of_nat_unat ucast_id)
  ultimately have rep3: "rx_rep ?s3 ?q" by (simp add: rx_rep_def rx_ring_def)
  have wq: "rx_wq ?s3 = rx_wq (sockets n p)"
    using arg_cong [OF s1(3) [unfolded ring_only_def], of rx_wq] arg_cong [OF s2(3) [unfolded ring_only_def], of rx_wq] by simp
  let ?n = "skset p (\<lambda>_. ?s3) (skset p (\<lambda>s. s\<lparr>sk_lock := lk\<rparr>) (n\<lparr>nk := k\<rparr>))"
  obtain lk' k' where r: "sk_release p ?n = skset p (\<lambda>s. s\<lparr>sk_lock := lk'\<rparr>) (?n\<lparr>nk := k'\<rparr>)" "locked lk' = 0"
    using sk_release_free by blast
  have "recvfrom_pass p len n = Some (Inr (Inr (take (unat len) d, Some (ip, port))), sk_release p ?n)"
    unfolding recvfrom_pass_def a using nz s1(1) s2(1) [unfolded K_def] tk(1) [unfolded K_def]
    by (simp add: Let_def skset_def udp_meta_fields K_def D_def)
  moreover have "msgs (sockets (sk_release p ?n) p) ms" unfolding r(1) using rep3 assms(2) by (simp add: skset_def msgs_def)
  moreover have "sk_free (sockets (sk_release p ?n) p)" unfolding r(1) using assms(1) r(2) wq by (simp add: skset_def sk_free_def)
  ultimately show ?thesis by blast
qed

section \<open>From one machine to another\<close>

lemma htons_htons [simp]: "htons (htons v) = v"
proof (rule bit_word_eqI)
  fix i assume "i < LENGTH(16)"
  then show "bit (htons (htons v)) i = bit v i" by (cases "i < 8") (auto simp: htons_def bit_simps)
qed

lemma rd_le16: "rd16 (xs @ le16 v @ ys) (length xs) = Some v"
  by (simp add: rd16_def le16_def arr_get_def nth_append bytes_join16)

lemma rd_le32: "rd32 (xs @ le32 v @ ys) (length xs) = Some v"
  by (simp add: rd32_def le32_def arr_get_def nth_append bytes_join)

lemma ipv4_header_split:
  "ipv4_header l ident proto c src dst =
     ([0x45, 0] @ le16 (htons l) @ le16 (htons ident) @ le16 0 @ [64, proto]) @ le16 c @ (le32 src @ le32 dst)"
  by (simp add: ipv4_header_def)

lemma length_ipv4_header [simp]: "length (ipv4_header l ident proto c src dst) = 20"
  by (simp add: ipv4_header_def le16_def le32_def)

lemma ipv4_header_verifies: "net_checksum (ipv4_header l ident proto (htons (net_checksum (ipv4_header l ident proto 0 src dst))) src dst) = 0"
proof -
  let ?xs = "[0x45, 0] @ le16 (htons l) @ le16 (htons ident) @ le16 0 @ [64, proto]" and ?ys = "le32 src @ le32 dst"
  have "le16 0 = [0, 0]" by (simp add: le16_def)
  then have "ipv4_header l ident proto 0 src dst = ?xs @ [0, 0] @ ?ys" by (simp add: ipv4_header_def)
  then show ?thesis
    using checksum_verifies [of ?xs ?ys] unfolding ipv4_header_split [of _ _ _ "htons _"] by (simp add: le16_def le32_def)
qed

text \<open>A header of \<^verbatim>\<open>ipv4_send\<close> passes the checks of \<^verbatim>\<open>ipv4_rx\<close> at its destination.\<close>

lemma ipv4_rx_accepts:
  fixes body rest :: "u8 list"
  assumes "length body \<le> 1480" and "hd4 = ipv4_header (of_nat (20 + length body)) ident proto (htons (net_checksum (ipv4_header (of_nat (20 + length body)) ident proto 0 src (ip_addr nif)))) src (ip_addr nif)"
  shows "ipv4_rx nif (hd4 @ body @ rest) (of_nat (20 + length body)) n =
     (if proto = IPV4_PROTO_ICMP then icmp_rx nif src (body @ rest) (of_nat (length body)) n
      else if proto = IPV4_PROTO_UDP then udp_rx src (body @ rest) (of_nat (length body)) n
      else if proto = IPV4_PROTO_TCP then tcp_rx src (ip_addr nif) (body @ rest) (of_nat (length body)) n
      else Some n)"
proof -
  let ?d = "hd4 @ body @ rest" and ?tl = "of_nat (20 + length body) :: u16"
  have len: "length hd4 = 20" by (simp add: assms(2))
  have h: "arr_get ?d 0 = Some 0x45" "rd_bytes ?d 0 20 = Some hd4" "arr_get ?d 9 = Some proto"
    by (simp_all add: assms(2) ipv4_header_def le16_def le32_def arr_get_def rd_bytes_def)
  have f: "rd16 ?d 2 = Some (htons ?tl)" "rd32 ?d 12 = Some src" "rd32 ?d 16 = Some (ip_addr nif)"
    by (simp_all add: assms(2) ipv4_header_def le16_def le32_def arr_get_def rd16_def rd32_def bytes_join bytes_join16)
  have u: "(ucast ?tl :: u32) = of_nat (20 + length body)"
  proof -
    have "unat (ucast ?tl :: u32) = unat (of_nat (20 + length body) :: u32)"
      using assms(1) by (simp add: unsigned_ucast_eq unat_of_nat_less take_bit_nat_eq_self del: of_nat_add)
    then show ?thesis by (simp only: word_unat_eq_iff)
  qed
  have l: "\<not> (of_nat (20 + length body) :: u32) < 20"
    using assms(1) by (simp add: word_less_nat_alt unat_of_nat_less del: of_nat_add)
  have p: "(of_nat (20 + length body) :: u32) - 20 = of_nat (length body)" "(20 :: u32) + of_nat (length body) = of_nat (20 + length body)" by simp_all
  have ck: "net_checksum hd4 = 0" unfolding assms(2) by (rule ipv4_header_verifies)
  show ?thesis
    unfolding ipv4_rx_def using h f l ck len by (simp add: u p Let_def del: of_nat_add)
qed

lemma udp_rx_accepts:
  assumes "length pay \<le> 1472"
  shows "udp_rx src ((le16 sport @ le16 dport @ le16 (htons (of_nat (8 + length pay))) @ le16 0 @ pay) @ rest) (of_nat (8 + length pay)) n =
     socket_udp_deliver src sport dport pay n"
proof -
  let ?d = "(le16 sport @ le16 dport @ le16 (htons (of_nat (8 + length pay))) @ le16 0 @ pay) @ rest" and ?l = "of_nat (8 + length pay) :: u16"
  have f: "rd16 ?d 0 = Some sport" "rd16 ?d 2 = Some dport" "rd16 ?d 4 = Some (htons ?l)"
    by (simp_all add: le16_def arr_get_def rd16_def bytes_join16)
  have u: "unat ?l = 8 + length pay" "unat (of_nat (8 + length pay) :: u32) = 8 + length pay"
    using assms by (simp_all add: unat_of_nat_less del: of_nat_add)
  have s8: "unat (?l - 8) = length pay" using u(1) by (subst unat_sub) (simp_all add: word_le_nat_alt del: of_nat_add)
  have g: "\<not> (of_nat (8 + length pay) :: u32) < 8" "\<not> ?l < 8" "\<not> (ucast ?l :: u32) > of_nat (8 + length pay)"
    using assms by (simp_all add: word_less_nat_alt u unsigned_ucast_eq take_bit_nat_eq_self del: of_nat_add)
  have "rd_bytes ?d 8 (length pay) = Some pay" by (simp add: rd_bytes_def le16_def)
  then show ?thesis using f g s8 by (simp add: udp_rx_def Let_def del: of_nat_add)
qed

text \<open>
  C6.  A datagram sent with \<^verbatim>\<open>udp_send\<close> arrives: the sender puts exactly one frame on the wire, and a
  machine with the destination address that receives this frame appends the datagram, with the
  sender's address and port and the data unchanged, to the datagrams of the socket bound to the port,
  without any other socket changing.  Receiving from the socket returns its datagrams in order.
\<close>

theorem udp_datagram_arrives:
  assumes "length (mac nif1) = ETH_ALEN" and "length m = ETH_ALEN" and "length pay \<le> 1472"
    and "arp_lookup (if dst AND netmask nif1 \<noteq> ip_addr nif1 AND netmask nif1 then gateway nif1 else dst) n1 = Some m"
    and "ip_addr nif2 = dst" and "p = find_socket dport SOCK_DGRAM 0 0 n2" and "p \<noteq> 0" and "sk_free (sockets n2 p)"
    and "msgs (sockets n2 p) ms" and "length (concat (map enc ms)) + UDP_HEADER_SIZE + length pay \<le> SOCK_RXBUF_SIZE"
  shows "\<exists>frame n1' n2'. udp_send nif1 sport dst dport pay n1 = (send_ret nif1, n1') \<and> wire n1' = wire n1 @ [frame] \<and>
     eth_rx nif2 (frame @ rest) (of_nat (length frame)) n2 = Some n2' \<and>
     msgs (sockets n2' p) (ms @ [(ip_addr nif1, sport, pay)]) \<and> (\<forall>q. q \<noteq> p \<longrightarrow> sockets n2' q = sockets n2 q) \<and>
     (case ms @ [(ip_addr nif1, sport, pay)] of
        (ip, port, d) # ms' \<Rightarrow>
          \<forall>len. \<exists>n3. recvfrom_pass p len n2' = Some (Inr (Inr (take (unat len) d, Some (ip, port))), n3) \<and> msgs (sockets n3 p) ms'
      | [] \<Rightarrow> False)"
proof -
  let ?body = "le16 sport @ le16 dport @ le16 (htons (of_nat (8 + length pay))) @ le16 0 @ pay"
  let ?tot = "20 + length ?body"
  define h4 where "h4 = ipv4_header (of_nat ?tot) (ip_id_counter n1) IPV4_PROTO_UDP
     (htons (net_checksum (ipv4_header (of_nat ?tot) (ip_id_counter n1) IPV4_PROTO_UDP 0 (ip_addr nif1) dst))) (ip_addr nif1) dst"
  let ?frame = "m @ mac nif1 @ le16 (htons ETH_TYPE_IPV4) @ h4 @ ?body"
  have bl: "length ?body = 8 + length pay" by (simp add: le16_def)
  have arp: "arp_lookup x (n1\<lparr>ip_id_counter := c\<rparr>) = arp_lookup x n1" for x c by (simp add: arp_lookup_def)
  have "ipv4_send nif1 dst IPV4_PROTO_UDP ?body n1 = (send_ret nif1, n1\<lparr>ip_id_counter := ip_id_counter n1 + 1, wire := wire n1 @ [?frame]\<rparr>)"
    using assms(3,4) bl by (simp add: ipv4_send_def Let_def arp eth_send_def h4_def del: of_nat_add)
  then have snd: "udp_send nif1 sport dst dport pay n1 = (send_ret nif1, n1\<lparr>ip_id_counter := ip_id_counter n1 + 1, wire := wire n1 @ [?frame]\<rparr>)"
    using assms(3) by (simp add: udp_send_def Let_def del: of_nat_add)
  have fl: "length ?frame = 14 + ?tot" using assms(1,2) by (simp add: le16_def h4_def)
  have ty: "rd16 (?frame @ rest) 12 = Some (htons ETH_TYPE_IPV4)"
    using rd_le16 [of "m @ mac nif1" "htons ETH_TYPE_IPV4" "h4 @ ?body @ rest"] assms(1,2) by simp
  have dr: "drop 14 (?frame @ rest) = h4 @ ?body @ rest" using assms(1,2) by (simp add: le16_def)
  have un: "unat (of_nat (length ?frame) :: u32) = 14 + ?tot" unfolding fl using assms(3) bl by (intro unat_of_nat_less) simp
  have l14: "\<not> (of_nat (length ?frame) :: u32) < of_nat 14" by (simp only: word_less_nat_alt un) simp
  have sub: "(of_nat (length ?frame) :: u32) - of_nat 14 = of_nat ?tot" by (simp only: fl) simp
  have "eth_rx nif2 (?frame @ rest) (of_nat (length ?frame)) n2 = ipv4_rx nif2 (h4 @ ?body @ rest) (of_nat ?tot) n2"
    unfolding eth_rx_def if_not_P [OF l14] ty dr sub Let_def by simp
  also have "\<dots> = udp_rx (ip_addr nif1) (?body @ rest) (of_nat (8 + length pay)) n2"
    using ipv4_rx_accepts [of ?body h4 "ip_id_counter n1" IPV4_PROTO_UDP "ip_addr nif1" nif2 rest n2] assms(3,5) unfolding bl h4_def by simp
  also have "\<dots> = socket_udp_deliver (ip_addr nif1) sport dport pay n2" by (rule udp_rx_accepts [OF assms(3)])
  finally have rx: "eth_rx nif2 (?frame @ rest) (of_nat (length ?frame)) n2 = socket_udp_deliver (ip_addr nif1) sport dport pay n2" .
  obtain n2' where n2': "socket_udp_deliver (ip_addr nif1) sport dport pay n2 = Some n2'" "msgs (sockets n2' p) (ms @ [(ip_addr nif1, sport, pay)])"
    "sk_free (sockets n2' p)" "\<forall>q. q \<noteq> p \<longrightarrow> sockets n2' q = sockets n2 q"
    using udp_deliver_spec [OF assms(6-10)] by blast
  obtain ip port d ms' where hd: "ms @ [(ip_addr nif1, sport, pay)] = (ip, port, d) # ms'" by (cases "ms @ [(ip_addr nif1, sport, pay)]") auto
  have "\<exists>n3. recvfrom_pass p len n2' = Some (Inr (Inr (take (unat len) d, Some (ip, port))), n3) \<and> msgs (sockets n3 p) ms'" for len
    using recvfrom_spec [OF n2'(3), of ip port d ms' len] n2'(2) unfolding hd by blast
  then show ?thesis using snd rx n2'(1,2,4) unfolding hd by (auto intro!: exI [of _ ?frame])
qed

definition nif_example :: "u32 \<Rightarrow> NetIf" where
  "nif_example ip = \<lparr>mac = replicate ETH_ALEN 2, ip_addr = ip, netmask = IP4 255 255 255 0, gateway = IP4 10 0 2 2, send_ret = 0\<rparr>"

text \<open>A machine that knows the hardware address of 10.0.2.9 and has one datagram socket, at port 7.\<close>

definition net_example :: Net where
  "net_example = \<lparr>nk = kernel_example, interfaces = [], arp_cache = [\<lparr>ae_ip = IP4 10 0 2 9, ae_mac = replicate ETH_ALEN 3, ae_valid = True\<rparr>],
     arp_next_slot = 1, ip_id_counter = 1, wire = [], sockets = (\<lambda>_. zero_socket\<lparr>stype := SOCK_DGRAM, local_port := 7\<rparr>),
     socket_table = 0x500 # replicate 63 0, socket_table_lock = SPINLOCK_INIT, ephemeral_port_next = 49152\<rparr>"

theorem udp_datagram_arrives_witness:
  "\<exists>frame n1' n2' n3. udp_send (nif_example (IP4 10 0 2 15)) 5 (IP4 10 0 2 9) 7 [1, 2, 3] net_example = (0, n1') \<and> wire n1' = [frame] \<and>
     eth_rx (nif_example (IP4 10 0 2 9)) frame (of_nat (length frame)) net_example = Some n2' \<and>
     recvfrom_pass 0x500 100 n2' = Some (Inr (Inr ([1, 2, 3], Some (IP4 10 0 2 15, 5))), n3)"
proof -
  have a: "arp_lookup (if IP4 10 0 2 9 AND netmask (nif_example (IP4 10 0 2 15)) \<noteq> ip_addr (nif_example (IP4 10 0 2 15)) AND netmask (nif_example (IP4 10 0 2 15))
      then gateway (nif_example (IP4 10 0 2 15)) else IP4 10 0 2 9) net_example = Some (replicate ETH_ALEN 3)"
    by (simp add: nif_example_def net_example_def arp_lookup_def arp_hit_def IP4_def)
  have f: "0x500 = find_socket 7 SOCK_DGRAM 0 0 net_example" by (simp add: find_socket_def net_example_def zero_socket_def)
  have s: "sk_free (sockets net_example 0x500)" by (simp add: net_example_def sk_free_def zero_socket_def zero_wq_def SPINLOCK_INIT_def)
  have m: "msgs (sockets net_example 0x500) []" by (simp add: net_example_def msgs_def rx_rep_def rx_ring_def zero_socket_def)
  have sel: "send_ret (nif_example ip) = 0" "length (mac (nif_example ip)) = ETH_ALEN" "ip_addr (nif_example ip) = ip" "wire net_example = []" for ip
    by (simp_all add: nif_example_def net_example_def)
  obtain frame n1' n2' where w: "udp_send (nif_example (IP4 10 0 2 15)) 5 (IP4 10 0 2 9) 7 [1, 2, 3] net_example = (0, n1')" "wire n1' = [frame]"
    "eth_rx (nif_example (IP4 10 0 2 9)) frame (of_nat (length frame)) net_example = Some n2'"
    "\<forall>len. \<exists>n3. recvfrom_pass 0x500 len n2' = Some (Inr (Inr (take (unat len) [1, 2, 3], Some (IP4 10 0 2 15, 5))), n3)"
    using udp_datagram_arrives [OF _ _ _ a _ f _ s m, of "[1, 2, 3]" "nif_example (IP4 10 0 2 9)" 5 "[]"]
    by (auto simp: sel) (metis (no_types, lifting))
  obtain n3 where "recvfrom_pass 0x500 100 n2' = Some (Inr (Inr (take (unat (100 :: u32)) [1, 2, 3], Some (IP4 10 0 2 15, 5))), n3)" using w(4) by blast
  then show ?thesis using w(1-3) by auto
qed

section \<open>Where the stack goes wrong\<close>

text \<open>
  A packet whose total length is smaller than its header passes the checks, because the length of its
  data wraps around; the datagram is then read behind the end of the packet.
\<close>

lemma ipv4_short_total_length:
  assumes "h = ipv4_header 0 ident IPV4_PROTO_UDP (htons (net_checksum (ipv4_header 0 ident IPV4_PROTO_UDP 0 src (ip_addr nif)))) src (ip_addr nif)"
  shows "ipv4_rx nif (h @ le16 sport @ le16 dport @ le16 (htons 1000) @ le16 0) 28 n = None"
proof -
  let ?u = "le16 sport @ le16 dport @ le16 (htons 1000) @ le16 0"
  let ?d = "h @ ?u"
  have h: "arr_get ?d 0 = Some 0x45" "rd_bytes ?d 0 20 = Some h" "arr_get ?d 9 = Some IPV4_PROTO_UDP" "length h = 20"
    by (simp_all add: assms ipv4_header_def le16_def le32_def arr_get_def rd_bytes_def)
  have f: "rd16 ?d 2 = Some (htons 0)" "rd32 ?d 12 = Some src" "rd32 ?d 16 = Some (ip_addr nif)"
    by (simp_all add: assms ipv4_header_def le16_def le32_def arr_get_def rd16_def rd32_def bytes_join bytes_join16)
  have ck: "net_checksum h = 0" unfolding assms by (rule ipv4_header_verifies)
  have g: "rd16 ?u 0 = Some sport" "rd16 ?u 2 = Some dport" "rd16 ?u 4 = Some (htons 1000)" "rd_bytes ?u 8 992 = None"
    by (simp_all add: le16_def arr_get_def rd16_def rd_bytes_def bytes_join16)
  have m20: "(- 20 :: u32) = 0xFFFFFFEC" by simp
  have "udp_rx src ?u 0xFFFFFFEC n = None" using g by (simp add: udp_rx_def Let_def)
  then have "udp_rx src ?u (- 20) n = None" by (simp only: m20)
  then show ?thesis unfolding ipv4_rx_def using h f ck by (simp add: Let_def)
qed

text \<open>A datagram socket that has been connected gets no datagrams any more, not even from its peer.\<close>

lemma udp_connected_gets_nothing:
  assumes "\<forall>p \<in> set (socket_table n). p \<noteq> 0 \<and> stype (sockets n p) = SOCK_DGRAM \<and> local_port (sockets n p) = dport \<longrightarrow>
     remote_ip (sockets n p) \<noteq> 0 \<and> sstate (sockets n p) = SOCK_STATE_ESTABLISHED"
  shows "socket_udp_deliver src sport dport d n = Some n"
proof -
  have "find_socket dport SOCK_DGRAM 0 0 n = 0"
    using assms by (auto simp: find_socket_def find_None_iff split: option.splits dest!: find_Some_iff [THEN iffD1] nth_mem)
  then show ?thesis by (simp add: socket_udp_deliver_def)
qed

text \<open>
  When the ring has room for the header of a datagram but not for its data, the header stays in the
  ring alone; what follows it is later taken for its data.
\<close>

lemma udp_header_without_data:
  assumes "rx_rep s q" and "length q + 8 \<le> SOCK_RXBUF_SIZE" and "SOCK_RXBUF_SIZE < length q + 8 + length d" and "length d < 2 ^ 16"
  shows "\<exists>s'. rx_enqueue (udp_meta ip port (of_nat (length d))) s = Some (0, s') \<and> rx_enqueue d s' = Some (-1, s') \<and>
     rx_rep s' (q @ udp_meta ip port (of_nat (length d)))"
proof -
  obtain s' where s': "rx_enqueue (udp_meta ip port (of_nat (length d))) s = Some (0, s')" "rx_rep s' (q @ udp_meta ip port (of_nat (length d)))"
    using rx_enqueue_rep [OF assms(1)] assms(2) udp_meta_fields(1) by metis
  then show ?thesis using rx_enqueue_full [OF s'(2), of d] assms(3,4) by (simp add: udp_meta_fields(1))
qed

text \<open>
  A connection request that arrives at a listening socket wakes nobody and puts nothing in the socket
  table: a caller that sleeps in \<^verbatim>\<open>socket_accept\<close> is not told, and no later segment can reach the new
  socket to change its state.
\<close>

lemma tcp_listen_wakes_nobody:
  assumes "sk_alloc n = Some (c, n1)" and "c \<noteq> 0" and "c \<noteq> p" and "tcp_listen p src sport TCP_SYN sq n = Some n'"
  shows "accept_wq (sockets n' p) = accept_wq (sockets n p) \<and> socket_table n' = socket_table n"
proof -
  define Q where "Q = (\<lambda>m :: Net. accept_wq (sockets m p) = accept_wq (sockets n p) \<and> socket_table m = socket_table n)"
  have K: "Q (skset c f m) = Q m" "Q (skset p (\<lambda>s. s\<lparr>accept_queue := q, accept_tail := t\<rparr>) m) = Q m" "Q (sk_release p m) = Q m"
    "sk_kfree c m = Some m' \<Longrightarrow> Q m' = Q m" for f q t m m'
    using assms(3) by (auto simp: Q_def skset_def sk_release_def Let_def sk_kfree_def split: bind_splits)
  have S: "Q (snd (tcp_send nif a b d e f g h [] m)) = Q m" for nif a b d e f g h m
    by (auto simp: Q_def tcp_send_def ipv4_send_def eth_send_def Let_def split: option.splits)
  have "Q n1" using assms(1-3) by (auto simp: Q_def sk_alloc_def skset_def split: bind_splits if_splits)
  then have "Q n'" using assms(2,4) unfolding tcp_listen_def assms(1)
    by (auto simp: K S Let_def split: if_splits bind_splits option.splits)
  then show ?thesis by (simp add: Q_def)
qed

end
