(* ===== verification/Elf.thy ===== *)
theory Elf
  imports Vmm
begin

text \<open>
  The loader of ELF executables (\<^verbatim>\<open>kernel/proc/elf.c\<close>).  The file is the list of its bytes; a read behind
  its end has no result.  Loading maps a fresh zeroed frame for every page of a loadable segment and
  copies the part of the file that belongs to the page.  The frames are written byte by byte through
  the direct map, so physical memory, which holds 64-bit words, is read and written in byte lanes here.

  The main theorem describes the address space after loading: which pages are mapped, with which
  permissions, and the byte a user program reads at every address of its segments.
\<close>

section \<open>Bytes of physical memory\<close>

definition pbyte :: "(u64 \<Rightarrow> u64) \<Rightarrow> u64 \<Rightarrow> u8" where
  "pbyte m a = ucast (drop_bit (8 * unat (a mod 8)) (m (a - a mod 8)))"

definition lane_set :: "nat \<Rightarrow> u8 \<Rightarrow> u64 \<Rightarrow> u64" where
  "lane_set k b w = (w AND NOT (push_bit (8 * k) 0xFF)) OR push_bit (8 * k) (ucast b)"

definition pbyte_set :: "u64 \<Rightarrow> u8 \<Rightarrow> (u64 \<Rightarrow> u64) \<Rightarrow> u64 \<Rightarrow> u64" where
  "pbyte_set a b m = m(a - a mod 8 := lane_set (unat (a mod 8)) b (m (a - a mod 8)))"

text \<open>A byte store through a pointer into the direct map.\<close>

definition byte_store :: "u64 \<Rightarrow> u8 \<Rightarrow> vmm \<Rightarrow> vmm" where
  "byte_store v b s = s\<lparr>pmem := pbyte_set (v - hhdm_offset s) b (pmem s)\<rparr>"

section \<open>Headers\<close>

abbreviation USER_VADDR_MAX :: u64 where "USER_VADDR_MAX \<equiv> 0x0000800000000000"
abbreviation ELFCLASS64 :: u8 where "ELFCLASS64 \<equiv> 2"
abbreviation ELFDATA2LSB :: u8 where "ELFDATA2LSB \<equiv> 1"
abbreviation ET_EXEC :: u16 where "ET_EXEC \<equiv> 2"
abbreviation EM_X86_64 :: u16 where "EM_X86_64 \<equiv> 62"
abbreviation PT_LOAD :: u32 where "PT_LOAD \<equiv> 1"
abbreviation PF_X :: u32 where "PF_X \<equiv> 1"
abbreviation PF_W :: u32 where "PF_W \<equiv> 2"
abbreviation SIZEOF_Ehdr :: nat where "SIZEOF_Ehdr \<equiv> 64"

record Elf64_Ehdr =
  e_ident :: "u8 list"
  e_type :: u16
  e_machine :: u16
  e_version :: u32
  e_entry :: u64
  e_phoff :: u64
  e_shoff :: u64
  e_flags :: u32
  e_ehsize :: u16
  e_phentsize :: u16
  e_phnum :: u16
  e_shentsize :: u16
  e_shnum :: u16
  e_shstrndx :: u16

text \<open>The loader reads neither \<^verbatim>\<open>p_paddr\<close> nor \<^verbatim>\<open>p_align\<close>; a header is read up to \<^verbatim>\<open>p_memsz\<close>.\<close>

record Elf64_Phdr =
  p_type :: u32
  p_flags :: u32
  p_offset :: u64
  p_vaddr :: u64
  p_filesz :: u64
  p_memsz :: u64

record ElfLoadResult =
  entry_point :: u64
  elf_brk_start :: u64

definition read_ehdr :: "u8 list \<Rightarrow> Elf64_Ehdr option" where
  "read_ehdr d =
     do { ident \<leftarrow> rd_bytes d 0 16;
          ty \<leftarrow> rd16 d 16; machine \<leftarrow> rd16 d 18; version \<leftarrow> rd32 d 20;
          entry \<leftarrow> rd64 d 24; phoff \<leftarrow> rd64 d 32; shoff \<leftarrow> rd64 d 40; fl \<leftarrow> rd32 d 48;
          ehsize \<leftarrow> rd16 d 52; phentsize \<leftarrow> rd16 d 54; phnum \<leftarrow> rd16 d 56;
          shentsize \<leftarrow> rd16 d 58; shnum \<leftarrow> rd16 d 60; shstrndx \<leftarrow> rd16 d 62;
          Some \<lparr>e_ident = ident, e_type = ty, e_machine = machine, e_version = version, e_entry = entry,
                e_phoff = phoff, e_shoff = shoff, e_flags = fl, e_ehsize = ehsize, e_phentsize = phentsize,
                e_phnum = phnum, e_shentsize = shentsize, e_shnum = shnum, e_shstrndx = shstrndx\<rparr> }"

definition read_phdr :: "u8 list \<Rightarrow> nat \<Rightarrow> Elf64_Phdr option" where
  "read_phdr d i =
     do { ty \<leftarrow> rd32 d i; fl \<leftarrow> rd32 d (i + 4); off \<leftarrow> rd64 d (i + 8); vaddr \<leftarrow> rd64 d (i + 16);
          filesz \<leftarrow> rd64 d (i + 32); memsz \<leftarrow> rd64 d (i + 40);
          Some \<lparr>p_type = ty, p_flags = fl, p_offset = off, p_vaddr = vaddr, p_filesz = filesz, p_memsz = memsz\<rparr> }"

definition elf_validate_header :: "Elf64_Ehdr \<Rightarrow> u64 \<Rightarrow> int" where
  "elf_validate_header eh sz =
     (if e_ident eh ! 0 \<noteq> 0x7F \<or> e_ident eh ! 1 \<noteq> 69 \<or> e_ident eh ! 2 \<noteq> 76 \<or> e_ident eh ! 3 \<noteq> 70 then - EINVAL
      else if e_ident eh ! 4 \<noteq> ELFCLASS64 then - EINVAL
      else if e_ident eh ! 5 \<noteq> ELFDATA2LSB then - EINVAL
      else if e_type eh \<noteq> ET_EXEC then - EINVAL
      else if e_machine eh \<noteq> EM_X86_64 then - EINVAL
      else if e_phoff eh = 0 \<or> e_phnum eh = 0 then - EINVAL
      else if e_phoff eh + ucast (e_phnum eh) * ucast (e_phentsize eh) > sz then - EINVAL
      else 0)"

section \<open>Loading\<close>

definition elf_copy_page_data :: "u64 \<Rightarrow> u64 \<Rightarrow> Elf64_Phdr \<Rightarrow> u8 list \<Rightarrow> vmm \<Rightarrow> vmm option" where
  "elf_copy_page_data page_virt vaddr ph d s =
     (if p_filesz ph = 0 then Some s else
      let file_start = p_vaddr ph; file_end = p_vaddr ph + p_filesz ph;
          page_start = vaddr; page_end = vaddr + PAGE_SIZE;
          copy_start = (if file_start > page_start then file_start else page_start);
          copy_end = (if file_end < page_end then file_end else page_end)
      in if copy_start < copy_end then
           let file_offset = p_offset ph + (copy_start - p_vaddr ph); page_offset = copy_start - page_start in
           for_each (\<lambda>k s. do { b \<leftarrow> arr_get d (unat (file_offset + of_nat k));
                                Some (byte_store (page_virt + page_offset + of_nat k) b s) })
             [0..<unat (copy_end - copy_start)] s
         else Some s)"

definition elf_flags :: "Elf64_Phdr \<Rightarrow> u32" where
  "elf_flags ph =
     (let fl = VMM_FLAG_USER;
          fl = (if p_flags ph AND PF_W \<noteq> 0 then fl OR VMM_FLAG_WRITABLE else fl)
      in if p_flags ph AND PF_X = 0 then fl OR VMM_FLAG_NOEXEC else fl)"

definition elf_load_page :: "Elf64_Phdr \<Rightarrow> u8 list \<Rightarrow> u64 \<Rightarrow> u64 \<Rightarrow> u64 \<Rightarrow> vmm \<Rightarrow> ((int \<times> vmm) + vmm) option" where
  "elf_load_page ph d pml4_phys hhdm vaddr s =
     do { (phys, s) \<leftarrow> vmm_alloc_page s;
          if phys = 0 then Some (Inl (- ENOMEM, s)) else
          do { let page_virt = phys + hhdm;
               let s = zero_page page_virt s;
               s \<leftarrow> elf_copy_page_data page_virt vaddr ph d s;
               s \<leftarrow> vmm_map_page_in pml4_phys vaddr phys (elf_flags ph) s;
               Some (Inr s) } }"

text \<open>The loop over the pages stops at \<open>USER_VADDR_MAX\<close> at the latest, so its counter does not wrap.\<close>

definition seg_page_list :: "Elf64_Phdr \<Rightarrow> u64 list" where
  "seg_page_list ph =
     (let seg_start = PAGE_ALIGN_DOWN (p_vaddr ph); seg_end = PAGE_ALIGN_UP (p_vaddr ph + p_memsz ph) in
      map (\<lambda>k. seg_start + of_nat k * PAGE_SIZE)
        [0..<(if seg_start < seg_end then unat ((seg_end - seg_start) div PAGE_SIZE) else 0)])"

definition elf_load_segment ::
    "Elf64_Phdr \<Rightarrow> u8 list \<Rightarrow> u64 \<Rightarrow> u64 \<Rightarrow> u64 \<Rightarrow> u64 \<Rightarrow> vmm \<Rightarrow> (int \<times> u64 \<times> vmm) option" where
  "elf_load_segment ph d file_size pml4_phys hhdm highest s =
     (if p_vaddr ph \<ge> USER_VADDR_MAX \<or> p_vaddr ph + p_memsz ph > USER_VADDR_MAX then Some (- EINVAL, highest, s)
      else if p_filesz ph > 0 \<and> p_offset ph + p_filesz ph > file_size then Some (- EINVAL, highest, s)
      else do {
        r \<leftarrow> for_ret (elf_load_page ph d pml4_phys hhdm) (seg_page_list ph) s;
        case r of Inl (err, s) \<Rightarrow> Some (err, highest, s)
        | Inr s \<Rightarrow> let seg_top = p_vaddr ph + p_memsz ph in
            Some (0, if seg_top > highest then seg_top else highest, s) })"

text \<open>
  The address of a program header is computed with the \<^verbatim>\<open>int\<close> product of two 16-bit numbers, which is
  sign-extended when it is added to the pointer.
\<close>

definition elf_load_header ::
    "Elf64_Ehdr \<Rightarrow> u8 list \<Rightarrow> u64 \<Rightarrow> u64 \<Rightarrow> nat \<Rightarrow> u64 \<times> vmm \<Rightarrow> ((int \<times> vmm) + u64 \<times> vmm) option" where
  "elf_load_header eh d pml4_phys hhdm i = (\<lambda>(highest, s).
     do { let pos = unat (e_phoff eh + scast (of_nat i * ucast (e_phentsize eh) :: u32));
          ty \<leftarrow> rd32 d pos;
          if ty \<noteq> PT_LOAD then Some (Inr (highest, s)) else
          do { ph \<leftarrow> read_phdr d pos;
               if p_memsz ph = 0 then Some (Inr (highest, s)) else
               do { (err, highest, s) \<leftarrow> elf_load_segment ph d (of_nat (length d)) pml4_phys hhdm highest s;
                    if err \<noteq> 0 then Some (Inl (err, s)) else Some (Inr (highest, s)) } } })"

text \<open>\<open>d\<close> is \<open>None\<close> for a null pointer, and \<open>out\<close> says whether there is a place for the result.\<close>

definition elf_load :: "u8 list option \<Rightarrow> u64 \<Rightarrow> bool \<Rightarrow> vmm \<Rightarrow> (int \<times> ElfLoadResult option \<times> vmm) option" where
  "elf_load data pml4_phys out s =
     (case data of None \<Rightarrow> Some (- EINVAL, None, s)
      | Some d \<Rightarrow>
          if \<not> out \<or> (of_nat (length d) :: u64) < of_nat SIZEOF_Ehdr then Some (- EINVAL, None, s)
          else do {
            eh \<leftarrow> read_ehdr d;
            if elf_validate_header eh (of_nat (length d)) \<noteq> 0 then Some (elf_validate_header eh (of_nat (length d)), None, s)
            else do {
              r \<leftarrow> for_ret (elf_load_header eh d pml4_phys (vmm_get_hhdm_offset s)) [0..<unat (e_phnum eh)] (0, s);
              case r of Inl (err, s) \<Rightarrow> Some (err, None, s)
              | Inr (highest, s) \<Rightarrow>
                  Some (0, Some \<lparr>entry_point = e_entry eh, elf_brk_start = PAGE_ALIGN_UP highest\<rparr>, s) } })"

section \<open>Byte lanes\<close>

lemma bit_lane_set:
  assumes "k < 8" "j < 64"
  shows "bit (lane_set k b w) j \<longleftrightarrow> (if 8 * k \<le> j \<and> j < 8 * k + 8 then bit b (j - 8 * k) else bit w j)"
proof -
  define f :: u64 where "f = 0xFF"
  have "f = mask 8" by (simp add: f_def mask_eq_exp_minus_1)
  then have "bit (push_bit (8 * k) f) j \<longleftrightarrow> 8 * k \<le> j \<and> j < 8 * k + 8"
    using assms by (auto simp: bit_push_bit_iff bit_mask_iff)
  moreover have "bit (push_bit (8 * k) (ucast b :: u64)) j \<longleftrightarrow> 8 * k \<le> j \<and> j < 8 * k + 8 \<and> bit b (j - 8 * k)"
    using assms by (auto simp: bit_push_bit_iff bit_unsigned_iff dest: bit_imp_le_length)
  ultimately show ?thesis using assms(2)
    by (auto simp: lane_set_def f_def [symmetric] bit_or_iff bit_and_iff bit_not_iff)
qed

lemma bit_pbyte: "i < 8 \<Longrightarrow> bit (pbyte m a) i \<longleftrightarrow> bit (m (a - a mod 8)) (8 * unat (a mod 8) + i)"
  by (simp add: pbyte_def bit_simps)

lemma unat_mod_8: "unat (a mod 8 :: u64) = unat a mod 8"
  by (simp add: unat_mod)

lemma pbyte_pbyte_set [simp]: "pbyte (pbyte_set a b m) c = (if c = a then b else pbyte m c)"
proof (rule bit_word_eqI)
  fix i :: nat assume "i < LENGTH(8)"
  then have i: "i < 8" by simp
  have k: "unat (a mod 8) < 8" "unat (c mod 8) < 8" by (simp_all add: unat_mod_8)
  have j: "8 * unat (c mod 8) + i < 64" using k i by simp
  have lane: "8 * unat (a mod 8) \<le> 8 * unat (c mod 8) + i \<and> 8 * unat (c mod 8) + i < 8 * unat (a mod 8) + 8 \<longleftrightarrow>
      c mod 8 = a mod 8" using i by (auto simp: word_unat_eq_iff)
  have same: "c = a" if "c - c mod 8 = a - a mod 8" "c mod 8 = a mod 8"
    using that by simp
  show "bit (pbyte (pbyte_set a b m) c) i = bit (if c = a then b else pbyte m c) i"
    using bit_lane_set [OF k(1) j, of b "m (a - a mod 8)"] same lane
    by (auto simp: bit_pbyte i pbyte_set_def)
qed

lemma pbyte_set_elsewhere: "w \<noteq> a - a mod 8 \<Longrightarrow> pbyte_set a b m w = m w"
  by (simp add: pbyte_set_def)

text \<open>The word that holds a byte of a page lies in the page.\<close>

lemma lane_in_page:
  fixes t x :: u64
  assumes "unat t mod 4096 = 0" "unat x < 4096"
  shows "(t + x) - (t + x) mod 8 - t < PAGE_SIZE"
proof -
  have u: "unat (t + x) = unat t + unat x" using aligned_upper [OF assms(1)] assms(2) by (subst unat_plus_no_overflow) simp_all
  obtain q where "unat t = 4096 * q" using assms(1) by (auto elim!: dvdE simp: mod_eq_0_iff_dvd)
  then have "(unat t + unat x) mod 8 = unat x mod 8" using mod_mult_self2 [of "unat x" 8 "512 * q"] by (simp add: add.commute)
  then have m: "unat ((t + x) mod 8) = unat x mod 8" by (simp add: unat_mod_8 u)
  have "t + x - (t + x) mod 8 - t = x - (t + x) mod 8" by simp
  moreover have "unat (x - (t + x) mod 8) = unat x - unat x mod 8"
    using m mod_less_eq_dividend [of "unat x" 8] by (simp add: unat_sub_if')
  ultimately show ?thesis using assms(2) by (simp add: word_less_nat_alt)
qed

lemma pbyte_cong:
  assumes "unat t mod 4096 = 0" "unat x < 4096" "\<And>a. a - t < PAGE_SIZE \<Longrightarrow> m' a = m a"
  shows "pbyte m' (t + x) = pbyte m (t + x)"
  using assms(3) [OF lane_in_page [OF assms(1,2)]] by (simp add: pbyte_def)

section \<open>One page\<close>

text \<open>A segment that lies in user space and whose file part lies in the file.\<close>

definition seg_ok :: "u8 list \<Rightarrow> Elf64_Phdr \<Rightarrow> bool" where
  "seg_ok d ph \<longleftrightarrow>
     unat (p_vaddr ph) < 2 ^ 47 \<and> unat (p_vaddr ph) + unat (p_memsz ph) \<le> 2 ^ 47 \<and> p_filesz ph \<le> p_memsz ph \<and>
     unat (p_offset ph) + unat (p_filesz ph) \<le> length d"

text \<open>The byte at an address of a page of the segment: from the file, or zero.\<close>

definition seg_byte :: "u8 list \<Rightarrow> Elf64_Phdr \<Rightarrow> nat \<Rightarrow> u8" where
  "seg_byte d ph v =
     (if unat (p_vaddr ph) \<le> v \<and> v < unat (p_vaddr ph) + unat (p_filesz ph)
      then d ! (unat (p_offset ph) + (v - unat (p_vaddr ph))) else 0)"

text \<open>Storing consecutive bytes into a page.\<close>

lemma store_loop:
  fixes n po fo :: u64
  assumes n: "unat n mod 4096 = 0" and po: "unat po + c \<le> 4096" and fo: "unat fo + c \<le> length d" "length d < 2 ^ 64"
  shows "\<exists>m. for_each (\<lambda>k s. do { b \<leftarrow> arr_get d (unat (fo + of_nat k)); Some (byte_store (n + hhdm_offset s0 + po + of_nat k) b s) })
        [0..<c] s0 = Some (s0\<lparr>pmem := m\<rparr>) \<and>
      (\<forall>a. \<not> a - n < PAGE_SIZE \<longrightarrow> m a = pmem s0 a) \<and>
      (\<forall>x. unat x < 4096 \<longrightarrow> pbyte m (n + x) =
         (if unat po \<le> unat x \<and> unat x < unat po + c then d ! (unat fo + (unat x - unat po)) else pbyte (pmem s0) (n + x)))"
proof -
  define I where "I k s \<longleftrightarrow> (\<exists>m. s = s0\<lparr>pmem := m\<rparr> \<and> (\<forall>a. \<not> a - n < PAGE_SIZE \<longrightarrow> m a = pmem s0 a) \<and>
      (\<forall>x. unat x < 4096 \<longrightarrow> pbyte m (n + x) =
         (if unat po \<le> unat x \<and> unat x < unat po + k then d ! (unat fo + (unat x - unat po)) else pbyte (pmem s0) (n + x))))" for k s
  have "\<exists>s'. for_each (\<lambda>k s. do { b \<leftarrow> arr_get d (unat (fo + of_nat k)); Some (byte_store (n + hhdm_offset s0 + po + of_nat k) b s) })
        [0..<c] s0 = Some s' \<and> I c s'"
  proof (rule for_each_upt_rule)
    show "I 0 s0" unfolding I_def by (rule exI [of _ "pmem s0"]) auto
  next
    fix k s assume k: "0 \<le> k" "k < c" and "I k s"
    then obtain m where m: "s = s0\<lparr>pmem := m\<rparr>" "\<And>a. \<not> a - n < PAGE_SIZE \<Longrightarrow> m a = pmem s0 a"
      "\<And>x. unat x < 4096 \<Longrightarrow> pbyte m (n + x) =
         (if unat po \<le> unat x \<and> unat x < unat po + k then d ! (unat fo + (unat x - unat po)) else pbyte (pmem s0) (n + x))"
      unfolding I_def by blast
    have uk: "unat (of_nat k :: u64) = k" using k po by (intro unat_of_nat_less) simp
    have ufk: "unat (fo + of_nat k) = unat fo + k" using uk fo k by (subst unat_plus_no_overflow) simp_all
    have upk: "unat (po + of_nat k) = unat po + k" using uk po k by (subst unat_plus_no_overflow) simp_all
    let ?m = "pbyte_set (n + (po + of_nat k)) (d ! (unat fo + k)) m"
    have "byte_store (n + hhdm_offset s0 + po + of_nat k) (d ! (unat fo + k)) s = s0\<lparr>pmem := ?m\<rparr>"
      by (simp add: byte_store_def m(1) algebra_simps)
    moreover have "?m a = pmem s0 a" if "\<not> a - n < PAGE_SIZE" for a
      using lane_in_page [OF n, of "po + of_nat k"] that m(2) upk k po by (subst pbyte_set_elsewhere) auto
    moreover have "pbyte ?m (n + x) =
         (if unat po \<le> unat x \<and> unat x < unat po + Suc k then d ! (unat fo + (unat x - unat po)) else pbyte (pmem s0) (n + x))"
      if "unat x < 4096" for x
    proof (cases "x = po + of_nat k")
      case True
      then show ?thesis using upk by simp
    next
      case False
      then have "unat x \<noteq> unat po + k" using upk by (metis word_unat_eq_iff)
      then show ?thesis using False m(3) [OF that] by auto
    qed
    ultimately show "\<exists>s'. do { b \<leftarrow> arr_get d (unat (fo + of_nat k)); Some (byte_store (n + hhdm_offset s0 + po + of_nat k) b s) } = Some s' \<and> I (Suc k) s'"
      using ufk fo k by (auto simp: I_def)
  qed simp
  then show ?thesis unfolding I_def by blast
qed

lemma elf_copy_page_data_spec:
  assumes n: "unat n mod 4096 = 0" and ok: "seg_ok d ph" "length d < 2 ^ 64"
    and v: "unat v mod 4096 = 0" "unat v < 2 ^ 47" and zero: "\<And>x. unat x < 4096 \<Longrightarrow> pbyte (pmem s0) (n + x) = 0"
  shows "\<exists>m. elf_copy_page_data (n + hhdm_offset s0) v ph d s0 = Some (s0\<lparr>pmem := m\<rparr>) \<and>
      (\<forall>a. \<not> a - n < PAGE_SIZE \<longrightarrow> m a = pmem s0 a) \<and>
      (\<forall>x. unat x < 4096 \<longrightarrow> pbyte m (n + x) = seg_byte d ph (unat v + unat x))"
proof -
  define cs where "cs = (if p_vaddr ph > v then p_vaddr ph else v)"
  define ce where "ce = (if p_vaddr ph + p_filesz ph < v + PAGE_SIZE then p_vaddr ph + p_filesz ph else v + PAGE_SIZE)"
  have fe: "unat (p_vaddr ph + p_filesz ph) = unat (p_vaddr ph) + unat (p_filesz ph)"
    using ok by (intro unat_plus_no_overflow) (simp add: seg_ok_def word_le_nat_alt)
  have pe: "unat (v + PAGE_SIZE) = unat v + 4096" using v(2) by (subst unat_plus_no_overflow) simp_all
  have ucs: "unat cs = max (unat (p_vaddr ph)) (unat v)" by (simp add: cs_def word_less_nat_alt max_def)
  have uce: "unat ce = min (unat (p_vaddr ph) + unat (p_filesz ph)) (unat v + 4096)"
    by (simp add: ce_def word_less_nat_alt fe pe min_def)
  show ?thesis
  proof (cases "p_filesz ph \<noteq> 0 \<and> cs < ce")
    case False
    then have "elf_copy_page_data (n + hhdm_offset s0) v ph d s0 = Some s0"
      by (auto simp: elf_copy_page_data_def Let_def cs_def [symmetric] ce_def [symmetric])
    moreover have "seg_byte d ph (unat v + unat x) = 0" if "unat x < 4096" for x :: u64
      using False that by (auto simp: seg_byte_def word_less_nat_alt ucs uce unat_eq_0)
    ultimately show ?thesis using zero by (intro exI [of _ "pmem s0"]) simp
  next
    case True
    define po fo c where "po = cs - v" and "fo = p_offset ph + (cs - p_vaddr ph)" and "c = unat (ce - cs)"
    have lt: "unat cs < unat ce" using True by (simp add: word_less_nat_alt)
    have upo: "unat po = unat cs - unat v" using ucs by (simp add: po_def unat_sub_if')
    have uc: "c = unat ce - unat cs" using lt by (simp add: c_def unat_sub_if')
    have ucp: "unat (cs - p_vaddr ph) = unat cs - unat (p_vaddr ph)" using ucs by (simp add: unat_sub_if')
    have ufo: "unat fo = unat (p_offset ph) + (unat cs - unat (p_vaddr ph))"
      unfolding fo_def using ok lt ucs uce by (subst unat_plus_no_overflow) (auto simp: ucp seg_ok_def)
    have "elf_copy_page_data (n + hhdm_offset s0) v ph d s0 =
      for_each (\<lambda>k s. do { b \<leftarrow> arr_get d (unat (fo + of_nat k)); Some (byte_store (n + hhdm_offset s0 + po + of_nat k) b s) }) [0..<c] s0"
      using True by (simp add: elf_copy_page_data_def Let_def cs_def [symmetric] ce_def [symmetric] po_def fo_def c_def)
    moreover have "unat po + c \<le> 4096" using upo uc ucs uce lt by simp
    moreover have "unat fo + c \<le> length d" using ufo uc ucs uce lt ok by (auto simp: seg_ok_def)
    moreover have bytes: "(if unat po \<le> unat x \<and> unat x < unat po + c then d ! (unat fo + (unat x - unat po)) else 0) =
        seg_byte d ph (unat v + unat x)" if "unat x < 4096" for x :: u64
    proof -
      have "unat po \<le> unat x \<and> unat x < unat po + c \<longleftrightarrow>
          unat (p_vaddr ph) \<le> unat v + unat x \<and> unat v + unat x < unat (p_vaddr ph) + unat (p_filesz ph)"
        using that upo uc ucs uce lt by (auto simp: max_def min_def split: if_splits)
      moreover have "unat fo + (unat x - unat po) = unat (p_offset ph) + (unat v + unat x - unat (p_vaddr ph))"
        if "unat po \<le> unat x" using that ufo upo ucs by auto
      ultimately show ?thesis by (auto simp: seg_byte_def)
    qed
    moreover obtain m where m: "for_each (\<lambda>k s. do { b \<leftarrow> arr_get d (unat (fo + of_nat k)); Some (byte_store (n + hhdm_offset s0 + po + of_nat k) b s) })
        [0..<c] s0 = Some (s0\<lparr>pmem := m\<rparr>)" "\<forall>a. \<not> a - n < PAGE_SIZE \<longrightarrow> m a = pmem s0 a"
      "\<forall>x. unat x < 4096 \<longrightarrow> pbyte m (n + x) =
         (if unat po \<le> unat x \<and> unat x < unat po + c then d ! (unat fo + (unat x - unat po)) else pbyte (pmem s0) (n + x))"
      using store_loop [OF n calculation(2,3) ok(2), of s0] by blast
    moreover have "pbyte m (n + x) = seg_byte d ph (unat v + unat x)" if "unat x < 4096" for x
      using m(3) [rule_format, OF that] bytes [OF that] zero [OF that] by (simp only:)
    ultimately show ?thesis by (intro exI [of _ m]) simp
  qed
qed

text \<open>Below \<open>2 ^ 47\<close> the four indices of an address determine its page number, and the address is in the user half.\<close>

lemma unat_index: "unat ((drop_bit k v AND 0x1FF) :: u64) = unat v div 2 ^ k mod 512"
proof -
  have "drop_bit k v AND 0x1FF = take_bit 9 (drop_bit k v)" by (simp add: take_bit_eq_mask mask_eq_exp_minus_1)
  moreover have "unat (take_bit 9 (drop_bit k v)) = unat (drop_bit k v) mod 512" by (simp add: take_bit_eq_mod unat_mod)
  moreover have "unat (drop_bit k v) = drop_bit k (unat v)"
    by (rule bit_eqI) (auto simp: bit_drop_bit_eq bit_unsigned_iff dest: bit_imp_le_length)
  then have "unat (drop_bit k v) = unat v div 2 ^ k" by (simp only: drop_bit_eq_div)
  ultimately show ?thesis by (simp only:)
qed

lemma page_number:
  assumes "unat v < 2 ^ 47"
  shows "unat v div 4096 = unat (PT_INDEX v) + 512 * (unat (PD_INDEX v) + 512 * (unat (PDPT_INDEX v) + 512 * unat (PML4_INDEX v)))"
    and "PML4_INDEX v < 256"
proof -
  define p where "p = unat v div 4096"
  have i: "unat (PT_INDEX v) = p mod 512" "unat (PD_INDEX v) = p div 512 mod 512"
    "unat (PDPT_INDEX v) = p div 512 div 512 mod 512" "unat (PML4_INDEX v) = p div 512 div 512 div 512 mod 512"
    by (simp_all add: p_def PML4_INDEX_def PDPT_INDEX_def PD_INDEX_def PT_INDEX_def unat_index div_mult2_eq [symmetric])
  have lt: "p div 512 div 512 div 512 < 256" using assms unfolding p_def by (simp add: div_mult2_eq [symmetric])
  then show "unat v div 4096 = unat (PT_INDEX v) + 512 * (unat (PD_INDEX v) + 512 * (unat (PDPT_INDEX v) + 512 * unat (PML4_INDEX v)))"
    unfolding p_def [symmetric] i by simp
  show "PML4_INDEX v < 256" using lt i(4) by (simp add: word_less_nat_alt)
qed

lemma path_eq_page:
  assumes "unat v < 2 ^ 47" "unat w < 2 ^ 47"
  shows "path v = path w \<longleftrightarrow> unat v div 4096 = unat w div 4096"
proof
  assume "path v = path w"
  then show "unat v div 4096 = unat w div 4096"
    using page_number(1) [OF assms(1)] page_number(1) [OF assms(2)] by (simp add: path_def)
next
  assume e: "unat v div 4096 = unat w div 4096"
  have "drop_bit k v AND 0x1FF = drop_bit k w AND 0x1FF" if "12 \<le> k" for k
  proof -
    have "(2 :: nat) ^ k = 4096 * 2 ^ (k - 12)" using power_add [of "2 :: nat" 12 "k - 12"] that by simp
    then have "unat u div 2 ^ k = unat u div 4096 div 2 ^ (k - 12)" for u :: u64 by (simp only: div_mult2_eq)
    then show ?thesis by (simp only: word_unat_eq_iff unat_index e)
  qed
  then show "path v = path w"
    by (simp add: path_def PML4_INDEX_def PDPT_INDEX_def PD_INDEX_def PT_INDEX_def)
qed

text \<open>
  \<open>shows_page\<close>: page number \<open>q\<close> of the address space \<open>r\<close> shows the part of the segment \<open>ph\<close> that belongs to it.
  \<open>loaded\<close>: the pages in \<open>M\<close> do so, and every other translation is the one of \<open>s0\<close>.
\<close>

definition shows_page :: "u64 set \<Rightarrow> u64 \<Rightarrow> u8 list \<Rightarrow> vmm \<Rightarrow> nat \<Rightarrow> Elf64_Phdr \<Rightarrow> bool" where
  "shows_page R r d s q ph \<longleftrightarrow>
     (\<exists>f. data_page R s f \<and>
        (\<forall>v. unat v div 4096 = q \<longrightarrow> translate s r v = Some (f OR vmm_flags_to_pte (elf_flags ph), [])) \<and>
        (\<forall>x. unat x < 4096 \<longrightarrow> pbyte (pmem s) (f + x) = seg_byte d ph (q * 4096 + unat x)))"

definition loaded :: "u64 set \<Rightarrow> u64 \<Rightarrow> u8 list \<Rightarrow> (nat \<Rightarrow> Elf64_Phdr option) \<Rightarrow> vmm \<Rightarrow> vmm \<Rightarrow> bool" where
  "loaded R r d M s0 s \<longleftrightarrow>
     vmm_ok R s \<and> same_env s0 s \<and>
     (\<forall>q ph. M q = Some ph \<longrightarrow> q < 2 ^ 35 \<and> shows_page R r d s q ph) \<and>
     (\<forall>r' \<in> R. \<forall>v. visible (kernel_pml4_phys s0) r' v \<and> (r' = r \<longrightarrow> unat v < 2 ^ 47 \<and> M (unat v div 4096) = None) \<longrightarrow>
        translate s r' v = translate s0 r' v)"

text \<open>A frame is allocated, cleared and filled.\<close>

lemma fill_frame:
  assumes ok: "vmm_ok R s" and ne: "frees s \<noteq> {}" and seg: "seg_ok d ph" "length d < 2 ^ 64"
    and v: "unat v mod 4096 = 0" "unat v < 2 ^ 47"
  shows "\<exists>n s1 s2. vmm_alloc_page s = Some (n, s1) \<and> n \<noteq> 0 \<and> hhdm_offset s1 = hhdm_offset s \<and>
     elf_copy_page_data (n + hhdm_offset s) v ph d (zero_page (n + hhdm_offset s) s1) = Some s2 \<and>
     grows R 1 s s2 \<and> keeps_data R s s2 \<and> data_page R s2 n \<and>
     (\<forall>x. unat x < 4096 \<longrightarrow> pbyte (pmem s2) (n + x) = seg_byte d ph (unat v + unat x))"
proof -
  obtain n pm where n: "vmm_alloc_page s = Some (n, s\<lparr>vmm_pmm := pm\<rparr>)" "n \<noteq> 0" "page_addr n"
    "unat n div 4096 \<in> frees s" "n \<notin> tables (pmem s) (kernel_pml4_phys s) R" "in_use pm n"
    and g: "grows R 1 s (s\<lparr>vmm_pmm := pm\<rparr>)"
    using vmm_alloc_page_spec [OF ok ne] by blast
  let ?s1 = "s\<lparr>vmm_pmm := pm\<rparr>"
  define z where "z = zero_page (n + hhdm_offset s) ?s1"
  have z: "pmem z = (\<lambda>a. if a - n < PAGE_SIZE then 0 else pmem s a)" "hhdm_offset z = hhdm_offset s"
    by (auto simp: z_def zero_page_def fun_eq_iff)
  have al: "unat n mod 4096 = 0" using n(3) by (simp add: page_addr_def)
  have zero: "pbyte (pmem z) (n + x) = 0" if "unat x < 4096" for x
    using lane_in_page [OF al that] by (simp add: pbyte_def z(1))
  obtain m where m: "elf_copy_page_data (n + hhdm_offset s) v ph d z = Some (z\<lparr>pmem := m\<rparr>)"
    "\<And>a. \<not> a - n < PAGE_SIZE \<Longrightarrow> m a = pmem z a"
    "\<And>x. unat x < 4096 \<Longrightarrow> pbyte m (n + x) = seg_byte d ph (unat v + unat x)"
    using elf_copy_page_data_spec [OF al seg v zero] z(2) by auto
  have meq: "m = (\<lambda>a. if a - n < PAGE_SIZE then m a else pmem ?s1 a)" using m(2) z(1) by auto
  have s2: "z\<lparr>pmem := m\<rparr> = ?s1\<lparr>pmem := \<lambda>a. if a - n < PAGE_SIZE then m a else pmem ?s1 a\<rparr>"
    using meq by (simp add: z_def zero_page_def)
  have ok1: "vmm_ok R ?s1" using g by (simp add: grows_def)
  have fill: "grows R 0 ?s1 (z\<lparr>pmem := m\<rparr>)" "tables m (kernel_pml4_phys s) R = tables (pmem s) (kernel_pml4_phys s) R"
    using fill_page_grows [OF ok1 n(3), of m] n(5) meq unfolding s2 by simp_all
  have "grows R 1 s (z\<lparr>pmem := m\<rparr>)" using grows_trans [OF g fill(1)] by simp
  moreover have pmz: "vmm_pmm z = pm" "kernel_pml4_phys z = kernel_pml4_phys s" by (simp_all add: z_def zero_page_def)
  have "keeps_data R s (z\<lparr>pmem := m\<rparr>)"
    unfolding keeps_data_def
  proof (intro allI impI)
    fix t assume t: "data_page R s t"
    have "t \<noteq> n" "unat t mod 4096 = 0" using t n(4) by (auto simp: data_page_def in_use_def page_addr_def)
    then have "\<not> a - n < PAGE_SIZE" if "a - t < PAGE_SIZE" for a using page_unique [of t n a] al that by auto
    then have "m a = pmem s a" if "a - t < PAGE_SIZE" for a using m(2) z(1) that by simp
    moreover have "in_use pm t"
      using t g by (auto simp: data_page_def grows_def same_env_def same_layout_def intro: in_use_mono)
    ultimately show "data_page R (z\<lparr>pmem := m\<rparr>) t \<and> (\<forall>a. a - t < PAGE_SIZE \<longrightarrow> pmem (z\<lparr>pmem := m\<rparr>) a = pmem s a)"
      using t fill(2) by (simp add: data_page_def pmz)
  qed
  moreover have "data_page R (z\<lparr>pmem := m\<rparr>) n" using n(5,6) fill(2) by (simp add: data_page_def pmz)
  ultimately show ?thesis using n(1,2) m(1,3) unfolding z_def
    by (intro exI [of _ n] exI [of _ ?s1] exI [of _ "zero_page (n + hhdm_offset s) ?s1\<lparr>pmem := m\<rparr>"]) simp
qed

text \<open>Loading one page.\<close>

lemma loaded_step:
  assumes L: "loaded R r d M s0 s" and r: "r \<in> R" and v: "unat v mod 4096 = 0" "unat v < 2 ^ 47"
    and s': "vmm_ok R s'" "same_env s0 s'" "keeps_data R s s'"
    and tr: "\<And>r' w. r' \<in> R \<Longrightarrow> visible (kernel_pml4_phys s0) r' w \<Longrightarrow> translate s' r' w =
       (if r' = r \<and> path w = path v then Some (n OR vmm_flags_to_pte (elf_flags ph), []) else translate s r' w)"
    and n: "data_page R s' n" "\<And>x. unat x < 4096 \<Longrightarrow> pbyte (pmem s') (n + x) = seg_byte d ph (unat v + unat x)"
  shows "loaded R r d (M(unat v div 4096 \<mapsto> ph)) s0 s'"
proof -
  let ?k = "kernel_pml4_phys s0" and ?p = "unat v div 4096"
  have p: "?p < 2 ^ 35" "?p * 4096 = unat v" using v by (auto simp: less_mult_imp_div_less)
  have user: "unat w < 2 ^ 47 \<and> visible ?k r w" if "unat w div 4096 < 2 ^ 35" for w
  proof -
    have "unat w < 2 ^ 47" using that by (simp add: div_less_iff_less_mult)
    then show ?thesis using page_number(2) by (simp add: visible_def)
  qed
  have "shows_page R r d s' q ph'" if q: "(M(?p \<mapsto> ph)) q = Some ph'" "q < 2 ^ 35" for q ph'
  proof (cases "q = ?p")
    case True
    then have "ph' = ph" using q(1) by simp
    moreover have "translate s' r w = Some (n OR vmm_flags_to_pte (elf_flags ph), [])" if "unat w div 4096 = q" for w
      using tr [OF r, of w] user [of w] path_eq_page [of w v] v(2) that True q(2) by auto
    ultimately show ?thesis using n True p(2) unfolding shows_page_def by auto
  next
    case False
    then obtain f where f: "data_page R s f"
      "\<And>w. unat w div 4096 = q \<Longrightarrow> translate s r w = Some (f OR vmm_flags_to_pte (elf_flags ph'), [])"
      "\<And>x. unat x < 4096 \<Longrightarrow> pbyte (pmem s) (f + x) = seg_byte d ph' (q * 4096 + unat x)"
    proof -
      have "M q = Some ph'" using False q(1) by simp
      then have "shows_page R r d s q ph'" using L by (simp add: loaded_def)
      then show ?thesis using that unfolding shows_page_def by blast
    qed
    have al: "unat f mod 4096 = 0" using f(1) by (simp add: data_page_def in_use_def page_addr_def)
    have kf: "data_page R s' f" "\<And>a. a - f < PAGE_SIZE \<Longrightarrow> pmem s' a = pmem s a"
      using s'(3) f(1) by (simp_all add: keeps_data_def)
    have "translate s' r w = translate s r w" if "unat w div 4096 = q" for w
      using tr [OF r, of w] user [of w] path_eq_page [of w v] v(2) that False q(2) by auto
    moreover have "pbyte (pmem s') (f + x) = pbyte (pmem s) (f + x)" if "unat x < 4096" for x
      by (rule pbyte_cong [OF al that kf(2)])
    ultimately show ?thesis using f kf(1) unfolding shows_page_def by auto
  qed
  moreover have "q < 2 ^ 35" if "(M(?p \<mapsto> ph)) q = Some ph'" for q ph'
    using that L p(1) by (auto simp: loaded_def split: if_splits)
  moreover have "translate s' r' w = translate s0 r' w"
    if "r' \<in> R" "visible ?k r' w" "r' = r \<longrightarrow> unat w < 2 ^ 47 \<and> (M(?p \<mapsto> ph)) (unat w div 4096) = None" for r' w
    using tr [OF that(1,2)] that path_eq_page [of w v] v(2) L unfolding loaded_def by (auto split: if_splits)
  ultimately show ?thesis using s' unfolding loaded_def by blast
qed

lemma elf_load_page_spec:
  assumes L: "loaded R r d M s0 s" and r: "r \<in> R" and seg: "seg_ok d ph" "length d < 2 ^ 64"
    and v: "unat v mod 4096 = 0" "unat v < 2 ^ 47" and small: "small_page s0 r v" and mem: "4 \<le> card (frees s)"
  shows "\<exists>s'. elf_load_page ph d r (hhdm_offset s) v s = Some (Inr s') \<and>
     loaded R r d (M(unat v div 4096 \<mapsto> ph)) s0 s' \<and> card (frees s) \<le> card (frees s') + 4"
proof -
  have ok: "vmm_ok R s" and env: "same_env s0 s" using L by (simp_all add: loaded_def)
  let ?k = "kernel_pml4_phys s0" and ?fl = "elf_flags ph"
  have k: "kernel_pml4_phys s = ?k" using env by (simp add: same_env_def)
  have "frees s \<noteq> {}" using mem by auto
  then obtain n s1 s2 where n: "vmm_alloc_page s = Some (n, s1)" "n \<noteq> 0"
    "elf_copy_page_data (n + hhdm_offset s) v ph d (zero_page (n + hhdm_offset s) s1) = Some s2"
    and g: "grows R 1 s s2" and kd: "keeps_data R s s2" and dn: "data_page R s2 n"
    and bytes: "\<And>x. unat x < 4096 \<Longrightarrow> pbyte (pmem s2) (n + x) = seg_byte d ph (unat v + unat x)"
    using fill_frame [OF ok _ seg v] by blast
  have vis: "visible ?k r v" using page_number(2) [OF v(2)] by (simp add: visible_def)
  have s2: "vmm_ok R s2" "same_env s s2" "3 \<le> card (frees s2)" "card (frees s) \<le> card (frees s2) + 1"
    using g mem by (auto simp: grows_def)
  have k2: "kernel_pml4_phys s2 = ?k" using s2(2) k by (simp add: same_env_def)
  have tr2: "translate s2 r' w = translate s r' w" if "r' \<in> R" "visible ?k r' w" for r' w
    using g that owned_path [OF that(2)] k by (simp add: grows_def translate_def)
  have sm: "small_page s2 r v"
  proof (cases "M (unat v div 4096)")
    case None
    then have "translate s r v = translate s0 r v" using L r vis v(2) by (simp add: loaded_def)
    then show ?thesis using small tr2 [OF r vis] by (simp add: small_page_def)
  next
    case (Some ph')
    then have "shows_page R r d s (unat v div 4096) ph'" using L by (simp add: loaded_def)
    then show ?thesis using tr2 [OF r vis] by (auto simp: small_page_def shows_page_def)
  qed
  obtain s' where s': "vmm_map_page_in r v n ?fl s2 = Some s'" "vmm_ok R s'" "same_env s2 s'"
    "card (frees s2) \<le> card (frees s') + 3"
    "\<forall>r' \<in> R. \<forall>w. visible ?k r' w \<longrightarrow> translate s' r' w =
       (if r' = r \<and> path w = path v then Some (n OR vmm_flags_to_pte ?fl, []) else translate s2 r' w)"
    and kd': "keeps_data R s2 s'"
    using vmm_map_page_in_data [OF s2(1) r _ sm s2(3), of n ?fl] vis k2 by auto
  have "elf_load_page ph d r (hhdm_offset s) v s = Some (Inr s')"
    using n s'(1) by (simp add: elf_load_page_def)
  moreover have "card (frees s) \<le> card (frees s') + 4" using s2(4) s'(4) by simp
  moreover have "loaded R r d (M(unat v div 4096 \<mapsto> ph)) s0 s'"
  proof (rule loaded_step [OF L r v s'(2) _ keeps_data_trans [OF kd kd']])
    show "same_env s0 s'" using env s2(2) s'(3) by (blast intro: same_env_trans)
    show "data_page R s' n" using kd' dn by (simp add: keeps_data_def)
    have "unat n mod 4096 = 0" using dn by (simp add: data_page_def in_use_def page_addr_def)
    moreover have "\<And>a. a - n < PAGE_SIZE \<Longrightarrow> pmem s' a = pmem s2 a" using kd' dn by (simp add: keeps_data_def)
    ultimately show "pbyte (pmem s') (n + x) = seg_byte d ph (unat v + unat x)" if "unat x < 4096" for x
      using pbyte_cong [OF _ that, of n "pmem s'" "pmem s2"] bytes [OF that] by simp
  qed (use s'(5) tr2 in auto)
  ultimately show ?thesis by blast
qed

section \<open>Segments\<close>

text \<open>The page numbers of a segment.\<close>

definition covers :: "Elf64_Phdr \<Rightarrow> nat \<Rightarrow> bool" where
  "covers ph q \<longleftrightarrow> unat (p_vaddr ph) div 4096 \<le> q \<and> q < (unat (p_vaddr ph) + unat (p_memsz ph) + 4095) div 4096"

lemma unat_page_align:
  shows "unat (PAGE_ALIGN_DOWN x) = unat x div 4096 * 4096"
    and "unat x < 2 ^ 63 \<Longrightarrow> unat (PAGE_ALIGN_UP x) = (unat x + 4095) div 4096 * 4096"
proof -
  have m: "PAGE_SIZE - 1 = (mask 12 :: u64)" by (simp add: mask_eq_exp_minus_1)
  show "unat (PAGE_ALIGN_DOWN x) = unat x div 4096 * 4096"
    unfolding PAGE_ALIGN_DOWN_def m unat_and_not_mask by simp
  assume x: "unat x < 2 ^ 63"
  have "x + PAGE_SIZE - 1 = x + 4095" by (simp add: algebra_simps)
  moreover have "unat (x + 4095) = unat x + 4095" using x by (subst unat_plus_no_overflow) simp_all
  ultimately show "unat (PAGE_ALIGN_UP x) = (unat x + 4095) div 4096 * 4096"
    unfolding PAGE_ALIGN_UP_def m unat_and_not_mask by (simp only:) simp
qed

lemma seg_end_page: "seg_ok d ph \<Longrightarrow> (unat (p_vaddr ph) + unat (p_memsz ph) + 4095) div 4096 \<le> 2 ^ 35"
  using div_le_mono [of "unat (p_vaddr ph) + unat (p_memsz ph) + 4095" "2 ^ 47 + 4095" 4096] by (simp add: seg_ok_def)

lemma seg_page_list_spec:
  assumes "seg_ok d ph"
  shows "map unat (seg_page_list ph) = map (\<lambda>q. q * 4096)
      [unat (p_vaddr ph) div 4096..<(unat (p_vaddr ph) + unat (p_memsz ph) + 4095) div 4096]"
proof -
  define a b where "a = unat (p_vaddr ph) div 4096" and "b = (unat (p_vaddr ph) + unat (p_memsz ph) + 4095) div 4096"
  have top: "unat (p_vaddr ph + p_memsz ph) = unat (p_vaddr ph) + unat (p_memsz ph)"
    using assms by (intro unat_plus_no_overflow) (simp add: seg_ok_def)
  have lo: "unat (PAGE_ALIGN_DOWN (p_vaddr ph)) = a * 4096"
    and hi: "unat (PAGE_ALIGN_UP (p_vaddr ph + p_memsz ph)) = b * 4096"
    using assms by (simp_all add: unat_page_align top a_def b_def seg_ok_def)
  have lim: "b \<le> 2 ^ 35" using seg_end_page [OF assms] by (simp add: b_def)
  have cnt: "unat ((PAGE_ALIGN_UP (p_vaddr ph + p_memsz ph) - PAGE_ALIGN_DOWN (p_vaddr ph)) div PAGE_SIZE) = b - a" if "a < b"
    using that by (simp add: unat_div unat_sub_if' lo hi diff_mult_distrib [symmetric])
  have len: "(if PAGE_ALIGN_DOWN (p_vaddr ph) < PAGE_ALIGN_UP (p_vaddr ph + p_memsz ph)
      then unat ((PAGE_ALIGN_UP (p_vaddr ph + p_memsz ph) - PAGE_ALIGN_DOWN (p_vaddr ph)) div PAGE_SIZE) else 0) = b - a"
    using cnt by (simp add: word_less_nat_alt lo hi)
  have elem: "unat (PAGE_ALIGN_DOWN (p_vaddr ph) + of_nat k * PAGE_SIZE) = (a + k) * 4096" if "k < b - a" for k
  proof -
    have "unat (of_nat k :: u64) = k" using that lim by (intro unat_of_nat_less) simp
    then have "unat (of_nat k * PAGE_SIZE) = k * 4096" using that lim by (subst unat_mult_no_overflow) simp_all
    moreover have "a * 4096 + k * 4096 < 2 ^ 64" using that lim by simp
    ultimately have "unat (PAGE_ALIGN_DOWN (p_vaddr ph) + of_nat k * PAGE_SIZE) = a * 4096 + k * 4096"
      using unat_plus_no_overflow [of "PAGE_ALIGN_DOWN (p_vaddr ph)" "of_nat k * PAGE_SIZE"] lo by simp
    then show ?thesis by (simp only: add_mult_distrib)
  qed
  show ?thesis
    unfolding a_def [symmetric] b_def [symmetric] seg_page_list_def Let_def len
    by (rule nth_equalityI) (simp_all add: elem)
qed

lemma seg_page_list_set:
  assumes "seg_ok d ph"
  shows "v \<in> set (seg_page_list ph) \<Longrightarrow> unat v mod 4096 = 0 \<and> unat v < 2 ^ 47 \<and> covers ph (unat v div 4096)"
    and "(\<lambda>v. unat v div 4096) ` set (seg_page_list ph) = {q. covers ph q}"
proof -
  let ?I = "[unat (p_vaddr ph) div 4096..<(unat (p_vaddr ph) + unat (p_memsz ph) + 4095) div 4096]"
  have im: "unat ` set (seg_page_list ph) = (\<lambda>q. q * 4096) ` set ?I"
    using arg_cong [OF seg_page_list_spec [OF assms], of set] by simp
  have "(\<lambda>v. unat v div 4096) ` set (seg_page_list ph) = (\<lambda>n. n div 4096) ` unat ` set (seg_page_list ph)"
    by (simp add: image_image)
  also have "\<dots> = set ?I" unfolding im by (simp add: image_image)
  finally show "(\<lambda>v. unat v div 4096) ` set (seg_page_list ph) = {q. covers ph q}" by (auto simp: covers_def)
  assume "v \<in> set (seg_page_list ph)"
  then have "unat v \<in> (\<lambda>q. q * 4096) ` set ?I" using im by blast
  then obtain q where q: "unat v = q * 4096" "covers ph q" by (auto simp: covers_def)
  have "q < 2 ^ 35" using q(2) seg_end_page [OF assms] by (simp add: covers_def)
  then show "unat v mod 4096 = 0 \<and> unat v < 2 ^ 47 \<and> covers ph (unat v div 4096)" using q by simp
qed

lemma load_pages:
  assumes "loaded R r d M s0 s" "r \<in> R" "seg_ok d ph" "length d < 2 ^ 64" "4 * length vs \<le> card (frees s)"
    and "\<And>v. v \<in> set vs \<Longrightarrow> unat v mod 4096 = 0 \<and> unat v < 2 ^ 47 \<and> small_page s0 r v"
  shows "\<exists>s'. for_ret (elf_load_page ph d r (hhdm_offset s0)) vs s = Some (Inr s') \<and>
     loaded R r d (\<lambda>q. if q \<in> (\<lambda>v. unat v div 4096) ` set vs then Some ph else M q) s0 s' \<and>
     card (frees s) \<le> card (frees s') + 4 * length vs"
  using assms
proof (induction vs arbitrary: M s)
  case Nil
  then show ?case by simp
next
  case (Cons v vs)
  have h: "hhdm_offset s = hhdm_offset s0" using Cons.prems(1) by (simp add: loaded_def same_env_def)
  obtain s1 where s1: "elf_load_page ph d r (hhdm_offset s0) v s = Some (Inr s1)"
    "loaded R r d (M(unat v div 4096 \<mapsto> ph)) s0 s1" "card (frees s) \<le> card (frees s1) + 4"
    using elf_load_page_spec [OF Cons.prems(1-4), of v] Cons.prems(5,6) h by auto
  obtain s' where s': "for_ret (elf_load_page ph d r (hhdm_offset s0)) vs s1 = Some (Inr s')"
    "loaded R r d (\<lambda>q. if q \<in> (\<lambda>v. unat v div 4096) ` set vs then Some ph else (M(unat v div 4096 \<mapsto> ph)) q) s0 s'"
    "card (frees s1) \<le> card (frees s') + 4 * length vs"
    using Cons.IH [OF s1(2) Cons.prems(2-4)] Cons.prems(5,6) s1(3) by auto
  have "(\<lambda>q. if q \<in> (\<lambda>v. unat v div 4096) ` set vs then Some ph else (M(unat v div 4096 \<mapsto> ph)) q) =
      (\<lambda>q. if q \<in> (\<lambda>v. unat v div 4096) ` set (v # vs) then Some ph else M q)" by auto
  then show ?case using s1 s' by auto
qed

lemma elf_load_segment_spec:
  assumes L: "loaded R r d M s0 s" and r: "r \<in> R" and seg: "seg_ok d ph" "length d < 2 ^ 64"
    and mem: "4 * length (seg_page_list ph) \<le> card (frees s)"
    and small: "\<And>v. v \<in> set (seg_page_list ph) \<Longrightarrow> small_page s0 r v"
  shows "\<exists>s'. elf_load_segment ph d (of_nat (length d)) r (hhdm_offset s0) hi s = Some (0, max hi (p_vaddr ph + p_memsz ph), s') \<and>
     loaded R r d (\<lambda>q. if covers ph q then Some ph else M q) s0 s' \<and>
     card (frees s) \<le> card (frees s') + 4 * length (seg_page_list ph)"
proof -
  obtain s' where s': "for_ret (elf_load_page ph d r (hhdm_offset s0)) (seg_page_list ph) s = Some (Inr s')"
    "loaded R r d (\<lambda>q. if q \<in> {q. covers ph q} then Some ph else M q) s0 s'"
    "card (frees s) \<le> card (frees s') + 4 * length (seg_page_list ph)"
    using load_pages [OF L r seg mem] seg_page_list_set [OF seg(1)] small by auto
  have len: "unat (of_nat (length d) :: u64) = length d" using seg(2) by (intro unat_of_nat_less) simp
  have "unat (p_vaddr ph + p_memsz ph) = unat (p_vaddr ph) + unat (p_memsz ph)"
    using seg by (intro unat_plus_no_overflow) (simp add: seg_ok_def)
  moreover have "unat (p_offset ph + p_filesz ph) = unat (p_offset ph) + unat (p_filesz ph)"
    using seg by (intro unat_plus_no_overflow) (simp add: seg_ok_def)
  ultimately have "\<not> (p_vaddr ph \<ge> USER_VADDR_MAX \<or> p_vaddr ph + p_memsz ph > USER_VADDR_MAX)"
    "\<not> (p_offset ph + p_filesz ph > of_nat (length d))"
    using seg(1) len by (simp_all add: seg_ok_def word_less_nat_alt word_le_nat_alt)
  then have "elf_load_segment ph d (of_nat (length d)) r (hhdm_offset s0) hi s = Some (0, max hi (p_vaddr ph + p_memsz ph), s')"
    using s'(1) by (auto simp: elf_load_segment_def Let_def max_def not_less intro: antisym)
  then show ?thesis using s'(2,3) by auto
qed

section \<open>Files\<close>

definition loadable :: "Elf64_Phdr \<Rightarrow> bool" where
  "loadable ph \<longleftrightarrow> p_type ph = PT_LOAD \<and> p_memsz ph \<noteq> 0"

definition phdr_pos :: "Elf64_Ehdr \<Rightarrow> nat \<Rightarrow> nat" where
  "phdr_pos eh i = unat (e_phoff eh + scast (of_nat i * ucast (e_phentsize eh) :: u32))"

text \<open>The program headers of a file.\<close>

definition has_phdrs :: "u8 list \<Rightarrow> Elf64_Ehdr \<Rightarrow> nat list \<Rightarrow> Elf64_Phdr list \<Rightarrow> bool" where
  "has_phdrs d eh is phs \<longleftrightarrow> list_all2 (\<lambda>i ph. read_phdr d (phdr_pos eh i) = Some ph) is phs"

text \<open>The segment whose contents a page shows in the end: the last one that covers it.\<close>

definition page_seg :: "Elf64_Phdr list \<Rightarrow> nat \<Rightarrow> Elf64_Phdr option" where
  "page_seg phs q = (let cs = filter (\<lambda>ph. covers ph q) phs in if cs = [] then None else Some (last cs))"

abbreviation seg_pages :: "Elf64_Phdr list \<Rightarrow> nat" where
  "seg_pages phs \<equiv> sum_list (map (\<lambda>ph. length (seg_page_list ph)) phs)"

lemma page_seg_snoc: "page_seg (phs @ [ph]) q = (if covers ph q then Some ph else page_seg phs q)"
  by (simp add: page_seg_def Let_def)

lemma read_phdr_type: "read_phdr d i = Some ph \<Longrightarrow> rd32 d i = Some (p_type ph)"
  by (auto simp: read_phdr_def split: bind_splits)

lemma elf_load_headers:
  assumes "has_phdrs d eh is phs" "loaded R r d (page_seg prev) s0 s" "r \<in> R" "length d < 2 ^ 64"
    and "\<And>ph. ph \<in> set phs \<Longrightarrow> loadable ph \<Longrightarrow> seg_ok d ph \<and> (\<forall>v \<in> set (seg_page_list ph). small_page s0 r v)"
    and "4 * seg_pages (filter loadable phs) \<le> card (frees s)"
  shows "\<exists>s'. for_ret (elf_load_header eh d r (hhdm_offset s0)) is (hi, s) =
       Some (Inr (fold (\<lambda>ph h. max h (p_vaddr ph + p_memsz ph)) (filter loadable phs) hi, s')) \<and>
     loaded R r d (page_seg (prev @ filter loadable phs)) s0 s'"
  using assms
proof (induction phs arbitrary: "is" prev s hi)
  case Nil
  then show ?case by (simp add: has_phdrs_def)
next
  case (Cons ph phs)
  then obtain i is' where i: "is = i # is'" "read_phdr d (phdr_pos eh i) = Some ph" and rest: "has_phdrs d eh is' phs"
    by (auto simp: has_phdrs_def list_all2_Cons2)
  note ty = read_phdr_type [OF i(2)]
  show ?case
  proof (cases "loadable ph")
    case False
    then have "elf_load_header eh d r (hhdm_offset s0) i (hi, s) = Some (Inr (hi, s))"
      using i(2) ty by (auto simp: elf_load_header_def phdr_pos_def Let_def loadable_def)
    then show ?thesis using Cons.IH [OF rest Cons.prems(2-4), of hi] Cons.prems(5,6) False i(1) by auto
  next
    case True
    obtain s1 where s1: "elf_load_segment ph d (of_nat (length d)) r (hhdm_offset s0) hi s = Some (0, max hi (p_vaddr ph + p_memsz ph), s1)"
      "loaded R r d (\<lambda>q. if covers ph q then Some ph else page_seg prev q) s0 s1"
      "card (frees s) \<le> card (frees s1) + 4 * length (seg_page_list ph)"
      using elf_load_segment_spec [OF Cons.prems(2,3) _ Cons.prems(4), of ph hi] Cons.prems(5) [of ph] Cons.prems(6) True by auto
    have "elf_load_header eh d r (hhdm_offset s0) i (hi, s) = Some (Inr (max hi (p_vaddr ph + p_memsz ph), s1))"
      using i(2) ty True s1(1) by (auto simp: elf_load_header_def phdr_pos_def Let_def loadable_def)
    moreover have "(\<lambda>q. if covers ph q then Some ph else page_seg prev q) = page_seg (prev @ [ph])"
      by (simp add: page_seg_snoc fun_eq_iff)
    ultimately show ?thesis
      using Cons.IH [OF rest, of "prev @ [ph]" s1 "max hi (p_vaddr ph + p_memsz ph)"] Cons.prems(3-6) s1(2,3) True i(1) by auto
  qed
qed

text \<open>The byte that a user program reads at an address.\<close>

definition user_byte :: "vmm \<Rightarrow> u64 \<Rightarrow> u64 \<Rightarrow> u8 option" where
  "user_byte s r v =
     (case translate s r v of Some (e, []) \<Rightarrow> Some (pbyte (pmem s) (pte_addr e + (v AND PAGE_OFFSET_MASK))) | _ \<Rightarrow> None)"

lemma shows_page_byte:
  assumes "shows_page R r d s (unat v div 4096) ph"
  shows "\<exists>f. translate s r v = Some (f OR vmm_flags_to_pte (elf_flags ph), []) \<and> page_addr f \<and>
     user_byte s r v = Some (seg_byte d ph (unat v))"
proof -
  obtain f where f: "data_page R s f" "translate s r v = Some (f OR vmm_flags_to_pte (elf_flags ph), [])"
    "\<And>x. unat x < 4096 \<Longrightarrow> pbyte (pmem s) (f + x) = seg_byte d ph (unat v div 4096 * 4096 + unat x)"
    using assms unfolding shows_page_def by blast
  have pf: "page_addr f" using f(1) by (simp add: data_page_def in_use_def)
  have "v AND PAGE_OFFSET_MASK = take_bit 12 v" by (simp add: take_bit_eq_mask mask_eq_exp_minus_1)
  then have "unat (v AND PAGE_OFFSET_MASK) = unat v mod 4096" by (simp add: take_bit_eq_mod unat_mod)
  then show ?thesis using f(2) f(3) [of "v AND PAGE_OFFSET_MASK"] pf pte_addr_map [OF pf] by (auto simp: user_byte_def)
qed

lemma loaded_empty: "vmm_ok R s \<Longrightarrow> loaded R r d (page_seg []) s s"
  by (simp add: loaded_def page_seg_def)

lemma elf_load_spec:
  assumes ok: "vmm_ok R s" and r: "r \<in> R" and len: "64 \<le> length d" "length d < 2 ^ 64"
    and eh: "read_ehdr d = Some eh" "elf_validate_header eh (of_nat (length d)) = 0"
    and phs: "has_phdrs d eh [0..<unat (e_phnum eh)] phs"
    and segs: "\<And>ph. ph \<in> set phs \<Longrightarrow> loadable ph \<Longrightarrow> seg_ok d ph \<and> (\<forall>v \<in> set (seg_page_list ph). small_page s r v)"
    and mem: "4 * seg_pages (filter loadable phs) \<le> card (frees s)"
  shows "\<exists>res s'. elf_load (Some d) r True s = Some (0, Some res, s') \<and> entry_point res = e_entry eh \<and>
     elf_brk_start res = PAGE_ALIGN_UP (fold (\<lambda>ph h. max h (p_vaddr ph + p_memsz ph)) (filter loadable phs) 0) \<and>
     loaded R r d (page_seg (filter loadable phs)) s s'"
proof -
  obtain s' where s': "for_ret (elf_load_header eh d r (hhdm_offset s)) [0..<unat (e_phnum eh)] (0, s) =
       Some (Inr (fold (\<lambda>ph h. max h (p_vaddr ph + p_memsz ph)) (filter loadable phs) 0, s'))"
    "loaded R r d (page_seg (filter loadable phs)) s s'"
    using elf_load_headers [OF phs loaded_empty [OF ok] r len(2) segs mem, of 0] by auto
  have "unat (of_nat (length d) :: u64) = length d" using len(2) by (intro unat_of_nat_less) simp
  then have "\<not> (of_nat (length d) :: u64) < 64" using len(1) by (simp add: word_less_nat_alt)
  then show ?thesis using eh s' by (simp add: elf_load_def vmm_get_hhdm_offset_def)
qed

section \<open>Properties\<close>

text \<open>The instance of the witness: one segment of three bytes.\<close>

definition elf_example :: "u8 list" where
  "elf_example =
     [0x7F, 69, 76, 70, 2, 1, 1, 0, 0, 0, 0, 0, 0, 0, 0, 0, 2, 0, 62, 0, 1, 0, 0, 0,
      0x78, 0, 0x40, 0, 0, 0, 0, 0, 64, 0, 0, 0, 0, 0, 0, 0, 0, 0, 0, 0, 0, 0, 0, 0,
      0, 0, 0, 0, 64, 0, 56, 0, 1, 0, 0, 0, 0, 0, 0, 0,
      1, 0, 0, 0, 5, 0, 0, 0, 120, 0, 0, 0, 0, 0, 0, 0, 0x78, 0, 0x40, 0, 0, 0, 0, 0,
      0, 0, 0, 0, 0, 0, 0, 0, 3, 0, 0, 0, 0, 0, 0, 0, 3, 0, 0, 0, 0, 0, 0, 0, 0, 0, 0, 0, 0, 0, 0, 0,
      0x90, 0xEB, 0xFE]"

definition phdr_example :: Elf64_Phdr where
  "phdr_example = \<lparr>p_type = 1, p_flags = 5, p_offset = 120, p_vaddr = 0x400078, p_filesz = 3, p_memsz = 3\<rparr>"

definition ehdr_example :: Elf64_Ehdr where
  "ehdr_example =
     \<lparr>e_ident = [0x7F, 69, 76, 70, 2, 1, 1, 0, 0, 0, 0, 0, 0, 0, 0, 0], e_type = 2, e_machine = 62, e_version = 1,
      e_entry = 0x400078, e_phoff = 64, e_shoff = 0, e_flags = 0, e_ehsize = 64, e_phentsize = 56, e_phnum = 1,
      e_shentsize = 0, e_shnum = 0, e_shstrndx = 0\<rparr>"

lemmas rd_defs = rd_bytes_def rd16_def rd32_def rd64_def

lemma elf_example_headers:
  "read_ehdr elf_example = Some ehdr_example" "read_phdr elf_example 64 = Some phdr_example"
  "elf_validate_header ehdr_example 123 = 0" "length elf_example = 123"
  by (simp_all add: elf_example_def read_ehdr_def read_phdr_def rd_defs ehdr_example_def phdr_example_def elf_validate_header_def)

lemma elf_example_segment:
  "seg_ok elf_example phdr_example" "loadable phdr_example" "seg_page_list phdr_example = [0x400000]"
  "page_seg [phdr_example] q = (if q = 0x400 then Some phdr_example else None)"
  by (auto simp: seg_ok_def loadable_def phdr_example_def elf_example_headers(4) seg_page_list_def PAGE_ALIGN_DOWN_def PAGE_ALIGN_UP_def
      page_seg_def covers_def)

text \<open>
  C8.  Loading an executable gives exactly the address space it describes.  Let the segments of a valid file lie in user
  space and in the file, let no large page be in their way, and let there be memory.  Then loading succeeds, and
  afterwards every user address on a page of a segment is mapped with the segment's permissions and
  reads as the byte of the file, or as zero behind the file part (of several segments on one page the last one
  counts).  All other translations, of this and of every other address space, are as before.
\<close>

theorem elf_load_correct:
  assumes "vmm_ok R s" and "r \<in> R" and "64 \<le> length d" "length d < 2 ^ 64"
    and "read_ehdr d = Some eh" "elf_validate_header eh (of_nat (length d)) = 0"
    and "has_phdrs d eh [0..<unat (e_phnum eh)] phs"
    and "\<And>ph. ph \<in> set phs \<Longrightarrow> loadable ph \<Longrightarrow> seg_ok d ph \<and> (\<forall>v \<in> set (seg_page_list ph). small_page s r v)"
    and "4 * seg_pages (filter loadable phs) \<le> card (frees s)"
  shows "\<exists>res s'. elf_load (Some d) r True s = Some (0, Some res, s') \<and> vmm_ok R s' \<and> same_env s s' \<and>
     entry_point res = e_entry eh \<and>
     elf_brk_start res = PAGE_ALIGN_UP (fold (\<lambda>ph h. max h (p_vaddr ph + p_memsz ph)) (filter loadable phs) 0) \<and>
     (\<forall>v ph. page_seg (filter loadable phs) (unat v div 4096) = Some ph \<longrightarrow>
        (\<exists>f. translate s' r v = Some (f OR vmm_flags_to_pte (elf_flags ph), []) \<and> page_addr f) \<and>
        user_byte s' r v = Some (seg_byte d ph (unat v))) \<and>
     (\<forall>v. unat v < 2 ^ 47 \<and> page_seg (filter loadable phs) (unat v div 4096) = None \<longrightarrow> translate s' r v = translate s r v) \<and>
     (\<forall>r' \<in> R - {r}. \<forall>v. visible (kernel_pml4_phys s) r' v \<longrightarrow> translate s' r' v = translate s r' v)"
proof -
  obtain res s' where s': "elf_load (Some d) r True s = Some (0, Some res, s')" "entry_point res = e_entry eh"
     "elf_brk_start res = PAGE_ALIGN_UP (fold (\<lambda>ph h. max h (p_vaddr ph + p_memsz ph)) (filter loadable phs) 0)"
    and L: "loaded R r d (page_seg (filter loadable phs)) s s'"
    using elf_load_spec [OF assms] by blast
  have "visible (kernel_pml4_phys s) r v" if "unat v < 2 ^ 47" for v
    using page_number(2) [OF that] by (simp add: visible_def)
  then have "\<forall>v. unat v < 2 ^ 47 \<and> page_seg (filter loadable phs) (unat v div 4096) = None \<longrightarrow> translate s' r v = translate s r v"
    using L assms(2) unfolding loaded_def by blast
  moreover have "(\<exists>f. translate s' r v = Some (f OR vmm_flags_to_pte (elf_flags ph), []) \<and> page_addr f) \<and>
        user_byte s' r v = Some (seg_byte d ph (unat v))" if "page_seg (filter loadable phs) (unat v div 4096) = Some ph" for v ph
    using L that shows_page_byte [of R r d s' v ph] unfolding loaded_def by blast
  ultimately show ?thesis using s' L unfolding loaded_def by blast
qed

theorem elf_load_correct_witness:
  "\<exists>res s'. elf_load (Some elf_example) 0x2000 True vmm_example = Some (0, Some res, s') \<and> entry_point res = 0x400078 \<and>
     user_byte s' 0x2000 0x400079 = Some 0xEB \<and> user_byte s' 0x2000 0x400FFF = Some 0 \<and> translate s' 0x2000 0x401000 = None"
proof -
  have phs: "has_phdrs elf_example ehdr_example [0..<unat (e_phnum ehdr_example)] [phdr_example]"
    by (simp add: has_phdrs_def phdr_pos_def ehdr_example_def elf_example_headers)
  have bytes: "seg_byte elf_example phdr_example 0x400079 = 0xEB" "seg_byte elf_example phdr_example 0x400FFF = 0"
    by (simp_all add: seg_byte_def phdr_example_def elf_example_def)
  obtain res s' where s': "elf_load (Some elf_example) 0x2000 True vmm_example = Some (0, Some res, s')" "entry_point res = e_entry ehdr_example"
     "\<forall>v ph. page_seg [phdr_example] (unat v div 4096) = Some ph \<longrightarrow>
        (\<exists>f. translate s' 0x2000 v = Some (f OR vmm_flags_to_pte (elf_flags ph), []) \<and> page_addr f) \<and>
        user_byte s' 0x2000 v = Some (seg_byte elf_example ph (unat v))"
     "\<forall>v. unat v < 2 ^ 47 \<and> page_seg [phdr_example] (unat v div 4096) = None \<longrightarrow> translate s' 0x2000 v = translate vmm_example 0x2000 v"
    using elf_load_correct [OF vmm_ok_example _ _ _ elf_example_headers(1) _ phs, of "0x2000"]
    by (auto simp: elf_example_headers elf_example_segment frees_example small_page_def translate_example)
  then show ?thesis
    using s'(3) [rule_format, of "0x400079" phdr_example] s'(3) [rule_format, of "0x400FFF" phdr_example]
      s'(4) [rule_format, of "0x401000"] bytes
    by (simp add: elf_example_segment translate_example ehdr_example_def)
qed

section \<open>Unchecked wrap-around\<close>

text \<open>An offset of the program headers close to \<open>2 ^ 64\<close> passes the check, and the first header is read outside the file.\<close>

lemma elf_phoff_wraps:
  "elf_validate_header (ehdr_example\<lparr>e_phoff := - 56\<rparr>) 123 = 0"
  "elf_load_header (ehdr_example\<lparr>e_phoff := - 56\<rparr>) elf_example pml4 hhdm 0 (hi, s) = None"
  by (simp_all add: ehdr_example_def elf_validate_header_def elf_load_header_def elf_example_headers(4) rd32_def arr_get_def)

text \<open>A segment whose end wraps around is accepted and nothing is mapped for it.\<close>

lemma elf_memsz_wraps:
  assumes "p_vaddr ph = 0x400000" "p_memsz ph = - 0x400000" "p_filesz ph = 0"
  shows "elf_load_segment ph d sz pml4 hhdm hi s = Some (0, hi, s)"
  using assms by (simp add: elf_load_segment_def seg_page_list_def PAGE_ALIGN_DOWN_def PAGE_ALIGN_UP_def)

end
