(* ===== verification/Fat32.thy ===== *)
theory Fat32
  imports Ramfs Path
begin

text \<open>
  The FAT32 file system (\<^verbatim>\<open>kernel/fs/fat32.c\<close>).  A disk is a function from sector numbers to blocks of
  512 bytes; the driver behind a block device either transfers all sectors of a request or fails, and
  \<open>io_error\<close> says for which sectors it fails.  The table that the volume caches is the list of its
  entries.  A temporary buffer is allocated from and returned to the kernel heap; its contents, which
  no other code sees, are a local list.

  Chains of clusters are related to lists of cluster numbers.  Reading a chain gives the bytes of its
  clusters one after the other, and writing changes exactly the written range, takes new clusters
  from the free ones, and leaves the table and the contents of all other chains alone.
\<close>

section \<open>State\<close>

abbreviation FAT32_ENTRY_MASK :: u32 where "FAT32_ENTRY_MASK \<equiv> 0x0FFFFFFF"
abbreviation FAT32_EOC :: u32 where "FAT32_EOC \<equiv> 0x0FFFFFF8"
abbreviation FAT32_BAD_CLUSTER :: u32 where "FAT32_BAD_CLUSTER \<equiv> 0x0FFFFFF7"
abbreviation FAT32_FREE :: u32 where "FAT32_FREE \<equiv> 0"
abbreviation FAT32_DIR_FREE :: u8 where "FAT32_DIR_FREE \<equiv> 0xE5"
abbreviation FAT32_DIR_END :: u8 where "FAT32_DIR_END \<equiv> 0"
abbreviation FAT32_ATTR_VOLUME_ID :: u8 where "FAT32_ATTR_VOLUME_ID \<equiv> 8"
abbreviation FAT32_ATTR_DIRECTORY :: u8 where "FAT32_ATTR_DIRECTORY \<equiv> 0x10"
abbreviation FAT32_ATTR_ARCHIVE :: u8 where "FAT32_ATTR_ARCHIVE \<equiv> 0x20"
abbreviation FAT32_ATTR_LFN :: u8 where "FAT32_ATTR_LFN \<equiv> 0x0F"
abbreviation NODE_CACHE_SIZE :: nat where "NODE_CACHE_SIZE \<equiv> 256"
abbreviation SECTOR_SIZE :: nat where "SECTOR_SIZE \<equiv> 512"
abbreviation SIZEOF_Fat32Volume :: u64 where "SIZEOF_Fat32Volume \<equiv> 56"
abbreviation SIZEOF_Fat32NodeInfo :: u64 where "SIZEOF_Fat32NodeInfo \<equiv> 24"
abbreviation SIZEOF_VfsNode :: u64 where "SIZEOF_VfsNode \<equiv> 56"

record Fat32Volume =
  dev :: u64
  sectors_per_cluster :: u8
  bytes_per_cluster :: u32
  fat_start :: u32
  data_start :: u32
  root_cluster :: u32
  total_clusters :: u32
  fat_ptr :: u64
  fat :: "u32 list"
  fat_sectors :: u32
  fat_dirty :: bool
  root_node :: u64

record Fat32NodeInfo =
  vol :: u64
  first_cluster :: u32
  dir_cluster :: u32
  dir_entry_idx :: u32

record Fat32DirEntry =
  fe_name :: "u8 list"
  attr :: u8
  nt_reserved :: u8
  create_time_tenths :: u8
  create_time :: u16
  create_date :: u16
  access_date :: u16
  first_cluster_hi :: u16
  modify_time :: u16
  modify_date :: u16
  first_cluster_lo :: u16
  file_size :: u32

record Fat32Bpb =
  bpb_bytes_per_sector :: u16
  bpb_sectors_per_cluster :: u8
  bpb_reserved_sectors :: u16
  bpb_num_fats :: u8
  bpb_root_entry_count :: u16
  bpb_total_sectors_32 :: u32
  bpb_fat_size_32 :: u32
  bpb_root_cluster :: u32

record Fat =
  fk :: kernel
  vols :: "u64 \<Rightarrow> Fat32Volume"
  infos :: "u64 \<Rightarrow> Fat32NodeInfo"
  node_cache :: "(u32 \<times> u64) list"
  next_fat_inode :: u64
  disk :: "u64 \<Rightarrow> u64 \<Rightarrow> u8 list"
  io_error :: "u64 \<Rightarrow> u64 \<Rightarrow> bool"

definition vset :: "u64 \<Rightarrow> (Fat32Volume \<Rightarrow> Fat32Volume) \<Rightarrow> Fat \<Rightarrow> Fat" where
  "vset v f s = s\<lparr>vols := (vols s)(v := f (vols s v))\<rparr>"

definition iset :: "u64 \<Rightarrow> (Fat32NodeInfo \<Rightarrow> Fat32NodeInfo) \<Rightarrow> Fat \<Rightarrow> Fat" where
  "iset i f s = s\<lparr>infos := (infos s)(i := f (infos s i))\<rparr>"

definition fat_alloc :: "u64 \<Rightarrow> u32 \<Rightarrow> Fat \<Rightarrow> (u64 \<times> Fat) option" where
  "fat_alloc n fl s = do { (p, k) \<leftarrow> k_alloc n fl (fk s); Some (p, s\<lparr>fk := k\<rparr>) }"

definition fat_free :: "u64 \<Rightarrow> Fat \<Rightarrow> Fat option" where
  "fat_free p s = do { k \<leftarrow> k_free p (fk s); Some (s\<lparr>fk := k\<rparr>) }"

text \<open>Requests to the block device; the first component is the result of the call.\<close>

definition blk_read :: "u64 \<Rightarrow> u64 \<Rightarrow> nat \<Rightarrow> Fat \<Rightarrow> int \<times> u8 list" where
  "blk_read d sec n s =
     (if list_ex (\<lambda>k. io_error s d (sec + of_nat k)) [0..<n] then (- 1, [])
      else (0, concat (map (\<lambda>k. disk s d (sec + of_nat k)) [0..<n])))"

definition blk_write :: "u64 \<Rightarrow> u64 \<Rightarrow> nat \<Rightarrow> u8 list \<Rightarrow> Fat \<Rightarrow> int \<times> Fat" where
  "blk_write d sec n bs s =
     (if list_ex (\<lambda>k. io_error s d (sec + of_nat k)) [0..<n] then (- 1, s)
      else (0, s\<lparr>disk := (disk s)(d := fold (\<lambda>k f. f(sec + of_nat k := take SECTOR_SIZE (drop (SECTOR_SIZE * k) bs)))
                  [0..<n] (disk s d))\<rparr>))"

section \<open>Node cache\<close>

definition cache_lookup :: "u32 \<Rightarrow> Fat \<Rightarrow> u64" where
  "cache_lookup c s = (case find (\<lambda>(x, n). x = c) (node_cache s) of None \<Rightarrow> 0 | Some (_, n) \<Rightarrow> n)"

definition cache_insert :: "u32 \<Rightarrow> u64 \<Rightarrow> Fat \<Rightarrow> Fat" where
  "cache_insert c n s =
     (if length (node_cache s) < NODE_CACHE_SIZE then s\<lparr>node_cache := node_cache s @ [(c, n)]\<rparr> else s)"

section \<open>Clusters\<close>

definition cluster_to_sector :: "Fat32Volume \<Rightarrow> u32 \<Rightarrow> u32" where
  "cluster_to_sector V c = data_start V + (c - 2) * ucast (sectors_per_cluster V)"

definition fat32_next_cluster :: "Fat32Volume \<Rightarrow> u32 \<Rightarrow> u32 option" where
  "fat32_next_cluster V c =
     do { x \<leftarrow> arr_get (fat V) (unat c);
          let e = x AND FAT32_ENTRY_MASK;
          if e \<ge> FAT32_EOC then Some 0 else if e = FAT32_BAD_CLUSTER then Some 0 else Some e }"

definition fat32_entry_cluster :: "Fat32DirEntry \<Rightarrow> u32" where
  "fat32_entry_cluster e = push_bit 16 (ucast (first_cluster_hi e)) OR ucast (first_cluster_lo e)"

definition fat32_set_entry_cluster :: "u32 \<Rightarrow> Fat32DirEntry \<Rightarrow> Fat32DirEntry" where
  "fat32_set_entry_cluster c e =
     e\<lparr>first_cluster_lo := ucast (c AND 0xFFFF), first_cluster_hi := ucast (drop_bit 16 c AND 0xFFFF)\<rparr>"

definition fat32_read_cluster :: "u64 \<Rightarrow> u32 \<Rightarrow> Fat \<Rightarrow> int \<times> u8 list" where
  "fat32_read_cluster v c s =
     (let V = vols s v in blk_read (dev V) (ucast (cluster_to_sector V c)) (unat (sectors_per_cluster V)) s)"

definition fat32_write_cluster :: "u64 \<Rightarrow> u32 \<Rightarrow> u8 list \<Rightarrow> Fat \<Rightarrow> int \<times> Fat" where
  "fat32_write_cluster v c bs s =
     (let V = vols s v in blk_write (dev V) (ucast (cluster_to_sector V c)) (unat (sectors_per_cluster V)) bs s)"

text \<open>The upper four bits of an entry are kept.\<close>

definition fat_put :: "u64 \<Rightarrow> nat \<Rightarrow> u32 \<Rightarrow> Fat \<Rightarrow> Fat option" where
  "fat_put v i e s =
     do { x \<leftarrow> arr_get (fat (vols s v)) i;
          Some (vset v (\<lambda>V. V\<lparr>fat := (fat V)[i := (x AND NOT FAT32_ENTRY_MASK) OR e], fat_dirty := True\<rparr>) s) }"

definition fat32_alloc_cluster :: "u64 \<Rightarrow> Fat \<Rightarrow> (u32 \<times> Fat) option" where
  "fat32_alloc_cluster v s =
     do { r \<leftarrow> for_ret (\<lambda>i s.
            do { x \<leftarrow> arr_get (fat (vols s v)) i;
                 if x AND FAT32_ENTRY_MASK = FAT32_FREE
                 then do { s \<leftarrow> fat_put v i (FAT32_EOC AND FAT32_ENTRY_MASK) s; Some (Inl (of_nat i, s)) }
                 else Some (Inr s) })
            [2..<unat (total_clusters (vols s v) + 2)] s;
          Some (case r of Inl res \<Rightarrow> res | Inr s \<Rightarrow> (0, s)) }"

partial_function (option) fat32_free_chain :: "u64 \<Rightarrow> u32 \<Rightarrow> Fat \<Rightarrow> Fat option" where
  "fat32_free_chain v c s =
     (if c \<noteq> 0 \<and> c < total_clusters (vols s v) + 2 then
        do { n \<leftarrow> fat32_next_cluster (vols s v) c;
             s \<leftarrow> fat_put v (unat c) FAT32_FREE s;
             fat32_free_chain v n s }
      else Some s)"

definition fat32_extend_chain :: "u64 \<Rightarrow> u32 \<Rightarrow> Fat \<Rightarrow> (u32 \<times> Fat) option" where
  "fat32_extend_chain v lst s =
     do { (n, s) \<leftarrow> fat32_alloc_cluster v s;
          if n = 0 then Some (0, s)
          else if lst \<noteq> 0 then do { s \<leftarrow> fat_put v (unat lst) (n AND FAT32_ENTRY_MASK) s; Some (n, s) }
          else Some (n, s) }"

section \<open>Names\<close>

definition lower :: "u8 \<Rightarrow> u8" where "lower c = (if 65 \<le> c \<and> c \<le> 90 then c + 32 else c)"
definition upper :: "u8 \<Rightarrow> u8" where "upper c = (if 97 \<le> c \<and> c \<le> 122 then c - 32 else c)"

definition trim :: "u8 list \<Rightarrow> u8 list" where
  "trim xs = rev (dropWhile (\<lambda>c. c = 32) (rev xs))"

text \<open>The string ends at the first zero byte.\<close>

definition fat32_name_to_str :: "Fat32DirEntry \<Rightarrow> u8 list" where
  "fat32_name_to_str e =
     (let b = trim (take 8 (fe_name e)); x = trim (take 3 (drop 8 (fe_name e)))
      in takeWhile (\<lambda>c. c \<noteq> 0) (map lower b @ (if x \<noteq> [] then DOT # map lower x else [])))"

definition pad :: "nat \<Rightarrow> u8 list \<Rightarrow> u8 list" where
  "pad n xs = xs @ replicate (n - length xs) 32"

definition fat32_str_to_name :: "u8 list \<Rightarrow> int \<times> u8 list" where
  "fat32_str_to_name str =
     (let b = takeWhile (\<lambda>c. c \<noteq> DOT) str; x = drop 1 (dropWhile (\<lambda>c. c \<noteq> DOT) str) in
      if length b = 0 \<or> length b > 8 \<or> length x > 3 then (- 1, replicate 11 32)
      else (0, pad 8 (map upper b) @ pad 3 (map upper x)))"

definition fat32_name_match :: "Fat32DirEntry \<Rightarrow> u8 list \<Rightarrow> bool" where
  "fat32_name_match e name =
     (let (rc, fat_name) = fat32_str_to_name name in
      if rc \<noteq> 0 then map lower (fat32_name_to_str e) = map lower name else fe_name e = fat_name)"

section \<open>Nodes\<close>

definition fat32_alloc_node :: "u64 \<Rightarrow> u8 \<Rightarrow> u32 \<Rightarrow> u32 \<Rightarrow> u32 \<Rightarrow> Fat \<Rightarrow> (u64 \<times> Fat) option" where
  "fat32_alloc_node v ty fc dirc idx s =
     (if fc \<noteq> 0 \<and> cache_lookup fc s \<noteq> 0 then Some (cache_lookup fc s, s) else
      do { (info, s) \<leftarrow> fat_alloc SIZEOF_Fat32NodeInfo GFP_ZERO s;
           if info = 0 then Some (0, s) else
           do { (node, s) \<leftarrow> fat_alloc SIZEOF_VfsNode GFP_ZERO s;
                if node = 0 then do { s \<leftarrow> fat_free info s; Some (0, s) } else
                do { let s = iset info (\<lambda>_. \<lparr>vol = v, first_cluster = fc, dir_cluster = dirc, dir_entry_idx = idx\<rparr>) s;
                     let s = s\<lparr>fk := nset node (\<lambda>_. zero_node\<lparr>inode_num := next_fat_inode s, ntype := ty, nsize := 0,
                           mode := (if ty = VFS_DIRECTORY then 493 else 420),
                           ops := (if ty = VFS_DIRECTORY then fat32_dir_ops else fat32_file_ops), private_data := info\<rparr>) (fk s),
                         next_fat_inode := next_fat_inode s + 1\<rparr>;
                     Some (node, if fc \<noteq> 0 then cache_insert fc node s else s) } } })"

definition to_fat32 :: "u64 \<Rightarrow> Fat \<Rightarrow> Fat32NodeInfo" where
  "to_fat32 node s = infos s (private_data (vnodes (fk s) node))"

section \<open>Reading and writing chains\<close>

partial_function (option) skip_read :: "Fat32Volume \<Rightarrow> u32 \<Rightarrow> u32 \<Rightarrow> u32 \<Rightarrow> (u32 \<times> u32) option" where
  "skip_read V off c coff =
     (if c \<noteq> 0 \<and> coff + bytes_per_cluster V \<le> off
      then do { n \<leftarrow> fat32_next_cluster V c; skip_read V off n (coff + bytes_per_cluster V) }
      else Some (c, coff))"

text \<open>The offset inside a cluster and the number of bytes to copy, with \<open>k\<close> bytes done.\<close>

definition in_cluster_off :: "u32 \<Rightarrow> u32 \<Rightarrow> u32" where
  "in_cluster_off off coff = (if coff < off then off - coff else 0)"

definition copy_len :: "Fat32Volume \<Rightarrow> u32 \<Rightarrow> u32 \<Rightarrow> u32 \<Rightarrow> u32 \<Rightarrow> u32" where
  "copy_len V off coff sz k =
     (let avail = bytes_per_cluster V - in_cluster_off off coff; to_copy = sz - k
      in if to_copy > avail then avail else to_copy)"

partial_function (option) read_loop ::
    "u64 \<Rightarrow> u32 \<Rightarrow> u32 \<Rightarrow> Fat \<Rightarrow> u32 \<Rightarrow> u32 \<Rightarrow> u8 list \<Rightarrow> (int \<times> u8 list) option" where
  "read_loop v off sz s c coff acc =
     (let V = vols s v; k = of_nat (length acc) in
      if c \<noteq> 0 \<and> k < sz then
        let (rc, bs) = fat32_read_cluster v c s in
        if rc \<noteq> 0 then Some (- EIO, acc) else
        do { part \<leftarrow> rd_bytes bs (unat (in_cluster_off off coff)) (unat (copy_len V off coff sz k));
             n \<leftarrow> fat32_next_cluster V c;
             read_loop v off sz s n (coff + bytes_per_cluster V) (acc @ part) }
      else Some (sint k, acc))"

definition fat32_read_chain :: "u64 \<Rightarrow> u32 \<Rightarrow> u32 \<Rightarrow> u32 \<Rightarrow> Fat \<Rightarrow> (int \<times> u8 list \<times> Fat) option" where
  "fat32_read_chain v start off sz s =
     (if start = 0 then Some (0, [], s) else
      do { (cbuf, s) \<leftarrow> fat_alloc (ucast (bytes_per_cluster (vols s v))) 0 s;
           if cbuf = 0 then Some (- ENOMEM, [], s) else
           do { (c, coff) \<leftarrow> skip_read (vols s v) off start 0;
                (r, bs) \<leftarrow> read_loop v off sz s c coff [];
                s \<leftarrow> fat_free cbuf s;
                Some (r, bs, s) } })"

definition fat32_init_cluster :: "u64 \<Rightarrow> u32 \<Rightarrow> Fat \<Rightarrow> int \<times> Fat" where
  "fat32_init_cluster v c s =
     (let (rc, s) = fat32_write_cluster v c (replicate (unat (bytes_per_cluster (vols s v))) 0) s
      in (if rc \<noteq> 0 then - EIO else 0, s))"

text \<open>Extending a chain by a cleared cluster; the result of the clearing is not looked at.\<close>

definition extend_zeroed :: "u64 \<Rightarrow> u32 \<Rightarrow> Fat \<Rightarrow> (u32 \<times> Fat) option" where
  "extend_zeroed v prev s =
     do { (n, s) \<leftarrow> fat32_extend_chain v prev s;
          if n = 0 then Some (0, s) else Some (n, snd (fat32_init_cluster v n s)) }"

text \<open>The loop that moves to the cluster of the offset; \<open>Inl\<close> is the disk being full.\<close>

partial_function (option) skip_write ::
    "u64 \<Rightarrow> u32 \<Rightarrow> u32 \<Rightarrow> u32 \<Rightarrow> u32 \<Rightarrow> Fat \<Rightarrow> (Fat + u32 \<times> u32 \<times> u32 \<times> Fat) option" where
  "skip_write v off c prev coff s =
     (let bpc = bytes_per_cluster (vols s v) in
      if c \<noteq> 0 \<and> coff + bpc \<le> off then
        do { n \<leftarrow> fat32_next_cluster (vols s v) c;
             if n = 0 \<and> coff + bpc + bpc \<le> off then
               do { (n, s) \<leftarrow> extend_zeroed v c s;
                    if n = 0 then Some (Inl s) else skip_write v off n c (coff + bpc) s }
             else skip_write v off n c (coff + bpc) s }
      else Some (Inr (c, prev, coff, s)))"

partial_function (option) write_loop ::
    "u64 \<Rightarrow> u32 \<Rightarrow> u8 list \<Rightarrow> u32 \<Rightarrow> u32 \<Rightarrow> u32 \<Rightarrow> Fat \<Rightarrow> (int \<times> Fat) option" where
  "write_loop v off src c coff k s =
     (let V = vols s v; sz = of_nat (length src) in
      if c \<noteq> 0 \<and> k < sz then
        let (rc, bs) = fat32_read_cluster v c s in
        if rc \<noteq> 0 then Some (- EIO, s) else
        do { let o1 = unat (in_cluster_off off coff);
             let n1 = unat (copy_len V off coff sz k);
             part \<leftarrow> rd_bytes src (unat k) n1;
             bs \<leftarrow> (if o1 + n1 \<le> length bs then Some (take o1 bs @ part @ drop (o1 + n1) bs) else None);
             let (rc, s) = fat32_write_cluster v c bs s;
             if rc \<noteq> 0 then Some (- EIO, s) else
             do { let k = k + copy_len V off coff sz k;
                  n \<leftarrow> fat32_next_cluster (vols s v) c;
                  if n = 0 \<and> k < sz then
                    do { (n, s) \<leftarrow> extend_zeroed v c s;
                         if n = 0 then Some (- ENOSPC, s)
                         else write_loop v off src n (coff + bytes_per_cluster V) k s }
                  else write_loop v off src n (coff + bytes_per_cluster V) k s } }
      else Some (sint k, s))"

text \<open>The steps between the allocation of the buffer and its release; the second component is \<^verbatim>\<open>*first_cluster_ptr\<close>.\<close>

definition write_body :: "u64 \<Rightarrow> u32 \<Rightarrow> u32 \<Rightarrow> u8 list \<Rightarrow> Fat \<Rightarrow> (int \<times> u32 \<times> Fat) option" where
  "write_body v first off src s =
     do { (c, s) \<leftarrow> (if first = 0 then extend_zeroed v 0 s else Some (first, s));
          if c = 0 then Some (- ENOSPC, first, s) else
          do { let first = c;
               r \<leftarrow> skip_write v off c 0 0 s;
               case r of Inl s \<Rightarrow> Some (- ENOSPC, first, s)
               | Inr (c, prev, coff, s) \<Rightarrow>
                   do { (c, s) \<leftarrow> (if c = 0 then extend_zeroed v prev s else Some (c, s));
                        if c = 0 then Some (- ENOSPC, first, s) else
                        do { (r, s) \<leftarrow> write_loop v off src c coff 0 s; Some (r, first, s) } } } }"

definition fat32_write_chain :: "u64 \<Rightarrow> u32 \<Rightarrow> u32 \<Rightarrow> u8 list \<Rightarrow> Fat \<Rightarrow> (int \<times> u32 \<times> Fat) option" where
  "fat32_write_chain v first off src s =
     do { (cbuf, s) \<leftarrow> fat_alloc (ucast (bytes_per_cluster (vols s v))) 0 s;
          if cbuf = 0 then Some (- ENOMEM, first, s) else
          do { (r, first, s) \<leftarrow> write_body v first off src s;
               s \<leftarrow> fat_free cbuf s;
               Some (r, first, s) } }"

section \<open>Directory entries\<close>

definition decode_entry :: "u8 list \<Rightarrow> nat \<Rightarrow> Fat32DirEntry option" where
  "decode_entry d i =
     do { nm \<leftarrow> rd_bytes d i 11; at \<leftarrow> arr_get d (i + 11); nt \<leftarrow> arr_get d (i + 12); te \<leftarrow> arr_get d (i + 13);
          ct \<leftarrow> rd16 d (i + 14); cd \<leftarrow> rd16 d (i + 16); ad \<leftarrow> rd16 d (i + 18); hi \<leftarrow> rd16 d (i + 20);
          mt \<leftarrow> rd16 d (i + 22); md \<leftarrow> rd16 d (i + 24); lo \<leftarrow> rd16 d (i + 26); sz \<leftarrow> rd32 d (i + 28);
          Some \<lparr>fe_name = nm, attr = at, nt_reserved = nt, create_time_tenths = te, create_time = ct, create_date = cd,
                access_date = ad, first_cluster_hi = hi, modify_time = mt, modify_date = md, first_cluster_lo = lo, file_size = sz\<rparr> }"

definition encode_entry :: "Fat32DirEntry \<Rightarrow> u8 list" where
  "encode_entry e =
     fe_name e @ [attr e, nt_reserved e, create_time_tenths e] @ le16 (create_time e) @ le16 (create_date e) @
     le16 (access_date e) @ le16 (first_cluster_hi e) @ le16 (modify_time e) @ le16 (modify_date e) @
     le16 (first_cluster_lo e) @ le32 (file_size e)"

definition zero_dentry :: Fat32DirEntry where
  "zero_dentry = \<lparr>fe_name = replicate 11 0, attr = 0, nt_reserved = 0, create_time_tenths = 0, create_time = 0, create_date = 0,
     access_date = 0, first_cluster_hi = 0, modify_time = 0, modify_date = 0, first_cluster_lo = 0, file_size = 0\<rparr>"

definition fat32_read_dir_entry :: "u64 \<Rightarrow> u32 \<Rightarrow> u32 \<Rightarrow> Fat \<Rightarrow> (int \<times> u8 list \<times> Fat) option" where
  "fat32_read_dir_entry v dirc idx s = fat32_read_chain v dirc (idx * 32) 32 s"

definition fat32_write_dir_entry :: "u64 \<Rightarrow> u32 \<Rightarrow> u32 \<Rightarrow> Fat32DirEntry \<Rightarrow> Fat \<Rightarrow> (int \<times> Fat) option" where
  "fat32_write_dir_entry v dirc idx e s =
     do { (r, _, s) \<leftarrow> fat32_write_chain v dirc (idx * 32) (encode_entry e) s; Some (r, s) }"

text \<open>
  The walk over a directory.  A visitor gets the entry, its index, its context and the state, and says
  whether to go on (0).
\<close>

partial_function (option) fat32_walk_dir ::
    "u64 \<Rightarrow> (Fat32DirEntry \<Rightarrow> u32 \<Rightarrow> 'c \<Rightarrow> Fat \<Rightarrow> (int \<times> 'c \<times> Fat) option) \<Rightarrow> u32 \<Rightarrow> u32 \<Rightarrow> 'c \<Rightarrow> Fat \<Rightarrow> (int \<times> 'c \<times> Fat) option" where
  "fat32_walk_dir v visitor c base_idx cx s =
     (if c \<noteq> 0 then
        do { let epc = bytes_per_cluster (vols s v) div 32;
             (cbuf, s) \<leftarrow> fat_alloc (ucast (bytes_per_cluster (vols s v))) 0 s;
             if cbuf = 0 then Some (- ENOMEM, cx, s) else
             let (rc, bs) = fat32_read_cluster v c s in
             if rc \<noteq> 0 then do { s \<leftarrow> fat_free cbuf s; Some (- EIO, cx, s) } else
             do { r \<leftarrow> for_ret (\<lambda>i (cx, s).
                    do { e \<leftarrow> decode_entry bs (32 * i);
                         (rc, cx, s) \<leftarrow> visitor e (base_idx + of_nat i) cx s;
                         Some (if rc \<noteq> 0 then Inl (rc, cx, s) else Inr (cx, s)) }) [0..<unat epc] (cx, s);
                  case r of Inl (rc, cx, s) \<Rightarrow> do { s \<leftarrow> fat_free cbuf s; Some (rc, cx, s) }
                  | Inr (cx, s) \<Rightarrow>
                      do { s \<leftarrow> fat_free cbuf s;
                           n \<leftarrow> fat32_next_cluster (vols s v) c;
                           fat32_walk_dir v visitor n (base_idx + epc) cx s } } }
      else Some (0, cx, s))"

definition fat32_entry_filter :: "Fat32DirEntry \<Rightarrow> int" where
  "fat32_entry_filter e =
     (if fe_name e ! 0 = FAT32_DIR_END then - 1
      else if fe_name e ! 0 = FAT32_DIR_FREE then 1
      else if attr e = FAT32_ATTR_LFN then 1
      else if attr e AND FAT32_ATTR_VOLUME_ID \<noteq> 0 then 1
      else 0)"

definition free_slot_visitor :: "Fat32DirEntry \<Rightarrow> u32 \<Rightarrow> int \<Rightarrow> Fat \<Rightarrow> (int \<times> int \<times> Fat) option" where
  "free_slot_visitor e idx slot s =
     Some (if fe_name e ! 0 = FAT32_DIR_END \<or> fe_name e ! 0 = FAT32_DIR_FREE then (1, sint idx, s) else (0, slot, s))"

text \<open>The loop that counts the clusters of a chain and finds the last one.\<close>

partial_function (option) chain_end :: "Fat32Volume \<Rightarrow> u32 \<Rightarrow> u32 \<Rightarrow> u32 \<Rightarrow> (u32 \<times> u32) option" where
  "chain_end V c prev count =
     (if c \<noteq> 0 then do { n \<leftarrow> fat32_next_cluster V c; chain_end V n c (count + 1) } else Some (prev, count))"

definition fat32_find_free_dir_slot :: "u64 \<Rightarrow> u32 \<Rightarrow> Fat \<Rightarrow> (int \<times> Fat) option" where
  "fat32_find_free_dir_slot v dirc s =
     do { (rc, slot, s) \<leftarrow> fat32_walk_dir v free_slot_visitor dirc 0 (- 1) s;
          if rc = 1 then Some (slot, s) else if rc < 0 then Some (- 1, s) else
          do { (prev, count) \<leftarrow> chain_end (vols s v) dirc 0 0;
               (c, s) \<leftarrow> fat32_extend_chain v prev s;
               if c = 0 then Some (- 1, s) else
               do { (zbuf, s) \<leftarrow> fat_alloc (ucast (bytes_per_cluster (vols s v))) GFP_ZERO s;
                    if zbuf = 0 then Some (- 1, s) else
                    do { let s = snd (fat32_write_cluster v c (replicate (unat (bytes_per_cluster (vols s v))) 0) s);
                         s \<leftarrow> fat_free zbuf s;
                         Some (sint (count * (bytes_per_cluster (vols s v) div 32)), s) } } } }"

section \<open>Synchronisation\<close>

definition fat_bytes :: "u32 list \<Rightarrow> u8 list" where
  "fat_bytes xs = concat (map le32 xs)"

definition fat32_sync :: "Fat \<Rightarrow> (int \<times> Fat) option" where
  "fat32_sync s =
     (case node_cache s of [] \<Rightarrow> Some (- 1, s)
      | (_, n) # _ \<Rightarrow>
          let v = vol (to_fat32 n s) in
          if \<not> fat_dirty (vols s v) then Some (0, s) else
          do { r \<leftarrow> for_ret (\<lambda>i s.
                 do { bs \<leftarrow> rd_bytes (fat_bytes (fat (vols s v))) (unat ((of_nat i :: u32) * 512)) SECTOR_SIZE;
                      let (rc, s) = blk_write (dev (vols s v)) (ucast (fat_start (vols s v) + of_nat i)) 1 bs s;
                      Some (if rc \<noteq> 0 then Inl s else Inr s) }) [0..<unat (fat_sectors (vols s v))] s;
               Some (case r of Inl s \<Rightarrow> (- EIO, s) | Inr s \<Rightarrow> (0, vset v (\<lambda>V. V\<lparr>fat_dirty := False\<rparr>) s)) })"

text \<open>The update of a file's directory entry after a change of its size or first cluster.\<close>

definition update_dentry :: "u64 \<Rightarrow> Fat \<Rightarrow> Fat option" where
  "update_dentry node s =
     do { let info = to_fat32 node s;
          (r, bs, s) \<leftarrow> fat32_read_dir_entry (vol info) (dir_cluster info) (dir_entry_idx info) s;
          s \<leftarrow> (if r > 0 then
                 do { e \<leftarrow> decode_entry bs 0;
                      let e = fat32_set_entry_cluster (first_cluster info) (e\<lparr>file_size := ucast (nsize (vnodes (fk s) node))\<rparr>);
                      (_, s) \<leftarrow> fat32_write_dir_entry (vol info) (dir_cluster info) (dir_entry_idx info) e s;
                      Some s }
               else Some s);
          (_, s) \<leftarrow> fat32_sync s;
          Some s }"

section \<open>File operations\<close>

definition fat32_read :: "u64 \<Rightarrow> u32 \<Rightarrow> u32 \<Rightarrow> Fat \<Rightarrow> (int \<times> u8 list \<times> Fat) option" where
  "fat32_read node off sz s =
     (let info = to_fat32 node s; nd = vnodes (fk s) node in
      if ntype nd = VFS_FILE then
        if ucast off \<ge> nsize nd then Some (0, [], s) else
        let avail = (ucast (nsize nd - ucast off) :: u32); sz = (if sz > avail then avail else sz)
        in fat32_read_chain (vol info) (first_cluster info) off sz s
      else fat32_read_chain (vol info) (first_cluster info) off sz s)"

definition fat32_write :: "u64 \<Rightarrow> u8 list \<Rightarrow> u32 \<Rightarrow> Fat \<Rightarrow> (int \<times> Fat) option" where
  "fat32_write node src off s =
     (let info = to_fat32 node s in
      if ntype (vnodes (fk s) node) \<noteq> VFS_FILE then Some (- EISDIR, s) else
      do { (written, first, s) \<leftarrow> fat32_write_chain (vol info) (first_cluster info) off src s;
           let s = iset (private_data (vnodes (fk s) node)) (\<lambda>i. i\<lparr>first_cluster := first\<rparr>) s;
           if written \<le> 0 then Some (written, s) else
           do { let e = off + of_int written;
                let s = (if ucast e > nsize (vnodes (fk s) node)
                         then s\<lparr>fk := nset node (\<lambda>n. n\<lparr>nsize := ucast e\<rparr>) (fk s)\<rparr> else s);
                s \<leftarrow> update_dentry node s;
                Some (written, s) } })"

definition lookup_visitor :: "u64 \<Rightarrow> u32 \<Rightarrow> u8 list \<Rightarrow> Fat32DirEntry \<Rightarrow> u32 \<Rightarrow> u64 \<Rightarrow> Fat \<Rightarrow> (int \<times> u64 \<times> Fat) option" where
  "lookup_visitor v dirc name e idx res s =
     (let f = fat32_entry_filter e in
      if f < 0 then Some (1, res, s) else if f > 0 then Some (0, res, s)
      else if fe_name e ! 0 = DOT \<and> fe_name e ! 1 = 32 then Some (0, res, s)
      else if fe_name e ! 0 = DOT \<and> fe_name e ! 1 = DOT \<and> fe_name e ! 2 = 32 then Some (0, res, s)
      else if fat32_name_match e name then
        do { (n, s) \<leftarrow> fat32_alloc_node v (if attr e AND FAT32_ATTR_DIRECTORY \<noteq> 0 then VFS_DIRECTORY else VFS_FILE)
               (fat32_entry_cluster e) dirc idx s;
             Some (1, n, if n \<noteq> 0 then s\<lparr>fk := nset n (\<lambda>x. x\<lparr>nsize := ucast (file_size e)\<rparr>) (fk s)\<rparr> else s) }
      else Some (0, res, s))"

definition fat32_lookup :: "u64 \<Rightarrow> u8 list \<Rightarrow> Fat \<Rightarrow> (u64 \<times> Fat) option" where
  "fat32_lookup dir name s =
     (let info = to_fat32 dir s in
      do { (_, res, s) \<leftarrow> fat32_walk_dir (vol info) (lookup_visitor (vol info) (first_cluster info) name) (first_cluster info) 0 0 s;
           Some (res, s) })"

definition dot_name :: "nat \<Rightarrow> u8 list" where
  "dot_name n = replicate n DOT @ replicate (11 - n) 32"

definition dot_entries :: "u32 \<Rightarrow> u32 \<Rightarrow> nat \<Rightarrow> u8 list" where
  "dot_entries self par len =
     (let e1 = fat32_set_entry_cluster self (zero_dentry\<lparr>fe_name := dot_name 1, attr := FAT32_ATTR_DIRECTORY\<rparr>);
          e2 = fat32_set_entry_cluster par (zero_dentry\<lparr>fe_name := dot_name 2, attr := FAT32_ATTR_DIRECTORY\<rparr>)
      in encode_entry e1 @ encode_entry e2 @ replicate (len - 64) 0)"

text \<open>The cluster of a new directory with its first two entries; \<open>None\<close> of the inner option is the early return.\<close>

definition create_dir_cluster :: "u64 \<Rightarrow> u32 \<Rightarrow> Fat \<Rightarrow> (u32 option \<times> Fat) option" where
  "create_dir_cluster v par s =
     do { (c, s) \<leftarrow> fat32_alloc_cluster v s;
          if c = 0 then Some (None, s) else
          do { (cbuf, s) \<leftarrow> fat_alloc (ucast (bytes_per_cluster (vols s v))) GFP_ZERO s;
               if cbuf = 0 then Some (None, s) else
               do { let s = snd (fat32_write_cluster v c (dot_entries c par (unat (bytes_per_cluster (vols s v)))) s);
                    s \<leftarrow> fat_free cbuf s;
                    Some (Some c, s) } } }"

definition fat32_create :: "u64 \<Rightarrow> u8 list \<Rightarrow> u8 \<Rightarrow> Fat \<Rightarrow> (u64 \<times> Fat) option" where
  "fat32_create dir name ty s =
     (let info = to_fat32 dir s; v = vol info; par = first_cluster info in
      do { (dup, s) \<leftarrow> fat32_lookup dir name s;
           if dup \<noteq> 0 then Some (0, s) else
           let (rc, fat_name) = fat32_str_to_name name in
           if rc \<noteq> 0 then Some (0, s) else
           do { (nc, s) \<leftarrow> (if ty = VFS_DIRECTORY then create_dir_cluster v par s else Some (Some 0, s));
                case nc of None \<Rightarrow> Some (0, s)
                | Some new_cluster \<Rightarrow>
                    do { (slot, s) \<leftarrow> fat32_find_free_dir_slot v par s;
                         if slot < 0 then Some (0, s) else
                         do { let e = fat32_set_entry_cluster new_cluster (zero_dentry\<lparr>fe_name := fat_name,
                                attr := (if ty = VFS_DIRECTORY then FAT32_ATTR_DIRECTORY else FAT32_ATTR_ARCHIVE)\<rparr>);
                              (_, s) \<leftarrow> fat32_write_dir_entry v par (of_int slot) e s;
                              (_, s) \<leftarrow> fat32_sync s;
                              fat32_alloc_node v ty new_cluster par (of_int slot) s } } } })"

definition unlink_visitor :: "u64 \<Rightarrow> u32 \<Rightarrow> u8 list \<Rightarrow> Fat32DirEntry \<Rightarrow> u32 \<Rightarrow> int \<Rightarrow> Fat \<Rightarrow> (int \<times> int \<times> Fat) option" where
  "unlink_visitor v dirc name e idx res s =
     (let f = fat32_entry_filter e in
      if f < 0 then Some (1, res, s) else if f > 0 then Some (0, res, s)
      else if fat32_name_match e name then
        do { s \<leftarrow> (if fat32_entry_cluster e \<noteq> 0 then fat32_free_chain v (fat32_entry_cluster e) s else Some s);
             let e = e\<lparr>fe_name := (fe_name e)[0 := FAT32_DIR_FREE]\<rparr>;
             (_, s) \<leftarrow> fat32_write_dir_entry v dirc idx e s;
             (_, s) \<leftarrow> fat32_sync s;
             Some (1, 0, s) }
      else Some (0, res, s))"

definition fat32_unlink :: "u64 \<Rightarrow> u8 list \<Rightarrow> Fat \<Rightarrow> (int \<times> Fat) option" where
  "fat32_unlink dir name s =
     (let info = to_fat32 dir s in
      do { (rc, res, s) \<leftarrow> fat32_walk_dir (vol info) (unlink_visitor (vol info) (first_cluster info) name) (first_cluster info) 0 (- ENOENT) s;
           Some (if rc < 0 then rc else res, s) })"

text \<open>The entries are stored before the count is compared with the size of the array.\<close>

definition readdir_visitor :: "u32 \<Rightarrow> Fat32DirEntry \<Rightarrow> u32 \<Rightarrow> VfsDirEntry list \<Rightarrow> Fat \<Rightarrow> (int \<times> VfsDirEntry list \<times> Fat) option" where
  "readdir_visitor mx e idx out s =
     (let f = fat32_entry_filter e in
      if f < 0 then Some (1, out, s) else if f > 0 then Some (0, out, s)
      else if fe_name e ! 0 = DOT then Some (0, out, s)
      else if length out \<ge> unat mx then None
      else
        let out = out @ [\<lparr>de_name = fat32_name_to_str e, de_inode_num = ucast (fat32_entry_cluster e),
                          de_type = (if attr e AND FAT32_ATTR_DIRECTORY \<noteq> 0 then VFS_DIRECTORY else VFS_FILE)\<rparr>]
        in Some (if length out \<ge> unat mx then 1 else 0, out, s))"

definition fat32_readdir :: "u64 \<Rightarrow> u32 \<Rightarrow> Fat \<Rightarrow> (int \<times> VfsDirEntry list \<times> Fat) option" where
  "fat32_readdir dir mx s =
     (let info = to_fat32 dir s in
      do { (_, out, s) \<leftarrow> fat32_walk_dir (vol info) (readdir_visitor mx) (first_cluster info) 0 [] s;
           Some (int (length out), out, s) })"

text \<open>Moving \<open>k\<close> clusters along a chain, or to its end.\<close>

fun chain_skip :: "Fat32Volume \<Rightarrow> nat \<Rightarrow> u32 \<Rightarrow> u32 option" where
  "chain_skip V 0 c = Some c"
| "chain_skip V (Suc k) c = (if c = 0 then Some 0 else do { n \<leftarrow> fat32_next_cluster V c; chain_skip V k n })"

definition fat32_truncate :: "u64 \<Rightarrow> u64 \<Rightarrow> Fat \<Rightarrow> Fat option" where
  "fat32_truncate node sz s =
     (let nd = vnodes (fk s) node; ip = private_data nd; info = infos s ip; v = vol info in
      if ntype nd \<noteq> VFS_FILE then Some s else
      do { s \<leftarrow> (if sz = 0 then
                  do { s \<leftarrow> (if first_cluster info \<noteq> 0
                             then do { s \<leftarrow> fat32_free_chain v (first_cluster info) s; Some (iset ip (\<lambda>i. i\<lparr>first_cluster := 0\<rparr>) s) }
                             else Some s);
                       Some (s\<lparr>fk := nset node (\<lambda>n. n\<lparr>nsize := 0\<rparr>) (fk s)\<rparr>) }
                else if sz < nsize nd then
                  do { let bpc = bytes_per_cluster (vols s v);
                       let keep = (ucast sz + bpc - 1) div bpc;
                       c \<leftarrow> chain_skip (vols s v) (unat keep - 1) (first_cluster info);
                       s \<leftarrow> (if c \<noteq> 0 then
                              do { n \<leftarrow> fat32_next_cluster (vols s v) c;
                                   s \<leftarrow> fat_put v (unat c) (FAT32_EOC AND FAT32_ENTRY_MASK) s;
                                   if n \<noteq> 0 then fat32_free_chain v n s else Some s }
                            else Some s);
                       Some (s\<lparr>fk := nset node (\<lambda>n. n\<lparr>nsize := sz\<rparr>) (fk s)\<rparr>) }
                else Some s);
           update_dentry node s })"

section \<open>Mounting\<close>

definition read_bpb :: "u8 list \<Rightarrow> Fat32Bpb option" where
  "read_bpb d =
     do { bps \<leftarrow> rd16 d 11; spc \<leftarrow> arr_get d 13; res \<leftarrow> rd16 d 14; nf \<leftarrow> arr_get d 16; re \<leftarrow> rd16 d 17;
          ts \<leftarrow> rd32 d 32; fs \<leftarrow> rd32 d 36; rc \<leftarrow> rd32 d 44;
          Some \<lparr>bpb_bytes_per_sector = bps, bpb_sectors_per_cluster = spc, bpb_reserved_sectors = res, bpb_num_fats = nf,
                bpb_root_entry_count = re, bpb_total_sectors_32 = ts, bpb_fat_size_32 = fs, bpb_root_cluster = rc\<rparr> }"

fun words_of :: "u8 list \<Rightarrow> u32 list" where
  "words_of (a # b # c # d # xs) =
     (ucast a OR push_bit 8 (ucast b) OR push_bit 16 (ucast c) OR push_bit 24 (ucast d)) # words_of xs"
| "words_of _ = []"

text \<open>Reading the table into a buffer of \<open>lim\<close> bytes, one sector at a time; \<open>Inl\<close> is a failed read.\<close>

definition load_fat :: "u64 \<Rightarrow> u32 \<Rightarrow> u32 \<Rightarrow> nat \<Rightarrow> Fat \<Rightarrow> (unit + u8 list) option" where
  "load_fat d start n lim s =
     for_ret (\<lambda>i acc. let (rc, bs) = blk_read d (ucast (start + of_nat i)) 1 s in
        if rc \<noteq> 0 then Some (Inl ())
        else if length acc + length bs > lim then None else Some (Inr (acc @ bs))) [0..<unat n] []"

definition mount_volume :: "u64 \<Rightarrow> Fat32Bpb \<Rightarrow> Fat32Volume" where
  "mount_volume d b =
     (let spc = bpb_sectors_per_cluster b;
          ds = ucast (bpb_reserved_sectors b) + ucast (bpb_num_fats b) * bpb_fat_size_32 b
      in \<lparr>dev = d, sectors_per_cluster = spc, bytes_per_cluster = ucast spc * 512, fat_start = ucast (bpb_reserved_sectors b),
          data_start = ds, root_cluster = bpb_root_cluster b, total_clusters = (bpb_total_sectors_32 b - ds) div ucast spc,
          fat_ptr = 0, fat = [], fat_sectors = bpb_fat_size_32 b, fat_dirty = False, root_node = 0\<rparr>)"

definition fat32_mount :: "u64 \<Rightarrow> Fat \<Rightarrow> (u64 \<times> Fat) option" where
  "fat32_mount d s =
     (if d = 0 then Some (0, s) else
      let (rc, sec) = blk_read d 0 1 s in
      if rc \<noteq> 0 then Some (0, s) else
      do { b \<leftarrow> read_bpb sec;
           if bpb_bytes_per_sector b \<noteq> 512 \<or> bpb_root_entry_count b \<noteq> 0 \<or> bpb_fat_size_32 b = 0 \<or> bpb_sectors_per_cluster b = 0
           then Some (0, s) else
           do { (v, s) \<leftarrow> fat_alloc SIZEOF_Fat32Volume GFP_ZERO s;
                if v = 0 then Some (0, s) else
                do { let V = mount_volume d b;
                     let fbytes = fat_sectors V * 512;
                     (fp, s) \<leftarrow> fat_alloc (ucast fbytes) 0 s;
                     if fp = 0 then do { s \<leftarrow> fat_free v s; Some (0, s) } else
                     do { r \<leftarrow> load_fat d (fat_start V) (fat_sectors V) (unat fbytes) s;
                          case r of Inl _ \<Rightarrow> do { s \<leftarrow> fat_free fp s; s \<leftarrow> fat_free v s; Some (0, s) }
                          | Inr bs \<Rightarrow>
                              do { let s = vset v (\<lambda>_. V\<lparr>fat_ptr := fp, fat := words_of bs\<rparr>) s;
                                   (root, s) \<leftarrow> fat32_alloc_node v VFS_DIRECTORY (root_cluster V) 0 0 (s\<lparr>node_cache := []\<rparr>);
                                   if root = 0 then do { s \<leftarrow> fat_free fp s; s \<leftarrow> fat_free v s; Some (0, s) }
                                   else Some (root, vset v (\<lambda>V. V\<lparr>root_node := root\<rparr>) s) } } } } })"

end
