(* ===== verification/Fat32_Chain.thy ===== *)
theory Fat32_Chain
  imports Fat32
begin

text \<open>
  The contents of FAT32 files (\<^verbatim>\<open>fat32_read_chain\<close> and \<^verbatim>\<open>fat32_write_chain\<close> of \<^verbatim>\<open>kernel/fs/fat32.c\<close>).  A chain of
  the table is a list of cluster numbers, and the file is the list of the bytes of its clusters: reading
  takes a slice of that list, writing replaces a range of it after growing the chain by as many free
  clusters as the range needs, and every other chain keeps its clusters and its bytes.
\<close>

section \<open>Clusters of a volume\<close>

text \<open>
  A well-formed volume: the cached table covers all clusters, the data region does not wrap around
  and can be transferred, and every sector of the disk has 512 bytes.
\<close>

abbreviation bpc :: "Fat32Volume \<Rightarrow> nat" where "bpc V \<equiv> unat (bytes_per_cluster V)"

definition vol_ok :: "Fat \<Rightarrow> u64 \<Rightarrow> bool" where
  "vol_ok s v \<longleftrightarrow>
     (let V = vols s v; spc = unat (sectors_per_cluster V); ds = unat (data_start V); tc = unat (total_clusters V) in
      spc \<noteq> 0 \<and> bytes_per_cluster V = ucast (sectors_per_cluster V) * 512 \<and>
      tc + 2 \<le> length (fat V) \<and> tc + 2 \<le> 0x0FFFFFF7 \<and> ds + tc * spc < 2 ^ 32 \<and>
      (\<forall>sec. length (disk s (dev V) sec) = SECTOR_SIZE) \<and>
      (\<forall>k. ds \<le> k \<and> k < ds + tc * spc \<longrightarrow> \<not> io_error s (dev V) (of_nat k)))"

definition in_range :: "Fat32Volume \<Rightarrow> u32 \<Rightarrow> bool" where
  "in_range V c \<longleftrightarrow> 2 \<le> unat c \<and> unat c < unat (total_clusters V) + 2"

definition cdata :: "Fat \<Rightarrow> u64 \<Rightarrow> u32 \<Rightarrow> u8 list" where
  "cdata s v c = snd (fat32_read_cluster v c s)"

definition cbytes :: "Fat \<Rightarrow> u64 \<Rightarrow> u32 list \<Rightarrow> u8 list" where
  "cbytes s v cs = concat (map (cdata s v) cs)"

lemma unat_ucast_8_32 [simp]: "unat (ucast (x :: u8) :: u32) = unat x"
  using unsigned_less [of x, where 'a = nat] by (simp add: unsigned_ucast_eq take_bit_nat_eq_self)

lemma bpc_spc: "vol_ok s v \<Longrightarrow> bpc (vols s v) = unat (sectors_per_cluster (vols s v)) * 512"
  using unsigned_less [of "sectors_per_cluster (vols s v)", where 'a = nat]
  by (simp add: vol_ok_def Let_def unat_mult_no_overflow)

lemma bpc_bounds: "vol_ok s v \<Longrightarrow> 512 \<le> bpc (vols s v) \<and> bpc (vols s v) \<le> 130560"
  using unsigned_less [of "sectors_per_cluster (vols s v)", where 'a = nat] bpc_spc [of s v]
  by (auto simp: vol_ok_def Let_def)

lemma cluster_sector:
  assumes "vol_ok s v" "in_range (vols s v) c"
  defines "V \<equiv> vols s v"
  shows "unat (ucast (cluster_to_sector V c) :: u64) = unat (data_start V) + (unat c - 2) * unat (sectors_per_cluster V)"
    and "(unat c - 2) * unat (sectors_per_cluster V) + unat (sectors_per_cluster V) \<le> unat (total_clusters V) * unat (sectors_per_cluster V)"
proof -
  have c: "unat (c - 2) = unat c - 2" using assms(2) by (simp add: in_range_def unat_sub_if')
  have le: "Suc (unat c - 2) \<le> unat (total_clusters V)" using assms(2) unfolding in_range_def V_def by linarith
  show lim: "(unat c - 2) * unat (sectors_per_cluster V) + unat (sectors_per_cluster V) \<le> unat (total_clusters V) * unat (sectors_per_cluster V)"
    using mult_le_mono1 [OF le, of "unat (sectors_per_cluster V)"] by simp
  have lt: "unat (data_start V) + (unat c - 2) * unat (sectors_per_cluster V) < 2 ^ 32"
    using assms(1) lim by (auto simp: vol_ok_def Let_def V_def)
  then have "unat ((c - 2) * ucast (sectors_per_cluster V)) = (unat c - 2) * unat (sectors_per_cluster V)"
    by (subst unat_mult_no_overflow) (simp_all add: c)
  then show "unat (ucast (cluster_to_sector V c) :: u64) = unat (data_start V) + (unat c - 2) * unat (sectors_per_cluster V)"
    using lt by (simp add: cluster_to_sector_def unat_plus_no_overflow)
qed

lemma cluster_io:
  assumes "vol_ok s v" "in_range (vols s v) c" "k < unat (sectors_per_cluster (vols s v))"
  shows "\<not> io_error s (dev (vols s v)) (ucast (cluster_to_sector (vols s v) c) + of_nat k)"
proof -
  let ?V = "vols s v"
  let ?x = "(ucast (cluster_to_sector ?V c) + of_nat k :: u64)"
  have k: "k < 256" using assms(3) unsigned_less [of "sectors_per_cluster ?V", where 'a = nat] by simp
  have "?x = of_nat (unat (ucast (cluster_to_sector ?V c) :: u64) + k)" by simp
  moreover have "unat (data_start ?V) \<le> unat (ucast (cluster_to_sector ?V c) :: u64) + k \<and>
      unat (ucast (cluster_to_sector ?V c) :: u64) + k < unat (data_start ?V) + unat (total_clusters ?V) * unat (sectors_per_cluster ?V)"
    using cluster_sector [OF assms(1,2)] assms(3) by simp
  ultimately show ?thesis using assms(1) unfolding vol_ok_def Let_def by metis
qed

lemma length_concat_const: "(\<And>x. x \<in> set xs \<Longrightarrow> length (f x) = n) \<Longrightarrow> length (concat (map f xs)) = n * length xs"
  by (induction xs) simp_all

lemma read_cluster_ok:
  assumes "vol_ok s v" "in_range (vols s v) c"
  shows "fat32_read_cluster v c s = (0, cdata s v c)" and "length (cdata s v c) = bpc (vols s v)"
    and "cdata s v c = concat (map (\<lambda>k. disk s (dev (vols s v)) (ucast (cluster_to_sector (vols s v) c) + of_nat k))
       [0..<unat (sectors_per_cluster (vols s v))])"
proof -
  have no: "\<not> list_ex (\<lambda>k. io_error s (dev (vols s v)) (ucast (cluster_to_sector (vols s v) c) + of_nat k))
      [0..<unat (sectors_per_cluster (vols s v))]"
    using cluster_io [OF assms] by (auto simp: list_ex_iff)
  then show r: "fat32_read_cluster v c s = (0, cdata s v c)"
    by (simp add: cdata_def fat32_read_cluster_def blk_read_def Let_def)
  show c: "cdata s v c = concat (map (\<lambda>k. disk s (dev (vols s v)) (ucast (cluster_to_sector (vols s v) c) + of_nat k))
       [0..<unat (sectors_per_cluster (vols s v))])"
    using no by (simp add: cdata_def fat32_read_cluster_def blk_read_def Let_def)
  show "length (cdata s v c) = bpc (vols s v)"
    unfolding c bpc_spc [OF assms(1)] using assms(1)
    by (subst length_concat_const [where n = 512]) (auto simp: vol_ok_def Let_def)
qed

lemma fold_update:
  fixes sec :: u64
  assumes "n \<le> 2 ^ 64"
  shows "fold (\<lambda>k f. f(sec + of_nat k := g k)) [0..<n] f x = (if unat (x - sec) < n then g (unat (x - sec)) else f x)"
  using assms
proof (induction n)
  case 0
  then show ?case by simp
next
  case (Suc n)
  have n: "unat (of_nat n :: u64) = n" using Suc.prems by (intro unat_of_nat_less) simp
  have "x = sec + of_nat n \<longleftrightarrow> unat (x - sec) = n"
    using n by (metis add_diff_cancel_left' diff_add_cancel add.commute word_unat_eq_iff)
  then show ?case using Suc by auto
qed

lemma concat_slices: "length bs = m * n \<Longrightarrow> concat (map (\<lambda>k. take m (drop (m * k) bs)) [0..<n]) = bs"
proof (induction n arbitrary: bs)
  case (Suc n)
  have "map (\<lambda>k. take m (drop (m * k) bs)) [0..<Suc n] =
      take m bs # map (\<lambda>k. take m (drop (m * k) (drop m bs))) [0..<n]"
    by (simp add: map_upt_Suc add.commute del: upt_Suc)
  then show ?case using Suc.IH [of "drop m bs"] Suc.prems by simp
qed simp

text \<open>Sectors of different clusters are different.\<close>

lemma cluster_sectors_apart:
  assumes "vol_ok s v" "in_range (vols s v) c" "in_range (vols s v) d" "d \<noteq> c"
    and "k < unat (sectors_per_cluster (vols s v))"
  shows "\<not> unat (ucast (cluster_to_sector (vols s v) d) + of_nat k - ucast (cluster_to_sector (vols s v) c) :: u64) < unat (sectors_per_cluster (vols s v))"
proof -
  let ?V = "vols s v" and ?n = "unat (sectors_per_cluster (vols s v))"
  define C D where "C = (ucast (cluster_to_sector ?V c) :: u64)" and "D = (ucast (cluster_to_sector ?V d) :: u64)"
  have uC: "unat C = unat (data_start ?V) + (unat c - 2) * ?n" and uD: "unat D = unat (data_start ?V) + (unat d - 2) * ?n"
    using cluster_sector(1) [OF assms(1,2)] cluster_sector(1) [OF assms(1,3)] by (simp_all add: C_def D_def)
  have n: "?n < 256" using unsigned_less [of "sectors_per_cluster ?V", where 'a = nat] by simp
  have lim: "unat C + ?n < 2 ^ 32" "unat D + ?n < 2 ^ 32"
    using uC uD cluster_sector(2) [OF assms(1,2)] cluster_sector(2) [OF assms(1,3)] assms(1) by (auto simp: vol_ok_def Let_def)
  have uk: "unat (D + of_nat k) = unat D + k"
    using lim(2) assms(5) n by (subst unat_plus_no_overflow) (simp_all add: unat_of_nat_less)
  have "unat c \<noteq> unat d" using assms(4) by (simp add: word_unat_eq_iff)
  then consider "Suc (unat c - 2) \<le> unat d - 2" | "Suc (unat d - 2) \<le> unat c - 2"
    using assms(2,3) unfolding in_range_def by linarith
  then show ?thesis
  proof cases
    case 1
    then have "(unat c - 2) * ?n + ?n \<le> (unat d - 2) * ?n" using mult_le_mono1 [OF 1, of ?n] by simp
    then show ?thesis using uC uD uk unfolding C_def [symmetric] D_def [symmetric] by (simp add: unat_sub_if')
  next
    case 2
    then have "(unat d - 2) * ?n + ?n \<le> (unat c - 2) * ?n" using mult_le_mono1 [OF 2, of ?n] by simp
    then have "unat D + k < unat C" using uC uD assms(5) by simp
    then show ?thesis using uk lim n unfolding C_def [symmetric] D_def [symmetric] by (simp add: unat_sub_if')
  qed
qed

lemma write_cluster_ok:
  assumes ok: "vol_ok s v" and c: "in_range (vols s v) c" and len: "length bs = bpc (vols s v)"
  shows "\<exists>D. fat32_write_cluster v c bs s = (0, s\<lparr>disk := (disk s)(dev (vols s v) := D)\<rparr>) \<and>
     vol_ok (s\<lparr>disk := (disk s)(dev (vols s v) := D)\<rparr>) v \<and>
     (\<forall>d. in_range (vols s v) d \<longrightarrow> cdata (s\<lparr>disk := (disk s)(dev (vols s v) := D)\<rparr>) v d = (if d = c then bs else cdata s v d))"
proof -
  let ?V = "vols s v" and ?n = "unat (sectors_per_cluster (vols s v))"
  let ?sec = "ucast (cluster_to_sector ?V c) :: u64"
  define D where "D = fold (\<lambda>k f. f(?sec + of_nat k := take 512 (drop (512 * k) bs))) [0..<?n] (disk s (dev ?V))"
  let ?s' = "s\<lparr>disk := (disk s)(dev ?V := D)\<rparr>"
  have n: "?n < 256" using unsigned_less [of "sectors_per_cluster ?V", where 'a = nat] by simp
  have D: "D x = (if unat (x - ?sec) < ?n then take 512 (drop (512 * unat (x - ?sec)) bs) else disk s (dev ?V) x)" for x
    unfolding D_def using n by (intro fold_update) simp
  have bs: "length bs = 512 * ?n" using len bpc_spc [OF ok] by simp
  have "length (take 512 (drop (512 * k) bs)) = 512" if "k < ?n" for k using that bs by simp
  then have ok': "vol_ok ?s' v" using ok by (auto simp: vol_ok_def Let_def D)
  have w: "fat32_write_cluster v c bs s = (0, ?s')"
    using cluster_io [OF ok c] by (auto simp: fat32_write_cluster_def blk_write_def Let_def D_def list_ex_iff)
  have "cdata ?s' v d = (if d = c then bs else cdata s v d)" if d: "in_range ?V d" for d
  proof -
    have e: "cdata ?s' v d = concat (map (\<lambda>k. D (ucast (cluster_to_sector ?V d) + of_nat k)) [0..<?n])"
      using read_cluster_ok(3) [OF ok', of d] d by simp
    show ?thesis
    proof (cases "d = c")
      case True
      have "D (ucast (cluster_to_sector ?V d) + of_nat k) = take 512 (drop (512 * k) bs)" if "k < ?n" for k
        using that n True by (simp add: D unat_of_nat_less)
      then have "cdata ?s' v d = concat (map (\<lambda>k. take 512 (drop (512 * k) bs)) [0..<?n])"
        unfolding e by (intro arg_cong [where f = concat] map_cong) simp_all
      then show ?thesis using concat_slices [OF bs] True by simp
    next
      case False
      have "D (ucast (cluster_to_sector ?V d) + of_nat k) = disk s (dev ?V) (ucast (cluster_to_sector ?V d) + of_nat k)" if "k < ?n" for k
        using cluster_sectors_apart [OF ok c d False that] by (simp add: D)
      then have "cdata ?s' v d = cdata s v d"
        unfolding e read_cluster_ok(3) [OF ok d] by (intro arg_cong [where f = concat] map_cong) simp_all
      then show ?thesis using False by simp
    qed
  qed
  then show ?thesis using w ok' by blast
qed

section \<open>Chains\<close>

definition nxt :: "Fat32Volume \<Rightarrow> u32 \<Rightarrow> u32" where
  "nxt V c = (let e = fat V ! unat c AND FAT32_ENTRY_MASK in if e \<ge> FAT32_EOC \<or> e = FAT32_BAD_CLUSTER then 0 else e)"

fun chain :: "Fat32Volume \<Rightarrow> u32 \<Rightarrow> u32 list \<Rightarrow> bool" where
  "chain V c [] \<longleftrightarrow> c = 0"
| "chain V c (d # ds) \<longleftrightarrow> c = d \<and> in_range V d \<and> chain V (nxt V d) ds"

lemma next_cluster_nxt: "unat c < length (fat V) \<Longrightarrow> fat32_next_cluster V c = Some (nxt V c)"
  by (simp add: fat32_next_cluster_def nxt_def Let_def)

lemma next_in_range: "vol_ok s v \<Longrightarrow> in_range (vols s v) c \<Longrightarrow> fat32_next_cluster (vols s v) c = Some (nxt (vols s v) c)"
  by (rule next_cluster_nxt) (auto simp: vol_ok_def Let_def in_range_def)

lemma in_range_nonzero: "in_range V c \<Longrightarrow> c \<noteq> 0"
  by (auto simp: in_range_def)

lemma zero_not_in_range [simp]: "\<not> in_range V 0"
  by (simp add: in_range_def)

lemma chain_range: "chain V c cs \<Longrightarrow> d \<in> set cs \<Longrightarrow> in_range V d"
  by (induction cs arbitrary: c) auto

lemma chain_hd: "chain V c cs \<Longrightarrow> c = (if cs = [] then 0 else hd cs)"
  by (cases cs) auto

lemma chain_drop: "chain V c (xs @ d # ys) \<Longrightarrow> chain V d (d # ys)"
  by (induction xs arbitrary: c) auto

lemma chain_unique: "chain V c xs \<Longrightarrow> chain V c ys \<Longrightarrow> xs = ys"
proof (induction xs arbitrary: c ys)
  case Nil
  then show ?case by (cases ys) (auto dest: in_range_nonzero)
next
  case (Cons x xs)
  then show ?case by (cases ys) (auto dest: in_range_nonzero)
qed

lemma chain_distinct: "chain V c cs \<Longrightarrow> distinct cs"
proof (induction cs arbitrary: c)
  case (Cons d ds)
  have "d \<notin> set ds"
  proof
    assume "d \<in> set ds"
    then obtain a b where ab: "ds = a @ d # b" by (auto dest: split_list)
    have "chain V d (d # b)" using chain_drop [of V c "d # a" d b] Cons.prems ab by simp
    then have "d # b = d # ds" using chain_unique Cons.prems by fastforce
    then show False using ab by simp
  qed
  then show ?case using Cons by auto
qed simp

lemma fat_chain_cong:
  assumes "chain V c cs" "total_clusters V' = total_clusters V" "\<And>d. d \<in> set cs \<Longrightarrow> fat V' ! unat d = fat V ! unat d"
  shows "chain V' c cs"
  using assms
proof (induction cs arbitrary: c)
  case (Cons d ds)
  then have "nxt V' d = nxt V d" by (simp add: nxt_def)
  then show ?case using Cons by (auto simp: in_range_def)
qed simp

lemma length_cbytes: "vol_ok s v \<Longrightarrow> chain (vols s v) c cs \<Longrightarrow> length (cbytes s v cs) = bpc (vols s v) * length cs"
  unfolding cbytes_def by (rule length_concat_const) (auto intro: read_cluster_ok(2) chain_range)

section \<open>Reading a chain\<close>

lemma word_small: "n < 2 ^ 32 \<Longrightarrow> unat (of_nat n :: u32) = n"
  by (intro unat_of_nat_less) simp

lemma skip_read_spec:
  assumes "vol_ok s v" "chain (vols s v) c cs" "k \<le> unat off div bpc (vols s v)" "unat off + bpc (vols s v) < 2 ^ 32"
  defines "B \<equiv> bpc (vols s v)" and "q \<equiv> unat off div bpc (vols s v)"
  shows "skip_read (vols s v) off c (of_nat (B * k)) =
     Some (if length cs \<le> q - k then 0 else cs ! (q - k), of_nat (B * (k + min (q - k) (length cs))))"
  using assms(2,3)
proof (induction cs arbitrary: c k)
  case Nil
  then show ?case by (simp add: skip_read.simps)
next
  case (Cons d ds)
  let ?V = "vols s v"
  have B: "0 < B" using bpc_bounds [OF assms(1)] by (simp add: B_def)
  have d: "c = d" "in_range ?V d" "chain ?V (nxt ?V d) ds" using Cons.prems(1) by auto
  have Bq: "B * q \<le> unat off" "unat off < B * q + B" unfolding B_def q_def
    using B dividend_less_times_div [of B "unat off"] by (simp_all add: B_def)
  have Bk: "B * k \<le> B * q" using Cons.prems(2) by (simp add: q_def)
  have u1: "unat (of_nat (B * k) :: u32) = B * k" using Bk Bq(1) assms(4) by (intro word_small) linarith
  have "B * k + B < 2 ^ 32" using Bk Bq(1) assms(4) unfolding B_def [symmetric] by linarith
  then have "unat (of_nat (B * k) + bytes_per_cluster ?V) = B * k + B"
    using unat_plus_no_overflow [of "of_nat (B * k)" "bytes_per_cluster ?V"] by (simp only: u1 B_def [symmetric]) simp
  then have cond: "of_nat (B * k) + bytes_per_cluster ?V \<le> off \<longleftrightarrow> B * Suc k \<le> unat off" by (simp add: word_le_nat_alt add.commute)
  have step: "of_nat (B * k) + bytes_per_cluster ?V = (of_nat (B * Suc k) :: u32)" by (simp add: B_def add.commute)
  show ?case
  proof (cases "k < q")
    case True
    then have "B * Suc k \<le> B * q" by (intro mult_le_mono2) simp
    then have "B * Suc k \<le> unat off" using Bq by simp
    then have "skip_read ?V off c (of_nat (B * k)) = skip_read ?V off (nxt ?V d) (of_nat (B * Suc k))"
      using cond step d in_range_nonzero next_in_range [OF assms(1) d(2)] by (subst skip_read.simps) (simp add: ac_simps)
    moreover have "q - k = Suc (q - Suc k)" using True by simp
    ultimately show ?thesis using Cons.IH [OF d(3), of "Suc k"] True by (simp add: q_def)
  next
    case False
    then have "k = q" using Cons.prems(2) by (simp add: q_def)
    then have "\<not> B * Suc k \<le> unat off" using Bq by simp
    then show ?thesis using cond d \<open>k = q\<close> by (subst skip_read.simps) simp
  qed
qed

lemma read_loop_spec:
  assumes ok: "vol_ok s v" and lim: "unat off + unat sz + bpc (vols s v) < 2 ^ 31"
    and "chain (vols s v) c cs" "length acc \<le> unat sz" "unat off < bpc (vols s v) * Suc k"
    and "length acc < unat sz \<longrightarrow> bpc (vols s v) * k \<le> unat off + length acc"
  shows "\<exists>r. read_loop v off sz s c (of_nat (bpc (vols s v) * k)) acc = Some (int (length r), r) \<and>
     r = acc @ take (unat sz - length acc) (drop (unat off - bpc (vols s v) * k) (cbytes s v cs))"
  using assms(3-6)
proof (induction cs arbitrary: c k acc)
  case Nil
  have "length acc < 2 ^ 31" using Nil.prems(2) lim by simp
  then have "sint (of_nat (length acc) :: u32) = int (length acc)" by (subst sint_32_small) (simp_all add: word_small)
  then show ?case using Nil.prems(1) by (simp add: read_loop.simps cbytes_def Let_def)
next
  case (Cons d ds)
  let ?V = "vols s v" and ?B = "bpc (vols s v)"
  have d: "c = d" "in_range ?V d" "chain ?V (nxt ?V d) ds" using Cons.prems(1) by auto
  have la: "unat (of_nat (length acc) :: u32) = length acc" using Cons.prems(2) lim by (intro word_small) simp
  show ?case
  proof (cases "length acc < unat sz")
    case False
    then have "sint (of_nat (length acc) :: u32) = int (length acc)"
      using la lim Cons.prems(2) by (subst sint_32_small) simp_all
    moreover have "\<not> of_nat (length acc) < sz" using False la by (simp add: word_less_nat_alt)
    ultimately show ?thesis using False by (subst read_loop.simps) (simp add: Let_def)
  next
    case True
    have kB: "?B * k \<le> unat off + length acc" using Cons.prems(4) True by simp
    define o1 where "o1 = unat off - ?B * k"
    define n1 where "n1 = min (unat sz - length acc) (?B - o1)"
    have "unat off + unat sz + ?B < 4294967296" using lim by simp
    then have "?B * k < 4294967296" using kB Cons.prems(2) by linarith
    then have uk: "unat (of_nat (?B * k) :: u32) = ?B * k" by (intro word_small) simp
    have o1: "unat (in_cluster_off off (of_nat (?B * k))) = o1"
      using uk by (simp add: in_cluster_off_def o1_def word_less_nat_alt unat_sub_if')
    have o1B: "o1 < ?B" using Cons.prems(3) unfolding o1_def by (cases "?B * k \<le> unat off") (use bpc_bounds [OF ok] in auto)
    have n1: "unat (copy_len ?V off (of_nat (?B * k)) sz (of_nat (length acc))) = n1"
      using o1 o1B True la by (auto simp: copy_len_def Let_def n1_def word_less_nat_alt unat_sub_if' min_def)
    have part: "rd_bytes (cdata s v d) o1 n1 = Some (take n1 (drop o1 (cdata s v d)))"
      using read_cluster_ok(2) [OF ok d(2)] o1B by (simp add: rd_bytes_def n1_def)
    let ?acc = "acc @ take n1 (drop o1 (cdata s v d))"
    have lacc: "length ?acc = length acc + n1" using read_cluster_ok(2) [OF ok d(2)] o1B by (simp add: n1_def)
    have step: "of_nat (?B * k) + bytes_per_cluster ?V = (of_nat (?B * Suc k) :: u32)" by (simp add: add.commute)
    have "read_loop v off sz s c (of_nat (?B * k)) acc = read_loop v off sz s (nxt ?V d) (of_nat (?B * Suc k)) ?acc"
      using True la d read_cluster_ok(1) [OF ok d(2)] next_in_range [OF ok d(2)] o1 n1 part step in_range_nonzero [OF d(2)]
      by (subst read_loop.simps) (simp add: Let_def word_less_nat_alt ac_simps)
    moreover have "\<exists>r. read_loop v off sz s (nxt ?V d) (of_nat (?B * Suc k)) ?acc = Some (int (length r), r) \<and>
       r = ?acc @ take (unat sz - length ?acc) (drop (unat off - ?B * Suc k) (cbytes s v ds))"
    proof (rule Cons.IH [OF d(3)])
      have "n1 \<le> unat sz - length acc" by (simp add: n1_def)
      then show "length ?acc \<le> unat sz" using lacc True by linarith
      show "unat off < ?B * Suc (Suc k)" using Cons.prems(3) by simp
      show "length ?acc < unat sz \<longrightarrow> ?B * Suc k \<le> unat off + length ?acc"
      proof
        assume "length ?acc < unat sz"
        then have "n1 = ?B - o1" using lacc unfolding n1_def by linarith
        then show "?B * Suc k \<le> unat off + length ?acc" using lacc o1B kB o1_def mult_Suc_right [of ?B k] by linarith
      qed
    qed
    moreover have "take (unat sz - length acc) (drop o1 (cbytes s v (d # ds))) =
        take n1 (drop o1 (cdata s v d)) @ take (unat sz - length ?acc) (drop (unat off - ?B * Suc k) (cbytes s v ds))"
    proof -
      have m: "unat sz - length ?acc = unat sz - length acc - (?B - o1)" using lacc unfolding n1_def by linarith
      have "take n1 (drop o1 (cdata s v d)) = take (unat sz - length acc) (drop o1 (cdata s v d))"
        using read_cluster_ok(2) [OF ok d(2)] by (simp add: n1_def min_def)
      then show ?thesis unfolding m using read_cluster_ok(2) [OF ok d(2)] o1B Cons.prems(3) by (simp add: cbytes_def)
    qed
    ultimately show ?thesis by (simp add: o1_def)
  qed
qed

text \<open>A temporary buffer: if it can be allocated, it can be released afterwards.\<close>

abbreviation fheap :: "Fat \<Rightarrow> kheap" where "fheap s \<equiv> k_heap (fk s)"

definition same_but_heap :: "Fat \<Rightarrow> Fat \<Rightarrow> bool" where
  "same_but_heap s s' \<longleftrightarrow> (\<exists>h. s' = s\<lparr>fk := (fk s)\<lparr>k_heap := h\<rparr>\<rparr>)"

lemma same_but_heap_sel:
  "same_but_heap s s' \<Longrightarrow> vols s' = vols s \<and> disk s' = disk s \<and> io_error s' = io_error s \<and> infos s' = infos s \<and>
     node_cache s' = node_cache s \<and> next_fat_inode s' = next_fat_inode s \<and> vnodes (fk s') = vnodes (fk s)"
  by (auto simp: same_but_heap_def)

lemma buffer:
  assumes "heap_owns R (fheap s) L" "heap_ready n (fheap s)"
  shows "\<exists>p s1. fat_alloc n fl s = Some (p, s1) \<and> same_but_heap s s1 \<and>
     (p = 0 \<longrightarrow> heap_owns R (fheap s1) L) \<and>
     (p \<noteq> 0 \<longrightarrow> (\<forall>s2. fheap s2 = fheap s1 \<longrightarrow> (\<exists>s3. fat_free p s2 = Some s3 \<and> same_but_heap s2 s3 \<and> heap_owns R (fheap s3) L)))"
proof -
  obtain p h L' where m: "kmalloc n fl (fheap s) = Some (p, h)" "heap_owns R h L'" "p = 0 \<longrightarrow> L' = L"
    using kmem.malloc_ok [OF assms] by blast
  let ?s1 = "s\<lparr>fk := (fk s)\<lparr>k_heap := h\<rparr>\<rparr>"
  have "\<exists>s3. fat_free p s2 = Some s3 \<and> same_but_heap s2 s3 \<and> heap_owns R (fheap s3) L" if p: "p \<noteq> 0" and s2: "fheap s2 = h" for s2
  proof -
    obtain h' where "kfree p h = Some h'" "heap_owns R h' L" using kmem.malloc_release [OF assms m(1) p] by blast
    then show ?thesis using s2 by (auto simp: fat_free_def k_free_def same_but_heap_def)
  qed
  then show ?thesis using m by (intro exI [of _ p] exI [of _ ?s1]) (auto simp: fat_alloc_def k_alloc_def same_but_heap_def)
qed

lemma vol_ok_heap: "same_but_heap s s' \<Longrightarrow> vol_ok s' v = vol_ok s v"
  by (auto simp: vol_ok_def same_but_heap_def)

lemma cdata_heap: "same_but_heap s s' \<Longrightarrow> cdata s' v = cdata s v"
  by (auto simp: fun_eq_iff cdata_def fat32_read_cluster_def blk_read_def same_but_heap_def Let_def cong: if_cong)

lemma fat32_read_chain_spec:
  assumes ok: "vol_ok s v" and ch: "chain (vols s v) c cs" and lim: "unat off + unat sz + bpc (vols s v) < 2 ^ 31"
    and heap: "heap_owns R (fheap s) L" "heap_ready (ucast (bytes_per_cluster (vols s v))) (fheap s)"
  shows "\<exists>r bs s'. fat32_read_chain v c off sz s = Some (r, bs, s') \<and> same_but_heap s s' \<and> heap_owns R (fheap s') L \<and>
     (r = int (length bs) \<and> bs = take (unat sz) (drop (unat off) (cbytes s v cs)) \<or> r = - ENOMEM)"
proof (cases "c = 0")
  case True
  then have "cs = []" using ch by (cases cs) (auto dest: in_range_nonzero)
  then show ?thesis using True heap by (auto simp: fat32_read_chain_def cbytes_def same_but_heap_def intro!: exI [of _ "fheap s"])
next
  case False
  let ?V = "vols s v" and ?B = "bpc (vols s v)"
  obtain p s1 where a: "fat_alloc (ucast (bytes_per_cluster ?V)) 0 s = Some (p, s1)" "same_but_heap s s1"
    "p = 0 \<longrightarrow> heap_owns R (fheap s1) L"
    "p \<noteq> 0 \<longrightarrow> (\<forall>s2. fheap s2 = fheap s1 \<longrightarrow> (\<exists>s3. fat_free p s2 = Some s3 \<and> same_but_heap s2 s3 \<and> heap_owns R (fheap s3) L))"
    using buffer [OF heap, of 0] by blast
  show ?thesis
  proof (cases "p = 0")
    case True
    then show ?thesis using a False by (simp add: fat32_read_chain_def)
  next
    case p: False
    have ok1: "vol_ok s1 v" and V1: "vols s1 = vols s" using ok a(2) by (simp_all add: vol_ok_heap same_but_heap_sel)
    have cb: "cbytes s1 v = cbytes s v" using cdata_heap [OF a(2), of v] by (simp add: cbytes_def [abs_def])
    define q where "q = unat off div ?B"
    have B: "0 < ?B" using bpc_bounds [OF ok] by simp
    have off: "unat off < ?B * Suc q" "?B * q \<le> unat off" using dividend_less_times_div [OF B, of "unat off"] by (simp_all add: q_def)
    have lim': "unat off + ?B < 2 ^ 32" using lim by simp
    have sk: "skip_read ?V off c 0 = Some (if length cs \<le> q then 0 else cs ! q, of_nat (?B * min q (length cs)))"
      using skip_read_spec [OF ok ch, of 0 off] lim' by (simp add: q_def)
    have ch': "chain ?V (if length cs \<le> q then 0 else cs ! q) (drop q cs)"
    proof (cases "length cs \<le> q")
      case False
      then have "chain ?V (cs ! q) (cs ! q # drop (Suc q) cs)"
        using chain_drop [of ?V c "take q cs" "cs ! q" "drop (Suc q) cs"] ch by (simp add: id_take_nth_drop [symmetric])
      then show ?thesis using False by (simp add: Cons_nth_drop_Suc)
    qed simp
    have "\<exists>bs. read_loop v off sz s1 (if length cs \<le> q then 0 else cs ! q) (of_nat (?B * min q (length cs))) [] = Some (int (length bs), bs) \<and>
        bs = take (unat sz) (drop (unat off) (cbytes s v cs))"
    proof (cases "length cs \<le> q")
      case True
      have "?B * length cs \<le> ?B * q" using True by simp
      then have "length (cbytes s v cs) \<le> unat off" using length_cbytes [OF ok ch] off(2) by linarith
      then show ?thesis using True by (simp add: read_loop.simps Let_def)
    next
      case False
      have "cbytes s v cs = cbytes s v (take q cs) @ cbytes s v (drop q cs)"
        by (simp add: cbytes_def map_append [symmetric] concat_append [symmetric] del: map_append concat_append)
      moreover have "length (cbytes s v (take q cs)) = ?B * q"
        unfolding cbytes_def using False ch ok
        by (subst length_concat_const [where n = ?B]) (auto intro: read_cluster_ok(2) chain_range dest: in_set_takeD)
      ultimately show ?thesis
        using read_loop_spec [OF ok1, of off sz "cs ! q" "drop q cs" "[]" q] ch' off lim False by (simp add: V1 cb min_def)
    qed
    then obtain bs where bs: "read_loop v off sz s1 (if length cs \<le> q then 0 else cs ! q) (of_nat (?B * min q (length cs))) [] = Some (int (length bs), bs)"
      "bs = take (unat sz) (drop (unat off) (cbytes s v cs))" by blast
    obtain s3 where s3: "fat_free p s1 = Some s3" "same_but_heap s1 s3" "heap_owns R (fheap s3) L" using a(4) p by blast
    have "same_but_heap s s3" using a(2) s3(2) by (auto simp: same_but_heap_def)
    moreover have "fat32_read_chain v c off sz s = Some (int (length bs), bs, s3)"
      using False p a(1) sk bs(1) s3(1) V1 by (simp add: fat32_read_chain_def)
    ultimately show ?thesis using s3(3) bs(2) by blast
  qed
qed

section \<open>Taking clusters\<close>

definition free_cl :: "Fat32Volume \<Rightarrow> u32 \<Rightarrow> bool" where
  "free_cl V c \<longleftrightarrow> in_range V c \<and> fat V ! unat c AND FAT32_ENTRY_MASK = FAT32_FREE"

text \<open>
  \<open>only v X s s'\<close>: from \<open>s\<close> to \<open>s'\<close> only the table entries and contents of clusters in \<open>X\<close> have changed (and
  perhaps sectors outside the data region).
\<close>

definition only :: "u64 \<Rightarrow> u32 set \<Rightarrow> Fat \<Rightarrow> Fat \<Rightarrow> bool" where
  "only v X s s' \<longleftrightarrow>
     (\<exists>F D dd. s' = s\<lparr>vols := (vols s)(v := (vols s v)\<lparr>fat := F, fat_dirty := dd\<rparr>), disk := (disk s)(dev (vols s v) := D)\<rparr> \<and>
        length F = length (fat (vols s v))) \<and>
     (\<forall>d. in_range (vols s v) d \<and> d \<notin> X \<longrightarrow> fat (vols s' v) ! unat d = fat (vols s v) ! unat d \<and> cdata s' v d = cdata s v d)"

lemma only_sel:
  assumes "only v X s s'"
  shows "fk s' = fk s" "infos s' = infos s" "node_cache s' = node_cache s" "io_error s' = io_error s"
    "total_clusters (vols s' v) = total_clusters (vols s v)" "bytes_per_cluster (vols s' v) = bytes_per_cluster (vols s v)"
    "dev (vols s' v) = dev (vols s v)" "in_range (vols s' v) c = in_range (vols s v) c"
  using assms by (auto simp: only_def in_range_def)

lemma only_refl [simp]: "only v X s s"
  by (auto simp: only_def intro!: exI [of _ "fat (vols s v)"] exI [of _ "disk s (dev (vols s v))"] exI [of _ "fat_dirty (vols s v)"])

lemma only_mono: "only v X s s' \<Longrightarrow> X \<subseteq> Y \<Longrightarrow> only v Y s s'"
  by (auto simp: only_def)

lemma only_trans:
  assumes "only v X s t" "only v Y t u"
  shows "only v (X \<union> Y) s u"
proof -
  obtain F D dd where t: "t = s\<lparr>vols := (vols s)(v := (vols s v)\<lparr>fat := F, fat_dirty := dd\<rparr>), disk := (disk s)(dev (vols s v) := D)\<rparr>"
    "length F = length (fat (vols s v))" using assms(1) by (auto simp: only_def)
  obtain F' D' dd' where u: "u = t\<lparr>vols := (vols t)(v := (vols t v)\<lparr>fat := F', fat_dirty := dd'\<rparr>), disk := (disk t)(dev (vols t v) := D')\<rparr>"
    "length F' = length (fat (vols t v))" using assms(2) by (auto simp: only_def)
  have "u = s\<lparr>vols := (vols s)(v := (vols s v)\<lparr>fat := F', fat_dirty := dd'\<rparr>), disk := (disk s)(dev (vols s v) := D')\<rparr>"
    using t u by simp
  moreover have "length F' = length (fat (vols s v))" using t u by simp
  moreover have "\<forall>d. in_range (vols s v) d \<and> d \<notin> X \<union> Y \<longrightarrow> fat (vols u v) ! unat d = fat (vols s v) ! unat d \<and> cdata u v d = cdata s v d"
    using assms only_sel(8) [OF assms(1)] by (auto simp: only_def)
  ultimately show ?thesis unfolding only_def by blast
qed

lemma mask_put: "((x AND NOT m) OR (e AND m)) AND m = e AND (m :: u32)"
  by (rule bit_word_eqI) (auto simp: bit_and_iff bit_or_iff bit_not_iff)

lemma range_mask:
  assumes "vol_ok s v" "in_range (vols s v) c"
  shows "c AND FAT32_ENTRY_MASK = c"
proof -
  have m: "FAT32_ENTRY_MASK = (mask 28 :: u32)" by (simp add: mask_eq_exp_minus_1)
  have "unat c < 2 ^ 28" using assms by (auto simp: vol_ok_def Let_def in_range_def)
  then have "take_bit 28 c = c" by (simp add: word_unat_eq_iff unsigned_take_bit_eq take_bit_nat_eq_self)
  then show ?thesis by (simp only: m take_bit_eq_mask)
qed

lemma put_ok:
  assumes ok: "vol_ok s v" and c: "in_range (vols s v) c"
  shows "\<exists>s'. fat_put v (unat c) (e AND FAT32_ENTRY_MASK) s = Some s' \<and> vol_ok s' v \<and> only v {c} s s' \<and> cdata s' v = cdata s v \<and>
     fat (vols s' v) ! unat c AND FAT32_ENTRY_MASK = e AND FAT32_ENTRY_MASK"
proof -
  let ?V = "vols s v"
  have len: "unat c < length (fat ?V)" using ok c by (auto simp: vol_ok_def Let_def in_range_def)
  define F where "F = (fat ?V)[unat c := (fat ?V ! unat c AND NOT FAT32_ENTRY_MASK) OR (e AND FAT32_ENTRY_MASK)]"
  let ?s' = "vset v (\<lambda>V. V\<lparr>fat := F, fat_dirty := True\<rparr>) s"
  have cd: "cdata ?s' v = cdata s v"
    by (auto simp: fun_eq_iff cdata_def fat32_read_cluster_def blk_read_def vset_def Let_def cluster_to_sector_def cong: if_cong)
  have "fat_put v (unat c) (e AND FAT32_ENTRY_MASK) s = Some ?s'" using len by (simp add: fat_put_def F_def vset_def)
  moreover have "vol_ok ?s' v" using ok by (simp add: vol_ok_def Let_def vset_def F_def)
  moreover have "only v {c} s ?s'"
    unfolding only_def
  proof (intro conjI)
    show "\<exists>F D dd. ?s' = s\<lparr>vols := (vols s)(v := (vols s v)\<lparr>fat := F, fat_dirty := dd\<rparr>), disk := (disk s)(dev (vols s v) := D)\<rparr> \<and>
        length F = length (fat (vols s v))"
      by (intro exI [of _ F] exI [of _ "disk s (dev ?V)"] exI [of _ True]) (simp add: vset_def F_def)
    show "\<forall>d. in_range ?V d \<and> d \<notin> {c} \<longrightarrow> fat (vols ?s' v) ! unat d = fat ?V ! unat d \<and> cdata ?s' v d = cdata s v d"
      using cd by (auto simp: vset_def F_def nth_list_update word_unat_eq_iff)
  qed
  moreover have "fat (vols ?s' v) = F" by (simp add: vset_def)
  then have "fat (vols ?s' v) ! unat c AND FAT32_ENTRY_MASK = e AND FAT32_ENTRY_MASK"
    using len by (simp only: F_def nth_list_update_eq mask_put)
  ultimately show ?thesis using cd by blast
qed

lemma alloc_loop:
  assumes "\<And>i. i \<in> set is \<Longrightarrow> i < length (fat (vols s v)) \<and> i < 2 ^ 32"
    and "\<exists>i \<in> set is. fat (vols s v) ! i AND FAT32_ENTRY_MASK = FAT32_FREE"
  shows "\<exists>i \<in> set is. fat (vols s v) ! i AND FAT32_ENTRY_MASK = FAT32_FREE \<and>
     for_ret (\<lambda>i s. do { x \<leftarrow> arr_get (fat (vols s v)) i;
                 if x AND FAT32_ENTRY_MASK = FAT32_FREE
                 then do { s \<leftarrow> fat_put v i (FAT32_EOC AND FAT32_ENTRY_MASK) s; Some (Inl (of_nat i :: u32, s)) }
                 else Some (Inr s) }) is s =
       do { s' \<leftarrow> fat_put v i (FAT32_EOC AND FAT32_ENTRY_MASK) s; Some (Inl (of_nat i :: u32, s')) }"
  using assms
proof (induction "is")
  case (Cons i "is")
  show ?case
  proof (cases "fat (vols s v) ! i AND FAT32_ENTRY_MASK = FAT32_FREE")
    case True
    then show ?thesis using Cons.prems(1) [of i]
      by (cases "fat_put v i (FAT32_EOC AND FAT32_ENTRY_MASK) s") (auto intro!: bexI [of _ i])
  next
    case False
    then show ?thesis using Cons by auto
  qed
qed simp

lemma fat32_alloc_cluster_ok:
  assumes ok: "vol_ok s v" and ex: "\<exists>c. free_cl (vols s v) c"
  shows "\<exists>n s'. fat32_alloc_cluster v s = Some (n, s') \<and> free_cl (vols s v) n \<and> vol_ok s' v \<and> only v {n} s s' \<and>
     cdata s' v = cdata s v \<and> fat (vols s' v) ! unat n AND FAT32_ENTRY_MASK = FAT32_EOC"
proof -
  let ?V = "vols s v" and ?is = "[2..<unat (total_clusters (vols s v) + 2)]"
  have lim: "unat (total_clusters ?V) + 2 \<le> 0x0FFFFFF7" "unat (total_clusters ?V) + 2 \<le> length (fat ?V)"
    using ok by (auto simp: vol_ok_def Let_def)
  have u: "unat (total_clusters ?V + 2) = unat (total_clusters ?V) + 2" using lim(1) by (subst unat_plus_no_overflow) simp_all
  obtain f where f: "free_cl ?V f" using ex by blast
  have ne: "\<exists>i \<in> set ?is. fat ?V ! i AND FAT32_ENTRY_MASK = FAT32_FREE"
    by (rule bexI [of _ "unat f"]) (use f u in \<open>simp_all only: free_cl_def in_range_def set_upt atLeastLessThan_iff u\<close>)
  have "i < length (fat ?V) \<and> i < 2 ^ 32" if "i \<in> set ?is" for i using that lim u by (simp only: set_upt atLeastLessThan_iff) simp
  then obtain i where i: "i \<in> set ?is" "fat ?V ! i AND FAT32_ENTRY_MASK = FAT32_FREE"
    "for_ret (\<lambda>i s. do { x \<leftarrow> arr_get (fat (vols s v)) i;
                 if x AND FAT32_ENTRY_MASK = FAT32_FREE
                 then do { s \<leftarrow> fat_put v i (FAT32_EOC AND FAT32_ENTRY_MASK) s; Some (Inl (of_nat i :: u32, s)) }
                 else Some (Inr s) }) ?is s =
       do { s' \<leftarrow> fat_put v i (FAT32_EOC AND FAT32_ENTRY_MASK) s; Some (Inl (of_nat i :: u32, s')) }"
    using alloc_loop [OF _ ne] by blast
  define n :: u32 where "n = of_nat i"
  have "i < 268435455" using i(1) lim(1) unfolding u set_upt atLeastLessThan_iff by linarith
  then have un: "unat n = i" unfolding n_def by (intro word_small) simp
  have n: "free_cl ?V n" using i(1,2) u by (auto simp: free_cl_def in_range_def un)
  then obtain s' where s': "fat_put v (unat n) (FAT32_EOC AND FAT32_ENTRY_MASK) s = Some s'" "vol_ok s' v" "only v {n} s s'"
    "cdata s' v = cdata s v" "fat (vols s' v) ! unat n AND FAT32_ENTRY_MASK = FAT32_EOC AND FAT32_ENTRY_MASK"
    using put_ok [OF ok, of n FAT32_EOC] by (auto simp: free_cl_def)
  have "fat32_alloc_cluster v s = Some (n, s')"
    using i(3) s'(1) unfolding fat32_alloc_cluster_def un n_def [symmetric] by simp
  then show ?thesis using s' n by auto
qed

text \<open>Appending a cleared cluster to a chain.\<close>

lemma chain_append:
  assumes "chain V c cs" "cs \<noteq> []" "total_clusters V' = total_clusters V"
    "\<And>d. d \<in> set cs \<Longrightarrow> d \<noteq> last cs \<Longrightarrow> fat V' ! unat d = fat V ! unat d"
    "nxt V' (last cs) = n" "chain V' n ds"
  shows "chain V' c (cs @ ds)"
  using assms
proof (induction cs arbitrary: c)
  case (Cons d cs)
  have r: "in_range V' d" "c = d" using Cons.prems(1,3) by (auto simp: in_range_def)
  show ?case
  proof (cases "cs = []")
    case True
    then show ?thesis using Cons.prems r by simp
  next
    case False
    have "d \<noteq> last (d # cs)" using chain_distinct [OF Cons.prems(1)] False by auto
    then have "nxt V' d = nxt V d" using Cons.prems(4) [of d] by (simp add: nxt_def)
    moreover have "chain V' (nxt V d) (cs @ ds)"
      using Cons.IH [of "nxt V d"] Cons.prems False by auto
    ultimately show ?thesis using r by simp
  qed
qed simp

lemma nxt_link:
  assumes "vol_ok s v" "in_range (vols s v) n" "fat V' ! unat d AND FAT32_ENTRY_MASK = n"
  shows "nxt V' d = n"
proof -
  have "unat n < 0x0FFFFFF7" using assms(1,2) by (auto simp: vol_ok_def Let_def in_range_def)
  then have "\<not> n \<ge> FAT32_EOC" "n \<noteq> FAT32_BAD_CLUSTER" by (auto simp: word_le_nat_alt word_unat_eq_iff)
  then show ?thesis unfolding nxt_def assms(3) Let_def by simp
qed

lemma only_fat:
  assumes "only v X s s'" "in_range (vols s v) d" "d \<notin> X"
  shows "fat (vols s' v) ! unat d = fat (vols s v) ! unat d" "cdata s' v d = cdata s v d"
  using assms by (auto simp: only_def)

text \<open>Linking a fresh cluster behind the last one.\<close>

lemma link_ok:
  assumes ok: "vol_ok s v" and n: "in_range (vols s v) n" and p: "p = 0 \<or> in_range (vols s v) p"
  shows "\<exists>s'. (if p \<noteq> 0 then do { s \<leftarrow> fat_put v (unat p) (n AND FAT32_ENTRY_MASK) s; Some (n, s) } else Some (n, s)) = Some (n, s') \<and>
     vol_ok s' v \<and> only v (if p = 0 then {} else {p}) s s' \<and> cdata s' v = cdata s v \<and>
     (p \<noteq> 0 \<longrightarrow> fat (vols s' v) ! unat p AND FAT32_ENTRY_MASK = n)"
proof (cases "p = 0")
  case False
  then show ?thesis using put_ok [OF ok, of p n] p range_mask [OF ok n] by auto
qed (use ok in auto)

lemma extend_zeroed_steps:
  assumes ok: "vol_ok s v" and ex: "\<exists>c. free_cl (vols s v) c" and p: "p = 0 \<or> in_range (vols s v) p \<and> \<not> free_cl (vols s v) p"
  shows "\<exists>n s'. extend_zeroed v p s = Some (n, s') \<and> free_cl (vols s v) n \<and> vol_ok s' v \<and> only v (insert n (if p = 0 then {} else {p})) s s' \<and>
     fat (vols s' v) ! unat n AND FAT32_ENTRY_MASK = FAT32_EOC \<and> (p \<noteq> 0 \<longrightarrow> fat (vols s' v) ! unat p AND FAT32_ENTRY_MASK = n) \<and>
     cdata s' v n = replicate (bpc (vols s v)) 0 \<and> (\<forall>d. in_range (vols s v) d \<and> d \<noteq> n \<longrightarrow> cdata s' v d = cdata s v d)"
proof -
  let ?V = "vols s v" and ?P = "if p = 0 then {} else {p}"
  obtain n s1 where n: "fat32_alloc_cluster v s = Some (n, s1)" "free_cl ?V n" "vol_ok s1 v" "only v {n} s s1"
    "cdata s1 v = cdata s v" "fat (vols s1 v) ! unat n AND FAT32_ENTRY_MASK = FAT32_EOC"
    using fat32_alloc_cluster_ok [OF ok ex] by blast
  have r: "in_range ?V n" "n \<noteq> 0" "n \<noteq> p" using n(2) p by (auto simp: free_cl_def in_range_nonzero)
  note sel1 = only_sel [OF n(4)]
  obtain s2 where s2: "(if p \<noteq> 0 then do { s \<leftarrow> fat_put v (unat p) (n AND FAT32_ENTRY_MASK) s1; Some (n, s) } else Some (n, s1)) = Some (n, s2)"
    "vol_ok s2 v" "only v ?P s1 s2" "cdata s2 v = cdata s1 v" "p \<noteq> 0 \<longrightarrow> fat (vols s2 v) ! unat p AND FAT32_ENTRY_MASK = n"
    using link_ok [OF n(3), of n p] r p sel1(8) by auto
  note sel2 = only_sel [OF s2(3)]
  have ext: "fat32_extend_chain v p s = Some (n, s2)" using n(1) r(2) s2(1) by (simp add: fat32_extend_chain_def)
  have f2: "fat (vols s2 v) ! unat n AND FAT32_ENTRY_MASK = FAT32_EOC"
    using only_fat(1) [OF s2(3), of n] r sel1(8) n(6) by (cases "p = 0") auto
  obtain D where D: "fat32_write_cluster v n (replicate (bpc (vols s2 v)) 0) s2 = (0, s2\<lparr>disk := (disk s2)(dev (vols s2 v) := D)\<rparr>)"
    "vol_ok (s2\<lparr>disk := (disk s2)(dev (vols s2 v) := D)\<rparr>) v"
    "\<forall>d. in_range (vols s2 v) d \<longrightarrow> cdata (s2\<lparr>disk := (disk s2)(dev (vols s2 v) := D)\<rparr>) v d =
        (if d = n then replicate (bpc (vols s2 v)) 0 else cdata s2 v d)"
    using write_cluster_ok [OF s2(2), of n "replicate (bpc (vols s2 v)) 0"] r sel1(8) sel2(8) by auto
  define s3 where "s3 = s2\<lparr>disk := (disk s2)(dev (vols s2 v) := D)\<rparr>"
  have "extend_zeroed v p s = Some (n, s3)"
    using ext r(2) D(1) by (simp add: extend_zeroed_def fat32_init_cluster_def s3_def)
  moreover have "only v {n} s2 s3"
    unfolding only_def s3_def using D(3)
    by (auto intro!: exI [of _ "fat (vols s2 v)"] exI [of _ D] exI [of _ "fat_dirty (vols s2 v)"])
  then have "only v (insert n ?P) s s3"
    by (rule only_mono [OF only_trans [OF only_trans [OF n(4) s2(3)]]]) auto
  moreover have "cdata s3 v n = replicate (bpc ?V) 0" "\<forall>d. in_range ?V d \<and> d \<noteq> n \<longrightarrow> cdata s3 v d = cdata s v d"
    using D(3) r sel1 sel2 s2(4) n(5) by (auto simp: s3_def)
  moreover have "vol_ok s3 v" "fat (vols s3 v) = fat (vols s2 v)" using D(2) by (simp_all add: s3_def)
  ultimately show ?thesis using n(2) f2 s2(5) by auto
qed

lemma extend_zeroed_ok:
  assumes ok: "vol_ok s v" and ch: "chain (vols s v) c cs" and used: "\<And>d. d \<in> set cs \<Longrightarrow> \<not> free_cl (vols s v) d"
    and ex: "\<exists>c. free_cl (vols s v) c" and prev: "prev = (if cs = [] then 0 else last cs)"
  shows "\<exists>n s'. extend_zeroed v prev s = Some (n, s') \<and> n \<noteq> 0 \<and> vol_ok s' v \<and>
     chain (vols s' v) (if cs = [] then n else c) (cs @ [n]) \<and> (\<forall>d \<in> set (cs @ [n]). \<not> free_cl (vols s' v) d) \<and>
     cbytes s' v (cs @ [n]) = cbytes s v cs @ replicate (bpc (vols s v)) 0 \<and> only v (insert n (set cs)) s s' \<and>
     free_cl (vols s v) n \<and> {c. free_cl (vols s' v) c} = {c. free_cl (vols s v) c} - {n}"
proof -
  let ?V = "vols s v" and ?P = "if prev = 0 then {} else {prev}"
  have inP: "prev \<in> set cs" "in_range ?V prev" if "cs \<noteq> []" using that prev chain_range [OF ch] by auto
  have p0: "prev = 0 \<longleftrightarrow> cs = []" using inP prev in_range_nonzero by auto
  obtain n s' where e: "extend_zeroed v prev s = Some (n, s')" "free_cl ?V n" "vol_ok s' v" "only v (insert n ?P) s s'"
     "fat (vols s' v) ! unat n AND FAT32_ENTRY_MASK = FAT32_EOC" "prev \<noteq> 0 \<longrightarrow> fat (vols s' v) ! unat prev AND FAT32_ENTRY_MASK = n"
     "cdata s' v n = replicate (bpc ?V) 0" "\<forall>d. in_range ?V d \<and> d \<noteq> n \<longrightarrow> cdata s' v d = cdata s v d"
    using extend_zeroed_steps [OF ok ex, of prev] inP used p0 by blast
  note sel = only_sel [OF e(4)]
  have n: "in_range ?V n" "n \<noteq> 0" "n \<notin> set cs" using e(2) used by (auto simp: free_cl_def in_range_nonzero)
  have "nxt (vols s' v) n = 0" unfolding nxt_def e(5) by simp
  then have cn: "chain (vols s' v) n [n]" using n sel(8) by simp
  have ch': "chain (vols s' v) (if cs = [] then n else c) (cs @ [n])"
  proof (cases "cs = []")
    case False
    have "nxt (vols s' v) (last cs) = n" using nxt_link [OF ok n(1), of "vols s' v" prev] e(6) p0 prev False by simp
    moreover have "fat (vols s' v) ! unat d = fat ?V ! unat d" if "d \<in> set cs" "d \<noteq> last cs" for d
    proof (rule only_fat(1) [OF e(4) chain_range [OF ch that(1)]])
      show "d \<notin> insert n ?P" using that n(3) prev False by (cases "prev = 0") auto
    qed
    ultimately show ?thesis using chain_append [OF ch False sel(5) _ _ cn] False by simp
  qed (use cn in simp)
  have fr: "free_cl (vols s' v) d \<longleftrightarrow> free_cl ?V d \<and> d \<noteq> n" for d
  proof (cases "in_range ?V d \<and> d \<noteq> n \<and> d \<notin> ?P")
    case True
    then show ?thesis using only_fat(1) [OF e(4), of d] sel(8) by (auto simp: free_cl_def)
  next
    case False
    then show ?thesis using e(5,6) n(2) inP used p0 sel(8) by (auto simp: free_cl_def split: if_splits)
  qed
  have "cbytes s' v cs = cbytes s v cs"
    unfolding cbytes_def using e(8) chain_range [OF ch] n(3) by (intro arg_cong [where f = concat] map_cong) auto
  then have "cbytes s' v (cs @ [n]) = cbytes s v cs @ replicate (bpc ?V) 0" using e(7) by (simp add: cbytes_def)
  moreover have "only v (insert n (set cs)) s s'" by (rule only_mono [OF e(4)]) (use inP p0 in auto)
  ultimately show ?thesis using e(1-3) n ch' used fr by auto
qed

section \<open>Writing a chain\<close>

abbreviation free_set32 :: "Fat32Volume \<Rightarrow> u32 set" where "free_set32 V \<equiv> {c. free_cl V c}"

text \<open>The chain \<open>cs\<close> from \<open>c\<close> consists of allocated clusters and holds the bytes \<open>xs\<close>.\<close>

definition chain_holds :: "Fat \<Rightarrow> u64 \<Rightarrow> u32 \<Rightarrow> u32 list \<Rightarrow> u8 list \<Rightarrow> bool" where
  "chain_holds s v c cs xs \<longleftrightarrow>
     vol_ok s v \<and> chain (vols s v) c cs \<and> (\<forall>d \<in> set cs. \<not> free_cl (vols s v) d) \<and> cbytes s v cs = xs"

text \<open>From \<open>s\<close> to \<open>s'\<close> the chain \<open>cs\<close> has become \<open>cs'\<close> by clusters that were free, and nothing else has changed.\<close>

definition chain_grows :: "u64 \<Rightarrow> Fat \<Rightarrow> u32 list \<Rightarrow> Fat \<Rightarrow> u32 list \<Rightarrow> bool" where
  "chain_grows v s cs s' cs' \<longleftrightarrow>
     only v (set cs') s s' \<and>
     (\<exists>new. cs' = cs @ new \<and> set new \<subseteq> free_set32 (vols s v) \<and> free_set32 (vols s' v) = free_set32 (vols s v) - set new)"

lemma chain_grows_trans:
  assumes "chain_grows v s cs t ds" "chain_grows v t ds u es"
  shows "chain_grows v s cs u es"
proof -
  obtain a b where ab: "ds = cs @ a" "set a \<subseteq> free_set32 (vols s v)" "free_set32 (vols t v) = free_set32 (vols s v) - set a"
      "es = ds @ b" "set b \<subseteq> free_set32 (vols t v)" "free_set32 (vols u v) = free_set32 (vols t v) - set b"
    using assms unfolding chain_grows_def by blast
  have "only v (set es) s u"
    using only_trans [of v "set ds" s t "set es" u] assms ab(4) by (auto simp: chain_grows_def elim!: only_mono)
  then show ?thesis unfolding chain_grows_def using ab by (intro conjI exI [of _ "a @ b"]) auto
qed

lemma chain_grows_refl [simp]: "chain_grows v s cs s cs"
  by (simp add: chain_grows_def)

lemma chain_grows_card:
  assumes "chain_grows v s cs s' cs'"
  shows "card (free_set32 (vols s v)) \<le> card (free_set32 (vols s' v)) + (length cs' - length cs)"
proof -
  obtain new where new: "cs' = cs @ new" "free_set32 (vols s' v) = free_set32 (vols s v) - set new"
    using assms by (auto simp: chain_grows_def)
  have "card (free_set32 (vols s v)) \<le> card (free_set32 (vols s v) - set new) + card (set new)"
    using diff_card_le_card_Diff [of "set new" "free_set32 (vols s v)"] by simp
  then show ?thesis using new card_length [of new] by simp
qed

lemma chain_grows_bpc: "chain_grows v s cs s' cs' \<Longrightarrow> bytes_per_cluster (vols s' v) = bytes_per_cluster (vols s v)"
  by (auto simp: chain_grows_def dest: only_sel(6))

lemma chain_nxt: "chain V c cs \<Longrightarrow> k < length cs \<Longrightarrow> nxt V (cs ! k) = (if Suc k < length cs then cs ! Suc k else 0)"
proof (induction cs arbitrary: c k)
  case (Cons d ds)
  then show ?case by (cases k; cases ds) auto
qed simp

lemma extend_any:
  assumes "chain_holds s v c cs xs" "card (free_set32 (vols s v)) \<noteq> 0"
  shows "\<exists>n s'. extend_zeroed v (if cs = [] then 0 else last cs) s = Some (n, s') \<and> n \<noteq> 0 \<and>
     chain_holds s' v (if cs = [] then n else c) (cs @ [n]) (xs @ replicate (bpc (vols s v)) 0) \<and> chain_grows v s cs s' (cs @ [n])"
proof -
  have "\<exists>c. free_cl (vols s v) c" using assms(2) by (metis (mono_tags) card.empty empty_Collect_eq)
  then obtain n s' where n: "extend_zeroed v (if cs = [] then 0 else last cs) s = Some (n, s')" "n \<noteq> 0" "vol_ok s' v"
    "chain (vols s' v) (if cs = [] then n else c) (cs @ [n])"
    "\<forall>d \<in> set (cs @ [n]). \<not> free_cl (vols s' v) d" "cbytes s' v (cs @ [n]) = xs @ replicate (bpc (vols s v)) 0"
    "only v (insert n (set cs)) s s'" "free_cl (vols s v) n" "{c. free_cl (vols s' v) c} = {c. free_cl (vols s v) c} - {n}"
    using extend_zeroed_ok [of s v c cs "if cs = [] then 0 else last cs"] assms(1) unfolding chain_holds_def by blast
  then have "chain_grows v s cs s' (cs @ [n])" unfolding chain_grows_def by auto
  then show ?thesis using n unfolding chain_holds_def by blast
qed

lemma extend_holds:
  assumes "chain_holds s v c cs xs" "cs \<noteq> []" "card (free_set32 (vols s v)) \<noteq> 0"
  shows "\<exists>n s'. extend_zeroed v (last cs) s = Some (n, s') \<and> n \<noteq> 0 \<and>
     chain_holds s' v c (cs @ [n]) (xs @ replicate (bpc (vols s v)) 0) \<and> chain_grows v s cs s' (cs @ [n])"
  using extend_any [OF assms(1,3)] assms(2) by simp

lemma skip_cond:
  assumes "vol_ok s v" "k \<le> unat off div bpc (vols s v)" "unat off + 2 * bpc (vols s v) < 2 ^ 31"
  defines "B \<equiv> bpc (vols s v)" and "q \<equiv> unat off div bpc (vols s v)"
  shows "of_nat (B * k) + bytes_per_cluster (vols s v) \<le> off \<longleftrightarrow> k < q"
    and "of_nat (B * k) + bytes_per_cluster (vols s v) + bytes_per_cluster (vols s v) \<le> off \<longleftrightarrow> Suc k < q"
    and "of_nat (B * k) + bytes_per_cluster (vols s v) = (of_nat (B * Suc k) :: u32)"
proof -
  have B: "0 < B" using bpc_bounds [OF assms(1)] by (simp add: B_def)
  have lim: "unat off + 2 * B < 2147483648" using assms(3) by (simp add: B_def)
  have Bq: "B * q \<le> unat off" "unat off < B * q + B" unfolding B_def q_def
    using B dividend_less_times_div [of B "unat off"] by (simp_all add: B_def)
  have Bk: "B * k \<le> B * q" using assms(2) by (simp add: q_def)
  have le: "B * n \<le> unat off \<longleftrightarrow> n \<le> q" for n
    using B by (simp add: q_def B_def less_eq_div_iff_mult_less_eq mult.commute)
  have w: "unat (of_nat (B * n) :: u32) = B * n" if "n \<le> k + 2" for n
  proof -
    have "B * n \<le> B * (k + 2)" using that by (rule mult_le_mono2)
    also have "\<dots> = B * k + 2 * B" by (simp add: algebra_simps)
    finally have "B * n < 4294967296" using Bk Bq(1) lim by linarith
    then show ?thesis by (intro word_small) simp
  qed
  show s1: "of_nat (B * k) + bytes_per_cluster (vols s v) = (of_nat (B * Suc k) :: u32)" by (simp add: B_def add.commute)
  have s2: "of_nat (B * k) + bytes_per_cluster (vols s v) + bytes_per_cluster (vols s v) = (of_nat (B * Suc (Suc k)) :: u32)"
    by (simp add: B_def add.commute)
  show "of_nat (B * k) + bytes_per_cluster (vols s v) \<le> off \<longleftrightarrow> k < q"
    unfolding s1 word_le_nat_alt w [of "Suc k", simplified] using le [of "Suc k"] w [of "Suc k"] by (simp only: Suc_le_eq)
  show "of_nat (B * k) + bytes_per_cluster (vols s v) + bytes_per_cluster (vols s v) \<le> off \<longleftrightarrow> Suc k < q"
    unfolding s2 word_le_nat_alt using le [of "Suc (Suc k)"] w [of "Suc (Suc k)"] by (simp only: Suc_le_eq)
qed

lemma last_nth: "Suc k = length cs \<Longrightarrow> cs ! k = last cs"
  by (cases cs rule: rev_cases) auto

lemma skip_write_spec:
  assumes "chain_holds s v c0 cs xs" "cs \<noteq> []" "k \<le> q" "k < q \<longrightarrow> k < length cs" "k \<le> length cs"
    and "q = unat off div bpc (vols s v)" "unat off + 2 * bpc (vols s v) < 2 ^ 31" "q - length cs \<le> card (free_set32 (vols s v))"
  shows "\<exists>cs' s'. skip_write v off (if k < length cs then cs ! k else 0) (if k = 0 then 0 else cs ! (k - 1)) (of_nat (bpc (vols s v) * k)) s =
       Some (Inr (if q < length cs' then cs' ! q else 0, if q = 0 then 0 else cs' ! (q - 1), of_nat (bpc (vols s v) * q), s')) \<and>
     length cs' = max (length cs) q \<and> chain_grows v s cs s' cs' \<and>
     chain_holds s' v c0 cs' (xs @ replicate (bpc (vols s v) * (length cs' - length cs)) 0)"
  using assms
proof (induction "q - k" arbitrary: k s cs xs)
  case 0
  have ok: "vol_ok s v" using 0 by (simp add: chain_holds_def)
  have kq: "k = q" using 0 by simp
  then have "\<not> of_nat (bpc (vols s v) * k) + bytes_per_cluster (vols s v) \<le> off" using skip_cond(1) [OF ok, of k off] 0 by simp
  then have "skip_write v off (if k < length cs then cs ! k else 0) (if k = 0 then 0 else cs ! (k - 1)) (of_nat (bpc (vols s v) * k)) s =
      Some (Inr (if k < length cs then cs ! k else 0, if k = 0 then 0 else cs ! (k - 1), of_nat (bpc (vols s v) * k), s))"
    by (subst skip_write.simps) (simp only: Let_def simp_thms if_False)
  then show ?case using 0 kq by (intro exI [of _ cs] exI [of _ s]) (simp add: max_def)
next
  case (Suc j)
  let ?V = "vols s v" and ?B = "bpc (vols s v)"
  have ok: "vol_ok s v" and ch: "chain ?V c0 cs" using Suc.prems(1) by (simp_all add: chain_holds_def)
  have kq: "k < q" using Suc.hyps(2) by simp
  then have kl: "k < length cs" using Suc.prems(4) by simp
  have r: "in_range ?V (cs ! k)" using chain_range [OF ch] kl by simp
  note cond = skip_cond [OF ok, of k off, folded Suc.prems(6)]
  have nx: "fat32_next_cluster ?V (cs ! k) = Some (if Suc k < length cs then cs ! Suc k else 0)"
    using next_in_range [OF ok r] chain_nxt [OF ch kl] by simp
  have n0: "cs ! Suc k \<noteq> 0" if "Suc k < length cs" using chain_range [OF ch, of "cs ! Suc k"] that by (auto dest: in_range_nonzero)
  have e: "(if k < length cs then cs ! k else 0) = cs ! k" using kl by simp
  show ?case
  proof (cases "Suc k < length cs \<or> Suc k = q")
    case True
    have eq: "skip_write v off (cs ! k) (if k = 0 then 0 else cs ! (k - 1)) (of_nat (?B * k)) s =
        skip_write v off (if Suc k < length cs then cs ! Suc k else 0) (cs ! k) (of_nat (?B * Suc k)) s"
      using cond Suc.prems(3,7) kq r nx n0 True in_range_nonzero [OF r]
      by (subst skip_write.simps) (auto simp only: Let_def simp_thms if_True if_False bind.bind_lunit split: if_splits)
    have "\<exists>cs' s'. skip_write v off (if Suc k < length cs then cs ! Suc k else 0) (if Suc k = 0 then 0 else cs ! (Suc k - 1)) (of_nat (?B * Suc k)) s =
       Some (Inr (if q < length cs' then cs' ! q else 0, if q = 0 then 0 else cs' ! (q - 1), of_nat (?B * q), s')) \<and>
      length cs' = max (length cs) q \<and> chain_grows v s cs s' cs' \<and> chain_holds s' v c0 cs' (xs @ replicate (?B * (length cs' - length cs)) 0)"
      by (rule Suc.hyps(1)) (use Suc.hyps(2) Suc.prems kq kl True in auto)
    then show ?thesis unfolding e eq by (simp only: nat.distinct diff_Suc_1 if_False)
  next
    case False
    then have last: "cs ! k = last cs" "Suc k = length cs" using kl last_nth [of k cs] by auto
    have sk: "Suc k < q" using False kq by linarith
    then have "card (free_set32 ?V) \<noteq> 0" using Suc.prems(8) last(2) by linarith
    then obtain n s1 where n: "extend_zeroed v (cs ! k) s = Some (n, s1)" "n \<noteq> 0"
      "chain_holds s1 v c0 (cs @ [n]) (xs @ replicate ?B 0)" "chain_grows v s cs s1 (cs @ [n])"
      using extend_holds [OF Suc.prems(1,2)] last(1) by auto
    have B1: "bytes_per_cluster (vols s1 v) = bytes_per_cluster ?V" by (rule chain_grows_bpc [OF n(4)])
    have eq: "skip_write v off (cs ! k) (if k = 0 then 0 else cs ! (k - 1)) (of_nat (?B * k)) s =
        skip_write v off n (cs ! k) (of_nat (?B * Suc k)) s1"
      using cond Suc.prems(3,7) kq r nx False n(1,2) last(2) in_range_nonzero [OF r]
      by (subst skip_write.simps) (auto simp only: Let_def simp_thms if_True if_False bind.bind_lunit case_prod_conv split: if_splits)
    have b1: "(if Suc k < length (cs @ [n]) then (cs @ [n]) ! Suc k else 0) = n" "(if Suc k = 0 then 0 else (cs @ [n]) ! (Suc k - 1)) = cs ! k"
      using last(2) [symmetric] kl by (simp_all add: nth_append)
    have "\<exists>cs' s'. skip_write v off (if Suc k < length (cs @ [n]) then (cs @ [n]) ! Suc k else 0)
        (if Suc k = 0 then 0 else (cs @ [n]) ! (Suc k - 1)) (of_nat (bpc (vols s1 v) * Suc k)) s1 =
       Some (Inr (if q < length cs' then cs' ! q else 0, if q = 0 then 0 else cs' ! (q - 1), of_nat (bpc (vols s1 v) * q), s')) \<and>
      length cs' = max (length (cs @ [n])) q \<and> chain_grows v s1 (cs @ [n]) s' cs' \<and>
      chain_holds s' v c0 cs' ((xs @ replicate ?B 0) @ replicate (bpc (vols s1 v) * (length cs' - length (cs @ [n]))) 0)"
      by (rule Suc.hyps(1) [OF _ n(3)]) (use Suc.hyps(2) Suc.prems kq last B1 chain_grows_card [OF n(4)] in auto)
    then obtain cs' s' where s': "skip_write v off n (cs ! k) (of_nat (?B * Suc k)) s1 =
        Some (Inr (if q < length cs' then cs' ! q else 0, if q = 0 then 0 else cs' ! (q - 1), of_nat (?B * q), s'))"
      "length cs' = max (Suc (length cs)) q" "chain_grows v s1 (cs @ [n]) s' cs'"
      "chain_holds s' v c0 cs' (xs @ replicate ?B 0 @ replicate (?B * (length cs' - Suc (length cs))) 0)"
      unfolding b1 B1 by auto
    have "length cs' - length cs = Suc (length cs' - Suc (length cs))" using s'(2) by simp
    then have "replicate ?B 0 @ replicate (?B * (length cs' - Suc (length cs))) 0 = replicate (?B * (length cs' - length cs)) (0 :: u8)"
      by (simp add: replicate_add)
    moreover have "length cs' = max (length cs) q" using s'(2) last(2) sk by simp
    ultimately show ?thesis unfolding e eq using s' chain_grows_trans [OF n(4) s'(3)] by auto
  qed
qed

text \<open>Overwriting a range inside a byte list.\<close>

definition upd :: "u8 list \<Rightarrow> nat \<Rightarrow> u8 list \<Rightarrow> u8 list" where
  "upd xs p ys = take p xs @ ys @ drop (p + length ys) xs"

lemma upd_Nil [simp]: "upd xs p [] = xs"
  by (simp add: upd_def)

lemma upd_compose:
  assumes "p + length x \<le> length xs"
  shows "upd (upd xs p x @ zs) (p + length x) y = upd (xs @ zs) p (x @ y)"
proof -
  have "take (p + length x) (upd xs p x @ zs) = take p xs @ x" using assms by (simp add: upd_def)
  moreover have "drop (p + length x + length y) (upd xs p x @ zs) = drop (p + length x + length y) (xs @ zs)"
    using assms by (simp add: upd_def ac_simps)
  ultimately show ?thesis using assms by (simp add: upd_def ac_simps)
qed

lemma cbytes_split:
  assumes "k < length cs" "\<And>d. d \<in> set cs \<Longrightarrow> length (cdata s v d) = B"
  shows "take (B * k) (cbytes s v cs) = cbytes s v (take k cs)" "drop (B * Suc k) (cbytes s v cs) = cbytes s v (drop (Suc k) cs)"
    and "cbytes s v cs = cbytes s v (take k cs) @ cdata s v (cs ! k) @ cbytes s v (drop (Suc k) cs)"
    and "length (cbytes s v (take k cs)) = B * k"
proof -
  show len: "length (cbytes s v (take k cs)) = B * k"
    unfolding cbytes_def using assms by (subst length_concat_const [where n = B]) (auto dest: in_set_takeD)
  show e: "cbytes s v cs = cbytes s v (take k cs) @ cdata s v (cs ! k) @ cbytes s v (drop (Suc k) cs)"
    using arg_cong [OF id_take_nth_drop [OF assms(1)], of "cbytes s v"] by (simp add: cbytes_def)
  show "take (B * k) (cbytes s v cs) = cbytes s v (take k cs)" "drop (B * Suc k) (cbytes s v cs) = cbytes s v (drop (Suc k) cs)"
    using len assms by (simp_all add: e)
qed

text \<open>Overwriting a part of one cluster of a chain.\<close>

lemma write_cluster_holds:
  assumes h: "chain_holds s v c0 cs xs" and k: "k < length cs" and o1: "o1 + length ys \<le> bpc (vols s v)"
  defines "bs \<equiv> take o1 (cdata s v (cs ! k)) @ ys @ drop (o1 + length ys) (cdata s v (cs ! k))"
  shows "\<exists>s'. fat32_write_cluster v (cs ! k) bs s = (0, s') \<and> vols s' = vols s \<and>
     chain_holds s' v c0 cs (upd xs (bpc (vols s v) * k + o1) ys) \<and> chain_grows v s cs s' cs"
proof -
  let ?V = "vols s v" and ?B = "bpc (vols s v)"
  have ok: "vol_ok s v" and ch: "chain ?V c0 cs" and xs: "cbytes s v cs = xs" and used: "\<forall>d \<in> set cs. \<not> free_cl ?V d"
    using h by (simp_all add: chain_holds_def)
  have len: "length (cdata s v d) = ?B" if "d \<in> set cs" for d using read_cluster_ok(2) [OF ok chain_range [OF ch that]] .
  have lk: "length (cdata s v (cs ! k)) = ?B" using len k by simp
  have lb: "length bs = ?B" using lk o1 by (simp add: bs_def)
  obtain D where D: "fat32_write_cluster v (cs ! k) bs s = (0, s\<lparr>disk := (disk s)(dev ?V := D)\<rparr>)"
    "vol_ok (s\<lparr>disk := (disk s)(dev ?V := D)\<rparr>) v"
    "\<forall>d. in_range ?V d \<longrightarrow> cdata (s\<lparr>disk := (disk s)(dev ?V := D)\<rparr>) v d = (if d = cs ! k then bs else cdata s v d)"
    using write_cluster_ok [OF ok chain_range [OF ch nth_mem [OF k]] lb] by blast
  define s' where "s' = s\<lparr>disk := (disk s)(dev ?V := D)\<rparr>"
  have cd: "cdata s' v d = (if d = cs ! k then bs else cdata s v d)" if "d \<in> set cs" for d
    using D(3) chain_range [OF ch that] by (simp add: s'_def)
  have dist: "distinct cs" by (rule chain_distinct [OF ch])
  have other: "cs ! k \<notin> set (take k cs)" "cs ! k \<notin> set (drop (Suc k) cs)"
    using dist id_take_nth_drop [OF k] by (metis distinct_append not_distinct_conv_prefix distinct.simps(2) disjoint_iff list.set_intros(1))+
  have "cdata s' v d = cdata s v d" if "d \<in> set (take k cs) \<union> set (drop (Suc k) cs)" for d
  proof -
    have "d \<in> set cs" "d \<noteq> cs ! k" using that other by (auto dest: in_set_takeD in_set_dropD)
    then show ?thesis using cd by simp
  qed
  then have "cbytes s' v (take k cs) = cbytes s v (take k cs)" "cbytes s' v (drop (Suc k) cs) = cbytes s v (drop (Suc k) cs)"
    unfolding cbytes_def by (auto intro!: arg_cong [where f = concat])
  then have "cbytes s' v cs = cbytes s v (take k cs) @ bs @ cbytes s v (drop (Suc k) cs)"
    using cbytes_split(3) [of k cs s' v ?B] k cd len lb by auto
  also have "\<dots> = upd xs (?B * k + o1) ys"
    using cbytes_split [OF k len] lk o1 xs by (simp add: upd_def bs_def)
  finally have "chain_holds s' v c0 cs (upd xs (?B * k + o1) ys)"
    using D(2) ch used by (simp add: chain_holds_def s'_def)
  moreover have "chain_grows v s cs s' cs"
    unfolding chain_grows_def only_def s'_def using D(3) k
    by (auto intro!: exI [of _ "fat ?V"] exI [of _ D] exI [of _ "fat_dirty ?V"])
  ultimately show ?thesis using D(1) unfolding s'_def by (intro exI [of _ s'] ) (simp add: s'_def)
qed

text \<open>One pass of the writing loop, at the cluster \<open>k\<close> of the chain with \<open>w\<close> bytes written.\<close>

lemma write_step:
  assumes h: "chain_holds s v c0 cs xs" and k: "k < length cs" and w: "w < length src"
    and lim: "unat off + length src + bpc (vols s v) < 2 ^ 31"
    and at: "bpc (vols s v) * k \<le> unat off + w" "unat off + w < bpc (vols s v) * Suc k" "w = 0 \<or> bpc (vols s v) * k = unat off + w"
  defines "n1 \<equiv> min (length src - w) (bpc (vols s v) * Suc k - (unat off + w))"
    and "n \<equiv> if Suc k < length cs then cs ! Suc k else 0"
  shows "\<exists>s1. write_loop v off src (cs ! k) (of_nat (bpc (vols s v) * k)) (of_nat w) s =
       (if n = 0 \<and> w + n1 < length src then
          do { (n, s2) \<leftarrow> extend_zeroed v (cs ! k) s1;
               if n = 0 then Some (- ENOSPC, s2)
               else write_loop v off src n (of_nat (bpc (vols s v) * Suc k)) (of_nat (w + n1)) s2 }
        else write_loop v off src n (of_nat (bpc (vols s v) * Suc k)) (of_nat (w + n1)) s1) \<and>
     chain_holds s1 v c0 cs (upd xs (unat off + w) (take n1 (drop w src))) \<and> chain_grows v s cs s1 cs \<and> vols s1 = vols s"
proof -
  let ?V = "vols s v" and ?B = "bpc (vols s v)"
  have ok: "vol_ok s v" and ch: "chain ?V c0 cs" using h by (simp_all add: chain_holds_def)
  have r: "in_range ?V (cs ! k)" using chain_range [OF ch] k by simp
  define o1 where "o1 = unat off + w - ?B * k"
  have o1B: "o1 + n1 \<le> ?B" using at unfolding o1_def n1_def mult_Suc_right by linarith
  have num: "unat off + length src + ?B < 2147483648" using lim by simp
  have wl: "unat (of_nat w :: u32) = w" "unat (of_nat (length src) :: u32) = length src"
    using num w by (auto intro!: word_small)
  have "?B * k < 4294967296" using num at(1) w by linarith
  then have uk: "unat (of_nat (?B * k) :: u32) = ?B * k" by (intro word_small) simp
  have io: "unat (in_cluster_off off (of_nat (?B * k))) = o1"
    using uk at by (auto simp: in_cluster_off_def o1_def word_less_nat_alt unat_sub_if')
  have cl: "unat (copy_len ?V off (of_nat (?B * k)) (of_nat (length src)) (of_nat w)) = n1"
    using io wl w at o1B by (auto simp: copy_len_def Let_def n1_def o1_def word_less_nat_alt unat_sub_if' min_def)
  then have cn: "copy_len ?V off (of_nat (?B * k)) (of_nat (length src)) (of_nat w) = of_nat n1"
    by (metis of_nat_unat ucast_id)
  have n1w: "unat (of_nat (w + n1) :: u32) = w + n1" using num w by (intro word_small) (auto simp: n1_def)
  let ?bs = "take o1 (cdata s v (cs ! k)) @ take n1 (drop w src) @ drop (o1 + n1) (cdata s v (cs ! k))"
  have lp: "length (take n1 (drop w src)) = n1" using w by (simp add: n1_def)
  have pos: "?B * k + o1 = unat off + w" using at(1) by (simp add: o1_def)
  obtain s1 where s1: "fat32_write_cluster v (cs ! k) ?bs s = (0, s1)" "vols s1 = vols s"
    "chain_holds s1 v c0 cs (upd xs (unat off + w) (take n1 (drop w src)))" "chain_grows v s cs s1 cs"
    using write_cluster_holds [OF h k, of o1 "take n1 (drop w src)"] o1B unfolding lp pos by auto
  have part: "rd_bytes src w n1 = Some (take n1 (drop w src))" using w by (simp add: rd_bytes_def n1_def)
  have nx: "fat32_next_cluster ?V (cs ! k) = Some n"
    using next_in_range [OF ok r] chain_nxt [OF ch k] by (simp add: n_def)
  have lt: "(of_nat w :: u32) < of_nat (length src)" "(of_nat (w + n1) :: u32) < of_nat (length src) \<longleftrightarrow> w + n1 < length src"
    using wl n1w w by (simp_all only: word_less_nat_alt)
  have st: "of_nat (?B * k) + bytes_per_cluster ?V = (of_nat (?B * Suc k) :: u32)" "of_nat w + of_nat n1 = (of_nat (w + n1) :: u32)"
    by (simp_all add: add.commute)
  have len: "length (cdata s v (cs ! k)) = ?B" by (rule read_cluster_ok(2) [OF ok r])
  show ?thesis
    using s1 in_range_nonzero [OF r] read_cluster_ok(1) [OF ok r] part nx o1B len
    by (intro exI [of _ s1] conjI, subst write_loop.simps)
      (simp_all only: Let_def lt(1) io wl cn cl [unfolded cn] st lt(2) simp_thms if_True if_False bind.bind_lunit case_prod_conv not_False_eq_True)
qed

lemma write_loop_end:
  assumes "length src < 2 ^ 31"
  shows "write_loop v off src c coff (of_nat (length src)) s = Some (int (length src), s)"
proof -
  have "sint (of_nat (length src) :: u32) = int (length src)" using assms by (subst sint_32_small) (simp_all add: word_small)
  then show ?thesis by (subst write_loop.simps) (simp add: Let_def)
qed

lemma replicate_grow: "replicate (B * (m - l)) x @ replicate (B * (n - m)) x = replicate (B * (n - l)) x" if "l \<le> m" "m \<le> n"
  using that by (simp flip: replicate_add distrib_left)

text \<open>The writing loop.  \<open>wrote\<close> says what it leaves: the chain, grown by no more clusters than the bytes need, holds
the source from the offset on.\<close>

definition wrote :: "u64 \<Rightarrow> u32 \<Rightarrow> nat \<Rightarrow> u8 list \<Rightarrow> Fat \<Rightarrow> u32 list \<Rightarrow> u8 list \<Rightarrow> Fat \<Rightarrow> u32 list \<Rightarrow> bool" where
  "wrote v c0 p ys s cs xs s' cs' \<longleftrightarrow>
     chain_grows v s cs s' cs' \<and> p + length ys \<le> bpc (vols s v) * length cs' \<and>
     (length cs < length cs' \<longrightarrow> bpc (vols s v) * (length cs' - 1) < p + length ys) \<and>
     chain_holds s' v c0 cs' (upd (xs @ replicate (bpc (vols s v) * (length cs' - length cs)) 0) p ys)"

lemma chain_holds_length: "chain_holds s v c0 cs xs \<Longrightarrow> length xs = bpc (vols s v) * length cs"
  unfolding chain_holds_def cbytes_def
  by (auto simp: length_concat comp_def sum_list_triv mult.commute chain_range read_cluster_ok(2) cong: map_cong)

lemma wrote_step:
  assumes g: "chain_grows v s cs s1 cs" and h: "chain_holds s v c0 cs xs" and fit: "p + length x \<le> bpc (vols s v) * length cs"
    and w: "wrote v c0 (p + length x) y s1 cs (upd xs p x) s' cs'"
  shows "wrote v c0 p (x @ y) s cs xs s' cs'"
  using w chain_grows_trans [OF g] chain_grows_bpc [OF g] chain_holds_length [OF h] fit upd_compose [of p x xs]
  by (auto simp: wrote_def add.assoc)

lemma wrote_grow:
  assumes g: "chain_grows v s cs s1 cs1" and need: "length cs < length cs1 \<longrightarrow> bpc (vols s v) * (length cs1 - 1) < p + length y"
    and w: "wrote v c0 p y s1 cs1 (xs @ replicate (bpc (vols s v) * (length cs1 - length cs)) 0) s' cs'"
  shows "wrote v c0 p y s cs xs s' cs'"
proof -
  have B: "bytes_per_cluster (vols s1 v) = bytes_per_cluster (vols s v)" by (rule chain_grows_bpc [OF g])
  have gr: "chain_grows v s1 cs1 s' cs'" using w by (simp add: wrote_def)
  have len: "length cs \<le> length cs1" "length cs1 \<le> length cs'" using g gr by (auto simp: chain_grows_def)
  have "bpc (vols s v) * (length cs' - 1) < p + length y" if "length cs < length cs'"
  proof (cases "length cs1 < length cs'")
    case True
    then show ?thesis using w by (simp add: wrote_def B)
  next
    case False
    then have "length cs' = length cs1" using len by simp
    then show ?thesis using need that by simp
  qed
  then show ?thesis using w chain_grows_trans [OF g gr] replicate_grow [OF len, of _ "0 :: u8"] by (simp add: wrote_def B)
qed

lemma wrote_extend:
  assumes "chain_grows v s cs s1 (cs @ [n])" "bpc (vols s v) * length cs < p + length y"
    and "wrote v c0 p y s1 (cs @ [n]) (xs @ replicate (bpc (vols s v)) 0) s' cs'"
  shows "wrote v c0 p y s cs xs s' cs'"
  by (rule wrote_grow [OF assms(1)]) (use assms(2,3) in simp_all)

lemma extend_then:
  assumes "chain_holds s v c0 cs xs" "cs \<noteq> []" "card (free_set32 (vols s v)) \<noteq> 0" "bpc (vols s v) * length cs < p + length y"
    and "\<And>n s2. chain_holds s2 v c0 (cs @ [n]) (xs @ replicate (bpc (vols s v)) 0) \<Longrightarrow> chain_grows v s cs s2 (cs @ [n]) \<Longrightarrow>
       \<exists>s' cs'. f n s2 = Some (r, s') \<and> wrote v c0 p y s2 (cs @ [n]) (xs @ replicate (bpc (vols s v)) 0) s' cs'"
  shows "\<exists>s' cs'. do { (n, s2) \<leftarrow> extend_zeroed v (last cs) s; if n = 0 then Some (e, s2) else f n s2 } = Some (r, s') \<and>
     wrote v c0 p y s cs xs s' cs'"
proof -
  obtain n s2 where n: "extend_zeroed v (last cs) s = Some (n, s2)" "n \<noteq> 0"
    "chain_holds s2 v c0 (cs @ [n]) (xs @ replicate (bpc (vols s v)) 0)" "chain_grows v s cs s2 (cs @ [n])"
    using extend_holds [OF assms(1-3)] by blast
  then obtain s' cs' where f: "f n s2 = Some (r, s')" "wrote v c0 p y s2 (cs @ [n]) (xs @ replicate (bpc (vols s v)) 0) s' cs'"
    using assms(5) by blast
  show ?thesis using n(1,2) f(1) wrote_extend [OF n(4) assms(4) f(2)] by auto
qed

lemma write_loop_spec:
  assumes "chain_holds s v c0 cs xs" "cs \<noteq> []" "w \<le> length src" "unat off + length src + bpc (vols s v) < 2 ^ 31"
    and "w < length src \<longrightarrow> k < length cs \<and> bpc (vols s v) * k \<le> unat off + w \<and> unat off + w < bpc (vols s v) * Suc k \<and>
           (w = 0 \<or> bpc (vols s v) * k = unat off + w)"
    and "unat off + w \<le> bpc (vols s v) * length cs"
    and "unat off + length src \<le> bpc (vols s v) * (length cs + card (free_set32 (vols s v)))"
  shows "\<exists>s' cs'. write_loop v off src (if k < length cs then cs ! k else 0) (of_nat (bpc (vols s v) * k)) (of_nat w) s =
       Some (int (length src), s') \<and> wrote v c0 (unat off + w) (drop w src) s cs xs s' cs'"
  using assms
proof (induction "length src - w" arbitrary: w k s cs xs rule: less_induct)
  case less
  let ?B = "bpc (vols s v)"
  show ?case
  proof (cases "w < length src")
    case False
    then have "w = length src" using less.prems(3) by simp
    moreover have "length src < 2 ^ 31" using less.prems(4) by simp
    ultimately show ?thesis using less.prems write_loop_end by (intro exI [of _ s] exI [of _ cs]) (simp add: wrote_def)
  next
    case True
    note at = less.prems(5) [rule_format, OF True]
    define n1 where "n1 = min (length src - w) (?B * Suc k - (unat off + w))"
    define x where "x = take n1 (drop w src)"
    have lx: "length x = n1" "0 < n1" "w + n1 \<le> length src" using True at by (auto simp: x_def n1_def)
    have dec: "length src - (w + n1) < length src - w" using lx(2) True by linarith
    have src: "drop w src = x @ drop (w + n1) src" using append_take_drop_id [of n1 "drop w src"] by (simp add: x_def add.commute)
    define n where "n = (if Suc k < length cs then cs ! Suc k else 0)"
    obtain s1 where s1: "write_loop v off src (cs ! k) (of_nat (?B * k)) (of_nat w) s =
       (if n = 0 \<and> w + n1 < length src then
          do { (n, s2) \<leftarrow> extend_zeroed v (cs ! k) s1;
               if n = 0 then Some (- ENOSPC, s2)
               else write_loop v off src n (of_nat (?B * Suc k)) (of_nat (w + n1)) s2 }
        else write_loop v off src n (of_nat (?B * Suc k)) (of_nat (w + n1)) s1)"
      "chain_holds s1 v c0 cs (upd xs (unat off + w) x)" "chain_grows v s cs s1 cs" "vols s1 = vols s"
      using write_step [OF less.prems(1) _ True less.prems(4), of k] at unfolding n1_def [symmetric] x_def [symmetric] n_def [symmetric] by blast
    have fit: "unat off + w + n1 \<le> ?B * Suc k" using at unfolding n1_def by linarith
    have "?B * Suc k \<le> ?B * length cs" using at by (intro mult_le_mono2) simp
    then have fit': "unat off + w + length x \<le> ?B * length cs" using fit lx by linarith
    have next_at: "?B * Suc k = unat off + (w + n1)" if "w + n1 < length src" using that at True unfolding n1_def by linarith
    have "chain (vols s v) c0 cs" using less.prems(1) by (simp add: chain_holds_def)
    then have "cs ! Suc k \<noteq> 0" if "Suc k < length cs" using that by (metis chain_range in_range_nonzero nth_mem)
    then have n0: "n = 0 \<longleftrightarrow> \<not> Suc k < length cs" by (auto simp: n_def)
    have e: "(if k < length cs then cs ! k else 0) = cs ! k" using at by simp
    have lim1: "unat off + length src + bpc (vols s1 v) < 2 ^ 31" using less.prems(4) s1(4) by simp
    have "\<exists>s' cs'. write_loop v off src (cs ! k) (of_nat (?B * k)) (of_nat w) s = Some (int (length src), s') \<and>
        wrote v c0 (unat off + w + length x) (drop (w + n1) src) s1 cs (upd xs (unat off + w) x) s' cs'"
    proof (cases "n = 0 \<and> w + n1 < length src")
      case False
      have "\<exists>s' cs'. write_loop v off src n (of_nat (bpc (vols s1 v) * Suc k)) (of_nat (w + n1)) s1 = Some (int (length src), s') \<and>
          wrote v c0 (unat off + (w + n1)) (drop (w + n1) src) s1 cs (upd xs (unat off + w) x) s' cs'"
        unfolding n_def
        by (rule less.hyps [OF _ s1(2) less.prems(2) lx(3) lim1])
          (use False n0 next_at fit' lx True less.prems(7) bpc_bounds [of s v] less.prems(1) in \<open>auto simp: s1(4) chain_holds_def add.assoc\<close>)
      then show ?thesis using s1(1,4) False lx(1) by (simp add: add.assoc)
    next
      case ext: True
      then have last: "Suc k = length cs" "cs ! k = last cs" using n0 at last_nth [of k cs] by auto
      have need: "bpc (vols s1 v) * length cs < unat off + w + length x + length (drop (w + n1) src)"
        using next_at ext last(1) lx(1) s1(4) by simp
      then have "?B * length cs < unat off + length src" using lx ext s1(4) by simp
      then have "?B * length cs < ?B * (length cs + card (free_set32 (vols s v)))" using less.prems(7) by linarith
      then have free: "card (free_set32 (vols s1 v)) \<noteq> 0" using s1(4) by (cases "card (free_set32 (vols s v))") auto
      have "\<exists>s' cs'. do { (n, s2) \<leftarrow> extend_zeroed v (last cs) s1;
            if n = 0 then Some (- ENOSPC, s2) else write_loop v off src n (of_nat (?B * Suc k)) (of_nat (w + n1)) s2 } =
          Some (int (length src), s') \<and> wrote v c0 (unat off + w + length x) (drop (w + n1) src) s1 cs (upd xs (unat off + w) x) s' cs'"
      proof (rule extend_then [OF s1(2) less.prems(2) free need])
        fix m s2 assume h: "chain_holds s2 v c0 (cs @ [m]) (upd xs (unat off + w) x @ replicate (bpc (vols s1 v)) 0)"
          and g: "chain_grows v s1 cs s2 (cs @ [m])"
        have B: "bytes_per_cluster (vols s2 v) = bytes_per_cluster (vols s v)" using chain_grows_bpc [OF g] s1(4) by simp
        have "unat off + length src \<le> ?B * (length (cs @ [m]) + card (free_set32 (vols s2 v)))"
          by (rule order_trans [OF less.prems(7)], rule mult_le_mono2) (use chain_grows_card [OF g] s1(4) in simp)
        then have "\<exists>s' cs'. write_loop v off src (if Suc k < length (cs @ [m]) then (cs @ [m]) ! Suc k else 0) (of_nat (bpc (vols s2 v) * Suc k)) (of_nat (w + n1)) s2 =
            Some (int (length src), s') \<and> wrote v c0 (unat off + (w + n1)) (drop (w + n1) src) s2 (cs @ [m])
              (upd xs (unat off + w) x @ replicate (bpc (vols s1 v)) 0) s' cs'"
          by (intro less.hyps [OF dec h _ lx(3)]) (use next_at ext lx True last lim1 s1(4) bpc_bounds [of s v] less.prems(1) in \<open>auto simp: B chain_holds_def\<close>)
        then show "\<exists>s' cs'. write_loop v off src m (of_nat (?B * Suc k)) (of_nat (w + n1)) s2 = Some (int (length src), s') \<and>
            wrote v c0 (unat off + w + length x) (drop (w + n1) src) s2 (cs @ [m]) (upd xs (unat off + w) x @ replicate (bpc (vols s1 v)) 0) s' cs'"
          using last(1) lx(1) B by (simp add: add.assoc)
      qed
      then show ?thesis using s1(1) ext last(2) by simp
    qed
    then show ?thesis unfolding e src using wrote_step [OF s1(3) less.prems(1) fit'] by blast
  qed
qed

text \<open>Everything between the two heap calls: take the first cluster if there is none, move to the offset, write.\<close>

lemma write_from_first:
  assumes h: "chain_holds s v c0 cs xs" and ne: "cs \<noteq> []" "src \<noteq> []" and lim: "unat off + length src + 2 * bpc (vols s v) < 2 ^ 31"
    and room: "unat off + length src \<le> bpc (vols s v) * (length cs + card (free_set32 (vols s v)))"
  shows "\<exists>s' cs'. write_body v c0 off src s = Some (int (length src), c0, s') \<and> wrote v c0 (unat off) src s cs xs s' cs'"
proof -
  let ?B = "bpc (vols s v)"
  define q where "q = unat off div ?B"
  have B: "0 < ?B" using bpc_bounds [of s v] h by (auto simp: chain_holds_def)
  have off: "?B * q \<le> unat off" "unat off < ?B * Suc q" using dividend_less_times_div [OF B, of "unat off"] by (simp_all add: q_def)
  have src: "0 < length src" using ne by simp
  have c0: "c0 = cs ! 0" "c0 \<noteq> 0" using h ne(1) chain_hd [of "vols s v" c0 cs] chain_range [of "vols s v" c0 cs c0]
    by (auto simp: chain_holds_def hd_conv_nth dest!: in_range_nonzero)
  have "?B * q < ?B * (length cs + card (free_set32 (vols s v)))" using off(1) room src by linarith
  then have "q < length cs + card (free_set32 (vols s v))" by simp
  then have qc: "q - length cs \<le> card (free_set32 (vols s v))" by linarith
  have lim2: "unat off + 2 * ?B < 2 ^ 31" using lim by simp
  obtain cs1 s1 where s1: "skip_write v off c0 0 0 s = Some (Inr (if q < length cs1 then cs1 ! q else 0, if q = 0 then 0 else cs1 ! (q - 1), of_nat (?B * q), s1))"
    "length cs1 = max (length cs) q" "chain_grows v s cs s1 cs1" "chain_holds s1 v c0 cs1 (xs @ replicate (?B * (length cs1 - length cs)) 0)"
    using skip_write_spec [OF h ne(1) _ _ _ q_def lim2 qc, of 0] ne(1) c0(1) by auto
  have B1: "bytes_per_cluster (vols s1 v) = bytes_per_cluster (vols s v)" by (rule chain_grows_bpc [OF s1(3)])
  have ne1: "cs1 \<noteq> []" using s1(3) ne by (auto simp: chain_grows_def)
  have room1: "unat off + length src \<le> ?B * (length cs1 + card (free_set32 (vols s1 v)))"
    by (rule order_trans [OF room], rule mult_le_mono2) (use chain_grows_card [OF s1(3)] s1(2) in simp)
  have at: "\<exists>s' cs'. write_loop v off src (cs2 ! q) (of_nat (?B * q)) 0 s2 = Some (int (length src), s') \<and>
      wrote v c0 (unat off) src s2 cs2 ys s' cs'"
    if h2: "chain_holds s2 v c0 cs2 ys" and g2: "chain_grows v s1 cs1 s2 cs2" and q2: "q < length cs2" for s2 cs2 ys
  proof -
    have B2: "bytes_per_cluster (vols s2 v) = bytes_per_cluster (vols s v)" using chain_grows_bpc [OF g2] B1 by simp
    have "?B * Suc q \<le> ?B * length cs2" using q2 by (intro mult_le_mono2) simp
    moreover have "length cs1 \<le> length cs2" using g2 by (auto simp: chain_grows_def)
    then have "unat off + length src \<le> ?B * (length cs2 + card (free_set32 (vols s2 v)))"
      by (intro order_trans [OF room1] mult_le_mono2) (use chain_grows_card [OF g2] in simp)
    ultimately have "\<exists>s' cs'. write_loop v off src (if q < length cs2 then cs2 ! q else 0) (of_nat (bpc (vols s2 v) * q)) (of_nat 0) s2 =
        Some (int (length src), s') \<and> wrote v c0 (unat off + 0) (drop 0 src) s2 cs2 ys s' cs'"
      by (intro write_loop_spec [OF h2]) (use q2 off lim B2 in auto)
    then show ?thesis using q2 B2 by simp
  qed
  have "\<exists>s' cs'. do { (c, s2) \<leftarrow> (if \<not> q < length cs1 then extend_zeroed v (cs1 ! (q - 1)) s1 else Some (cs1 ! q, s1));
      if c = 0 then Some (- ENOSPC, s2) else write_loop v off src c (of_nat (?B * q)) 0 s2 } = Some (int (length src), s') \<and>
      wrote v c0 (unat off) src s1 cs1 (xs @ replicate (?B * (length cs1 - length cs)) 0) s' cs'"
  proof (cases "q < length cs1")
    case True
    have "cs1 ! q \<noteq> 0" using s1(4) True unfolding chain_holds_def by (metis chain_range in_range_nonzero nth_mem)
    then show ?thesis using at [OF s1(4) chain_grows_refl True] True by simp
  next
    case False
    then have ql: "q = length cs1" using s1(2) by simp
    then have last: "cs1 ! (q - 1) = last cs1" using ne1 last_nth [of "q - 1" cs1] by (cases q) auto
    have "?B * length cs1 < ?B * (length cs1 + card (free_set32 (vols s1 v)))" using off(1) [unfolded ql] room1 src by linarith
    then have free: "card (free_set32 (vols s1 v)) \<noteq> 0" by (cases "card (free_set32 (vols s1 v))") auto
    have need: "bpc (vols s1 v) * length cs1 < unat off + length src" unfolding B1 using off(1) [unfolded ql] src by linarith
    have "\<exists>s' cs'. do { (c, s2) \<leftarrow> extend_zeroed v (last cs1) s1;
        if c = 0 then Some (- ENOSPC, s2) else write_loop v off src c (of_nat (?B * q)) 0 s2 } = Some (int (length src), s') \<and>
        wrote v c0 (unat off) src s1 cs1 (xs @ replicate (?B * (length cs1 - length cs)) 0) s' cs'"
    proof (rule extend_then [OF s1(4) ne1 free need])
      fix m s2 assume "chain_holds s2 v c0 (cs1 @ [m]) ((xs @ replicate (?B * (length cs1 - length cs)) 0) @ replicate (bpc (vols s1 v)) 0)"
        and "chain_grows v s1 cs1 s2 (cs1 @ [m])"
      from at [OF this] show "\<exists>s' cs'. write_loop v off src m (of_nat (?B * q)) 0 s2 = Some (int (length src), s') \<and>
          wrote v c0 (unat off) src s2 (cs1 @ [m]) ((xs @ replicate (?B * (length cs1 - length cs)) 0) @ replicate (bpc (vols s1 v)) 0) s' cs'"
        using ql by simp
    qed
    then show ?thesis using False last by simp
  qed
  then obtain s' cs' where f: "do { (c, s2) \<leftarrow> (if \<not> q < length cs1 then extend_zeroed v (cs1 ! (q - 1)) s1 else Some (cs1 ! q, s1));
      if c = 0 then Some (- ENOSPC, s2) else write_loop v off src c (of_nat (?B * q)) 0 s2 } = Some (int (length src), s')"
    and wr: "wrote v c0 (unat off) src s1 cs1 (xs @ replicate (?B * (length cs1 - length cs)) 0) s' cs'" by blast
  have "?B * (length cs1 - 1) < unat off + length src" if "length cs < length cs1"
  proof -
    have "?B * (length cs1 - 1) \<le> ?B * q" using that s1(2) by (intro mult_le_mono2) simp
    then show ?thesis using off(1) src by linarith
  qed
  then have "wrote v c0 (unat off) src s cs xs s' cs'" using wrote_grow [OF s1(3) _ wr] by blast
  moreover have "q \<noteq> 0" if "\<not> q < length cs1" using that ne1 by (cases cs1) auto
  then have "write_body v c0 off src s = Some (int (length src), c0, s')"
    using f s1(1) c0(2) by (auto simp: write_body_def split: if_splits bind_splits prod.splits)
  ultimately show ?thesis by blast
qed

lemma write_body_spec:
  assumes h: "chain_holds s v c cs xs" and ne: "src \<noteq> []" and lim: "unat off + length src + 2 * bpc (vols s v) < 2 ^ 31"
    and room: "unat off + length src \<le> bpc (vols s v) * (length cs + card (free_set32 (vols s v)))"
  shows "\<exists>c' s' cs'. write_body v c off src s = Some (int (length src), c', s') \<and> wrote v c' (unat off) src s cs xs s' cs'"
proof (cases "cs = []")
  case False
  then show ?thesis using write_from_first [OF h _ ne lim room] by blast
next
  case True
  let ?B = "bpc (vols s v)"
  have c: "c = 0" "xs = []" using h True by (auto simp: chain_holds_def cbytes_def)
  have "0 < length src" "unat off + length src \<le> ?B * card (free_set32 (vols s v))" using ne room True by simp_all
  then have "0 < ?B * card (free_set32 (vols s v))" by linarith
  then have "card (free_set32 (vols s v)) \<noteq> 0" by (cases "card (free_set32 (vols s v))") auto
  then obtain n s1 where n: "extend_zeroed v 0 s = Some (n, s1)" "n \<noteq> 0" "chain_holds s1 v n [n] (replicate ?B 0)" "chain_grows v s [] s1 [n]"
    using extend_any [OF h] True c by auto
  have B1: "bytes_per_cluster (vols s1 v) = bytes_per_cluster (vols s v)" by (rule chain_grows_bpc [OF n(4)])
  have "unat off + length src \<le> ?B * (length [n] + card (free_set32 (vols s1 v)))"
    by (rule order_trans [OF room], rule mult_le_mono2) (use chain_grows_card [OF n(4)] True in simp)
  then obtain s' cs' where w: "write_body v n off src s1 = Some (int (length src), n, s')" "wrote v n (unat off) src s1 [n] (replicate ?B 0) s' cs'"
    using write_from_first [OF n(3) _ ne, of off] lim B1 by auto
  have "write_body v 0 off src s = write_body v n off src s1" using n(1,2) by (simp add: write_body_def)
  moreover have "wrote v n (unat off) src s [] [] s' cs'" by (rule wrote_grow [OF n(4)]) (use w(2) ne in simp_all)
  ultimately show ?thesis using w(1) c True by auto
qed

lemma chain_holds_heap: "same_but_heap s s' \<Longrightarrow> chain_holds s' v c cs xs = chain_holds s v c cs xs"
  using cdata_heap [of s s' v] vol_ok_heap [of s s' v] same_but_heap_sel [of s s'] by (simp add: chain_holds_def cbytes_def)

lemma grows_others:
  assumes g: "chain_grows v s cs s' cs'" and h: "chain_holds s' v c cs' xs" and e: "chain_holds s v d ds ys" and apart: "set ds \<inter> set cs = {}"
  shows "chain_holds s' v d ds ys"
proof -
  obtain new where new: "cs' = cs @ new" "set new \<subseteq> free_set32 (vols s v)" "only v (set cs') s s'" using g by (auto simp: chain_grows_def)
  have e': "vol_ok s v" "chain (vols s v) d ds" "\<forall>x \<in> set ds. \<not> free_cl (vols s v) x" "cbytes s v ds = ys"
    using e by (simp_all add: chain_holds_def)
  have "set ds \<inter> set cs' = {}" using apart new(1,2) e'(3) by auto
  then have same: "fat (vols s' v) ! unat x = fat (vols s v) ! unat x" "cdata s' v x = cdata s v x" if "x \<in> set ds" for x
    using that only_fat [OF new(3) chain_range [OF e'(2) that]] by auto
  note sel = only_sel [OF new(3)]
  have "chain (vols s' v) d ds" by (rule fat_chain_cong [OF e'(2) sel(5) same(1)])
  moreover have "\<not> free_cl (vols s' v) x" if "x \<in> set ds" for x using same(1) [OF that] e'(3) that sel(8) by (simp add: free_cl_def)
  moreover have "cbytes s' v ds = ys" using same(2) e'(4) by (simp add: cbytes_def cong: map_cong)
  ultimately show ?thesis using h by (simp add: chain_holds_def)
qed

lemma ceil_div_unique:
  fixes B n m l :: nat
  assumes "0 < B" "n \<le> B * m" "l < m \<longrightarrow> B * (m - 1) < n" "l \<le> m"
  shows "m = max l ((n + B - 1) div B)"
proof -
  have "n + B - 1 < Suc m * B" using assms(1,2) mult.commute [of m B] unfolding mult_Suc by linarith
  then have "(n + B - 1) div B < Suc m" by (rule less_mult_imp_div_less)
  then have up: "(n + B - 1) div B \<le> m" by simp
  have low: "m \<le> (n + B - 1) div B" if lt: "l < m"
  proof -
    obtain m' where m': "m = Suc m'" using lt by (cases m) auto
    then have "B * m' < n" using assms(3) lt by simp
    then have "B * Suc m' \<le> n + B - 1" using assms(1) by simp
    then show ?thesis using m' assms(1) by (simp add: less_eq_div_iff_mult_less_eq mult.commute)
  qed
  show ?thesis
  proof (cases "l < m")
    case True
    then show ?thesis using up low by simp
  next
    case False
    then show ?thesis using up assms(4) by simp
  qed
qed

lemma fat32_write_chain_spec:
  assumes h: "chain_holds s v c cs xs" and ne: "src \<noteq> []" and lim: "unat off + length src + 2 * bpc (vols s v) < 2 ^ 31"
    and room: "unat off + length src \<le> bpc (vols s v) * (length cs + card (free_set32 (vols s v)))"
    and heap: "heap_owns R (fheap s) L" "heap_ready (ucast (bytes_per_cluster (vols s v))) (fheap s)"
  shows "\<exists>r c' s'. fat32_write_chain v c off src s = Some (r, c', s') \<and> heap_owns R (fheap s') L \<and>
     (r = - ENOMEM \<and> c' = c \<and> same_but_heap s s' \<or>
      r = int (length src) \<and>
      (\<exists>cs'. length cs' = max (length cs) ((unat off + length src + bpc (vols s v) - 1) div bpc (vols s v)) \<and> take (length cs) cs' = cs \<and>
         chain_holds s' v c' cs' (upd (xs @ replicate (bpc (vols s v) * (length cs' - length cs)) 0) (unat off) src)) \<and>
      (\<forall>d ds ys. chain_holds s v d ds ys \<and> set ds \<inter> set cs = {} \<longrightarrow> chain_holds s' v d ds ys))"
proof -
  let ?B = "bpc (vols s v)"
  obtain p s1 where a: "fat_alloc (ucast (bytes_per_cluster (vols s v))) 0 s = Some (p, s1)" "same_but_heap s s1"
    "p = 0 \<longrightarrow> heap_owns R (fheap s1) L"
    "p \<noteq> 0 \<longrightarrow> (\<forall>s2. fheap s2 = fheap s1 \<longrightarrow> (\<exists>s3. fat_free p s2 = Some s3 \<and> same_but_heap s2 s3 \<and> heap_owns R (fheap s3) L))"
    using buffer [OF heap, of 0] by blast
  show ?thesis
  proof (cases "p = 0")
    case True
    then show ?thesis using a by (simp add: fat32_write_chain_def)
  next
    case False
    have V1: "vols s1 = vols s" using a(2) by (simp add: same_but_heap_sel)
    obtain c' s2 cs' where w: "write_body v c off src s1 = Some (int (length src), c', s2)" "wrote v c' (unat off) src s1 cs xs s2 cs'"
      using write_body_spec [of s1 v c cs xs src off] chain_holds_heap [OF a(2)] h ne lim room V1 by auto
    have g: "chain_grows v s1 cs s2 cs'" "chain_holds s2 v c' cs' (upd (xs @ replicate (?B * (length cs' - length cs)) 0) (unat off) src)"
      using w(2) V1 by (simp_all add: wrote_def)
    have "fheap s2 = fheap s1" using g(1) only_sel(1) [of v "set cs'" s1 s2] by (simp add: chain_grows_def)
    then obtain s3 where s3: "fat_free p s2 = Some s3" "same_but_heap s2 s3" "heap_owns R (fheap s3) L" using a(4) False by blast
    have run: "fat32_write_chain v c off src s = Some (int (length src), c', s3)"
      using a(1) False w(1) s3(1) by (simp add: fat32_write_chain_def)
    have pre: "take (length cs) cs' = cs" "length cs \<le> length cs'" using g(1) by (auto simp: chain_grows_def)
    have "0 < ?B" using h bpc_bounds [of s v] by (auto simp: chain_holds_def)
    then have len: "length cs' = max (length cs) ((unat off + length src + ?B - 1) div ?B)"
      using ceil_div_unique [of ?B "unat off + length src" "length cs'" "length cs"] w(2) pre(2) V1 by (simp add: wrote_def)
    have others: "chain_holds s3 v d ds ys" if "chain_holds s v d ds ys" "set ds \<inter> set cs = {}" for d ds ys
      using grows_others [OF g, of d ds ys] that chain_holds_heap [OF a(2)] chain_holds_heap [OF s3(2)] by simp
    show ?thesis using run s3(3) len pre(1) g(2) others chain_holds_heap [OF s3(2)] by (intro exI [of _ "int (length src)"] exI [of _ c'] exI [of _ s3]) auto
  qed
qed

section \<open>Properties\<close>


text \<open>A volume of three clusters of one sector each, with a file of 100 bytes in the first of them.\<close>

definition fat_example :: "kheap \<Rightarrow> Fat" where
  "fat_example h = \<lparr>fk = nset 7 (\<lambda>n. n\<lparr>ntype := VFS_FILE, nsize := 100\<rparr>) (kernel_example\<lparr>k_heap := h\<rparr>),
     vols = (\<lambda>_. \<lparr>dev = 1, sectors_per_cluster = 1, bytes_per_cluster = 512, fat_start = 32, data_start = 64, root_cluster = 2,
       total_clusters = 3, fat_ptr = 0, fat = [FAT32_EOC, FAT32_EOC, FAT32_EOC, 0, 0], fat_sectors = 1, fat_dirty = False, root_node = 0\<rparr>),
     infos = (\<lambda>_. \<lparr>vol = 5, first_cluster = 2, dir_cluster = 0, dir_entry_idx = 0\<rparr>), node_cache = [],
     next_fat_inode = 1, disk = (\<lambda>_ _. replicate 512 0), io_error = (\<lambda>_ _. False)\<rparr>"

lemma fat_example_ok: "vol_ok (fat_example h) v"
  by (simp add: vol_ok_def fat_example_def Let_def)

lemma fat_example_holds: "chain_holds (fat_example h) v 2 [2] (replicate 512 0)"
proof -
  have "fat32_read_cluster v 2 (fat_example h) = (0, replicate 512 0)"
    by (simp add: fat32_read_cluster_def blk_read_def fat_example_def cluster_to_sector_def)
  then show ?thesis using fat_example_ok [of h v]
    by (simp add: chain_holds_def cbytes_def cdata_def in_range_def nxt_def free_cl_def) (simp add: fat_example_def in_range_def nxt_def)
qed

lemma fat_example_free: "card (free_set32 (vols (fat_example h) v)) = 2"
proof -
  have "free_set32 (vols (fat_example h) v) = {3, 4}"
  proof (intro set_eqI)
    fix c :: u32
    have "unat c = 2 \<or> unat c = 3 \<or> unat c = 4" if "2 \<le> unat c" "unat c < 5" using that by linarith
    then have "in_range (vols (fat_example h) v) c \<longleftrightarrow> c = 2 \<or> c = 3 \<or> c = 4"
      by (auto simp: in_range_def fat_example_def word_unat_eq_iff)
    then show "c \<in> free_set32 (vols (fat_example h) v) \<longleftrightarrow> c \<in> {3, 4}"
      by (auto simp: free_cl_def fat_example_def)
  qed
  then show ?thesis by simp
qed

lemma fat_example_heap:
  obtains h where "kmalloc_init kheap_example = Some h" "heap_owns {0x2000} (fheap (fat_example h)) {}"
    "heap_ready (ucast (bytes_per_cluster (vols (fat_example h) 5))) (fheap (fat_example h))"
proof -
  obtain h where h: "kmalloc_init kheap_example = Some h" "heap_rep {0x2000} h [(HEAP_START, 16336, True)]"
    "237 \<le> card (frees (h_vmm h))" using kheap_example_init by blast
  have "heap_owns {0x2000} (fheap (fat_example h)) {}" using h(2)
    by (auto simp: heap_owns_def fat_example_def intro!: exI [of _ "[(HEAP_START, 16336, True)]"])
  moreover have "heap_ready (ucast (bytes_per_cluster (vols (fat_example h) 5))) (fheap (fat_example h))"
    using h(3) by (simp add: heap_ready_def fat_example_def)
  ultimately show ?thesis using that h(1) by blast
qed




end
