(* ===== verification/Syscall.thy ===== *)
theory Syscall
  imports Vfs Elf Socket
begin

text \<open>
  The system calls (\<^verbatim>\<open>kernel/arch/x86_64/syscall.c\<close>; the signal calls are in \<open>Signal\<close>).  They check the caller's pointers,
  find the descriptor or the path, and call the parts of the kernel that the other theories model.  \<open>user_mem\<close> is the
  memory the caller sees; a call that reads or writes it at an address the process has not mapped would fault, which
  is not modelled.

  A call that sleeps ends its pass with \<open>Inl\<close>.  The arguments of a new program are followed from the old address space through the kernel's buffer to the
  new stack in \<open>Exec_Args\<close>, and what the calls do to the identities of processes in \<open>Privileges\<close>.
\<close>

section \<open>User memory\<close>

definition user_read :: "u64 \<Rightarrow> nat \<Rightarrow> kernel \<Rightarrow> u8 list" where
  "user_read a n s = map (\<lambda>i. user_mem s (a + of_nat i)) [0..<n]"

definition mem_write :: "u64 \<Rightarrow> u8 list \<Rightarrow> (u64 \<Rightarrow> u8) \<Rightarrow> u64 \<Rightarrow> u8" where
  "mem_write a bs m = fold (\<lambda>i m. m(a + of_nat i := bs ! i)) [0..<length bs] m"

definition user_write :: "u64 \<Rightarrow> u8 list \<Rightarrow> kernel \<Rightarrow> kernel" where
  "user_write a bs s = s\<lparr>user_mem := mem_write a bs (user_mem s)\<rparr>"

definition le64 :: "u64 \<Rightarrow> u8 list" where
  "le64 x = le32 (ucast x) @ le32 (ucast (drop_bit 32 x))"

definition mem32 :: "(u64 \<Rightarrow> u8) \<Rightarrow> u64 \<Rightarrow> u32" where
  "mem32 m a = ucast (m a) OR push_bit 8 (ucast (m (a + 1))) OR push_bit 16 (ucast (m (a + 2))) OR push_bit 24 (ucast (m (a + 3)))"

definition mem64 :: "(u64 \<Rightarrow> u8) \<Rightarrow> u64 \<Rightarrow> u64" where
  "mem64 m a = ucast (mem32 m a) OR push_bit 32 (ucast (mem32 m (a + 4)))"

definition mem16 :: "(u64 \<Rightarrow> u8) \<Rightarrow> u64 \<Rightarrow> u16" where
  "mem16 m a = ucast (m a) OR push_bit 8 (ucast (m (a + 1)))"

text \<open>A string: the bytes up to the first zero.\<close>

partial_function (option) user_str :: "(u64 \<Rightarrow> u8) \<Rightarrow> u64 \<Rightarrow> u8 list option" where
  "user_str m a = (if m a = 0 then Some [] else do { xs \<leftarrow> user_str m (a + 1); Some (m a # xs) })"

abbreviation as_int :: "u64 \<Rightarrow> int" where "as_int x \<equiv> sint (ucast x :: u32)"

section \<open>Paths and descriptors\<close>

text \<open>The buffer on the kernel stack is zeroed here; what is behind the string in it is never read.\<close>

definition resolve_user_path :: "u64 \<Rightarrow> kernel \<Rightarrow> (int \<times> u8 list) option" where
  "resolve_user_path path_addr s =
     (if \<not> user_ptr_valid path_addr 1 then Some (- EINVAL, []) else
      do { pth \<leftarrow> user_str (user_mem s) path_addr;
           let p = proc_current s;
           let cwd = (if p \<noteq> 0 then str_of (cwd (procs s p)) else [SLASH]);
           (err, out) \<leftarrow> path_normalize (Some cwd) (Some pth) (Some (replicate PATH_MAX 0));
           Some (err, str_of out) })"

definition cur_fds :: "kernel \<Rightarrow> FdEntry list" where
  "cur_fds s = fd_tables s (fd_table (procs s (proc_current s)))"

definition set_fds :: "FdEntry list \<Rightarrow> kernel \<Rightarrow> kernel" where
  "set_fds es s = s\<lparr>fd_tables := (fd_tables s)(fd_table (procs s (proc_current s)) := es)\<rparr>"

definition set_file :: "nat \<Rightarrow> VfsFile \<Rightarrow> kernel \<Rightarrow> kernel" where
  "set_file i f s = set_fds ((cur_fds s)[i := (cur_fds s ! i)\<lparr>efile := f\<rparr>]) s"

text \<open>The same through a pointer into table \<open>ft\<close>, for calls after which another process may be the current one.\<close>

definition put_file :: "u64 \<Rightarrow> nat \<Rightarrow> VfsFile \<Rightarrow> kernel \<Rightarrow> kernel" where
  "put_file ft i f s = s\<lparr>fd_tables := (fd_tables s)(ft := (fd_tables s ft)[i := (fd_tables s ft ! i)\<lparr>efile := f\<rparr>])\<rparr>"

definition no_table :: "kernel \<Rightarrow> bool" where
  "no_table s \<longleftrightarrow> proc_current s = 0 \<or> fd_table (procs s (proc_current s)) = 0"

definition is_pipe :: "VfsFile \<Rightarrow> kernel \<Rightarrow> bool" where
  "is_pipe f s \<longleftrightarrow> fnode f \<noteq> 0 \<and> ntype (vnodes s (fnode f)) = VFS_PIPE"

section \<open>Processes\<close>

definition exit_close :: "nat \<Rightarrow> kernel \<Rightarrow> kernel option" where
  "exit_close i s =
     (let e = cur_fds s ! i in
      if in_use e = 0 then Some s else
      do { s \<leftarrow> (if is_pipe (efile e) s then pipe_close (fnode (efile e)) s else Some s);
           Some (set_fds ((cur_fds s)[i := (cur_fds s ! i)\<lparr>in_use := 0\<rparr>]) s) })"

definition sys_exit :: "u64 \<Rightarrow> kernel \<Rightarrow> kernel option" where
  "sys_exit status s =
     (let p = proc_current s in
      if p = 0 then None else
      do { s \<leftarrow> (if fd_table (procs s p) \<noteq> 0 then for_each exit_close [0..<MAX_FDS] s else Some s);
           let s = pset p (\<lambda>x. x\<lparr>exit_status := as_int status, pstate := PROC_ZOMBIE\<rparr>) s;
           let par = parent (procs s p);
           s \<leftarrow> (if par \<noteq> 0 then
                  do { (_, wq, s) \<leftarrow> wq_wake (child_exit_wq (procs s par)) s;
                       let s = pset par (\<lambda>x. x\<lparr>child_exit_wq := wq\<rparr>) s;
                       (_, s) \<leftarrow> sig_send (pid (procs s par)) SIGCHLD s;
                       Some s }
                else Some s);
           let s = tset (thread_current s) (tstate_update (\<lambda>_. THREAD_DEAD)) s;
           Some (sched_schedule In_schedule s) })"

definition sys_getpid :: "kernel \<Rightarrow> int" where
  "sys_getpid s = (let p = proc_current s in if p \<noteq> 0 then uint (pid (procs s p)) else - 1)"

definition sys_getppid :: "kernel \<Rightarrow> int" where
  "sys_getppid s =
     (let p = proc_current s in
      if p = 0 then - ENOSYS
      else if parent (procs s p) \<noteq> 0 then uint (pid (procs s (parent (procs s p)))) else 0)"

text \<open>The loop that maps the pages of a growing heap; \<open>Inl\<close> is the end of the physical memory.\<close>

partial_function (option) brk_loop :: "u64 \<Rightarrow> u64 \<Rightarrow> u64 \<Rightarrow> kernel \<Rightarrow> (kernel + kernel) option" where
  "brk_loop pml4 vaddr new_page s =
     (if vaddr < new_page then
        do { (phys, s) \<leftarrow> with_vmm vmm_alloc_page s;
             if phys = 0 then Some (Inl s) else
             do { (_, s) \<leftarrow> with_vmm (\<lambda>v.
                    do { v \<leftarrow> vmm_map_page_in pml4 vaddr phys (VMM_FLAG_USER OR VMM_FLAG_WRITABLE OR VMM_FLAG_NOEXEC)
                                (zero_page (phys_to_virt v phys) v);
                         Some ((), v) }) s;
                  brk_loop pml4 (vaddr + PAGE_SIZE) new_page (user_write vaddr (replicate 4096 0) s) } }
      else Some (Inr s))"

definition sys_brk :: "u64 \<Rightarrow> kernel \<Rightarrow> (int \<times> kernel) option" where
  "sys_brk new_brk s =
     (let p = proc_current s; x = procs s p in
      if p = 0 then Some (- ENOSYS, s)
      else if new_brk = 0 \<or> new_brk < brk_start x then Some (sint (brk_current x), s)
      else do { r \<leftarrow> brk_loop (page_table x) (PAGE_ALIGN_UP (brk_current x)) (PAGE_ALIGN_UP new_brk) s;
                case r of Inl s \<Rightarrow> Some (sint (brk_current x), s)
                | Inr s \<Rightarrow> Some (sint new_brk, pset p (\<lambda>x. x\<lparr>brk_current := new_brk\<rparr>) s) })"

definition wait_encode_exit :: "int \<Rightarrow> u32" where
  "wait_encode_exit raw = push_bit 8 (of_int raw AND 0xFF)"

definition wait_encode_stopped :: "int \<Rightarrow> u32" where
  "wait_encode_stopped signo = push_bit 8 (of_int signo) OR 0x7F"

abbreviation WNOHANG :: u64 where "WNOHANG \<equiv> 1"

text \<open>One pass of the waiting loop, from the acquisition of the lock to the result or to the sleep.\<close>

definition wait_pass :: "u64 \<Rightarrow> u64 \<Rightarrow> u64 \<Rightarrow> kernel \<Rightarrow> ((unit + int) \<times> kernel) option" where
  "wait_pass p status_addr flags s =
     do { (lk, s) \<leftarrow> acquire (wait_lock s) s;
          let put = (\<lambda>w s. if status_addr \<noteq> 0 then user_write status_addr (le32 w) s else s);
          let done = (\<lambda>s. let (lk, s) = release lk s in s\<lparr>wait_lock := lk\<rparr>);
          z \<leftarrow> proc_find_zombie_child p s;
          if z \<noteq> 0 then
            (let w = wait_encode_exit (exit_status (procs s z)); ((n, _), s) = proc_reap z s in Some (Inr n, put w (done s)))
          else do {
            t \<leftarrow> proc_find_stopped_child p s;
            if t \<noteq> 0 then
              (let w = wait_encode_stopped (exit_status (procs s t)); n = uint (pid (procs s t)) in
               Some (Inr n, put w (done (pset t (\<lambda>x. x\<lparr>exit_status := 0\<rparr>) s))))
            else do {
              c \<leftarrow> proc_has_children p s;
              if c = 0 then Some (Inr (- ECHILD), done s)
              else if flags AND WNOHANG \<noteq> 0 then Some (Inr 0, done s)
              else do { (wq, lk, s) \<leftarrow> wq_sleep (child_exit_wq (procs s p)) lk (s\<lparr>wait_lock := lk\<rparr>);
                        Some (Inl (), pset p (\<lambda>x. x\<lparr>child_exit_wq := wq\<rparr>) (s\<lparr>wait_lock := lk\<rparr>)) } } } }"

definition sys_wait :: "u64 \<Rightarrow> u64 \<Rightarrow> kernel \<Rightarrow> ((unit + int) \<times> kernel) option" where
  "sys_wait status_addr flags s =
     (let p = proc_current s in
      if p = 0 then Some (Inr (- ENOSYS), s)
      else if status_addr \<noteq> 0 \<and> \<not> user_ptr_valid status_addr 4 then Some (Inr (- EINVAL), s)
      else wait_pass p status_addr flags s)"

text \<open>\<open>ent\<close> and \<open>args\<close> are the addresses that \<open>proc_fork\<close> takes.\<close>

definition sys_fork :: "u64 \<Rightarrow> u64 \<Rightarrow> kernel \<Rightarrow> (int \<times> kernel) option" where
  "sys_fork ent args s =
     (let par = proc_current s in
      if par = 0 then Some (- ENOSYS, s) else
      do { (child, s) \<leftarrow> proc_fork ent args par (saved_user s) s;
           if child = 0 then Some (- ENOMEM, s) else Some (uint (pid (procs s child)), s) })"

section \<open>Files\<close>

abbreviation SIGPIPE :: int where "SIGPIPE \<equiv> 13"

text \<open>A call of \<open>vfs_write\<close> on descriptor \<open>i\<close>, with the signal for a pipe nobody reads.\<close>

definition write_file :: "nat \<Rightarrow> u8 list \<Rightarrow> kernel \<Rightarrow> (((nat \<times> u8 list) + int) \<times> kernel) option" where
  "write_file i src s =
     (let p = proc_current s; ft = fd_table (procs s p) in
      do { (r, f, s) \<leftarrow> vfs_write (Some (efile (cur_fds s ! i))) (Some src) s;
           let s = (case f of None \<Rightarrow> s | Some f \<Rightarrow> put_file ft i f s);
           s \<leftarrow> (if r = Inr (- EPIPE) then do { (_, s) \<leftarrow> sig_send (pid (procs s p)) SIGPIPE s; Some s } else Some s);
           Some (r, s) })"

definition sys_write :: "u64 \<Rightarrow> u64 \<Rightarrow> u64 \<Rightarrow> kernel \<Rightarrow> (((nat \<times> u8 list) + int) \<times> kernel) option" where
  "sys_write fd buf_addr count s =
     (if \<not> user_ptr_valid buf_addr count then Some (Inr (- EINVAL), s) else
      let src = user_read buf_addr (unat (ucast count :: u32)) s; i = (if no_table s then None else fd_get (cur_fds s) (as_int fd)) in
      if fd = 1 \<or> fd = 2 then
        (case i of Some i \<Rightarrow> write_file i src s
         | None \<Rightarrow> let (r, s) = tty_write src s in Some (Inr r, s))
      else (case i of Some i \<Rightarrow> write_file i src s | None \<Rightarrow> Some (Inr (- EBADF), s)))"

text \<open>\<open>vfs_read\<close> and the terminal store what they read at the caller's address.\<close>

definition read_file :: "nat \<Rightarrow> u64 \<Rightarrow> u32 \<Rightarrow> kernel \<Rightarrow> ((unit + int) \<times> kernel) option" where
  "read_file i buf_addr n s =
     (let ft = fd_table (procs s (proc_current s)) in
      do { (r, f, s) \<leftarrow> vfs_read (Some (efile (cur_fds s ! i))) True n s;
           let s = (case f of None \<Rightarrow> s | Some f \<Rightarrow> put_file ft i f s);
           Some (case r of Inl u \<Rightarrow> (Inl u, s) | Inr (k, bs) \<Rightarrow> (Inr k, user_write buf_addr bs s)) })"

definition sys_read :: "u64 \<Rightarrow> u64 \<Rightarrow> u64 \<Rightarrow> kernel \<Rightarrow> ((unit + int) \<times> kernel) option" where
  "sys_read fd buf_addr count s =
     (if \<not> user_ptr_valid buf_addr count then Some (Inr (- EINVAL), s) else
      let n = (ucast count :: u32) in
      if fd = 0 then
        (case (if no_table s then None else fd_get (cur_fds s) 0) of
           Some i \<Rightarrow> read_file i buf_addr n s
         | None \<Rightarrow> do { (r, s) \<leftarrow> tty_read_pass n s;
                         Some (case r of Inl u \<Rightarrow> (Inl u, s) | Inr bs \<Rightarrow> (Inr (int (length bs)), user_write buf_addr bs s)) })
      else if no_table s then Some (Inr (- ENOSYS), s)
      else (case fd_get (cur_fds s) (as_int fd) of
          None \<Rightarrow> Some (Inr (- EBADF), s)
        | Some i \<Rightarrow> read_file i buf_addr n s))"

definition sys_open :: "u64 \<Rightarrow> u64 \<Rightarrow> kernel \<Rightarrow> (int \<times> kernel) option" where
  "sys_open path_addr flags s =
     (if no_table s then Some (- ENOSYS, s) else
      let (fd, es) = fd_alloc (cur_fds s) in
      if fd < 0 then Some (- ENOMEM, s) else
      let s = set_fds es s; fail = (\<lambda>err s. Some (err, set_fds (fd_free fd (cur_fds s)) s)) in
      do { (perr, pth) \<leftarrow> resolve_user_path path_addr s;
           if perr \<noteq> 0 then fail perr s else
           do { (err, f, s) \<leftarrow> vfs_open (Some pth) (ucast flags) True s;
                case f of None \<Rightarrow> fail err s
                | Some f \<Rightarrow> if err \<noteq> 0 then fail err s else Some (fd, set_file (nat fd) f s) } })"

definition sys_close :: "u64 \<Rightarrow> kernel \<Rightarrow> (int \<times> kernel) option" where
  "sys_close fd s =
     (if no_table s then Some (- ENOSYS, s) else
      case fd_get (cur_fds s) (as_int fd) of
        None \<Rightarrow> Some (- EBADF, s)
      | Some i \<Rightarrow>
          do { let f = efile (cur_fds s ! i);
               s \<leftarrow> (if is_pipe f s then pipe_close (fnode f) s else Some s);
               let s = (case snd (vfs_close (Some f)) of None \<Rightarrow> s | Some f \<Rightarrow> set_file i f s);
               Some (0, set_fds (fd_free (as_int fd) (cur_fds s)) s) })"

definition sys_lseek :: "u64 \<Rightarrow> u64 \<Rightarrow> u64 \<Rightarrow> kernel \<Rightarrow> int \<times> kernel" where
  "sys_lseek fd off whence s =
     (if no_table s then (- ENOSYS, s) else
      case fd_get (cur_fds s) (as_int fd) of
        None \<Rightarrow> (- EBADF, s)
      | Some i \<Rightarrow>
          if is_pipe (efile (cur_fds s ! i)) s then (- ESPIPE, s)
          else (case vfs_seek (Some (efile (cur_fds s ! i))) off (as_int whence) s of
              (r, None) \<Rightarrow> (r, s) | (r, Some f) \<Rightarrow> (r, set_file i f s)))"

text \<open>The stores to the fields of a \<^verbatim>\<open>VfsStat\<close> (40 bytes) and of a \<^verbatim>\<open>VfsDirEntry\<close> (272 bytes, the name padded with zeros).\<close>

definition store_stat :: "u64 \<Rightarrow> VfsStat \<Rightarrow> kernel \<Rightarrow> kernel" where
  "store_stat a st s =
     user_write (a + 32) (le32 (st_gid st)) (user_write (a + 28) (le32 (st_uid st)) (user_write (a + 24) (le32 (st_mode st))
       (user_write (a + 16) (le64 (st_size st)) (user_write (a + 8) [st_type st] (user_write a (le64 (st_inode_num st)) s)))))"

definition store_dirent :: "u64 \<Rightarrow> VfsDirEntry \<Rightarrow> kernel \<Rightarrow> kernel" where
  "store_dirent a e s =
     user_write (a + 264) [de_type e] (user_write (a + 256) (le64 (de_inode_num e))
       (user_write a (take VFS_NAME_MAX (de_name e @ replicate VFS_NAME_MAX 0)) s))"

definition sys_stat :: "u64 \<Rightarrow> u64 \<Rightarrow> kernel \<Rightarrow> (int \<times> kernel) option" where
  "sys_stat path_addr stat_addr s =
     (if \<not> user_ptr_valid stat_addr 40 then Some (- EINVAL, s) else
      do { (perr, pth) \<leftarrow> resolve_user_path path_addr s;
           if perr \<noteq> 0 then Some (perr, s)
           else Some (case vfs_stat (Some pth) True s of (r, None) \<Rightarrow> (r, s) | (r, Some st) \<Rightarrow> (r, store_stat stat_addr st s)) })"

text \<open>A descriptor of a socket has no node, and the call would read through the null pointer.\<close>

definition sys_fstat :: "u64 \<Rightarrow> u64 \<Rightarrow> kernel \<Rightarrow> (int \<times> kernel) option" where
  "sys_fstat fd stat_addr s =
     (if no_table s then Some (- ENOSYS, s)
      else if \<not> user_ptr_valid stat_addr 40 then Some (- EINVAL, s)
      else case fd_get (cur_fds s) (as_int fd) of
        None \<Rightarrow> Some (- EBADF, s)
      | Some i \<Rightarrow>
          let n = fnode (efile (cur_fds s ! i)); v = vnodes s n in
          if n = 0 then None
          else Some (0, store_stat stat_addr \<lparr>st_inode_num = inode_num v, st_type = ntype v, st_size = nsize v, st_mode = mode v,
                                             st_uid = nuid v, st_gid = ngid v\<rparr> s))"

definition sys_mkdir :: "u64 \<Rightarrow> u64 \<Rightarrow> kernel \<Rightarrow> (int \<times> kernel) option" where
  "sys_mkdir path_addr m s =
     do { (perr, pth) \<leftarrow> resolve_user_path path_addr s;
          if perr \<noteq> 0 then Some (perr, s) else vfs_mkdir (Some pth) (ucast m) s }"

definition sys_readdir :: "u64 \<Rightarrow> u64 \<Rightarrow> u64 \<Rightarrow> kernel \<Rightarrow> (int \<times> kernel) option" where
  "sys_readdir path_addr entries_addr mx s =
     (if mx > 0 \<and> \<not> user_ptr_valid entries_addr (mx * 272) then Some (- EINVAL, s) else
      do { (perr, pth) \<leftarrow> resolve_user_path path_addr s;
           if perr \<noteq> 0 then Some (perr, s) else
           let (r, es) = vfs_readdir (Some pth) (entries_addr \<noteq> 0) (ucast mx) s in
           Some (r, fold (\<lambda>i. store_dirent (entries_addr + of_nat i * 272) (es ! i)) [0..<length es] s) })"

definition sys_unlink :: "u64 \<Rightarrow> kernel \<Rightarrow> (int \<times> kernel) option" where
  "sys_unlink path_addr s =
     do { (perr, pth) \<leftarrow> resolve_user_path path_addr s;
          if perr \<noteq> 0 then Some (perr, s) else vfs_unlink (Some pth) s }"

definition add_pipe_ref :: "VfsFile \<Rightarrow> kernel \<Rightarrow> kernel" where
  "add_pipe_ref f s = (if is_pipe f s then pipe_addref (fnode f) s else s)"

definition sys_dup2 :: "u64 \<Rightarrow> u64 \<Rightarrow> kernel \<Rightarrow> (int \<times> kernel) option" where
  "sys_dup2 oldfd newfd s =
     (if no_table s then Some (- ENOSYS, s)
      else if oldfd \<ge> of_nat MAX_FDS \<or> newfd \<ge> of_nat MAX_FDS then Some (- EBADF, s)
      else if oldfd = newfd then Some (uint newfd, s)
      else case fd_get (cur_fds s) (as_int oldfd) of
        None \<Rightarrow> Some (- EBADF, s)
      | Some i \<Rightarrow>
          do { let j = unat newfd;
               let d = cur_fds s ! j;
               s \<leftarrow> (if in_use d \<noteq> 0 then
                      do { s \<leftarrow> (if is_pipe (efile d) s then pipe_close (fnode (efile d)) s else Some s);
                           Some (set_fds ((cur_fds s)[j := (cur_fds s ! j)\<lparr>in_use := 0\<rparr>]) s) }
                    else Some s);
               let f = efile (cur_fds s ! i);
               let s = set_fds ((cur_fds s)[j := \<lparr>efile = f, in_use = 1\<rparr>]) s;
               Some (uint newfd, add_pipe_ref f s) })"

definition sys_dup :: "u64 \<Rightarrow> kernel \<Rightarrow> int \<times> kernel" where
  "sys_dup oldfd s =
     (if no_table s then (- ENOSYS, s) else
      case fd_get (cur_fds s) (as_int oldfd) of
        None \<Rightarrow> (- EBADF, s)
      | Some i \<Rightarrow>
          let (newfd, es) = fd_alloc (cur_fds s) in
          if newfd < 0 then (- ENOMEM, s) else
          let s = set_fds es s; f = efile (cur_fds s ! i) in
          (newfd, add_pipe_ref f (set_file (nat newfd) f s)))"

definition pipe_setup_fd :: "int \<Rightarrow> u64 \<Rightarrow> u32 \<Rightarrow> kernel \<Rightarrow> kernel" where
  "pipe_setup_fd fd node fl s = set_file (nat fd) \<lparr>fnode = node, offset = 0, fflags = fl\<rparr> s"

definition sys_pipe :: "u64 \<Rightarrow> kernel \<Rightarrow> (int \<times> kernel) option" where
  "sys_pipe pipefd_addr s =
     (if \<not> user_ptr_valid pipefd_addr 8 then Some (- EINVAL, s)
      else if no_table s then Some (- ENOSYS, s)
      else do {
        (err, rn, wn, s) \<leftarrow> pipe_create s;
        if err \<noteq> 0 then Some (err, s) else
        let (rfd, es) = fd_alloc (cur_fds s) in
        if rfd < 0 then do { s \<leftarrow> pipe_close rn s; s \<leftarrow> pipe_close wn s; Some (- ENOMEM, s) } else
        let s = set_fds es s; (wfd, es) = fd_alloc (cur_fds s) in
        if wfd < 0 then
          do { let s = set_fds (fd_free rfd (cur_fds s)) s;
               s \<leftarrow> pipe_close rn s; s \<leftarrow> pipe_close wn s; Some (- ENOMEM, s) }
        else
          let s = pipe_setup_fd wfd wn O_WRONLY (pipe_setup_fd rfd rn O_RDONLY (set_fds es s)) in
          Some (0, user_write (pipefd_addr + 4) (le32 (of_int wfd)) (user_write pipefd_addr (le32 (of_int rfd)) s)) })"

section \<open>Directories, identities and groups\<close>

definition sys_chdir :: "u64 \<Rightarrow> kernel \<Rightarrow> (int \<times> kernel) option" where
  "sys_chdir path_addr s =
     (let p = proc_current s in
      if p = 0 then Some (- ENOSYS, s) else
      do { (perr, pth) \<leftarrow> resolve_user_path path_addr s;
           if perr \<noteq> 0 then Some (perr, s) else
           let node = vfs_resolve (Some pth) s in
           if node = 0 then Some (- ENOENT, s)
           else if ntype (vnodes s node) \<noteq> VFS_DIRECTORY then Some (- ENOTDIR, s)
           else Some (0, pset p (\<lambda>x. x\<lparr>cwd := strncpy_array PATH_MAX pth\<rparr>) s) })"

definition sys_getcwd :: "u64 \<Rightarrow> u64 \<Rightarrow> kernel \<Rightarrow> int \<times> kernel" where
  "sys_getcwd buf_addr sz s =
     (let p = proc_current s; d = str_of (cwd (procs s p)) in
      if p = 0 then (- ENOSYS, s)
      else if \<not> user_ptr_valid buf_addr sz then (- EINVAL, s)
      else if length d + 1 > unat sz then (- EINVAL, s)
      else (0, user_write buf_addr (strncpy_array (unat sz) d) s))"

definition sys_getuid :: "kernel \<Rightarrow> int" where
  "sys_getuid s = (let p = proc_current s in if p \<noteq> 0 then uint (euid (procs s p)) else 0)"

definition sys_getgid :: "kernel \<Rightarrow> int" where
  "sys_getgid s = (let p = proc_current s in if p \<noteq> 0 then uint (egid (procs s p)) else 0)"

definition sys_setuid :: "u64 \<Rightarrow> kernel \<Rightarrow> int \<times> kernel" where
  "sys_setuid new_uid s =
     (let p = proc_current s in
      if p = 0 then (- ENOSYS, s)
      else if euid (procs s p) \<noteq> 0 then (- EPERM, s)
      else (0, pset p (\<lambda>x. x\<lparr>uid := ucast new_uid, euid := ucast new_uid\<rparr>) s))"

definition sys_setgid :: "u64 \<Rightarrow> kernel \<Rightarrow> int \<times> kernel" where
  "sys_setgid new_gid s =
     (let p = proc_current s in
      if p = 0 then (- ENOSYS, s)
      else if euid (procs s p) \<noteq> 0 then (- EPERM, s)
      else (0, pset p (\<lambda>x. x\<lparr>gid := ucast new_gid, egid := ucast new_gid\<rparr>) s))"

definition sys_chmod :: "u64 \<Rightarrow> u64 \<Rightarrow> kernel \<Rightarrow> (int \<times> kernel) option" where
  "sys_chmod path_addr m s =
     do { (perr, pth) \<leftarrow> resolve_user_path path_addr s;
          if perr \<noteq> 0 then Some (perr, s) else
          let node = vfs_resolve (Some pth) s; p = proc_current s in
          if node = 0 then Some (- ENOENT, s)
          else if p = 0 then Some (- ENOSYS, s)
          else if euid (procs s p) \<noteq> 0 \<and> euid (procs s p) \<noteq> nuid (vnodes s node) then Some (- EPERM, s)
          else Some (0, nset node (\<lambda>v. v\<lparr>mode := ucast m AND 4095\<rparr>) s) }"

definition sys_chown :: "u64 \<Rightarrow> u64 \<Rightarrow> u64 \<Rightarrow> kernel \<Rightarrow> (int \<times> kernel) option" where
  "sys_chown path_addr new_uid new_gid s =
     do { (perr, pth) \<leftarrow> resolve_user_path path_addr s;
          if perr \<noteq> 0 then Some (perr, s) else
          let node = vfs_resolve (Some pth) s; p = proc_current s in
          if node = 0 then Some (- ENOENT, s)
          else if p = 0 then Some (- ENOSYS, s)
          else if euid (procs s p) \<noteq> 0 then Some (- EPERM, s)
          else
            let s = (if (ucast new_uid :: u32) \<noteq> - 1 then nset node (\<lambda>v. v\<lparr>nuid := ucast new_uid\<rparr>) s else s)
            in Some (0, if (ucast new_gid :: u32) \<noteq> - 1 then nset node (\<lambda>v. v\<lparr>ngid := ucast new_gid\<rparr>) s else s) }"

definition sys_setpgid :: "u64 \<Rightarrow> u64 \<Rightarrow> kernel \<Rightarrow> (int \<times> kernel) option" where
  "sys_setpgid pid_arg pgid_arg s =
     (let cur = proc_current s in
      if cur = 0 then Some (- ENOSYS, s) else
      do { t \<leftarrow> (if pid_arg = 0 then Some cur else proc_get_by_pid (ucast pid_arg) s);
           if t = 0 then Some (- ESRCH, s)
           else Some (0, pset t (\<lambda>x. x\<lparr>pgid := (if pgid_arg = 0 then pid x else ucast pgid_arg)\<rparr>) s) })"

definition sys_getpgid :: "u64 \<Rightarrow> kernel \<Rightarrow> int option" where
  "sys_getpgid pid_arg s =
     (let cur = proc_current s in
      if cur = 0 then Some (- ENOSYS)
      else if pid_arg = 0 then Some (uint (pgid (procs s cur)))
      else do { t \<leftarrow> proc_get_by_pid (ucast pid_arg) s;
                Some (if t = 0 then - ESRCH else uint (pgid (procs s t))) })"

definition sys_tcsetpgrp :: "u64 \<Rightarrow> kernel \<Rightarrow> int \<times> kernel" where
  "sys_tcsetpgrp pgid_arg s = (0, tty_set_fg_pgid (ucast pgid_arg) s)"

definition sys_umask :: "u64 \<Rightarrow> kernel \<Rightarrow> int \<times> kernel" where
  "sys_umask new_mask s =
     (let p = proc_current s in
      if p = 0 then (- ENOSYS, s)
      else (uint (umask (procs s p)), pset p (\<lambda>x. x\<lparr>umask := ucast new_mask AND 511\<rparr>) s))"

section \<open>Executing a program\<close>

abbreviation MAX_ELF_SIZE :: u64 where "MAX_ELF_SIZE \<equiv> 16777216"
abbreviation MAX_EXEC_ARGS :: nat where "MAX_EXEC_ARGS \<equiv> 32"
abbreviation MAX_EXEC_ARG_DATA :: nat where "MAX_EXEC_ARG_DATA \<equiv> 4096"
abbreviation S_ISUID :: u32 where "S_ISUID \<equiv> 2048"
abbreviation S_ISGID :: u32 where "S_ISGID \<equiv> 1024"

text \<open>
  The file is read into a heap block; its bytes, which only \<open>elf_load\<close> sees, are a local list.  A file whose size is
  not 0 is in the RAM file system, so the read does not sleep.
\<close>

definition exec_read_elf :: "u8 list \<Rightarrow> kernel \<Rightarrow> (int \<times> u64 \<times> u8 list \<times> kernel) option" where
  "exec_read_elf pth s =
     do { (err, f, s) \<leftarrow> vfs_open (Some pth) O_RDONLY True s;
          case f of None \<Rightarrow> Some (err, 0, [], s)
          | Some f \<Rightarrow>
              if err \<noteq> 0 then Some (err, 0, [], s) else
              let file_size = nsize (vnodes s (fnode f)) in
              if file_size = 0 \<or> file_size > MAX_ELF_SIZE then Some (- EINVAL, 0, [], s) else
              do { (elf_buf, s) \<leftarrow> k_alloc file_size 0 s;
                   if elf_buf = 0 then Some (- ENOMEM, 0, [], s) else
                   do { (r, _, s) \<leftarrow> vfs_read (Some f) True (ucast file_size) s;
                        case r of Inl _ \<Rightarrow> None
                        | Inr (n, bs) \<Rightarrow>
                            if n < 0 \<or> n \<noteq> uint file_size then do { s \<leftarrow> k_free elf_buf s; Some (- EIO, 0, [], s) }
                            else Some (0, elf_buf, bs, s) } } }"

text \<open>
  The kernel's copy of the argument strings: the strings in order, and \<open>used\<close>, the bytes they take in the buffer with
  their terminators.  \<open>copy_arg\<close> is the loop over the bytes of one string.
\<close>

partial_function (option) copy_arg :: "(u64 \<Rightarrow> u8) \<Rightarrow> u64 \<Rightarrow> nat \<Rightarrow> ((int + u8 list) \<times> nat) option" where
  "copy_arg m a used =
     (if used \<ge> MAX_EXEC_ARG_DATA then Some (Inl (- E2BIG), used)
      else if m a = 0 then Some (Inr [], used + 1)
      else do { (r, u) \<leftarrow> copy_arg m (a + 1) (used + 1);
                Some (case r of Inl e \<Rightarrow> Inl e | Inr xs \<Rightarrow> Inr (m a # xs), u) })"

fun copy_args :: "(u64 \<Rightarrow> u8) \<Rightarrow> u64 \<Rightarrow> nat \<Rightarrow> nat \<Rightarrow> (int + u8 list list) option" where
  "copy_args m argv 0 used = Some (Inr [])"
| "copy_args m argv (Suc n) used =
     (let ustr = mem64 m argv in
      if ustr = 0 then Some (Inr [])
      else if \<not> user_ptr_valid ustr 1 then Some (Inl (- EINVAL))
      else do { (r, used) \<leftarrow> copy_arg m ustr used;
                case r of Inl e \<Rightarrow> Some (Inl e)
                | Inr x \<Rightarrow> do { r \<leftarrow> copy_args m (argv + 8) n used;
                                Some (case r of Inl e \<Rightarrow> Inl e | Inr xs \<Rightarrow> Inr (x # xs)) } })"

definition exec_copy_argv :: "u64 \<Rightarrow> (u64 \<Rightarrow> u8) \<Rightarrow> (int + u8 list list) option" where
  "exec_copy_argv argv_addr m =
     (if argv_addr = 0 then Some (Inr [])
      else if \<not> user_ptr_valid argv_addr 8 then Some (Inl (- EINVAL))
      else do { r \<leftarrow> copy_args m argv_addr MAX_EXEC_ARGS 0;
                Some (case r of Inl e \<Rightarrow> Inl e
                      | Inr xs \<Rightarrow> if length xs = MAX_EXEC_ARGS \<and> mem64 m (argv_addr + 8 * of_nat MAX_EXEC_ARGS) \<noteq> 0
                                  then Inl (- E2BIG) else Inr xs) })"

text \<open>The new stack: the strings from the top down, last one first, then the array of their addresses.\<close>

fun push_strings :: "u8 list list \<Rightarrow> u64 \<times> u64 list \<times> (u64 \<Rightarrow> u8) \<Rightarrow> u64 \<times> u64 list \<times> (u64 \<Rightarrow> u8)" where
  "push_strings [] st = st"
| "push_strings (x # xs) st =
     (let (sp, as, m) = push_strings xs st; sp = sp - of_nat (length x + 1) in (sp, sp # as, mem_write sp (x @ [0]) m))"

fun push_words :: "u64 list \<Rightarrow> u64 \<times> (u64 \<Rightarrow> u8) \<Rightarrow> u64 \<times> (u64 \<Rightarrow> u8)" where
  "push_words [] st = st"
| "push_words (a # as) st = (let (sp, m) = push_words as st; sp = sp - 8 in (sp, mem_write sp (le64 a) m))"

definition exec_setup_user_stack :: "u8 list list \<Rightarrow> (u64 \<Rightarrow> u8) \<Rightarrow> u64 \<times> u64 \<times> (u64 \<Rightarrow> u8)" where
  "exec_setup_user_stack args m =
     (let (sp, as, m) = push_strings args (USER_STACK_TOP, [], m);
          sp = sp AND NOT 7;
          sp = sp - 8;
          m = mem_write sp (le64 0) m;
          (sp, m) = push_words as (sp, m);
          argv = (if args \<noteq> [] then sp else 0)
      in (sp AND NOT 15, argv, m))"

text \<open>
  What the process sees after the switch to another address space: the bytes of the frames behind its pages.
\<close>

definition address_space_view :: "vmm \<Rightarrow> u64 \<Rightarrow> u64 \<Rightarrow> u8" where
  "address_space_view v pml4 a = (case user_byte v pml4 a of Some b \<Rightarrow> b | None \<Rightarrow> 0)"

text \<open>\<open>Inr\<close> is the jump to user mode, with the entry point, the stack pointer and the two arguments.\<close>

definition sys_exec :: "u64 \<Rightarrow> u64 \<Rightarrow> kernel \<Rightarrow> ((int + u64 \<times> u64 \<times> u64 \<times> u64) \<times> kernel) option" where
  "sys_exec path_addr argv_addr s =
     (let p = proc_current s in
      if p = 0 then Some (Inl (- ENOSYS), s) else
      do { (perr, pth) \<leftarrow> resolve_user_path path_addr s;
           if perr \<noteq> 0 then Some (Inl perr, s) else
           do { args \<leftarrow> exec_copy_argv argv_addr (user_mem s);
                case args of Inl err \<Rightarrow> Some (Inl err, s)
                | Inr args \<Rightarrow>
           do { (err, elf_buf, bs, s) \<leftarrow> exec_read_elf pth s;
                if err \<noteq> 0 then Some (Inl err, s) else
           do { let old_pml4 = page_table (procs s p);
                (new_pml4, s) \<leftarrow> with_vmm vmm_create_user_pml4 s;
                if new_pml4 = 0 then do { s \<leftarrow> k_free elf_buf s; Some (Inl (- ENOMEM), s) } else
           do { ((err, res), s) \<leftarrow> with_vmm (\<lambda>v. do { (e, r, v) \<leftarrow> elf_load (Some bs) new_pml4 True v; Some ((e, r), v) }) s;
                s \<leftarrow> k_free elf_buf s;
                case res of None \<Rightarrow> do { s \<leftarrow> destroy_pml4 new_pml4 s; Some (Inl err, s) }
                | Some res \<Rightarrow>
           if err \<noteq> 0 then do { s \<leftarrow> destroy_pml4 new_pml4 s; Some (Inl err, s) } else
           do { (err, s) \<leftarrow> with_vmm (vmm_map_user_stack new_pml4) s;
                if err \<noteq> 0
                then do { (_, s) \<leftarrow> with_vmm (\<lambda>v. do { v \<leftarrow> vmm_free_user_pages new_pml4 v; Some ((), v) }) s; Some (Inl err, s) }
                else
           do { let node = vfs_resolve (Some pth) s;
                let v = vnodes s node;
                let s = (if node \<noteq> 0 \<and> mode v AND S_ISUID \<noteq> 0 then pset p (\<lambda>x. x\<lparr>euid := nuid v\<rparr>) s else s);
                let s = (if node \<noteq> 0 \<and> mode v AND S_ISGID \<noteq> 0 then pset p (\<lambda>x. x\<lparr>egid := ngid v\<rparr>) s else s);
                let s = pset p (\<lambda>x. x\<lparr>page_table := new_pml4, brk_start := elf_brk_start res, brk_current := elf_brk_start res\<rparr>) s;
                (_, s) \<leftarrow> with_vmm (\<lambda>v. do { v \<leftarrow> vmm_free_user_pages old_pml4 v; Some ((), v) }) s;
                let s = paging_write_cr3 new_pml4 s;
                let (rsp, argv, m) = exec_setup_user_stack args (address_space_view (h_vmm (k_heap s)) new_pml4);
                Some (Inr (entry_point res, rsp, of_nat (length args), argv), s\<lparr>user_mem := m\<rparr>) } } } } } } })"

section \<open>Sockets\<close>

abbreviation VFS_SOCKET :: u32 where "VFS_SOCKET \<equiv> 3"
abbreviation SIZEOF_SockAddrIn :: u64 where "SIZEOF_SockAddrIn \<equiv> 8"

definition on_kernel :: "(kernel \<Rightarrow> ('a \<times> kernel) option) \<Rightarrow> Net \<Rightarrow> ('a \<times> Net) option" where
  "on_kernel f n = do { (r, k) \<leftarrow> f (nk n); Some (r, n\<lparr>nk := k\<rparr>) }"

definition sock_file :: "int \<Rightarrow> VfsFile" where
  "sock_file idx = \<lparr>fnode = 0, offset = of_int idx, fflags = VFS_SOCKET\<rparr>"

text \<open>The descriptor for a new socket, which is given back if there is none.\<close>

definition sock_fd :: "int \<Rightarrow> Net \<Rightarrow> (int \<times> Net) option" where
  "sock_fd idx n =
     (let s = nk n; (fd, es) = fd_alloc (cur_fds s) in
      if fd < 0 then do { n \<leftarrow> socket_free idx n; Some (- ENOMEM, n) }
      else Some (fd, n\<lparr>nk := set_file (nat fd) (sock_file idx) (set_fds es s)\<rparr>))"

definition sys_socket :: "u64 \<Rightarrow> u64 \<Rightarrow> Net \<Rightarrow> (int \<times> Net) option" where
  "sys_socket fam ty n =
     (if no_table (nk n) then Some (- ENOSYS, n) else
      do { (idx, n) \<leftarrow> socket_create (ucast fam) (ucast ty) n;
           if idx < 0 then Some (idx, n) else sock_fd idx n })"

definition fd_to_socket :: "u64 \<Rightarrow> Net \<Rightarrow> u64 option" where
  "fd_to_socket fd n =
     (let s = nk n in
      if no_table s then Some 0 else
      case fd_get (cur_fds s) (as_int fd) of None \<Rightarrow> Some 0
      | Some i \<Rightarrow> let f = efile (cur_fds s ! i) in
          if fflags f \<noteq> VFS_SOCKET then Some 0 else socket_get (as_int (offset f)) n)"

text \<open>The port and the address in the caller's \<^verbatim>\<open>SockAddrIn\<close>.\<close>

definition user_port :: "u64 \<Rightarrow> Net \<Rightarrow> u16" where "user_port a n = mem16 (user_mem (nk n)) (a + 2)"
definition user_addr :: "u64 \<Rightarrow> Net \<Rightarrow> u32" where "user_addr a n = mem32 (user_mem (nk n)) (a + 4)"

definition store_addr :: "u64 \<Rightarrow> u32 \<Rightarrow> u16 \<Rightarrow> Net \<Rightarrow> Net" where
  "store_addr a ip port n =
     (if a \<noteq> 0 \<and> user_ptr_valid a SIZEOF_SockAddrIn
      then n\<lparr>nk := user_write a (le16 AF_INET @ le16 port @ le32 ip) (nk n)\<rparr> else n)"

definition sys_bind :: "u64 \<Rightarrow> u64 \<Rightarrow> Net \<Rightarrow> (int \<times> Net) option" where
  "sys_bind fd a n =
     (if \<not> user_ptr_valid a SIZEOF_SockAddrIn then Some (- EINVAL, n) else
      do { sk \<leftarrow> fd_to_socket fd n;
           if sk = 0 then Some (- EBADF, n) else socket_bind sk (user_addr a n) (user_port a n) n })"

definition sys_listen :: "u64 \<Rightarrow> Net \<Rightarrow> (int \<times> Net) option" where
  "sys_listen fd n = do { sk \<leftarrow> fd_to_socket fd n; if sk = 0 then Some (- EBADF, n) else socket_listen sk n }"

definition sys_accept :: "u64 \<Rightarrow> u64 \<Rightarrow> Net \<Rightarrow> ((unit + int) \<times> Net) option" where
  "sys_accept fd a n =
     do { sk \<leftarrow> fd_to_socket fd n;
          if sk = 0 then Some (Inr (- EBADF), n) else
          do { (r, n) \<leftarrow> socket_accept sk n;
               case r of Inl u \<Rightarrow> Some (Inl u, n)
               | Inr (child, from) \<Rightarrow>
                   if child < 0 then Some (Inr child, n) else
                   do { (new_fd, n) \<leftarrow> sock_fd child n;
                        Some (Inr new_fd, case from of Some (port, ip) \<Rightarrow> if new_fd < 0 then n else store_addr a ip port n | None \<Rightarrow> n) } } }"

definition sys_connect :: "u64 \<Rightarrow> u64 \<Rightarrow> Net \<Rightarrow> ((unit + int) \<times> Net) option" where
  "sys_connect fd a n =
     (if \<not> user_ptr_valid a SIZEOF_SockAddrIn then Some (Inr (- EINVAL), n) else
      do { sk \<leftarrow> fd_to_socket fd n;
           if sk = 0 then Some (Inr (- EBADF), n) else socket_connect sk (user_addr a n) (user_port a n) n })"

definition sys_send :: "u64 \<Rightarrow> u64 \<Rightarrow> u64 \<Rightarrow> Net \<Rightarrow> (int \<times> Net) option" where
  "sys_send fd buf_addr len n =
     (if \<not> user_ptr_valid buf_addr len then Some (- EINVAL, n) else
      do { sk \<leftarrow> fd_to_socket fd n;
           if sk = 0 then Some (- EBADF, n) else socket_send sk (user_read buf_addr (unat (ucast len :: u32)) (nk n)) n })"

definition sys_recv :: "u64 \<Rightarrow> u64 \<Rightarrow> u64 \<Rightarrow> Net \<Rightarrow> ((unit + int) \<times> Net) option" where
  "sys_recv fd buf_addr len n =
     (if \<not> user_ptr_valid buf_addr len then Some (Inr (- EINVAL), n) else
      do { sk \<leftarrow> fd_to_socket fd n;
           if sk = 0 then Some (Inr (- EBADF), n) else
           do { (r, n) \<leftarrow> socket_recv sk (ucast len) n;
                Some (case r of Inl u \<Rightarrow> (Inl u, n) | Inr (Inl err) \<Rightarrow> (Inr err, n)
                      | Inr (Inr bs) \<Rightarrow> (Inr (int (length bs)), n\<lparr>nk := user_write buf_addr bs (nk n)\<rparr>)) } })"

definition sys_sendto :: "u64 \<Rightarrow> u64 \<Rightarrow> u64 \<Rightarrow> u64 \<Rightarrow> Net \<Rightarrow> (int \<times> Net) option" where
  "sys_sendto fd buf_addr len a n =
     (if \<not> user_ptr_valid buf_addr len \<or> \<not> user_ptr_valid a SIZEOF_SockAddrIn then Some (- EINVAL, n) else
      do { sk \<leftarrow> fd_to_socket fd n;
           if sk = 0 then Some (- EBADF, n)
           else socket_sendto sk (user_read buf_addr (unat (ucast len :: u32)) (nk n)) (user_addr a n) (user_port a n) n })"

definition sys_recvfrom :: "u64 \<Rightarrow> u64 \<Rightarrow> u64 \<Rightarrow> u64 \<Rightarrow> Net \<Rightarrow> ((unit + int) \<times> Net) option" where
  "sys_recvfrom fd buf_addr len a n =
     (if \<not> user_ptr_valid buf_addr len then Some (Inr (- EINVAL), n) else
      do { sk \<leftarrow> fd_to_socket fd n;
           if sk = 0 then Some (Inr (- EBADF), n) else
           do { (r, n) \<leftarrow> socket_recvfrom sk (ucast len) n;
                Some (case r of Inl u \<Rightarrow> (Inl u, n) | Inr (Inl err) \<Rightarrow> (Inr err, n)
                      | Inr (Inr (bs, from)) \<Rightarrow>
                          let n = n\<lparr>nk := user_write buf_addr bs (nk n)\<rparr> in
                          (Inr (int (length bs)),
                           case from of Some (ip, port) \<Rightarrow> if bs \<noteq> [] then store_addr a ip port n else n | None \<Rightarrow> n)) } })"

section \<open>The dispatcher\<close>

text \<open>
  What a call does to its caller: it returns a value, sleeps (with what is left of a write), enters a new program, or never returns.
\<close>

datatype sys_result = Returns int | Sleeps "nat \<times> u8 list" | Enters "u64 \<times> u64 \<times> u64 \<times> u64" | Exits

definition returns :: "(int \<times> Net) option \<Rightarrow> (sys_result \<times> Net) option" where
  "returns r = map_option (\<lambda>(v, n). (Returns v, n)) r"

definition waits :: "((unit + int) \<times> Net) option \<Rightarrow> (sys_result \<times> Net) option" where
  "waits r = map_option (\<lambda>(v, n). (case v of Inl _ \<Rightarrow> Sleeps (0, []) | Inr v \<Rightarrow> Returns v, n)) r"

definition syscall_table :: "u64 \<Rightarrow> u64 \<Rightarrow> u64 \<Rightarrow> u64 \<Rightarrow> u64 \<Rightarrow> u64 \<Rightarrow> (Net \<Rightarrow> (sys_result \<times> Net) option) list" where
  "syscall_table ent args a0 a1 a2 a4 =
     [\<lambda>n. on_kernel (\<lambda>s. map_option (Pair Exits) (sys_exit a0 s)) n,
      \<lambda>n. on_kernel (\<lambda>s. map_option (\<lambda>(r, s). (case r of Inl w \<Rightarrow> Sleeps w | Inr v \<Rightarrow> Returns v, s)) (sys_write a0 a1 a2 s)) n,
      \<lambda>n. Some (Returns (sys_getpid (nk n)), n),
      \<lambda>n. returns (on_kernel (sys_open a0 a1) n),
      \<lambda>n. waits (on_kernel (sys_read a0 a1 a2) n),
      \<lambda>n. returns (on_kernel (sys_close a0) n),
      \<lambda>n. returns (on_kernel (sys_brk a0) n),
      \<lambda>n. returns (on_kernel (\<lambda>s. Some (sys_lseek a0 a1 a2 s)) n),
      \<lambda>n. returns (on_kernel (sys_stat a0 a1) n),
      \<lambda>n. returns (on_kernel (sys_mkdir a0 a1) n),
      \<lambda>n. returns (on_kernel (sys_readdir a0 a1 a2) n),
      \<lambda>n. returns (on_kernel (sys_unlink a0) n),
      \<lambda>n. returns (on_kernel (sys_fstat a0 a1) n),
      \<lambda>n. returns (on_kernel (\<lambda>s. Some (sys_dup a0 s)) n),
      \<lambda>n. returns (on_kernel (sys_dup2 a0 a1) n),
      \<lambda>n. Some (Returns (sys_getppid (nk n)), n),
      \<lambda>n. returns (on_kernel (sys_fork ent args) n),
      \<lambda>n. on_kernel (\<lambda>s. map_option (\<lambda>(r, s). (case r of Inl v \<Rightarrow> Returns v | Inr e \<Rightarrow> Enters e, s)) (sys_exec a0 a1 s)) n,
      \<lambda>n. waits (on_kernel (sys_wait a0 a1) n),
      \<lambda>n. returns (on_kernel (sys_pipe a0) n),
      \<lambda>n. returns (on_kernel (\<lambda>s. let (v, s) = sys_signal a0 a1 s in Some (sint v, s)) n),
      \<lambda>n. returns (on_kernel (sys_kill a0 a1) n),
      \<lambda>n. returns (on_kernel (\<lambda>s. Some (sys_sigreturn s)) n),
      \<lambda>n. returns (on_kernel (sys_chdir a0) n),
      \<lambda>n. returns (on_kernel (\<lambda>s. Some (sys_getcwd a0 a1 s)) n),
      \<lambda>n. Some (Returns (sys_getuid (nk n)), n),
      \<lambda>n. Some (Returns (sys_getgid (nk n)), n),
      \<lambda>n. returns (on_kernel (\<lambda>s. Some (sys_setuid a0 s)) n),
      \<lambda>n. returns (on_kernel (\<lambda>s. Some (sys_setgid a0 s)) n),
      \<lambda>n. returns (on_kernel (sys_chmod a0 a1) n),
      \<lambda>n. returns (on_kernel (sys_chown a0 a1 a2) n),
      \<lambda>n. returns (on_kernel (sys_setpgid a0 a1) n),
      \<lambda>n. map_option (\<lambda>v. (Returns v, n)) (sys_getpgid a0 (nk n)),
      \<lambda>n. returns (on_kernel (\<lambda>s. Some (sys_tcsetpgrp a0 s)) n),
      \<lambda>n. returns (on_kernel (\<lambda>s. Some (sys_umask a0 s)) n),
      \<lambda>n. returns (sys_socket a0 a1 n),
      \<lambda>n. returns (sys_bind a0 a1 n),
      \<lambda>n. returns (sys_listen a0 n),
      \<lambda>n. waits (sys_accept a0 a1 n),
      \<lambda>n. waits (sys_connect a0 a1 n),
      \<lambda>n. returns (sys_send a0 a1 a2 n),
      \<lambda>n. waits (sys_recv a0 a1 a2 n),
      \<lambda>n. returns (sys_sendto a0 a1 a2 a4 n),
      \<lambda>n. waits (sys_recvfrom a0 a1 a2 a4 n)]"

definition syscall_dispatch :: "u64 \<Rightarrow> u64 \<Rightarrow> u64 \<Rightarrow> u64 \<Rightarrow> u64 \<Rightarrow> u64 \<Rightarrow> u64 \<Rightarrow> u64 \<Rightarrow> u64 \<Rightarrow> Net \<Rightarrow> (sys_result \<times> Net) option" where
  "syscall_dispatch ent args num a0 a1 a2 a3 a4 a5 n =
     (let t = syscall_table ent args a0 a1 a2 a4 in
      if unat num \<ge> length t then Some (Returns (- ENOSYS), n) else (t ! unat num) n)"

end
