(* ===== verification/Exec_Args.thy ===== *)
theory Exec_Args
  imports Syscall
begin

text \<open>
  The arguments of a program (\<^verbatim>\<open>exec_copy_argv\<close> and \<^verbatim>\<open>exec_setup_user_stack\<close> of \<^verbatim>\<open>kernel/arch/x86_64/syscall.c\<close>): the strings
  that the caller's array points to are the strings that the array on the new stack points to.
\<close>

section \<open>Bytes, words and strings in memory\<close>

lemma mem_write_at:
  assumes "length bs < 2 ^ 64"
  shows "mem_write a bs m x = (if unat (x - a) < length bs then bs ! unat (x - a) else m x)"
proof -
  have "fold (\<lambda>i m. m(a + of_nat i := bs ! i)) [0..<k] m x = (if unat (x - a) < k then bs ! unat (x - a) else m x)"
    if "k \<le> length bs" for k
    using that
  proof (induction k)
    case (Suc k)
    have k: "unat (of_nat k :: u64) = k" using Suc.prems assms by (intro unat_of_nat_less) simp
    have "x = a + of_nat k \<longleftrightarrow> x - a = of_nat k" by (auto simp: algebra_simps)
    also have "\<dots> \<longleftrightarrow> unat (x - a) = k" using k by (simp add: word_unat_eq_iff)
    finally show ?case using Suc k by (auto simp: less_Suc_eq)
  qed simp
  then show ?thesis by (simp add: mem_write_def)
qed

definition str_at :: "(u64 \<Rightarrow> u8) \<Rightarrow> u64 \<Rightarrow> u8 list \<Rightarrow> bool" where
  "str_at m a xs \<longleftrightarrow> (\<forall>i < length xs. m (a + of_nat i) = xs ! i \<and> xs ! i \<noteq> 0) \<and> m (a + of_nat (length xs)) = 0"

lemma str_at_Cons: "str_at m a (x # xs) \<longleftrightarrow> m a = x \<and> x \<noteq> 0 \<and> str_at m (a + 1) xs"
  by (auto simp: str_at_def less_Suc_eq_0_disj add.assoc)

lemma user_str_at: "str_at m a xs \<Longrightarrow> user_str m a = Some xs"
proof (induction xs arbitrary: a)
  case Nil
  then show ?case by (simp add: str_at_def user_str.simps)
next
  case (Cons x xs)
  then show ?case by (subst user_str.simps) (simp add: str_at_Cons)
qed

lemma ucast_le64: "ucast (ucast x :: u32) OR push_bit 32 (ucast (ucast (drop_bit 32 x) :: u32)) = (x :: u64)"
proof (rule bit_word_eqI)
  fix n :: nat
  assume "n < LENGTH(64)"
  then consider "n < 32" | "32 \<le> n" "n < 64" by (simp; linarith)
  then show "bit (ucast (ucast x :: u32) OR push_bit 32 (ucast (ucast (drop_bit 32 x) :: u32)) :: u64) n = bit x n"
    by cases (auto simp: bit_simps)
qed

lemma mem64_cong:
  assumes "\<And>i. i < 8 \<Longrightarrow> m (a + of_nat i) = m' (a + of_nat i)"
  shows "mem64 m a = mem64 m' a"
  using assms [of 0] assms [of 1] assms [of 2] assms [of 3] assms [of 4] assms [of 5] assms [of 6] assms [of 7]
  by (simp add: mem64_def mem32_def add.assoc)

lemma mem32_read: "(\<And>i. i < 4 \<Longrightarrow> m (a + of_nat i) = le32 v ! i) \<Longrightarrow> mem32 m a = v"
proof -
  assume a: "\<And>i. i < 4 \<Longrightarrow> m (a + of_nat i) = le32 v ! i"
  show ?thesis using a [of 0] a [of 1] a [of 2] a [of 3] by (simp add: mem32_def le32_def bytes_join)
qed

lemma mem64_write: "mem64 (mem_write a (le64 w) m) a = w"
proof -
  let ?m = "mem_write a (le64 w) m"
  have w: "?m (a + of_nat i) = le64 w ! i" if "i < 8" for i
    using mem_write_at [of "le64 w" a m "a + of_nat i"] that by (simp add: le64_def le32_def unat_of_nat_less)
  have l: "length (le32 v) = 4" for v by (simp add: le32_def)
  have "mem32 ?m a = ucast w" using w by (intro mem32_read) (simp add: le64_def nth_append l)
  moreover have "?m (a + 4 + of_nat i) = le32 (ucast (drop_bit 32 w)) ! i" if "i < 4" for i
    using w [of "4 + i"] that by (simp add: le64_def nth_append l add.assoc)
  then have "mem32 ?m (a + 4) = ucast (drop_bit 32 w)" by (intro mem32_read)
  ultimately show ?thesis using ucast_le64 [of w] by (simp add: mem64_def)
qed

text \<open>Memory that agrees from one address up to another.\<close>

definition agree_on :: "nat \<Rightarrow> nat \<Rightarrow> (u64 \<Rightarrow> u8) \<Rightarrow> (u64 \<Rightarrow> u8) \<Rightarrow> bool" where
  "agree_on lo hi m m' \<longleftrightarrow> (\<forall>x. lo \<le> unat x \<and> unat x < hi \<longrightarrow> m x = m' x)"

lemma write_agrees:
  assumes "unat a + length bs \<le> 2 ^ 48" "hi \<le> unat a \<or> unat a + length bs \<le> lo"
  shows "agree_on lo hi (mem_write a bs m) m"
proof -
  have "\<not> unat (x - a) < length bs" if "lo \<le> unat x" "unat x < hi" for x
    using that assms by (auto simp: unat_sub_if')
  then show ?thesis using assms(1) by (simp add: agree_on_def mem_write_at)
qed

lemma agree_on_trans: "agree_on lo hi m m' \<Longrightarrow> agree_on lo hi m' m'' \<Longrightarrow> agree_on lo hi m m''"
  by (simp add: agree_on_def)

lemma agree_on_mono: "agree_on lo hi m m' \<Longrightarrow> lo \<le> lo' \<Longrightarrow> hi' \<le> hi \<Longrightarrow> agree_on lo' hi' m m'"
  by (simp add: agree_on_def)

lemma unat_offset_48: "unat (a :: u64) + i \<le> 2 ^ 48 \<Longrightarrow> unat (a + of_nat i) = unat a + i"
  by (subst unat_plus_no_overflow) (simp_all add: unat_of_nat_less)

lemma str_at_agree:
  assumes "str_at m a xs" "agree_on (unat a) (unat a + length xs + 1) m m'" "unat a + length xs + 1 \<le> 2 ^ 48"
  shows "str_at m' a xs"
proof -
  have "m' (a + of_nat i) = m (a + of_nat i)" if "i \<le> length xs" for i
    using assms(2,3) that unat_offset_48 [of a i] by (simp add: agree_on_def)
  then show ?thesis using assms(1) by (simp add: str_at_def)
qed

lemma mem64_agree: "agree_on (unat a) (unat a + 8) m m' \<Longrightarrow> unat a + 8 \<le> 2 ^ 48 \<Longrightarrow> mem64 m' a = mem64 m a"
  using unat_offset_48 [of a] by (intro mem64_cong) (simp add: agree_on_def)

lemma str_at_write:
  assumes "length xs < 2 ^ 48" "0 \<notin> set xs"
  shows "str_at (mem_write a (xs @ [0]) m) a xs"
proof -
  have "mem_write a (xs @ [0]) m (a + of_nat i) = (xs @ [0]) ! i" if "i \<le> length xs" for i
    using that assms(1) by (subst mem_write_at) (simp_all add: unat_of_nat_less)
  then show ?thesis using assms(2) by (auto simp: str_at_def nth_append in_set_conv_nth)
qed

section \<open>The new stack\<close>

definition args_size :: "u8 list list \<Rightarrow> nat" where
  "args_size xs = sum_list (map (\<lambda>x. length x + 1) xs)"

text \<open>The strings \<open>xs\<close> are at the addresses \<open>as\<close>, between \<open>lo\<close> and \<open>hi\<close>.\<close>

definition strings_at :: "(u64 \<Rightarrow> u8) \<Rightarrow> u64 list \<Rightarrow> u8 list list \<Rightarrow> nat \<Rightarrow> nat \<Rightarrow> bool" where
  "strings_at m as xs lo hi \<longleftrightarrow> list_all2 (\<lambda>a x. str_at m a x \<and> lo \<le> unat a \<and> unat a + length x + 1 \<le> hi) as xs"

lemma strings_at_agree:
  assumes "strings_at m as xs lo hi" "agree_on lo hi m m'" "hi \<le> 2 ^ 48" "lo' \<le> lo"
  shows "strings_at m' as xs lo' hi"
proof -
  have "str_at m' a x \<and> lo' \<le> unat a" if "str_at m a x \<and> lo \<le> unat a \<and> unat a + length x + 1 \<le> hi" for a x
    using that str_at_agree [of m a x m'] agree_on_mono [OF assms(2), of "unat a" "unat a + length x + 1"] assms(3,4) by simp
  then show ?thesis using assms(1) unfolding strings_at_def by (auto elim!: list_all2_mono)
qed

lemma agree_on_sym: "agree_on lo hi m m' \<Longrightarrow> agree_on lo hi m' m"
  by (simp add: agree_on_def)

lemma push_strings_spec:
  assumes "unat t \<le> 2 ^ 48" "args_size xs \<le> unat t" "\<And>x. x \<in> set xs \<Longrightarrow> 0 \<notin> set x"
  shows "\<exists>sp as m'. push_strings xs (t, [], m) = (sp, as, m') \<and> unat sp = unat t - args_size xs \<and>
     strings_at m' as xs (unat sp) (unat t) \<and> agree_on 0 (unat sp) m' m \<and> agree_on (unat t) (2 ^ 64) m' m"
  using assms(2,3)
proof (induction xs)
  case Nil
  then show ?case by (simp add: args_size_def strings_at_def agree_on_def)
next
  case (Cons x xs)
  have sz: "args_size (x # xs) = length x + 1 + args_size xs" by (simp add: args_size_def)
  then obtain sp as m1 where IH: "push_strings xs (t, [], m) = (sp, as, m1)" "unat sp = unat t - args_size xs"
    "strings_at m1 as xs (unat sp) (unat t)" "agree_on 0 (unat sp) m1 m" "agree_on (unat t) (2 ^ 64) m1 m"
    using Cons by auto
  define sp' where "sp' = sp - of_nat (length x + 1)"
  have le: "length x + 1 \<le> unat sp" "unat sp \<le> 2 ^ 48" using Cons.prems(1) sz IH(2) assms(1) by simp_all
  then have "unat (of_nat (length x + 1) :: u64) = length x + 1" by (intro unat_of_nat_less) simp
  then have sp': "unat sp' = unat sp - (length x + 1)" using le by (simp add: sp'_def unat_sub_if')
  let ?m = "mem_write sp' (x @ [0]) m1"
  have ag: "agree_on (unat sp) (unat t) ?m m1" "agree_on 0 (unat sp') ?m m1" "agree_on (unat t) (2 ^ 64) ?m m1"
    using sp' le IH(2) by (auto intro!: write_agrees)
  have "str_at ?m sp' x" using Cons.prems(2) le by (intro str_at_write) auto
  moreover have "strings_at ?m as xs (unat sp') (unat t)"
    by (rule strings_at_agree [OF IH(3) agree_on_sym [OF ag(1)] assms(1)]) (simp add: sp')
  ultimately have "strings_at ?m (sp' # as) (x # xs) (unat sp') (unat t)" using sp' le IH(2) by (simp add: strings_at_def)
  moreover have "agree_on 0 (unat sp') ?m m" using agree_on_trans [OF ag(2)] agree_on_mono [OF IH(4)] sp' by simp
  moreover have "agree_on (unat t) (2 ^ 64) ?m m" by (rule agree_on_trans [OF ag(3) IH(5)])
  moreover have "push_strings (x # xs) (t, [], m) = (sp', sp' # as, ?m)" using IH(1) by (simp add: sp'_def Let_def)
  moreover have "unat sp' = unat t - args_size (x # xs)" using sp' sz IH(2) by simp
  ultimately show ?case by blast
qed

lemma push_words_spec:
  assumes "unat t \<le> 2 ^ 48" "8 * length as \<le> unat t"
  shows "\<exists>sp m'. push_words as (t, m) = (sp, m') \<and> unat sp = unat t - 8 * length as \<and>
     (\<forall>i < length as. mem64 m' (sp + of_nat (8 * i)) = as ! i) \<and> agree_on 0 (unat sp) m' m \<and> agree_on (unat t) (2 ^ 64) m' m"
  using assms(2)
proof (induction as)
  case Nil
  then show ?case by (simp add: agree_on_def)
next
  case (Cons a as)
  then obtain sp m1 where IH: "push_words as (t, m) = (sp, m1)" "unat sp = unat t - 8 * length as"
    "\<forall>i < length as. mem64 m1 (sp + of_nat (8 * i)) = as ! i" "agree_on 0 (unat sp) m1 m" "agree_on (unat t) (2 ^ 64) m1 m"
    by auto
  let ?m = "mem_write (sp - 8) (le64 a) m1"
  have l: "length (le64 a) = 8" by (simp add: le64_def le32_def)
  have sp': "unat (sp - 8) = unat sp - 8" using Cons.prems IH(2) by (simp add: unat_sub_if')
  have ag: "agree_on (unat sp) (2 ^ 64) ?m m1" "agree_on 0 (unat (sp - 8)) ?m m1"
    using sp' Cons.prems IH(2) assms(1) by (auto intro!: write_agrees simp: l)
  have "mem64 ?m (sp - 8 + of_nat (8 * i)) = (a # as) ! i" if "i < Suc (length as)" for i
  proof (cases i)
    case 0
    then show ?thesis by (simp add: mem64_write)
  next
    case (Suc j)
    have "unat (sp + of_nat (8 * j)) = unat sp + 8 * j" using that Suc Cons.prems IH(2) assms(1) by (intro unat_offset_48) simp
    then have "mem64 ?m (sp + of_nat (8 * j)) = mem64 m1 (sp + of_nat (8 * j))"
      using that Suc Cons.prems IH(2) assms(1) by (intro mem64_agree agree_on_mono [OF agree_on_sym [OF ag(1)]]) simp_all
    then show ?thesis using IH(3) that Suc by simp
  qed
  moreover have "agree_on 0 (unat (sp - 8)) ?m m" using agree_on_trans [OF ag(2)] agree_on_mono [OF IH(4)] sp' by simp
  moreover have "agree_on (unat t) (2 ^ 64) ?m m" using agree_on_trans [OF agree_on_mono [OF ag(1)] IH(5)] IH(2) by simp
  moreover have "push_words (a # as) (t, m) = (sp - 8, ?m)" using IH(1) by (simp add: Let_def)
  moreover have "unat (sp - 8) = unat t - 8 * length (a # as)" using IH(2) sp' by simp
  ultimately show ?case by (metis length_Cons)
qed

lemma unat_align: "unat (x AND NOT 7 :: u64) = unat x div 8 * 8" "unat (x AND NOT 15 :: u64) = unat x div 16 * 16"
proof -
  have "(7 :: u64) = mask 3" "(15 :: u64) = mask 4" by (simp_all add: mask_eq_exp_minus_1)
  then show "unat (x AND NOT 7 :: u64) = unat x div 8 * 8" "unat (x AND NOT 15 :: u64) = unat x div 16 * 16"
    using unat_and_not_mask [of x 3] unat_and_not_mask [of x 4] by simp_all
qed

text \<open>The array at \<open>av\<close> points to the strings \<open>xs\<close>, and a null pointer follows.\<close>

definition argv_at :: "(u64 \<Rightarrow> u8) \<Rightarrow> u64 \<Rightarrow> u8 list list \<Rightarrow> bool" where
  "argv_at m av xs \<longleftrightarrow> (\<forall>i < length xs. mem64 m (av + of_nat (8 * i)) \<noteq> 0 \<and> user_str m (mem64 m (av + of_nat (8 * i))) = Some (xs ! i)) \<and>
     mem64 m (av + of_nat (8 * length xs)) = 0"

lemma setup_stack_spec:
  assumes sz: "args_size xs \<le> 4096" "length xs \<le> 32" and nz: "\<And>x. x \<in> set xs \<Longrightarrow> 0 \<notin> set x"
    and run: "exec_setup_user_stack xs m = (sp5, av, m')"
  shows "(if xs = [] then av = 0 else argv_at m' av xs) \<and> unat sp5 mod 16 = 0 \<and> unat USER_STACK_TOP - 8192 \<le> unat sp5 \<and>
     (xs \<noteq> [] \<longrightarrow> sp5 \<le> av) \<and> (\<forall>x. unat x < unat sp5 \<or> unat USER_STACK_TOP \<le> unat x \<longrightarrow> m' x = m x)"
proof -
  define t where "t = unat USER_STACK_TOP"
  have t: "t = 140737488347136" by (simp add: t_def)
  obtain sp as m1 where s1: "push_strings xs (USER_STACK_TOP, [], m) = (sp, as, m1)" "unat sp = t - args_size xs"
    "strings_at m1 as xs (unat sp) t" "agree_on 0 (unat sp) m1 m" "agree_on t (2 ^ 64) m1 m"
    using push_strings_spec [of USER_STACK_TOP xs m] sz nz t unfolding t_def by auto
  define al where "al = sp AND NOT 7"
  have al: "unat al = unat sp div 8 * 8" unfolding al_def by (rule unat_align(1))
  define sp3 where "sp3 = al - 8"
  define m2 where "m2 = mem_write sp3 (le64 0) m1"
  have l8: "length (le64 0) = 8" by (simp add: le64_def le32_def)
  have "unat sp div 8 * 8 \<le> unat sp" "unat sp < unat sp div 8 * 8 + 8" by simp_all
  then have sp3: "unat sp3 + 8 \<le> unat sp" "unat sp < unat sp3 + 16"
    using s1(2) sz(1) t al by (auto simp: sp3_def unat_sub_if')
  have las: "length as = length xs" using s1(3) by (auto simp: strings_at_def dest: list_all2_lengthD)
  have b3: "unat sp3 \<le> 2 ^ 48" "8 * length as \<le> unat sp3" using las sp3 s1(2) sz t by simp_all
  obtain sp4 m3 where s4: "push_words as (sp3, m2) = (sp4, m3)" "unat sp4 = unat sp3 - 8 * length xs"
    "\<forall>i < length xs. mem64 m3 (sp4 + of_nat (8 * i)) = as ! i" "agree_on 0 (unat sp4) m3 m2" "agree_on (unat sp3) (2 ^ 64) m3 m2"
    using push_words_spec [OF b3, of m2] las by auto
  have m2: "agree_on 0 (unat sp3) m2 m1" "agree_on (unat sp) (2 ^ 64) m2 m1"
    unfolding m2_def using sp3 s1(2) t by (auto intro!: write_agrees simp: l8)
  have res: "sp5 = sp4 AND NOT 15" "av = (if xs \<noteq> [] then sp4 else 0)" "m' = m3"
    using run s1(1) s4(1) by (auto simp: exec_setup_user_stack_def sp3_def al_def m2_def Let_def)
  have u5: "unat sp5 = unat sp4 div 16 * 16" unfolding res(1) by (rule unat_align(2))
  have "strings_at m3 as xs 1 t"
    by (rule strings_at_agree [OF s1(3)])
      (use m2(2) s4(5) sp3 s1(2) sz(1) t in \<open>auto simp: agree_on_def\<close>)
  then have str: "as ! i \<noteq> 0 \<and> user_str m3 (as ! i) = Some (xs ! i)" if "i < length xs" for i
    using that user_str_at unfolding strings_at_def by (auto simp: list_all2_conv_all_nth)
  have e4: "unat sp4 + 8 * length xs = unat sp3" using s4(2) b3(2) las by simp
  then have "unat (sp4 + of_nat (8 * length xs)) = unat sp4 + 8 * length xs" using b3(1) by (intro unat_offset_48) linarith
  then have "unat (sp4 + of_nat (8 * length xs)) = unat sp3" using e4 by (rule trans)
  then have end_at: "sp4 + of_nat (8 * length xs) = sp3" by (simp only: word_unat_eq_iff)
  have "mem64 m3 sp3 = mem64 m2 sp3"
    by (rule mem64_agree [OF agree_on_mono [OF agree_on_sym [OF s4(5)]]]) (use sp3 s1(2) t in simp_all)
  then have "mem64 m3 (sp4 + of_nat (8 * length xs)) = 0" unfolding end_at by (simp add: m2_def mem64_write)
  then have "if xs = [] then av = 0 else argv_at m' av xs" using str s4(3) by (simp add: res argv_at_def)
  moreover have "unat sp5 mod 16 = 0" by (simp add: u5)
  moreover have "unat sp4 div 16 * 16 \<le> unat sp4" "unat sp4 < unat sp4 div 16 * 16 + 16" by simp_all
  then have "unat USER_STACK_TOP - 8192 \<le> unat sp5" "xs \<noteq> [] \<longrightarrow> sp5 \<le> av" "unat sp5 \<le> unat sp4"
    using s4(2) sp3 s1(2) sz t by (auto simp: res(2) u5 word_le_nat_alt t_def)
  moreover have "m' x = m x" if "unat x < unat sp5 \<or> t \<le> unat x" for x
    using that s1(2,4,5) m2 s4(2,4,5) sp3 calculation(5) unat_lt_64 [of x] by (auto simp: agree_on_def res(3))
  ultimately show ?thesis by (simp add: t_def)
qed

section \<open>The copy of the old array\<close>

lemma user_str_step: "user_str m a = (if m a = 0 then Some [] else map_option ((#) (m a)) (user_str m (a + 1)))"
  by (subst user_str.simps) (auto simp: map_option_case split: bind_split option.split)

lemma copy_arg_iff:
  "copy_arg m a used = Some (Inr x, u) \<longleftrightarrow> user_str m a = Some x \<and> u = used + length x + 1 \<and> u \<le> MAX_EXEC_ARG_DATA"
proof (induction "MAX_EXEC_ARG_DATA - used" arbitrary: a used x u)
  case 0
  then show ?case by (subst copy_arg.simps) auto
next
  case (Suc k)
  have lt: "\<not> used \<ge> MAX_EXEC_ARG_DATA" using Suc.hyps(2) by simp
  show ?case
  proof (cases "m a = 0")
    case True
    then show ?thesis using lt by (subst copy_arg.simps, subst user_str_step) auto
  next
    case False
    have IH: "copy_arg m (a + 1) (used + 1) = Some (Inr y, u) \<longleftrightarrow>
        user_str m (a + 1) = Some y \<and> u = used + 1 + length y + 1 \<and> u \<le> MAX_EXEC_ARG_DATA" for y
      by (rule Suc.hyps(1)) (use Suc.hyps(2) in simp)
    have "copy_arg m a used = Some (Inr x, u) \<longleftrightarrow> (\<exists>y. copy_arg m (a + 1) (used + 1) = Some (Inr y, u) \<and> x = m a # y)"
      using lt False by (subst copy_arg.simps) (auto split: bind_split sum.splits prod.splits)
    then show ?thesis unfolding IH using False by (subst user_str_step) auto
  qed
qed

lemma copy_arg_returns: "\<exists>r u. copy_arg m a used = Some (r, u)"
proof (induction "MAX_EXEC_ARG_DATA - used" arbitrary: a used)
  case 0
  then show ?case by (subst copy_arg.simps) auto
next
  case (Suc k)
  have "\<exists>r u. copy_arg m (a + 1) (used + 1) = Some (r, u)" by (rule Suc.hyps(1)) (use Suc.hyps(2) in simp)
  then show ?case by (subst copy_arg.simps) auto
qed

text \<open>The array at \<open>av\<close> holds pointers to the strings \<open>xs\<close> that the kernel may follow.\<close>

definition passes :: "(u64 \<Rightarrow> u8) \<Rightarrow> u64 \<Rightarrow> u8 list list \<Rightarrow> bool" where
  "passes m av xs \<longleftrightarrow> (\<forall>i < length xs. let p = mem64 m (av + of_nat (8 * i)) in p \<noteq> 0 \<and> user_ptr_valid p 1 \<and> user_str m p = Some (xs ! i))"

lemma passes_Cons:
  "passes m av (x # xs) \<longleftrightarrow> mem64 m av \<noteq> 0 \<and> user_ptr_valid (mem64 m av) 1 \<and> user_str m (mem64 m av) = Some x \<and> passes m (av + 8) xs"
proof -
  have "(\<forall>i < Suc (length xs). P i) \<longleftrightarrow> P 0 \<and> (\<forall>i < length xs. P (Suc i))" for P by (auto simp: less_Suc_eq_0_disj)
  moreover have "av + of_nat (8 * Suc i) = av + 8 + of_nat (8 * i)" for i by (simp add: algebra_simps)
  ultimately show ?thesis unfolding passes_def by (simp only: length_Cons) (simp add: Let_def)
qed

lemma copy_args_iff:
  assumes "used \<le> MAX_EXEC_ARG_DATA"
  shows "copy_args m av n used = Some (Inr xs) \<longleftrightarrow>
     length xs \<le> n \<and> passes m av xs \<and> (length xs < n \<longrightarrow> mem64 m (av + of_nat (8 * length xs)) = 0) \<and> used + args_size xs \<le> MAX_EXEC_ARG_DATA"
  using assms
proof (induction n arbitrary: av used xs)
  case 0
  then show ?case by (cases xs) (auto simp: passes_def args_size_def)
next
  case (Suc n)
  have e: "av + of_nat (8 * Suc k) = av + 8 + of_nat (8 * k)" for k by (simp add: algebra_simps)
  show ?case
  proof (cases xs)
    case Nil
    then show ?thesis using Suc.prems copy_arg_returns [of m "mem64 m av" used]
      by (auto simp: passes_def args_size_def Let_def split: sum.splits bind_split)
  next
    case (Cons y ys)
    have "copy_args m av (Suc n) used = Some (Inr (y # ys)) \<longleftrightarrow>
        mem64 m av \<noteq> 0 \<and> user_ptr_valid (mem64 m av) 1 \<and>
        (\<exists>u. copy_arg m (mem64 m av) used = Some (Inr y, u) \<and> copy_args m (av + 8) n u = Some (Inr ys))"
      by (auto simp: Let_def split: sum.splits bind_split prod.splits)
    also have "\<dots> \<longleftrightarrow> mem64 m av \<noteq> 0 \<and> user_ptr_valid (mem64 m av) 1 \<and> user_str m (mem64 m av) = Some y \<and>
        length ys \<le> n \<and> passes m (av + 8) ys \<and> (length ys < n \<longrightarrow> mem64 m (av + 8 + of_nat (8 * length ys)) = 0) \<and>
        used + length y + 1 + args_size ys \<le> MAX_EXEC_ARG_DATA"
      unfolding copy_arg_iff using Suc.IH by auto
    finally show ?thesis unfolding Cons length_Cons e passes_Cons by (auto simp: args_size_def)
  qed
qed

section \<open>Properties\<close>

lemma copy_args_returns: "\<exists>r. copy_args m av n used = Some r"
proof (induction n arbitrary: av used)
  case (Suc n)
  obtain r u where r: "copy_arg m (mem64 m av) used = Some (r, u)" using copy_arg_returns by blast
  obtain r' where "copy_args m (av + 8) n u = Some r'" using Suc by blast
  then show ?case using r by (cases r) (auto simp: Let_def)
qed simp

lemma user_str_nonzero: "user_str m a = Some xs \<Longrightarrow> 0 \<notin> set xs"
proof (induction xs arbitrary: a)
  case (Cons x xs)
  have "user_str m (a + 1) = Some xs \<and> x = m a \<and> m a \<noteq> 0" using Cons.prems by (subst (asm) user_str_step) (auto split: if_splits)
  then show ?case using Cons.IH by auto
qed simp

text \<open>
  C11.  The arguments of a program arrive.  The copy of the caller's array always ends.  It gives the strings \<open>xs\<close> exactly if the array
  points to them with pointers into user memory, is ended by a null pointer, has at most 32 entries and needs at most 4096
  bytes.  The new stack then has an array that points to the same strings and is ended by a null pointer; the stack pointer is below it, a
  multiple of 16 and at most two pages below the top of the stack; nothing below the stack pointer or from the top on has changed.
\<close>

theorem exec_arguments_arrive:
  assumes "user_ptr_valid argv 8" and "exec_setup_user_stack xs m0 = (sp, av, m')"
  shows "(\<exists>r. exec_copy_argv argv m = Some r) \<and>
     (exec_copy_argv argv m = Some (Inr xs) \<longleftrightarrow>
        passes m argv xs \<and> mem64 m (argv + of_nat (8 * length xs)) = 0 \<and> length xs \<le> MAX_EXEC_ARGS \<and> args_size xs \<le> MAX_EXEC_ARG_DATA) \<and>
     (exec_copy_argv argv m = Some (Inr xs) \<longrightarrow>
        (if xs = [] then av = 0 else argv_at m' av xs \<and> sp \<le> av) \<and>
        unat sp mod 16 = 0 \<and> unat USER_STACK_TOP - 8192 \<le> unat sp \<and>
        (\<forall>x. unat x < unat sp \<or> unat USER_STACK_TOP \<le> unat x \<longrightarrow> m' x = m0 x))"
proof -
  have argv: "argv \<noteq> 0" using assms(1) by (auto simp: user_ptr_valid_def)
  obtain r where r: "copy_args m argv MAX_EXEC_ARGS 0 = Some r" using copy_args_returns by blast
  have iff: "exec_copy_argv argv m = Some (Inr xs) \<longleftrightarrow>
      passes m argv xs \<and> mem64 m (argv + of_nat (8 * length xs)) = 0 \<and> length xs \<le> MAX_EXEC_ARGS \<and> args_size xs \<le> MAX_EXEC_ARG_DATA"
  proof -
    have "exec_copy_argv argv m = Some (Inr xs) \<longleftrightarrow>
        copy_args m argv MAX_EXEC_ARGS 0 = Some (Inr xs) \<and> (length xs = MAX_EXEC_ARGS \<longrightarrow> mem64 m (argv + of_nat (8 * length xs)) = 0)"
      using r assms(1) argv by (cases r) (auto simp: exec_copy_argv_def)
    then show ?thesis using copy_args_iff [of 0 m argv MAX_EXEC_ARGS xs] by (auto simp del: of_nat_mult of_nat_numeral simp: le_less)
  qed
  have "\<exists>r. exec_copy_argv argv m = Some r" using r assms(1) argv by (simp add: exec_copy_argv_def)
  moreover have "0 \<notin> set x" if "passes m argv xs" "x \<in> set xs" for x
    using that user_str_nonzero by (auto simp: passes_def in_set_conv_nth Let_def)
  ultimately show ?thesis using iff setup_stack_spec [OF _ _ _ assms(2)] by auto
qed

text \<open>An array at 4096 with the strings \<open>ls\<close> and \<open>-l\<close>.\<close>

definition argv_example :: "u64 \<Rightarrow> u8" where
  "argv_example = mem_write 0x1000 (le64 0x2000 @ le64 0x2003 @ le64 0) (mem_write 0x2000 [108, 115, 0, 45, 108, 0] (\<lambda>_. 1))"

lemma argv_example_passes:
  "passes argv_example 0x1000 [[108, 115], [45, 108]]" "mem64 argv_example (0x1000 + of_nat (8 * length [[108, 115], [45, 108 :: u8]])) = 0"
proof -
  have b: "argv_example x = (if unat (x - 0x1000) < 24 then (le64 0x2000 @ le64 0x2003 @ le64 0) ! unat (x - 0x1000)
      else if unat (x - 0x2000) < 6 then [108, 115, 0, 45, 108, 0] ! unat (x - 0x2000) else 1)" for x
    unfolding argv_example_def by (simp add: mem_write_at le64_def le32_def)
  have "mem64 argv_example 0x1000 = 0x2000" "mem64 argv_example 0x1008 = 0x2003" "mem64 argv_example 0x1010 = 0"
    by (simp_all add: mem64_def mem32_def b le64_def le32_def)
  moreover have "str_at argv_example 0x2000 [108, 115]" "str_at argv_example 0x2003 [45, 108]"
    by (simp_all add: str_at_Cons b) (simp_all add: str_at_def b)
  ultimately show "passes argv_example 0x1000 [[108, 115], [45, 108]]"
    "mem64 argv_example (0x1000 + of_nat (8 * length [[108, 115], [45, 108 :: u8]])) = 0"
    by (simp_all add: passes_Cons user_str_at user_ptr_valid_def passes_def [of _ _ "[]"])
qed

theorem exec_arguments_arrive_witness:
  "\<exists>sp av m'. exec_setup_user_stack [[108, 115], [45, 108]] (\<lambda>_. 0) = (sp, av, m') \<and>
     exec_copy_argv 0x1000 argv_example = Some (Inr [[108, 115], [45, 108]]) \<and> argv_at m' av [[108, 115], [45, 108]]"
proof -
  obtain sp av m' where r: "exec_setup_user_stack [[108, 115], [45, 108]] (\<lambda>_. 0) = (sp, av, m')" by (metis prod.exhaust)
  have "user_ptr_valid 0x1000 8" by (simp add: user_ptr_valid_def)
  note t = exec_arguments_arrive [OF this r, of argv_example]
  have "exec_copy_argv 0x1000 argv_example = Some (Inr [[108, 115], [45, 108]])"
    using t argv_example_passes by (simp add: args_size_def)
  then show ?thesis using t r by auto
qed

end
