(* ===== verification/Privileges.thy ===== *)
theory Privileges
  imports Syscall
begin

text \<open>
  What the system calls do to the identities of processes.  \<open>guard\<close> fixes the user and group ids of every process
  and excludes files with the set-user-id bit that belong to the superuser.  Most of the kernel changes neither, which the first
  sections show part by part; calls of an unprivileged process keep the exclusion, and only the superuser's own calls,
  \<^verbatim>\<open>fork\<close> and \<^verbatim>\<open>exec\<close> change ids.
\<close>

section \<open>Identities\<close>

definition creds :: "Process \<Rightarrow> u32 \<times> u32 \<times> u32 \<times> u32" where
  "creds x = (uid x, euid x, gid x, egid x)"

definition no_suid_root :: "(u64 \<Rightarrow> VfsNode) \<Rightarrow> bool" where
  "no_suid_root V \<longleftrightarrow> (\<forall>n. mode (V n) AND S_ISUID \<noteq> 0 \<longrightarrow> nuid (V n) \<noteq> 0)"

definition guard :: "(u64 \<Rightarrow> u32 \<times> u32 \<times> u32 \<times> u32) \<Rightarrow> (u64 \<Rightarrow> Process) \<Rightarrow> (u64 \<Rightarrow> VfsNode) \<Rightarrow> bool" where
  "guard I P V \<longleftrightarrow> (\<forall>q. creds (P q) = I q) \<and> no_suid_root V"

abbreviation safe :: "(u64 \<Rightarrow> u32 \<times> u32 \<times> u32 \<times> u32) \<Rightarrow> kernel \<Rightarrow> bool" where
  "safe I s \<equiv> guard I (procs s) (vnodes s)"

abbreviation same :: "kernel \<Rightarrow> kernel \<Rightarrow> bool" where
  "same s s' \<equiv> procs s' = procs s \<and> vnodes s' = vnodes s"

lemma guard_upd [simp]: "creds x = creds (P p) \<Longrightarrow> guard I (P(p := x)) V = guard I P V"
  by (auto simp: guard_def)

lemma guard_node: "guard I P V \<Longrightarrow> (mode x AND S_ISUID \<noteq> 0 \<Longrightarrow> nuid x \<noteq> 0) \<Longrightarrow> guard I P (V(n := x))"
  by (auto simp: guard_def no_suid_root_def)

lemma guard_euid: "guard I P V \<Longrightarrow> euid (P q) = fst (snd (I q))"
  by (drule guard_def [THEN iffD1], drule conjunct1, drule spec [of _ q], drule sym, simp add: creds_def)

lemma nset_rset_sel [simp]:
  "procs (nset n f s) = procs s" "procs (rset n g s) = procs s" "vnodes (nset n f s) = (vnodes s)(n := f (vnodes s n))"
  "vnodes (rset n g s) = vnodes s" "proc_current (nset n f s) = proc_current s" "proc_current (rset n g s) = proc_current s"
  by (simp_all add: nset_def rset_def proc_current_def thread_current_def Let_def)

section \<open>What leaves processes and nodes alone\<close>

lemma release_same [simp]: "procs (snd (release lk s)) = procs s" "vnodes (snd (release lk s)) = vnodes s"
  by (simp_all add: release_def split_beta)

lemma acquire_same: "acquire lk s = Some (lk', s') \<Longrightarrow> same s s'"
  by (auto simp: acquire_def bind_eq_Some_conv)

lemma k_alloc_same: "k_alloc n fl s = Some (p, s') \<Longrightarrow> same s s' \<and> proc_current s' = proc_current s"
  by (auto simp: k_alloc_def bind_eq_Some_conv proc_current_def thread_current_def Let_def)

lemma k_free_same: "k_free p s = Some s' \<Longrightarrow> same s s' \<and> proc_current s' = proc_current s"
  by (auto simp: k_free_def bind_eq_Some_conv proc_current_def thread_current_def Let_def)

lemma with_vmm_same: "with_vmm f s = Some (r, s') \<Longrightarrow> same s s'"
  by (auto simp: with_vmm_def bind_eq_Some_conv)

lemma queue_same [simp]:
  "procs (queue_push t s) = procs s" "vnodes (queue_push t s) = vnodes s"
  "procs (sched_add_thread t s) = procs s" "vnodes (sched_add_thread t s) = vnodes s"
  by (simp_all add: queue_push_def sched_add_thread_def Let_def)

lemma queue_pop_same [simp]: "procs (snd (queue_pop s)) = procs s" "vnodes (snd (queue_pop s)) = vnodes s"
  by (simp_all add: queue_pop_def Let_def)

lemma switch_to_same [simp]: "procs (switch_to rp a b s) = procs s" "vnodes (switch_to rp a b s) = vnodes s"
  by (simp_all add: switch_to_def context_switch_def gdt_set_kernel_stack_def paging_write_cr3_def Let_def)

lemma sched_schedule_same [simp]: "procs (sched_schedule rp s) = procs s" "vnodes (sched_schedule rp s) = vnodes s"
  by (simp_all add: sched_schedule_def split_beta Let_def thread_set_current_def)

lemma sched_yield_same: "sched_yield s = Some s' \<Longrightarrow> same s s'"
  by (auto simp: sched_yield_def bind_eq_Some_conv Let_def split_beta dest!: acquire_same)

lemma wq_append_same [simp]: "procs (snd (wq_append t x)) = procs (snd x)" "vnodes (snd (wq_append t x)) = vnodes (snd x)"
  by (simp_all add: wq_append_def Let_def split_beta)

lemma wq_take_same [simp]: "procs (snd (snd (wq_take x))) = procs (snd x)" "vnodes (snd (snd (wq_take x))) = vnodes (snd x)"
  by (simp_all add: wq_take_def Let_def split_beta)

lemma wq_sleep_same: "wq_sleep wq lk s = Some (wq', lk', s') \<Longrightarrow> same s s'"
  by (auto simp: wq_sleep_def bind_eq_Some_conv Let_def split_beta dest!: acquire_same sched_yield_same)

lemma wq_wake_same: "wq_wake wq s = Some (n, wq', s') \<Longrightarrow> same s s'"
  by (auto simp: wq_wake_def bind_eq_Some_conv Let_def split_beta dest!: acquire_same split: if_splits)

lemma wake_loop_same: "wake_loop c wq s = Some (n, wq', s') \<Longrightarrow> same s s'"
  using wake_loop.raw_induct [of "\<lambda>c wq s r. same s (snd (snd r))" c wq s "(n, wq', s')"]
  by (fastforce simp: Let_def split: if_splits)

lemma wq_wake_all_same: "wq_wake_all wq s = Some (n, wq', s') \<Longrightarrow> same s s'"
  by (auto simp: wq_wake_all_def bind_eq_Some_conv Let_def split_beta dest!: acquire_same wake_loop_same)

lemmas lock_same = acquire_same wq_sleep_same wq_wake_same wq_wake_all_same k_alloc_same k_free_same

lemma pipe_set_same [simp]:
  "procs (pipe_set a p s) = procs s" "vnodes (pipe_set a p s) = vnodes s" "procs (pipe_addref n s) = procs s" "vnodes (pipe_addref n s) = vnodes s"
  by (simp_all add: pipe_set_def pipe_addref_def Let_def)

lemma pipe_read_same: "pipe_read_pass node sz s = Some (r, s') \<Longrightarrow> same s s'"
  by (auto simp: pipe_read_pass_def bind_eq_Some_conv Let_def split_beta dest!: lock_same split: if_splits)

lemma pipe_write_same: "pipe_write_pass node tot src s = Some (r, s') \<Longrightarrow> same s s'"
  by (auto simp: pipe_write_pass_def bind_eq_Some_conv Let_def split_beta dest!: lock_same split: if_splits)

lemma pipe_close_same: "pipe_close node s = Some s' \<Longrightarrow> same s s'"
  by (cases "node = read_vnode (to_pipe s node)")
    (auto simp: pipe_close_def bind_eq_Some_conv Let_def dest!: wq_wake_all_same k_free_same split: if_split_asm)

lemma tty_same [simp]:
  "procs (tty_upd f s) = procs s" "vnodes (tty_upd f s) = vnodes s" "procs (snd (tty_write src s)) = procs s"
  "vnodes (snd (tty_write src s)) = vnodes s"
  by (simp_all add: tty_upd_def tty_write_def)

lemma tty_read_same: "tty_read_pass n s = Some (r, s') \<Longrightarrow> same s s'"
  by (auto simp: tty_read_pass_def bind_eq_Some_conv Let_def split_beta dest!: lock_same split: if_splits)

lemma user_same [simp]:
  "procs (user_write a bs s) = procs s" "vnodes (user_write a bs s) = vnodes s" "procs (set_fds es s) = procs s"
  "vnodes (set_fds es s) = vnodes s" "procs (set_file i f s) = procs s" "vnodes (set_file i f s) = vnodes s"
  "procs (put_file ft i f s) = procs s" "vnodes (put_file ft i f s) = vnodes s"
  "procs (add_pipe_ref f s) = procs s" "vnodes (add_pipe_ref f s) = vnodes s"
  by (simp_all add: user_write_def set_fds_def set_file_def put_file_def add_pipe_ref_def)

section \<open>File systems\<close>

lemma ramfs_grow_same: "ramfs_grow node e s = Some (r, s') \<Longrightarrow> same s s'"
  by (auto simp: ramfs_grow_def bind_eq_Some_conv Let_def split_beta split: if_split_asm)

lemma guard_nsize [simp]: "guard I P (V(n := (V n)\<lparr>nsize := k\<rparr>)) = guard I P V"
  by (auto simp: guard_def no_suid_root_def)

lemma ramfs_write_safe: "ramfs_write node src off s = Some (r, s') \<Longrightarrow> safe I s \<Longrightarrow> safe I s'"
  by (auto simp: ramfs_write_def bind_eq_Some_conv Let_def dest!: ramfs_grow_same split: if_split_asm)

lemma ramfs_truncate_safe: "ramfs_truncate node sz s = Some s' \<Longrightarrow> safe I s \<Longrightarrow> safe I s'"
  by (auto simp: ramfs_truncate_def bind_eq_Some_conv Let_def dest!: k_free_same split: if_split_asm)

lemma zero_node_guard: "guard I P V \<Longrightarrow> mode x = 0 \<Longrightarrow> guard I P (V(n := x))"
  by (rule guard_node) simp_all

lemma proc_current_upd [simp]:
  "proc_current (s\<lparr>k_heap := h\<rparr>) = proc_current s" "proc_current (s\<lparr>next_inode := i\<rparr>) = proc_current s"
  by (simp_all add: proc_current_def thread_current_def Let_def)

lemma ramfs_alloc_node_safe:
  "ramfs_alloc_node ty s = Some (n, s') \<Longrightarrow> safe I s \<Longrightarrow> safe I s' \<and> proc_current s' = proc_current s"
  by (cases "ty = VFS_DIRECTORY")
    (auto simp: ramfs_alloc_node_def k_alloc_def k_free_def bind_eq_Some_conv Let_def zero_node_def split: if_split_asm intro!: zero_node_guard)

lemma ramfs_create_safe:
  "ramfs_create dir name ty s = Some (n, s') \<Longrightarrow> safe I s \<Longrightarrow> safe I s' \<and> proc_current s' = proc_current s"
  by (auto simp: ramfs_create_def bind_eq_Some_conv Let_def dest!: ramfs_alloc_node_safe split: if_split_asm)

lemma ramfs_unlink_same: "ramfs_unlink dir name s = Some (r, s') \<Longrightarrow> same s s'"
  by (auto simp: ramfs_unlink_def ramfs_free_node_def bind_eq_Some_conv Let_def dest!: k_free_same split: if_split_asm option.split_asm)

lemma pipe_create_safe: "pipe_create s = Some (r, a, b, s') \<Longrightarrow> safe I s \<Longrightarrow> safe I s'"
  by (auto simp: pipe_create_def bind_eq_Some_conv Let_def zero_node_def dest!: k_alloc_same split: if_split_asm intro!: zero_node_guard)

lemma new_node_guard:
  "guard I P V \<Longrightarrow> fst (snd (I q)) \<noteq> 0 \<Longrightarrow> nuid x = euid (P q) \<Longrightarrow> guard I P (V(n := x))"
  by (rule guard_node) (simp_all add: guard_euid)

lemma open_create_safe:
  assumes "open_create pth fl s = Some (r, s')" and "safe I s" and "proc_current s \<noteq> 0" and "fst (snd (I (proc_current s))) \<noteq> 0"
  shows "safe I s'"
  using assms by (auto simp: open_create_def bind_eq_Some_conv Let_def dest!: ramfs_create_safe [where I = I] split: if_split_asm sum.split_asm
      intro!: new_node_guard [of I _ _ "proc_current s"])

lemma open_tail:
  assumes "(if ntype (vnodes s1 nd) = VFS_DIRECTORY then Some (- EISDIR, None, s1) else
      do { s \<leftarrow> (if c s1 then ramfs_truncate nd 0 s1 else Some s1); Some (0, Some (g s), s) }) = Some (r, f, s')" and "safe I s1"
  shows "safe I s'"
  using assms by (cases "ramfs_truncate nd 0 s1") (auto split: if_split_asm dest: ramfs_truncate_safe [where I = I])

lemma vfs_open_safe:
  assumes r: "vfs_open pth fl b s = Some (r, f, s')" and s: "safe I s" "proc_current s \<noteq> 0" "fst (snd (I (proc_current s))) \<noteq> 0"
  shows "safe I s'"
proof (cases "b \<and> (vfs_resolve pth s = 0 \<or> open_perm (vfs_resolve pth s) fl s = 0)")
  case False
  then show ?thesis using r s(1) by (auto simp: vfs_open_def Let_def split: if_split_asm)
next
  case True
  then obtain x s1 where x: "(if vfs_resolve pth s = 0 then open_create pth fl s else Some (Inr (vfs_resolve pth s), s)) = Some (x, s1)"
    and t: "(case x of Inl err \<Rightarrow> Some (err, None, s1) | Inr node \<Rightarrow>
        if ntype (vnodes s1 node) = VFS_DIRECTORY then Some (- EISDIR, None, s1) else
        do { s \<leftarrow> (if fl AND O_TRUNC \<noteq> 0 \<and> ops (vnodes s1 node) = ramfs_ops then ramfs_truncate node 0 s1 else Some s1);
             Some (0, Some \<lparr>fnode = node, offset = (if fl AND O_APPEND \<noteq> 0 then nsize (vnodes s node) else 0), fflags = fl\<rparr>, s) }) = Some (r, f, s')"
    using r by (auto simp: vfs_open_def Let_def bind_eq_Some_conv simp del: split_paired_Ex)
  have "safe I s1" using x s by (auto dest: open_create_safe [where I = I] split: if_split_asm)
  then show ?thesis using t by (cases x) (auto dest: open_tail [where I = I])
qed

lemma vfs_mkdir_safe:
  assumes "vfs_mkdir pth m s = Some (r, s')" and "safe I s" and "proc_current s \<noteq> 0" and "fst (snd (I (proc_current s))) \<noteq> 0"
  shows "safe I s'"
  using assms by (auto simp: vfs_mkdir_def bind_eq_Some_conv Let_def dest!: ramfs_create_safe [where I = I] split: if_split_asm sum.split_asm
      intro!: new_node_guard [of I _ _ "proc_current s"])

lemma ops_read_same: "ops_read node off sz s = Some (r, s') \<Longrightarrow> same s s'"
  by (auto simp: ops_read_def devfs_tty_read_def Let_def split_beta dest!: pipe_read_same tty_read_same split: VfsOps.split_asm)

lemma ops_write_safe: "ops_write node src off s = Some (r, s') \<Longrightarrow> safe I s \<Longrightarrow> safe I s'"
  by (auto simp: ops_write_def devfs_tty_write_def split_beta dest!: pipe_write_same dest: ramfs_write_safe [where I = I] split: VfsOps.split_asm)

lemma vfs_read_same:
  assumes "vfs_read f b n s = Some (r, f', s')"
  shows "same s s'"
proof (cases f)
  case (Some x)
  then show ?thesis using assms
    by (cases "ops_read (fnode x) (ucast (offset x)) n s")
      (auto simp: vfs_read_def dest!: ops_read_same split: if_split_asm sum.split_asm)
qed (use assms in \<open>simp add: vfs_read_def\<close>)

lemma vfs_write_safe:
  assumes r: "vfs_write f b s = Some (r, f', s')" and s: "safe I s"
  shows "safe I s'"
proof (cases "f = None \<or> b = None")
  case False
  then obtain x src where x: "f = Some x" "b = Some src" by auto
  show ?thesis using r s x
    by (cases "ops_write (fnode x) src (ucast (offset x)) s"; cases "ops_write (fnode x) src (ucast (nsize (vnodes s (fnode x)))) s")
      (auto simp: vfs_write_def Let_def dest: ops_write_safe [where I = I] split: if_split_asm sum.split_asm)
qed (use assms in \<open>auto simp: vfs_write_def split: option.split_asm\<close>)

section \<open>Signals and processes\<close>

lemma creds_keep [simp]:
  "creds (x\<lparr>sig := a\<rparr>) = creds x" "creds (x\<lparr>pstate := b\<rparr>) = creds x" "creds (x\<lparr>exit_status := c\<rparr>) = creds x"
  "creds (x\<lparr>child_exit_wq := d\<rparr>) = creds x" "creds (x\<lparr>pgid := e\<rparr>) = creds x" "creds (x\<lparr>cwd := g\<rparr>) = creds x"
  "creds (x\<lparr>umask := u\<rparr>) = creds x" "creds (x\<lparr>brk_current := k\<rparr>) = creds x"
  by (simp_all add: creds_def)

lemma raise_pending_safe [simp]: "safe I (raise_pending p n s) = safe I s"
  by (simp add: raise_pending_def)

lemma sig_continue_safe [simp]: "safe I (sig_continue p s) = safe I s"
  by (simp add: sig_continue_def Let_def)

lemma sig_send_safe: "sig_send n signo s = Some (r, s') \<Longrightarrow> safe I s \<Longrightarrow> safe I s'"
  by (auto simp: sig_send_def bind_eq_Some_conv Let_def split: if_split_asm)

lemma sig_group_cb_safe [simp]: "safe I (snd (sig_group_cb grp n p c s)) = safe I s"
  by (simp add: sig_group_cb_def Let_def)

lemma proc_foreach_from_safe:
  assumes "proc_foreach_from cb p n c s = Some (n', c', s')" and "\<And>p c s. safe I (snd (cb p c s)) = safe I s" and "safe I s"
  shows "safe I s'"
proof -
  have "safe I s \<longrightarrow> safe I (snd (snd (n', c', s')))"
    using proc_foreach_from.raw_induct [of "\<lambda>cb p n c s r. (\<forall>p c s. safe I (snd (cb p c s)) = safe I s) \<longrightarrow> safe I s \<longrightarrow> safe I (snd (snd r))"
        cb p n c s "(n', c', s')"] assms(1,2)
    by (fastforce split: if_split_asm)
  then show ?thesis using assms(3) by simp
qed

lemma sig_send_group_safe: "sig_send_group grp n s = Some (r, s') \<Longrightarrow> safe I s \<Longrightarrow> safe I s'"
  by (auto simp: sig_send_group_def proc_foreach_def bind_eq_Some_conv dest: proc_foreach_from_safe [where I = I] split: if_split_asm)

lemma for_each_keeps:
  "for_each f xs s = Some s' \<Longrightarrow> (\<And>x s s'. f x s = Some s' \<Longrightarrow> J s \<Longrightarrow> J s') \<Longrightarrow> J s \<Longrightarrow> J s'"
  by (induction xs arbitrary: s) (auto simp: bind_eq_Some_conv)

lemma for_ret_keeps:
  "for_ret f xs s = Some r \<Longrightarrow> (\<And>x s r. f x s = Some r \<Longrightarrow> J s \<Longrightarrow> (case r of Inl v \<Rightarrow> Q v | Inr s' \<Rightarrow> J s')) \<Longrightarrow> J s \<Longrightarrow>
     (case r of Inl v \<Rightarrow> Q v | Inr s' \<Rightarrow> J s')"
proof (induction xs arbitrary: s)
  case (Cons x xs)
  then obtain y where y: "f x s = Some y" "(case y of Inl v \<Rightarrow> Some (Inl v) | Inr s' \<Rightarrow> for_ret f xs s') = Some r"
    by (auto simp: bind_eq_Some_conv)
  show ?case using Cons.prems(2) [OF y(1) Cons.prems(3)] y(2) Cons.IH Cons.prems(2) by (cases y) auto
qed auto

lemma remove_from_same: "remove_from t pr cur s = Some s' \<Longrightarrow> same s s'"
proof (rule remove_from.raw_induct [where P = "\<lambda>t pr cur s r. same s r"], goal_cases)
  case (1 f t pr cur s r)
  show ?case
  proof (cases "cur = 0 \<or> cur = t")
    case True
    then show ?thesis using 1(3) [symmetric] by (cases "cur = 0"; cases "pr = 0"; simp add: Let_def)
  next
    case False
    then have "f t cur (tnext (thr s cur)) s = Some r" using 1(3) by simp
    then show ?thesis by (rule 1(2))
  qed
qed

lemma tell_parent_safe:
  assumes "(if par \<noteq> 0 then do { (_, wq, s) \<leftarrow> wq_wake (child_exit_wq (procs s par)) s;
      let s = pset par (\<lambda>x. x\<lparr>child_exit_wq := wq\<rparr>) s; (_, s) \<leftarrow> sig_send (pid (procs s par)) SIGCHLD s; Some s } else Some s) = Some s'"
    and "safe I s"
  shows "safe I s'"
  using assms by (cases "par = 0") (auto simp: bind_eq_Some_conv Let_def dest!: wq_wake_same sig_send_safe [where I = I])

lemma sig_stop_safe:
  assumes "sig_stop p n s = Some s'" and "safe I s"
  shows "safe I s'"
proof -
  let ?s = "pset p (\<lambda>x. x\<lparr>pstate := PROC_STOPPED, exit_status := n\<rparr>) s"
  obtain s1 s2 where s1: "sched_remove_thread (main_thread (procs ?s p)) (tset (main_thread (procs ?s p)) (tstate_update (\<lambda>_. THREAD_STOPPED)) ?s) = Some s1"
    and s2: "(if parent (procs s1 p) \<noteq> 0 then do { (_, wq, s) \<leftarrow> wq_wake (child_exit_wq (procs s1 (parent (procs s1 p)))) s1;
        let s = pset (parent (procs s1 p)) (\<lambda>x. x\<lparr>child_exit_wq := wq\<rparr>) s;
        (_, s) \<leftarrow> sig_send (pid (procs s (parent (procs s1 p)))) SIGCHLD s; Some s } else Some s1) = Some s2"
    and s': "s' = sched_schedule In_schedule s2"
    using assms(1) unfolding sig_stop_def Let_def bind_eq_Some_conv by blast
  have "same ?s s1" using s1 unfolding sched_remove_thread_def by (auto dest!: remove_from_same)
  then have "safe I s1" using assms(2) by simp
  then show ?thesis using tell_parent_safe [OF s2] s' by simp
qed

lemma sig_terminate_safe [simp]: "safe I (sig_terminate p n s) = safe I s"
  by (simp add: sig_terminate_def Let_def)

lemma sig_setup_frame_same [simp]:
  "procs (snd (snd (sig_setup_frame fr h n x s))) = procs s" "vnodes (snd (snd (sig_setup_frame fr h n x s))) = vnodes s"
  by (simp_all add: sig_setup_frame_def Let_def)

lemma deliver_one_safe:
  assumes "deliver_one p fr x n s = Some r" and "safe I s"
  shows "case r of Inl v \<Rightarrow> safe I (snd v) | Inr s' \<Rightarrow> safe I s'"
  using assms by (auto simp: deliver_one_def Let_def split_beta bind_eq_Some_conv split: if_split_asm dest: sig_stop_safe [where I = I])

lemma sig_maybe_deliver_safe:
  assumes "sig_maybe_deliver fr x s = Some (y, fr', s')" and "safe I s"
  shows "safe I s'"
proof -
  have "safe I s'" if "for_ret (deliver_one (proc_current s) fr x) [1..<nat NSIG] s = Some r"
    "(case r of Inl (fr, s) \<Rightarrow> (x, fr, s) | Inr s \<Rightarrow> (x, fr, s)) = (y, fr', s')" for r
    using for_ret_keeps [OF that(1), of "safe I" "\<lambda>v. safe I (snd v)"] deliver_one_safe assms(2) that(2) by (auto split: sum.split_asm prod.split_asm)
  then show ?thesis using assms
    by (auto simp: sig_maybe_deliver_def sig_restore_context_def Let_def bind_eq_Some_conv split: if_split_asm)
qed

section \<open>The calls of an unprivileged process\<close>

text \<open>\<open>plain I s\<close>: the running process is not the superuser.\<close>

abbreviation plain :: "(u64 \<Rightarrow> u32 \<times> u32 \<times> u32 \<times> u32) \<Rightarrow> kernel \<Rightarrow> bool" where
  "plain I s \<equiv> safe I s \<and> proc_current s \<noteq> 0 \<and> fst (snd (I (proc_current s))) \<noteq> 0"

lemma plain_euid: "plain I s \<Longrightarrow> euid (procs s (proc_current s)) \<noteq> 0"
  using guard_euid [of I "procs s" "vnodes s" "proc_current s"] by simp

lemma exit_close_same: "exit_close i s = Some s' \<Longrightarrow> same s s'"
  by (auto simp: exit_close_def Let_def bind_eq_Some_conv dest!: pipe_close_same split: if_split_asm)

lemma sys_exit_safe:
  assumes "sys_exit status s = Some s'" and "safe I s"
  shows "safe I s'"
proof -
  let ?p = "proc_current s"
  have p: "?p \<noteq> 0" using assms(1) by (auto simp: sys_exit_def)
  let ?upd = "\<lambda>x. x\<lparr>exit_status := as_int status, pstate := PROC_ZOMBIE\<rparr>"
  obtain s1 s2 where s1: "(if fd_table (procs s ?p) \<noteq> 0 then for_each exit_close [0..<MAX_FDS] s else Some s) = Some s1"
    and s2: "(let s = pset ?p ?upd s1; par = parent (procs s ?p) in
      if par \<noteq> 0 then do { (_, wq, s) \<leftarrow> wq_wake (child_exit_wq (procs s par)) s;
        let s = pset par (\<lambda>x. x\<lparr>child_exit_wq := wq\<rparr>) s; (_, s) \<leftarrow> sig_send (pid (procs s par)) SIGCHLD s; Some s } else Some s) = Some s2"
    and s': "s' = sched_schedule In_schedule (tset (thread_current s2) (tstate_update (\<lambda>_. THREAD_DEAD)) s2)"
    using assms(1) unfolding sys_exit_def Let_def if_not_P [OF p] bind_eq_Some_conv by blast
  have "safe I s1" using s1 assms(2) for_each_keeps [of exit_close "[0..<MAX_FDS]" s s1 "safe I"] exit_close_same
    by (auto split: if_split_asm)
  then have "safe I (pset ?p ?upd s1)" by simp
  then have "safe I s2" by (rule tell_parent_safe [unfolded Let_def, OF s2 [unfolded Let_def]])
  then show ?thesis using s' by simp
qed

lemma brk_loop_same: "brk_loop pml4 v e s = Some r \<Longrightarrow> same s (case r of Inl s' \<Rightarrow> s' | Inr s' \<Rightarrow> s')"
proof (rule brk_loop.raw_induct [where P = "\<lambda>pml4 v e s r. same s (case r of Inl s' \<Rightarrow> s' | Inr s' \<Rightarrow> s')"], goal_cases)
  case (1 f pml4 v e s r)
  show ?case
  proof (cases "v < e")
    case True
    then obtain x s1 where x: "with_vmm vmm_alloc_page s = Some (x, s1)" using 1(3) by (auto simp: bind_eq_Some_conv)
    show ?thesis
    proof (cases "x = 0")
      case True
      then show ?thesis using 1(3) x \<open>v < e\<close> with_vmm_same [OF x] by auto
    next
      case False
      then obtain y s2 where y: "with_vmm (\<lambda>w. do { w \<leftarrow> vmm_map_page_in pml4 v x (VMM_FLAG_USER OR VMM_FLAG_WRITABLE OR VMM_FLAG_NOEXEC)
          (zero_page (phys_to_virt w x) w); Some ((), w) }) s1 = Some (y, s2)"
        and r: "f pml4 (v + PAGE_SIZE) e (user_write v (replicate 4096 0) s2) = Some r"
        using 1(3) x \<open>v < e\<close> by (auto simp: bind_eq_Some_conv)
      show ?thesis using 1(2) [OF r] with_vmm_same [OF x] with_vmm_same [OF y] by simp
    qed
  next
    case False
    then show ?thesis using 1(3) by auto
  qed
qed

lemma sys_brk_safe: "sys_brk x s = Some (r, s') \<Longrightarrow> safe I s \<Longrightarrow> safe I s'"
  by (auto simp: sys_brk_def Let_def bind_eq_Some_conv split_sum_ex dest!: brk_loop_same split: if_split_asm)

lemma wait_pass_safe:
  assumes "wait_pass p a fl s = Some (r, s')" and "safe I s"
  shows "safe I s'"
proof -
  obtain lk s1 where s1: "acquire (wait_lock s) s = Some (lk, s1)" using assms(1) by (auto simp: wait_pass_def bind_eq_Some_conv)
  have "safe I s1" using assms(2) acquire_same [OF s1] by simp
  then show ?thesis using assms(1) s1
    by (cases "proc_find_zombie_child p s1"; cases "proc_find_stopped_child p s1"; cases "proc_has_children p s1")
      (auto simp: wait_pass_def Let_def split_beta bind_eq_Some_conv proc_reap_def dest!: wq_sleep_same split: if_split_asm)
qed

lemma sys_wait_safe: "sys_wait a fl s = Some (r, s') \<Longrightarrow> safe I s \<Longrightarrow> safe I s'"
  by (auto simp: sys_wait_def Let_def split: if_split_asm dest: wait_pass_safe [where I = I])

lemma write_file_safe:
  assumes "write_file i src s = Some (r, s')" and "safe I s"
  shows "safe I s'"
proof -
  let ?p = "proc_current s"
  obtain f s1 where s1: "vfs_write (Some (efile (cur_fds s ! i))) (Some src) s = Some (r, f, s1)"
    and s': "(let s = (case f of None \<Rightarrow> s1 | Some f \<Rightarrow> put_file (fd_table (procs s ?p)) i f s1) in
      if r = Inr (- EPIPE) then do { (_, s) \<leftarrow> sig_send (pid (procs s ?p)) SIGPIPE s; Some s } else Some s) = Some s'"
    using assms(1) by (auto simp: write_file_def Let_def bind_eq_Some_conv)
  have "safe I s1" using vfs_write_safe [OF s1 assms(2)] .
  then show ?thesis using s' by (cases f) (auto simp: Let_def bind_eq_Some_conv dest: sig_send_safe [where I = I] split: if_split_asm)
qed

lemma read_file_same: "read_file i a n s = Some (r, s') \<Longrightarrow> same s s'"
  by (auto simp: read_file_def Let_def bind_eq_Some_conv split_sum_ex dest!: vfs_read_same split: option.split)

lemma sys_write_safe: "sys_write fd a n s = Some (r, s') \<Longrightarrow> safe I s \<Longrightarrow> safe I s'"
  by (auto simp: sys_write_def Let_def split_beta split: if_split_asm option.split_asm dest: write_file_safe [where I = I])

lemma sys_read_same: "sys_read fd a n s = Some (r, s') \<Longrightarrow> same s s'"
  by (auto simp: sys_read_def Let_def bind_eq_Some_conv split_sum_ex dest!: read_file_same tty_read_same split: if_split_asm option.split_asm)

lemma set_fds_current [simp]: "proc_current (set_fds es s) = proc_current s"
  by (simp add: set_fds_def proc_current_def thread_current_def Let_def)

lemma sys_open_safe:
  assumes r: "sys_open a fl s = Some (r, s')" and s: "plain I s"
  shows "safe I s'"
proof (cases "no_table s \<or> fst (fd_alloc (cur_fds s)) < 0")
  case True
  then show ?thesis using assms by (auto simp: sys_open_def split_beta Let_def split: if_split_asm)
next
  case False
  let ?s = "set_fds (snd (fd_alloc (cur_fds s))) s"
  obtain perr pth where p: "resolve_user_path a ?s = Some (perr, pth)"
    using r False by (auto simp: sys_open_def split_beta Let_def bind_eq_Some_conv)
  have o: "safe I s1" if "vfs_open (Some pth) (ucast fl) True ?s = Some (e, f, s1)" for e f s1
    using vfs_open_safe [OF that, of I] s by simp
  show ?thesis using r s False p o
    by (auto simp: sys_open_def split_beta Let_def bind_eq_Some_conv split: if_split_asm option.split_asm)
qed

lemma sys_close_same: "sys_close fd s = Some (r, s') \<Longrightarrow> same s s'"
  by (auto simp: sys_close_def Let_def bind_eq_Some_conv vfs_close_def dest!: pipe_close_same split: if_split_asm option.split_asm)

lemma sys_lseek_same: "sys_lseek fd off w s = (r, s') \<Longrightarrow> same s s'"
  by (auto simp: sys_lseek_def split: if_split_asm option.split_asm prod.split_asm)

lemma store_same [simp]:
  "procs (store_stat a st s) = procs s" "vnodes (store_stat a st s) = vnodes s"
  "procs (store_dirent a e s) = procs s" "vnodes (store_dirent a e s) = vnodes s"
  by (simp_all add: store_stat_def store_dirent_def)

lemma sys_stat_same: "sys_stat a b s = Some (r, s') \<Longrightarrow> same s s'"
  by (auto simp: sys_stat_def bind_eq_Some_conv split: if_split_asm option.split_asm prod.split_asm)

lemma sys_fstat_same: "sys_fstat fd a s = Some (r, s') \<Longrightarrow> same s s'"
  by (auto simp: sys_fstat_def Let_def split: if_split_asm option.split_asm)

lemma fold_same: "(\<And>x s. same s (f x s)) \<Longrightarrow> same s (fold f xs s)"
  by (induction xs arbitrary: s) simp_all

lemma sys_readdir_same: "sys_readdir a b m s = Some (r, s') \<Longrightarrow> same s s'"
  by (auto simp: sys_readdir_def Let_def split_beta bind_eq_Some_conv fold_same split: if_split_asm)

lemma sys_mkdir_safe: "sys_mkdir a m s = Some (r, s') \<Longrightarrow> plain I s \<Longrightarrow> safe I s'"
  by (auto simp: sys_mkdir_def bind_eq_Some_conv split: if_split_asm dest: vfs_mkdir_safe [where I = I])

lemma sys_unlink_same: "sys_unlink a s = Some (r, s') \<Longrightarrow> same s s'"
  by (auto simp: sys_unlink_def vfs_unlink_def Let_def bind_eq_Some_conv split: if_split_asm sum.split_asm dest!: ramfs_unlink_same)

lemma sys_dup2_same: "sys_dup2 a b s = Some (r, s') \<Longrightarrow> same s s'"
  by (auto simp: sys_dup2_def Let_def bind_eq_Some_conv split: if_split_asm option.split_asm dest!: pipe_close_same)

lemma sys_dup_same: "sys_dup a s = (r, s') \<Longrightarrow> same s s'"
  by (auto simp: sys_dup_def Let_def split_beta split: if_split_asm option.split_asm)

lemma sys_pipe_safe:
  assumes r: "sys_pipe a s = Some (r, s')" and s: "safe I s"
  shows "safe I s'"
proof (cases "pipe_create s")
  case None
  then show ?thesis using assms by (auto simp: sys_pipe_def split: if_split_asm)
next
  case (Some x)
  obtain e rn wn s1 where x: "x = (e, rn, wn, s1)" by (metis prod.exhaust)
  have "safe I s1" using pipe_create_safe Some x s by blast
  then show ?thesis using r s Some x
    by (auto simp: sys_pipe_def pipe_setup_fd_def split_beta Let_def bind_eq_Some_conv dest!: pipe_close_same split: if_split_asm)
qed

lemma sys_chdir_safe: "sys_chdir a s = Some (r, s') \<Longrightarrow> safe I s \<Longrightarrow> safe I s'"
  by (auto simp: sys_chdir_def Let_def bind_eq_Some_conv split: if_split_asm)

lemma sys_getcwd_same: "sys_getcwd a n s = (r, s') \<Longrightarrow> same s s'"
  by (auto simp: sys_getcwd_def Let_def split: if_split_asm)

lemma sys_setid_plain:
  assumes "plain I s"
  shows "snd (sys_setuid x s) = s" "snd (sys_setgid x s) = s"
  using plain_euid [OF assms] by (simp_all add: sys_setuid_def sys_setgid_def Let_def)

lemma sys_chmod_safe:
  assumes "sys_chmod a m s = Some (r, s')" and "plain I s"
  shows "safe I s'"
proof -
  have "euid (procs s (proc_current s)) \<noteq> 0" using plain_euid [OF assms(2)] .
  then show ?thesis using assms by (auto simp: sys_chmod_def Let_def bind_eq_Some_conv split: if_split_asm intro!: guard_node)
qed

lemma sys_chown_plain:
  assumes "sys_chown a u g s = Some (r, s')" and "plain I s"
  shows "s' = s"
proof -
  have "euid (procs s (proc_current s)) \<noteq> 0" using plain_euid [OF assms(2)] .
  then show ?thesis using assms by (auto simp: sys_chown_def Let_def bind_eq_Some_conv split: if_split_asm)
qed

lemma sys_setpgid_safe: "sys_setpgid a b s = Some (r, s') \<Longrightarrow> safe I s \<Longrightarrow> safe I s'"
  by (auto simp: sys_setpgid_def Let_def bind_eq_Some_conv split: if_split_asm)

lemma small_calls_safe [simp]:
  "safe I (snd (sys_umask m s)) = safe I s" "safe I (snd (sys_tcsetpgrp g s)) = safe I s" "safe I (snd (sys_signal n h s)) = safe I s"
  "safe I (snd (sys_sigreturn s)) = safe I s"
  by (simp_all add: sys_umask_def sys_tcsetpgrp_def tty_set_fg_pgid_def sys_signal_def sys_sigreturn_def Let_def split_beta)

lemma sys_kill_safe: "sys_kill a n s = Some (r, s') \<Longrightarrow> safe I s \<Longrightarrow> safe I s'"
  by (auto simp: sys_kill_def Let_def split: if_split_asm dest: sig_send_safe [where I = I] sig_send_group_safe [where I = I])

section \<open>Sockets\<close>

abbreviation nsame :: "Net \<Rightarrow> Net \<Rightarrow> bool" where "nsame n n' \<equiv> same (nk n) (nk n')"

lemma skset_nk [simp]: "nk (skset p f n) = nk n"
  by (simp add: skset_def)

lemma sk_release_same [simp]: "procs (nk (sk_release p n)) = procs (nk n)" "vnodes (nk (sk_release p n)) = vnodes (nk n)"
  by (simp_all add: sk_release_def split_beta Let_def)

lemma sk_acquire_same: "sk_acquire p n = Some n' \<Longrightarrow> nsame n n'"
  by (auto simp: sk_acquire_def bind_eq_Some_conv dest!: acquire_same)

lemma sk_sleep_same: "sleep_rx p n = Some n' \<Longrightarrow> nsame n n'" "sleep_accept p n = Some n' \<Longrightarrow> nsame n n'"
  by (auto simp: sleep_rx_def sleep_accept_def bind_eq_Some_conv dest!: wq_sleep_same)

lemma sk_alloc_same: "sk_alloc n = Some (p, n') \<Longrightarrow> nsame n n'"
  by (auto simp: sk_alloc_def bind_eq_Some_conv dest!: k_alloc_same)

lemma sk_kfree_same: "sk_kfree p n = Some n' \<Longrightarrow> nsame n n'"
  by (auto simp: sk_kfree_def bind_eq_Some_conv dest!: k_free_same)

lemma table_add_same: "table_add p n = Some (i, n') \<Longrightarrow> nsame n n'"
  by (auto simp: table_add_def bind_eq_Some_conv split_beta Let_def dest!: acquire_same)

lemma ensure_port_same: "ensure_port p n = Some n' \<Longrightarrow> nsame n n'"
  by (auto simp: ensure_port_def socket_alloc_ephemeral_port_def bind_eq_Some_conv split_beta Let_def dest!: acquire_same split: if_split_asm)

lemmas sk_same = sk_acquire_same sk_sleep_same sk_alloc_same sk_kfree_same table_add_same ensure_port_same

lemma send_nk [simp]:
  "nk (snd (eth_send nif d t b n)) = nk n" "nk (snd (ipv4_send nif ip pr b n)) = nk n"
  "nk (snd (udp_send nif sp ip dp b n)) = nk n" "nk (snd (tcp_send nif sip sp dip dp sq ac fl b n)) = nk n"
proof -
  show e: "nk (snd (eth_send nif d t b n)) = nk n" for nif d t b n by (simp add: eth_send_def)
  show i: "nk (snd (ipv4_send nif ip pr b n)) = nk n" for nif ip pr b n by (simp add: ipv4_send_def Let_def e split: option.split)
  show "nk (snd (udp_send nif sp ip dp b n)) = nk n" by (simp add: udp_send_def Let_def i)
  show "nk (snd (tcp_send nif sip sp dip dp sq ac fl b n)) = nk n" by (simp add: tcp_send_def Let_def i)
qed

lemma socket_create_same: "socket_create f t n = Some (r, n') \<Longrightarrow> nsame n n'"
  by (auto simp: socket_create_def Let_def bind_eq_Some_conv dest!: sk_same split: if_split_asm option.split_asm)

lemma socket_free_same: "socket_free i n = Some n' \<Longrightarrow> nsame n n'"
  by (auto simp: socket_free_def Let_def split_beta bind_eq_Some_conv dest!: acquire_same wq_wake_all_same sk_kfree_same split: if_split_asm)

lemma socket_bind_same: "socket_bind p ip port n = Some (r, n') \<Longrightarrow> nsame n n'"
  by (auto simp: socket_bind_def Let_def bind_eq_Some_conv dest!: sk_acquire_same split: if_split_asm)

lemma socket_listen_same: "socket_listen p n = Some (r, n') \<Longrightarrow> nsame n n'"
  by (auto simp: socket_listen_def Let_def bind_eq_Some_conv dest!: sk_acquire_same split: if_split_asm)

lemma socket_accept_same: "socket_accept p n = Some (r, n') \<Longrightarrow> nsame n n'"
  by (auto simp: socket_accept_def accept_pass_def Let_def bind_eq_Some_conv dest!: sk_same split: if_split_asm option.split_asm)

lemma socket_connect_same: "socket_connect p ip port n = Some (r, n') \<Longrightarrow> nsame n n'"
  by (auto simp: socket_connect_def connect_pass_def Let_def bind_eq_Some_conv dest!: sk_same split: if_split_asm option.split_asm)

lemma socket_sendto_same: "socket_sendto p src ip port n = Some (r, n') \<Longrightarrow> nsame n n'"
  by (auto simp: socket_sendto_def Let_def split_beta bind_eq_Some_conv dest!: sk_same split: if_split_asm option.split_asm)

lemma send_segments_same: "send_segments nif p src n = Some n' \<Longrightarrow> nsame n n'"
proof (induction "length src" arbitrary: src n rule: less_induct)
  case less
  show ?case
  proof (cases "src = []")
    case False
    then obtain n1 where n1: "sk_acquire p n = Some n1" using less.prems by (subst (asm) send_segments.simps) (auto simp: Let_def bind_eq_Some_conv simp del: send_segments.simps)
    obtain m where m: "nsame n1 m" "send_segments nif p (drop max_seg src) m = Some n'"
      using less.prems False n1 by (subst (asm) send_segments.simps) (simp add: Let_def del: send_segments.simps, rule that, simp_all)
    have "length (drop max_seg src) < length src" using False by simp
    from less.hyps [OF this m(2)] show ?thesis using m(1) sk_acquire_same [OF n1] by simp
  qed (use less.prems in simp)
qed

lemma socket_send_same: "socket_send p src n = Some (r, n') \<Longrightarrow> nsame n n'"
  by (auto simp: socket_send_def bind_eq_Some_conv simp del: send_segments.simps dest!: socket_sendto_same send_segments_same split: if_split_asm option.split_asm)

lemma socket_recv_same: "socket_recv p k n = Some (r, n') \<Longrightarrow> nsame n n'"
  by (auto simp: socket_recv_def recv_pass_def Let_def bind_eq_Some_conv dest!: sk_same split: if_split_asm)

lemma socket_recvfrom_same: "socket_recvfrom p k n = Some (r, n') \<Longrightarrow> nsame n n'"
  by (auto simp: socket_recvfrom_def recvfrom_pass_def Let_def bind_eq_Some_conv dest!: sk_same split: if_split_asm)

lemma store_addr_same [simp]:
  "procs (nk (store_addr a ip port n)) = procs (nk n)" "vnodes (nk (store_addr a ip port n)) = vnodes (nk n)"
  by (simp_all add: store_addr_def)

lemma sock_fd_same: "sock_fd i n = Some (r, n') \<Longrightarrow> nsame n n'"
  by (auto simp: sock_fd_def Let_def split_beta bind_eq_Some_conv dest!: socket_free_same split: if_split_asm)

lemma sys_socket_same: "sys_socket f t n = Some (r, n') \<Longrightarrow> nsame n n'"
  by (auto simp: sys_socket_def bind_eq_Some_conv dest!: socket_create_same sock_fd_same split: if_split_asm)

lemma sys_bind_same: "sys_bind fd a n = Some (r, n') \<Longrightarrow> nsame n n'"
  by (auto simp: sys_bind_def bind_eq_Some_conv dest!: socket_bind_same split: if_split_asm)

lemma sys_listen_same: "sys_listen fd n = Some (r, n') \<Longrightarrow> nsame n n'"
  by (auto simp: sys_listen_def bind_eq_Some_conv dest!: socket_listen_same split: if_split_asm)

lemma sys_accept_same: "sys_accept fd a n = Some (r, n') \<Longrightarrow> nsame n n'"
  by (auto simp: sys_accept_def bind_eq_Some_conv split_sum_ex dest!: socket_accept_same sock_fd_same split: if_split_asm option.split)

lemma sys_connect_same: "sys_connect fd a n = Some (r, n') \<Longrightarrow> nsame n n'"
  by (auto simp: sys_connect_def bind_eq_Some_conv dest!: socket_connect_same split: if_split_asm)

lemma sys_send_same: "sys_send fd a k n = Some (r, n') \<Longrightarrow> nsame n n'"
  by (auto simp: sys_send_def bind_eq_Some_conv dest!: socket_send_same split: if_split_asm)

lemma sys_recv_same: "sys_recv fd a k n = Some (r, n') \<Longrightarrow> nsame n n'"
  by (auto simp: sys_recv_def bind_eq_Some_conv split_sum_ex dest!: socket_recv_same split: if_split_asm)

lemma sys_sendto_same: "sys_sendto fd a k b n = Some (r, n') \<Longrightarrow> nsame n n'"
  by (auto simp: sys_sendto_def bind_eq_Some_conv dest!: socket_sendto_same split: if_split_asm)

lemma sys_recvfrom_same: "sys_recvfrom fd a k b n = Some (r, n') \<Longrightarrow> nsame n n'"
  by (auto simp: sys_recvfrom_def bind_eq_Some_conv split_sum_ex Let_def dest!: socket_recvfrom_same split: if_split_asm option.split)

section \<open>Creating processes\<close>

lemma thread_create_same: "thread_create e a s = Some (t, s') \<Longrightarrow> same s s' \<and> fork_child s' = fork_child s"
  by (auto simp: thread_create_def k_alloc_def k_free_def tset_def Let_def bind_eq_Some_conv split: if_split_asm)

lemma fd_table_dup_same: "fd_table_dup a s = Some (t, s') \<Longrightarrow> same s s'"
  by (auto simp: fd_table_dup_def Let_def bind_eq_Some_conv dest!: k_alloc_same split: if_split_asm intro!: fold_same [THEN conjunct1, THEN trans]
      fold_same [THEN conjunct2, THEN trans])

lemma destroy_pml4_same: "destroy_pml4 p s = Some s' \<Longrightarrow> same s s' \<and> fork_child s' = fork_child s"
  by (auto simp: destroy_pml4_def with_vmm_def bind_eq_Some_conv)

lemma k_free_fork_child: "k_free p s = Some s' \<Longrightarrow> fork_child s' = fork_child s"
  by (auto simp: k_free_def bind_eq_Some_conv)

lemma add_thread_fork_child [simp]:
  "fork_child (sched_add_thread t s) = fork_child s" "fork_child (proc_set_main_thread p t s) = fork_child s"
  by (simp_all add: sched_add_thread_def queue_push_def proc_set_main_thread_def pset_def tset_def Let_def)

lemma main_thread_safe [simp]: "safe I (proc_set_main_thread p t s) = safe I s"
  by (simp add: proc_set_main_thread_def Let_def creds_def)

lemma fork_tail_safe:
  assumes "(do { (t, s) \<leftarrow> thread_create ent args s;
      if t = 0 then do { s \<leftarrow> k_free (fd_table (procs s child)) s; s \<leftarrow> destroy_pml4 pml4 s; s \<leftarrow> k_free child s; Some (0, s) }
      else Some (child, sched_add_thread t (proc_set_main_thread child t s)) }) = Some (c, s')" and "safe I s"
  shows "safe I s' \<and> fork_child s' = fork_child s"
proof -
  obtain t s1 where t: "thread_create ent args s = Some (t, s1)" using assms(1) by (auto simp: bind_eq_Some_conv)
  show ?thesis
  proof (cases "t = 0")
    case True
    then obtain s2 s3 where f: "k_free (fd_table (procs s1 child)) s1 = Some s2" "destroy_pml4 pml4 s2 = Some s3" "k_free child s3 = Some s'"
      using assms(1) t by (auto simp: bind_eq_Some_conv)
    show ?thesis
      using thread_create_same [OF t] assms(2) k_free_same [OF f(1)] k_free_fork_child [OF f(1)] destroy_pml4_same [OF f(2)]
        k_free_same [OF f(3)] k_free_fork_child [OF f(3)] by simp
  next
    case False
    then show ?thesis using assms t thread_create_same [OF t] by auto
  qed
qed

text \<open>A fork gives the new process the ids of its parent.\<close>

lemma proc_fork_ids:
  assumes r: "proc_fork ent args par uc s = Some (c, s')" and s: "safe I s"
  shows "safe I s' \<or> (\<exists>I'. safe I' s' \<and> (\<forall>q. q \<noteq> fork_child s' \<longrightarrow> I' q = I q) \<and> (fork_child s' \<noteq> par \<longrightarrow> I' (fork_child s') = I par))"
proof (cases "par = 0 \<or> page_table (procs s par) = 0")
  case True
  then show ?thesis using r s by (simp add: proc_fork_def)
next
  case False
  then obtain pml4 s1 where s1: "with_vmm (vmm_fork_address_space (page_table (procs s par))) s = Some (pml4, s1)"
    using r by (auto simp: proc_fork_def bind_eq_Some_conv)
  have e1: "same s s1" using with_vmm_same [OF s1] .
  show ?thesis
  proof (cases "pml4 = 0")
    case True
    then show ?thesis using r s s1 e1 False by (simp add: proc_fork_def)
  next
    case nz: False
    obtain child s2 where s2: "alloc_process s1 = Some (child, s2)"
      using r s1 False nz by (auto simp: proc_fork_def bind_eq_Some_conv)
    then obtain h where h: "s2 = (if child = 0 then s1\<lparr>k_heap := h\<rparr> else pset child (\<lambda>_. zero_process) (s1\<lparr>k_heap := h\<rparr>))"
      by (auto simp: alloc_process_def k_alloc_def bind_eq_Some_conv)
    show ?thesis
    proof (cases "child = 0")
      case True
      then show ?thesis using r s s1 s2 h e1 False nz by (auto simp: proc_fork_def bind_eq_Some_conv dest!: destroy_pml4_same)
    next
      case c: False
      define pp where "pp = procs (proc_setup child s2) par"
      define s3 where "s3 = pset child (\<lambda>x. x\<lparr>page_table := pml4, brk_start := brk_start pp, brk_current := brk_current pp,
          cwd := strncpy_array PATH_MAX (cwd pp), uid := uid pp, gid := gid pp, euid := euid pp,
          egid := egid pp, umask := umask pp, pgid := pgid pp, parent := par\<rparr>) (proc_setup child s2)"
      obtain ft s4 where s4: "fd_table_dup (fd_table (procs s3 par)) s3 = Some (ft, s4)"
        using r s1 s2 False nz c unfolding s3_def pp_def by (auto simp: proc_fork_def bind_eq_Some_conv Let_def)
      let ?s5 = "(pset child (\<lambda>x. x\<lparr>fd_table := ft\<rparr>) s4)\<lparr>fork_child := child, fork_ctx := uc\<rparr>"
      have t: "(do { (t, s) \<leftarrow> thread_create ent args ?s5;
          if t = 0 then do { s \<leftarrow> k_free (fd_table (procs s child)) s; s \<leftarrow> destroy_pml4 pml4 s; s \<leftarrow> k_free child s; Some (0, s) }
          else Some (child, sched_add_thread t (proc_set_main_thread child t s)) }) = Some (c, s')"
        using r s1 s2 s4 False nz c unfolding s3_def pp_def by (simp add: proc_fork_def Let_def)
      let ?I = "\<lambda>q. creds (procs s3 q)"
      have "no_suid_root (vnodes s3)" using s e1 h c by (simp add: guard_def s3_def proc_setup_def Let_def)
      then have "safe ?I ?s5" using fd_table_dup_same [OF s4] by (simp add: guard_def creds_def)
      from fork_tail_safe [OF t this] have f: "safe ?I s'" "fork_child s' = child" by simp_all
      have "?I q = I q" if "q \<noteq> child" for q using that s e1 h c by (simp add: s3_def guard_def)
      moreover have "?I child = I par" if "child \<noteq> par"
        using that s e1 h c by (simp add: s3_def pp_def guard_def creds_def)
      ultimately show ?thesis using f by blast
    qed
  qed
qed

section \<open>Executing a program\<close>

lemma exec_read_elf_safe:
  assumes r: "exec_read_elf pth s = Some (e, b, bs, s')" and s: "plain I s"
  shows "safe I s'"
proof -
  obtain err f s1 where s1: "vfs_open (Some pth) O_RDONLY True s = Some (err, f, s1)" using r by (auto simp: exec_read_elf_def bind_eq_Some_conv)
  have g: "safe I s1" using vfs_open_safe [OF s1, of I] s by simp
  show ?thesis
  proof (cases "f = None \<or> err \<noteq> 0 \<or> nsize (vnodes s1 (fnode (the f))) = 0 \<or> nsize (vnodes s1 (fnode (the f))) > MAX_ELF_SIZE")
    case True
    then show ?thesis using r s1 g by (cases f) (auto simp: exec_read_elf_def Let_def split: if_split_asm)
  next
    case False
    then obtain x where f: "f = Some x" by auto
    let ?n = "nsize (vnodes s1 (fnode x))"
    obtain a s2 where s2: "k_alloc ?n 0 s1 = Some (a, s2)" using r s1 f False by (auto simp: exec_read_elf_def Let_def bind_eq_Some_conv)
    have g2: "safe I s2" using g k_alloc_same [OF s2] by simp
    show ?thesis
    proof (cases "a = 0")
      case True
      then show ?thesis using r s1 f False s2 g2 by (auto simp: exec_read_elf_def Let_def)
    next
      case nz: False
      obtain y z s3 where s3: "vfs_read (Some x) True (ucast ?n) s2 = Some (y, z, s3)"
        using r s1 f False s2 nz by (auto simp: exec_read_elf_def Let_def bind_eq_Some_conv)
      have "safe I s3" using g2 vfs_read_same [OF s3] by simp
      then show ?thesis using r s1 f False s2 nz s3
        by (cases y) (auto simp: exec_read_elf_def Let_def bind_eq_Some_conv dest!: k_free_same split: if_split_asm)
    qed
  qed
qed

text \<open>\<open>only_self p I s\<close>: ids are as \<open>I\<close> says, except that \<open>p\<close> may have the effective ids of another user, not those of the superuser.\<close>

definition only_self :: "u64 \<Rightarrow> (u64 \<Rightarrow> u32 \<times> u32 \<times> u32 \<times> u32) \<Rightarrow> kernel \<Rightarrow> bool" where
  "only_self p I s \<longleftrightarrow> (\<forall>q. q \<noteq> p \<longrightarrow> creds (procs s q) = I q) \<and> uid (procs s p) = fst (I p) \<and> gid (procs s p) = fst (snd (snd (I p))) \<and>
     euid (procs s p) \<noteq> 0 \<and> no_suid_root (vnodes s)"

lemma safe_only_self: "safe I s \<Longrightarrow> fst (snd (I p)) \<noteq> 0 \<Longrightarrow> only_self p I s"
proof -
  assume a: "safe I s" "fst (snd (I p)) \<noteq> 0"
  then have "creds (procs s p) = I p" by (simp add: guard_def)
  then have "uid (procs s p) = fst (I p)" "gid (procs s p) = fst (snd (snd (I p)))" "euid (procs s p) = fst (snd (I p))"
    by (metis creds_def fst_conv snd_conv)+
  then show "only_self p I s" using a by (simp add: only_self_def guard_def)
qed

text \<open>The new program's ids, and then the switch of address spaces.\<close>

lemma exec_ids:
  assumes "safe I s" and "fst (snd (I p)) \<noteq> 0" and v: "v = vnodes s node"
    and s1: "s1 = (if node \<noteq> 0 \<and> mode v AND S_ISUID \<noteq> 0 then pset p (\<lambda>x. x\<lparr>euid := nuid v\<rparr>) s else s)"
    and s2: "s2 = (if node \<noteq> 0 \<and> mode v AND S_ISGID \<noteq> 0 then pset p (\<lambda>x. x\<lparr>egid := ngid v\<rparr>) s1 else s1)"
    and s3: "s3 = pset p (\<lambda>x. x\<lparr>page_table := t, brk_start := b, brk_current := b\<rparr>) s2"
  shows "only_self p I s3"
proof -
  have o: "only_self p I s" using safe_only_self [OF assms(1,2)] .
  then have "mode v AND S_ISUID \<noteq> 0 \<Longrightarrow> nuid v \<noteq> 0" by (simp add: only_self_def no_suid_root_def v)
  then have "only_self p I s1" using o by (simp add: s1 only_self_def)
  then have "only_self p I s2" by (simp add: s2 only_self_def)
  then show ?thesis by (simp add: s3 only_self_def)
qed

lemma only_self_same: "only_self p I s \<Longrightarrow> same s s' \<Longrightarrow> only_self p I s'"
  by (simp add: only_self_def)

lemma exec_enter_ids:
  assumes "(do { let node = vfs_resolve (Some pth) s; let v = vnodes s node;
        let s = (if node \<noteq> 0 \<and> mode v AND S_ISUID \<noteq> 0 then pset p (\<lambda>x. x\<lparr>euid := nuid v\<rparr>) s else s);
        let s = (if node \<noteq> 0 \<and> mode v AND S_ISGID \<noteq> 0 then pset p (\<lambda>x. x\<lparr>egid := ngid v\<rparr>) s else s);
        let s = pset p (\<lambda>x. x\<lparr>page_table := np, brk_start := elf_brk_start res, brk_current := elf_brk_start res\<rparr>) s;
        (_, s) \<leftarrow> with_vmm (\<lambda>v. do { v \<leftarrow> vmm_free_user_pages op v; Some ((), v) }) s;
        let s = paging_write_cr3 np s;
        let (rsp, argv, m) = exec_setup_user_stack args (address_space_view (h_vmm (k_heap s)) np);
        Some (Inr (entry_point res, rsp, of_nat (length args), argv), s\<lparr>user_mem := m\<rparr>) }) = Some (r, s')"
    and "safe I s" and "fst (snd (I p)) \<noteq> 0"
  shows "only_self p I s'"
proof -
  define node where "node = vfs_resolve (Some pth) s"
  define v where "v = vnodes s node"
  define s1 where "s1 = (if node \<noteq> 0 \<and> mode v AND S_ISUID \<noteq> 0 then pset p (\<lambda>x. x\<lparr>euid := nuid v\<rparr>) s else s)"
  define s2 where "s2 = (if node \<noteq> 0 \<and> mode v AND S_ISGID \<noteq> 0 then pset p (\<lambda>x. x\<lparr>egid := ngid v\<rparr>) s1 else s1)"
  define s3 where "s3 = pset p (\<lambda>x. x\<lparr>page_table := np, brk_start := elf_brk_start res, brk_current := elf_brk_start res\<rparr>) s2"
  have "only_self p I s3" by (rule exec_ids [OF assms(2,3) v_def s1_def s2_def s3_def])
  moreover have "same s3 s'"
    using assms(1) unfolding Let_def node_def [symmetric] v_def [symmetric] s1_def [symmetric] s2_def [symmetric] s3_def [symmetric]
    by (auto simp: bind_eq_Some_conv split_beta paging_write_cr3_def Let_def dest!: with_vmm_same)
  ultimately show ?thesis by (rule only_self_same)
qed

lemma exec_image_ids:
  assumes r: "(do { let old_pml4 = page_table (procs s p);
        (new_pml4, s) \<leftarrow> with_vmm vmm_create_user_pml4 s;
        if new_pml4 = 0 then do { s \<leftarrow> k_free eb s; Some (Inl (- ENOMEM), s) } else
        do { ((err, res), s) \<leftarrow> with_vmm (\<lambda>v. do { (e, r, v) \<leftarrow> elf_load (Some bs) new_pml4 True v; Some ((e, r), v) }) s;
             s \<leftarrow> k_free eb s;
             case res of None \<Rightarrow> do { s \<leftarrow> destroy_pml4 new_pml4 s; Some (Inl err, s) }
             | Some res \<Rightarrow>
        if err \<noteq> 0 then do { s \<leftarrow> destroy_pml4 new_pml4 s; Some (Inl err, s) } else
        do { (err, s) \<leftarrow> with_vmm (vmm_map_user_stack new_pml4) s;
             if err \<noteq> 0
             then do { (_, s) \<leftarrow> with_vmm (\<lambda>v. do { v \<leftarrow> vmm_free_user_pages new_pml4 v; Some ((), v) }) s; Some (Inl err, s) }
             else
        do { let node = vfs_resolve (Some pth) s;
             let v = vnodes s node;
             let s = (if node \<noteq> 0 \<and> mode v AND S_ISUID \<noteq> 0 then pset p (\<lambda>x. x\<lparr>euid := nuid v\<rparr>) s else s);
             let s = (if node \<noteq> 0 \<and> mode v AND S_ISGID \<noteq> 0 then pset p (\<lambda>x. x\<lparr>egid := ngid v\<rparr>) s else s);
             let s = pset p (\<lambda>x. x\<lparr>page_table := new_pml4, brk_start := elf_brk_start res, brk_current := elf_brk_start res\<rparr>) s;
             (_, s) \<leftarrow> with_vmm (\<lambda>v. do { v \<leftarrow> vmm_free_user_pages old_pml4 v; Some ((), v) }) s;
             let s = paging_write_cr3 new_pml4 s;
             let (rsp, argv, m) = exec_setup_user_stack args (address_space_view (h_vmm (k_heap s)) new_pml4);
             Some (Inr (entry_point res, rsp, of_nat (length args), argv), s\<lparr>user_mem := m\<rparr>) } } } }) = Some (r, s')"
    and g: "safe I s" and ne: "fst (snd (I p)) \<noteq> 0"
  shows "only_self p I s'"
proof -
  have fin: "only_self p I s1" if "safe I s1" for s1 using safe_only_self [OF that ne] .
  obtain t s1 where s1: "with_vmm vmm_create_user_pml4 s = Some (t, s1)" using r by (auto simp: bind_eq_Some_conv Let_def)
  have g1: "safe I s1" using g with_vmm_same [OF s1] by simp
  show ?thesis
  proof (cases "t = 0")
    case True
    then show ?thesis using r s1 g1 fin by (auto simp: Let_def bind_eq_Some_conv dest!: k_free_same)
  next
    case t: False
    obtain err res s2 s3 where s2: "with_vmm (\<lambda>v. do { (e, r, v) \<leftarrow> elf_load (Some bs) t True v; Some ((e, r), v) }) s1 = Some ((err, res), s2)"
      and s3: "k_free eb s2 = Some s3" using r s1 t by (auto simp: bind_eq_Some_conv Let_def)
    have g3: "safe I s3" using g1 with_vmm_same [OF s2] k_free_same [OF s3] by simp
    show ?thesis
    proof (cases "res = None \<or> err \<noteq> 0")
      case True
      then show ?thesis using r s1 t s2 s3 g3 fin by (cases res) (auto simp: Let_def bind_eq_Some_conv dest!: destroy_pml4_same)
    next
      case False
      then obtain x where x: "res = Some x" "err = 0" by auto
      obtain e s4 where s4: "with_vmm (vmm_map_user_stack t) s3 = Some (e, s4)" using r s1 t s2 s3 x by (auto simp: bind_eq_Some_conv Let_def)
      have g4: "safe I s4" using g3 with_vmm_same [OF s4] by simp
      show ?thesis
      proof (cases "e = 0")
        case False
        then show ?thesis using r s1 t s2 s3 s4 x g4 fin by (auto simp: Let_def bind_eq_Some_conv dest!: with_vmm_same)
      next
        case True
        show ?thesis
          by (rule exec_enter_ids [where pth = pth and np = t and res = x and op = "page_table (procs s p)" and args = args and r = r, OF _ g4 ne]) (use r s1 t s2 s3 s4 x True in \<open>simp add: Let_def\<close>)
      qed
    qed
  qed
qed

lemma sys_exec_ids:
  assumes r: "sys_exec a b s = Some (r, s')" and s: "plain I s"
  shows "only_self (proc_current s) I s'"
proof -
  let ?p = "proc_current s"
  have ne: "fst (snd (I ?p)) \<noteq> 0" and p: "?p \<noteq> 0" using s by simp_all
  have fin: "only_self ?p I s1" if "safe I s1" for s1 using safe_only_self [OF that ne] .
  obtain perr pth where pth: "resolve_user_path a s = Some (perr, pth)" using r p by (auto simp: sys_exec_def Let_def bind_eq_Some_conv)
  show ?thesis
  proof (cases "perr = 0")
    case False
    then show ?thesis using r p pth fin s by (simp add: sys_exec_def Let_def)
  next
    case perr: True
    obtain ar where ar: "exec_copy_argv b (user_mem s) = Some ar" using r p pth perr by (auto simp: sys_exec_def Let_def bind_eq_Some_conv)
    show ?thesis
    proof (cases ar)
      case (Inl e)
      then show ?thesis using r p pth perr ar fin s by (simp add: sys_exec_def Let_def)
    next
      case (Inr args)
      obtain err eb bs s1 where s1: "exec_read_elf pth s = Some (err, eb, bs, s1)"
        using r p pth perr ar Inr by (auto simp: sys_exec_def Let_def bind_eq_Some_conv)
      have g1: "safe I s1" using exec_read_elf_safe [OF s1 s] .
      show ?thesis
      proof (cases "err = 0")
        case False
        then show ?thesis using r p pth perr ar Inr s1 fin g1 by (simp add: sys_exec_def Let_def)
      next
        case err: True
        show ?thesis
          by (rule exec_image_ids [where eb = eb and bs = bs and pth = pth and args = args and r = r, OF _ g1 ne])
            (use r p pth perr ar Inr s1 err in \<open>simp add: sys_exec_def Let_def\<close>)
      qed
    qed
  qed
qed

section \<open>The table of calls\<close>

abbreviation SYS_FORK :: u64 where "SYS_FORK \<equiv> 16"
abbreviation SYS_EXEC :: u64 where "SYS_EXEC \<equiv> 17"

definition call_ok :: "(u64 \<Rightarrow> u32 \<times> u32 \<times> u32 \<times> u32) \<Rightarrow> (Net \<Rightarrow> (sys_result \<times> Net) option) \<Rightarrow> bool" where
  "call_ok I f \<longleftrightarrow> (\<forall>n r n'. f n = Some (r, n') \<longrightarrow> plain I (nk n) \<longrightarrow> safe I (nk n'))"

lemma call_ok_kernel:
  assumes "\<And>s r s'. f s = Some (r, s') \<Longrightarrow> plain I s \<Longrightarrow> safe I s'"
  shows "call_ok I (\<lambda>n. on_kernel f n)"
  using assms by (fastforce simp: call_ok_def on_kernel_def bind_eq_Some_conv)

lemma call_ok_returns:
  assumes "\<And>s r s'. f s = Some (r, s') \<Longrightarrow> plain I s \<Longrightarrow> safe I s'"
  shows "call_ok I (\<lambda>n. returns (on_kernel f n))"
  using assms by (fastforce simp: call_ok_def returns_def on_kernel_def bind_eq_Some_conv)

lemma call_ok_waits:
  assumes "\<And>s r s'. f s = Some (r, s') \<Longrightarrow> plain I s \<Longrightarrow> safe I s'"
  shows "call_ok I (\<lambda>n. waits (on_kernel f n))"
  using assms by (fastforce simp: call_ok_def waits_def on_kernel_def bind_eq_Some_conv)

lemma call_ok_net:
  assumes "\<And>n r n'. f n = Some (r, n') \<Longrightarrow> nsame n n'"
  shows "call_ok I (\<lambda>n. returns (f n))"
  using assms by (fastforce simp: call_ok_def returns_def)

lemma call_ok_net_waits:
  assumes "\<And>n r n'. f n = Some (r, n') \<Longrightarrow> nsame n n'"
  shows "call_ok I (\<lambda>n. waits (f n))"
  using assms by (fastforce simp: call_ok_def waits_def)

lemma call_ok_read: "call_ok I (\<lambda>n. Some (Returns (g n), n))"
  by (simp add: call_ok_def)

lemma process_calls_ok:
  "call_ok I (\<lambda>n. on_kernel (\<lambda>s. map_option (Pair Exits) (sys_exit a s)) n)"
  "call_ok I (\<lambda>n. returns (on_kernel (sys_brk a) n))" "call_ok I (\<lambda>n. waits (on_kernel (sys_wait a b) n))"
  "call_ok I (\<lambda>n. returns (on_kernel (sys_kill a b) n))" "call_ok I (\<lambda>n. returns (on_kernel (sys_setpgid a b) n))"
  by (rule call_ok_kernel call_ok_returns call_ok_waits; auto dest: sys_exit_safe sys_brk_safe sys_wait_safe sys_kill_safe sys_setpgid_safe)+

lemma getpgid_call_ok: "call_ok I (\<lambda>n. map_option (\<lambda>v. (Returns v, n)) (sys_getpgid a (nk n)))"
  by (auto simp: call_ok_def)

lemma state_calls_ok:
  "call_ok I (\<lambda>n. returns (on_kernel (\<lambda>s. case sys_signal a b s of (v, s) \<Rightarrow> Some (sint v, s)) n))"
  "call_ok I (\<lambda>n. returns (on_kernel (\<lambda>s. Some (sys_sigreturn s)) n))" "call_ok I (\<lambda>n. returns (on_kernel (\<lambda>s. Some (sys_umask a s)) n))"
  "call_ok I (\<lambda>n. returns (on_kernel (\<lambda>s. Some (sys_tcsetpgrp a s)) n))" "call_ok I (\<lambda>n. returns (on_kernel (\<lambda>s. Some (sys_getcwd a b s)) n))"
  "call_ok I (\<lambda>n. returns (on_kernel (\<lambda>s. Some (sys_setuid a s)) n))" "call_ok I (\<lambda>n. returns (on_kernel (\<lambda>s. Some (sys_setgid a s)) n))"
  "call_ok I (\<lambda>n. returns (on_kernel (\<lambda>s. Some (sys_lseek a b c s)) n))" "call_ok I (\<lambda>n. returns (on_kernel (\<lambda>s. Some (sys_dup a s)) n))"
  subgoal by (rule call_ok_returns) (use small_calls_safe(3) [of I a b] in \<open>auto simp: split_beta\<close>)
  subgoal by (rule call_ok_returns) (use small_calls_safe(4) [of I] in \<open>auto simp: prod_eq_iff\<close>)
  subgoal by (rule call_ok_returns) (use small_calls_safe(1) [of I a] in \<open>auto simp: prod_eq_iff\<close>)
  subgoal by (rule call_ok_returns) (use small_calls_safe(2) [of I a] in \<open>auto simp: prod_eq_iff\<close>)
  subgoal by (rule call_ok_returns) (auto dest: sys_getcwd_same)
  subgoal by (rule call_ok_returns) (use sys_setid_plain(1) [of I] in \<open>auto simp: prod_eq_iff\<close>)
  subgoal by (rule call_ok_returns) (use sys_setid_plain(2) [of I] in \<open>auto simp: prod_eq_iff\<close>)
  subgoal by (rule call_ok_returns) (auto dest: sys_lseek_same)
  subgoal by (rule call_ok_returns) (auto dest: sys_dup_same)
  done

lemma file_calls_ok:
  "call_ok I (\<lambda>n. on_kernel (\<lambda>s. map_option (\<lambda>(r, s). (case r of Inl w \<Rightarrow> Sleeps w | Inr v \<Rightarrow> Returns v, s)) (sys_write a b c s)) n)"
  "call_ok I (\<lambda>n. returns (on_kernel (sys_open a b) n))" "call_ok I (\<lambda>n. waits (on_kernel (sys_read a b c) n))"
  "call_ok I (\<lambda>n. returns (on_kernel (sys_close a) n))" "call_ok I (\<lambda>n. returns (on_kernel (sys_stat a b) n))"
  "call_ok I (\<lambda>n. returns (on_kernel (sys_mkdir a b) n))" "call_ok I (\<lambda>n. returns (on_kernel (sys_readdir a b c) n))"
  "call_ok I (\<lambda>n. returns (on_kernel (sys_unlink a) n))" "call_ok I (\<lambda>n. returns (on_kernel (sys_fstat a b) n))"
  "call_ok I (\<lambda>n. returns (on_kernel (sys_dup2 a b) n))" "call_ok I (\<lambda>n. returns (on_kernel (sys_pipe a) n))"
  "call_ok I (\<lambda>n. returns (on_kernel (sys_chdir a) n))" "call_ok I (\<lambda>n. returns (on_kernel (sys_chmod a b) n))"
  "call_ok I (\<lambda>n. returns (on_kernel (sys_chown a b c) n))"
  by (rule call_ok_kernel call_ok_returns call_ok_waits;
      auto dest: sys_write_safe sys_open_safe sys_read_same sys_close_same sys_stat_same sys_mkdir_safe sys_readdir_same sys_unlink_same
        sys_fstat_same sys_dup2_same sys_pipe_safe sys_chdir_safe sys_chmod_safe sys_chown_plain)+

lemma socket_calls_ok:
  "call_ok I (\<lambda>n. returns (sys_socket a b n))" "call_ok I (\<lambda>n. returns (sys_bind a b n))" "call_ok I (\<lambda>n. returns (sys_listen a n))"
  "call_ok I (\<lambda>n. waits (sys_accept a b n))" "call_ok I (\<lambda>n. waits (sys_connect a b n))" "call_ok I (\<lambda>n. returns (sys_send a b c n))"
  "call_ok I (\<lambda>n. waits (sys_recv a b c n))" "call_ok I (\<lambda>n. returns (sys_sendto a b c d n))" "call_ok I (\<lambda>n. waits (sys_recvfrom a b c d n))"
  by (rule call_ok_net call_ok_net_waits; rule sys_socket_same sys_bind_same sys_listen_same sys_accept_same sys_connect_same sys_send_same
      sys_recv_same sys_sendto_same sys_recvfrom_same; assumption)+

lemma calls_ok:
  "list_all2 (\<lambda>i f. i \<noteq> 16 \<longrightarrow> i \<noteq> 17 \<longrightarrow> call_ok I f) [0..<44] (syscall_table ent args a0 a1 a2 a4)"
  unfolding syscall_table_def
  by (simp add: upt_rec call_ok_read getpgid_call_ok process_calls_ok state_calls_ok file_calls_ok socket_calls_ok)

lemma syscall_table_length: "length (syscall_table ent args a0 a1 a2 a4) = 44"
  by (simp add: syscall_table_def)

lemma dispatch_plain:
  assumes "syscall_dispatch ent args num a0 a1 a2 a3 a4 a5 n = Some (r, n')" and "plain I (nk n)" and "num \<noteq> SYS_FORK" and "num \<noteq> SYS_EXEC"
  shows "safe I (nk n')"
proof (cases "unat num < 44")
  case True
  have "unat num \<noteq> 16" "unat num \<noteq> 17" using assms(3,4) by (auto simp: word_unat_eq_iff)
  then have "call_ok I (syscall_table ent args a0 a1 a2 a4 ! unat num)"
    using list_all2_nthD [OF calls_ok, of "unat num"] True by simp
  then show ?thesis using assms(1,2) True unfolding call_ok_def by (simp add: syscall_dispatch_def syscall_table_length Let_def)
next
  case False
  then show ?thesis using assms(1,2) by (simp add: syscall_dispatch_def syscall_table_length Let_def)
qed

text \<open>What a call does to the ids of the processes: nothing, or what \<^verbatim>\<open>fork\<close> and \<^verbatim>\<open>exec\<close> do.\<close>

lemma dispatch_ids:
  assumes d: "syscall_dispatch ent args num a0 a1 a2 a3 a4 a5 n = Some (r, n')" and s: "plain I (nk n)"
  shows "(if num = SYS_FORK then safe I (nk n') \<or> (\<exists>I'. safe I' (nk n') \<and> (\<forall>q. q \<noteq> fork_child (nk n') \<longrightarrow> I' q = I q) \<and>
            (fork_child (nk n') \<noteq> proc_current (nk n) \<longrightarrow> I' (fork_child (nk n')) = I (proc_current (nk n))))
          else if num = SYS_EXEC then only_self (proc_current (nk n)) I (nk n')
          else safe I (nk n'))"
proof -
  consider "num = SYS_FORK" | "num = SYS_EXEC" | "num \<noteq> SYS_FORK" "num \<noteq> SYS_EXEC" by blast
  then show ?thesis
  proof cases
    case 1
    then obtain v k where k: "sys_fork ent args (nk n) = Some (v, k)" "n' = n\<lparr>nk := k\<rparr>"
      using d by (auto simp: syscall_dispatch_def syscall_table_def Let_def returns_def on_kernel_def bind_eq_Some_conv)
    then obtain c where "proc_fork ent args (proc_current (nk n)) (saved_user (nk n)) (nk n) = Some (c, k)"
      using s by (auto simp: sys_fork_def Let_def bind_eq_Some_conv split: if_split_asm)
    from proc_fork_ids [OF this, of I] show ?thesis using 1 s k(2) by simp
  next
    case 2
    then obtain v k where "sys_exec a0 a1 (nk n) = Some (v, k)" "n' = n\<lparr>nk := k\<rparr>"
      using d by (auto simp: syscall_dispatch_def syscall_table_def Let_def on_kernel_def bind_eq_Some_conv)
    then show ?thesis using 2 sys_exec_ids [of a0 a1 "nk n" v k I] s by simp
  next
    case 3
    then show ?thesis using dispatch_plain [OF d s] by simp
  qed
qed

section \<open>Runs of unprivileged processes\<close>

lemma tty_input_safe:
  assumes "tty_input_char c s = Some s'" and "safe I s"
  shows "safe I s'"
  using assms by (auto simp: tty_input_char_def tty_signal_def Let_def bind_eq_Some_conv split: if_split_asm
      dest!: wq_wake_same dest: sig_send_group_safe [where I = I])

text \<open>
  A run of the system in which every system call comes from a process that is not the superuser.  Between the calls the
  scheduler picks other threads, signals are delivered and keys are pressed.  The block that \<^verbatim>\<open>fork\<close> takes for the
  child is not that of the living parent, as the allocator promises.
\<close>

inductive unpriv_step :: "Net \<Rightarrow> Net \<Rightarrow> bool" where
  call: "\<lbrakk>p = proc_current (nk n); p \<noteq> 0; euid (procs (nk n) p) \<noteq> 0;
    syscall_dispatch ent args num a0 a1 a2 a3 a4 a5 n = Some (r, n'); num = SYS_FORK \<longrightarrow> fork_child (nk n') \<noteq> p\<rbrakk> \<Longrightarrow> unpriv_step n n'"
| switch: "unpriv_step n (n\<lparr>nk := sched_schedule rp (nk n)\<rparr>)"
| deliver: "sig_maybe_deliver fr ret (nk n) = Some (ret', fr', k) \<Longrightarrow> unpriv_step n (n\<lparr>nk := k\<rparr>)"
| key: "tty_input_char c (nk n) = Some k \<Longrightarrow> unpriv_step n (n\<lparr>nk := k\<rparr>)"

definition none_raised :: "Net \<Rightarrow> Net \<Rightarrow> bool" where
  "none_raised n n' \<longleftrightarrow> no_suid_root (vnodes (nk n')) \<and> (\<forall>q. euid (procs (nk n) q) \<noteq> 0 \<longrightarrow> euid (procs (nk n') q) \<noteq> 0)"

lemma none_raised_safe: "safe (\<lambda>q. creds (procs (nk n) q)) (nk n') \<Longrightarrow> none_raised n n'"
  using guard_euid [of "\<lambda>q. creds (procs (nk n) q)" "procs (nk n')" "vnodes (nk n')"]
  by (simp add: none_raised_def guard_def creds_def)

lemma unpriv_step_keeps:
  assumes "unpriv_step n n'" and "no_suid_root (vnodes (nk n))"
  shows "none_raised n n'"
proof -
  let ?I = "\<lambda>q. creds (procs (nk n) q)"
  have s: "safe ?I (nk n)" using assms(2) by (simp add: guard_def)
  show ?thesis using assms(1)
  proof cases
    case (call p ent args num a0 a1 a2 a3 a4 a5 r)
    have pl: "plain ?I (nk n)" using s call by (simp add: creds_def)
    note d = dispatch_ids [OF call(4) pl]
    show ?thesis
    proof (cases "num = SYS_FORK \<and> \<not> safe ?I (nk n')")
      case True
      then obtain I' where I': "safe I' (nk n')" "\<And>q. q \<noteq> fork_child (nk n') \<Longrightarrow> I' q = ?I q" "I' (fork_child (nk n')) = ?I p"
        using d call(1,5) by auto
      have "euid (procs (nk n') q) = fst (snd (I' q))" for q using guard_euid [OF I'(1)] .
      then have "euid (procs (nk n') q) \<noteq> 0" if "euid (procs (nk n) q) \<noteq> 0" for q
        using that I'(2) [of q] I'(3) call(3) by (cases "q = fork_child (nk n')") (simp_all add: creds_def)
      then show ?thesis using I'(1) by (simp add: none_raised_def guard_def)
    next
      case False
      show ?thesis
      proof (cases "num = SYS_EXEC")
        case True
        then have o: "only_self p ?I (nk n')" using d call(1) by simp
        have "euid (procs (nk n') q) \<noteq> 0" if "euid (procs (nk n) q) \<noteq> 0" for q
          using that o by (cases "q = p") (simp_all add: only_self_def creds_def)
        then show ?thesis using o by (simp add: none_raised_def only_self_def)
      next
        case False
        then show ?thesis using d \<open>\<not> (num = SYS_FORK \<and> \<not> safe ?I (nk n'))\<close> by (intro none_raised_safe) (auto split: if_split_asm)
      qed
    qed
  qed (use s sig_maybe_deliver_safe [of _ _ _ _ _ _ ?I] tty_input_safe [of _ _ _ ?I] in \<open>auto intro!: none_raised_safe\<close>)
qed


text \<open>A user's process changes its mask and then asks for the superuser's id.\<close>

definition login_example :: Net where
  "login_example = net_example\<lparr>nk := kernel_example\<lparr>procs := (\<lambda>_. zero_process\<lparr>uid := 1000, euid := 1000\<rparr>), proc_table := replicate 64 0x900\<rparr>\<rparr>"

definition masked_example :: Net where
  "masked_example = login_example\<lparr>nk := pset 0x900 (\<lambda>x. x\<lparr>umask := 63\<rparr>) (nk login_example)\<rparr>"

lemma example_caller: "proc_current (nk login_example) = 0x900" "proc_current (nk masked_example) = 0x900"
  by (simp_all add: masked_example_def login_example_def kernel_example_def proc_current_def thread_current_def zero_thread_def)

lemma example_calls:
  "syscall_dispatch ent args 34 63 0 0 0 0 0 login_example = Some (Returns 0, masked_example)"
  "syscall_dispatch ent args 27 0 0 0 0 0 0 masked_example = Some (Returns (- EPERM), masked_example)"
  using example_caller
  by (simp_all add: syscall_dispatch_def syscall_table_def Let_def returns_def on_kernel_def sys_umask_def sys_setuid_def)
    (simp_all add: masked_example_def login_example_def zero_process_def)

lemma example_run: "unpriv_step\<^sup>*\<^sup>* login_example masked_example"
proof -
  have e: "euid (procs (nk login_example) 0x900) \<noteq> 0" "euid (procs (nk masked_example) 0x900) \<noteq> 0"
    by (simp_all add: masked_example_def login_example_def)
  have "unpriv_step login_example masked_example"
    by (rule unpriv_step.call [OF example_caller(1) [symmetric] _ e(1) example_calls(1)]) simp_all
  moreover have "unpriv_step masked_example masked_example"
    by (rule unpriv_step.call [OF example_caller(2) [symmetric] _ e(2) example_calls(2)]) simp_all
  ultimately show ?thesis by simp
qed


end
