(* ===== verification/Spec2Isabelle.thy ===== *)
theory Spec2Isabelle
  imports Vfs Vt Socket Elf Fat32_Chain Exec_Args Privileges
begin

text \<open>
  Verification of the arc\_os kernel (\<^verbatim>\<open>src/kernel\<close>), an operating system for x86-64 written in C.

  \<^bold>\<open>The program.\<close>  At the bottom are the memory managers: a bitmap of page frames (\<^verbatim>\<open>mm/pmm.c\<close>), four-level
  page tables (\<^verbatim>\<open>mm/vmm.c\<close>), which take their tables from the bitmap, and the kernel heap (\<^verbatim>\<open>mm/kmalloc.c\<close>),
  which grows by mapping frames through both.  On the heap live threads and the run queue (\<^verbatim>\<open>proc/thread.c\<close>,
  \<^verbatim>\<open>proc/sched.c\<close>), wait queues, mutexes, semaphores and condition variables, processes with their
  descriptor tables, and signals.  File systems (\<^verbatim>\<open>fs/vfs.c\<close>, \<^verbatim>\<open>fs/ramfs.c\<close>, \<^verbatim>\<open>fs/devfs.c\<close>, \<^verbatim>\<open>fs/fat32.c\<close>, \<^verbatim>\<open>fs/pipe.c\<close>) are reached
  through paths and tables of operations.  The terminal turns keys into lines and signals, the console turns
  characters into pixels, and six virtual terminals share the screen.  The network stack (\<^verbatim>\<open>net/\<close>) turns
  datagrams and TCP segments into frames and back, and sockets hold what has arrived.

  \<^bold>\<open>Conventions.\<close>  C integers are words of their width, so that every wrap-around is in the model.  A C
  structure is a record, the static variables of a file are fields of a state record, and a function takes
  and returns the state.  A result \<open>None\<close> means that the C function does not return a value at all: it
  panics, waits for a lock that nobody can release, leaves an array, or loops for ever.  A negative error
  code is an ordinary result.  A call that may sleep is a \<^emph>\<open>pass\<close>: it runs from the point where the thread
  is scheduled to the result (\<open>Inr\<close>, or \<open>True\<close>) or to the next sleep (\<open>Inl\<close>, or \<open>False\<close>), after which the same pass runs again.
  Interrupts are off inside a pass, so passes of different threads interleave but do not overlap.  Output
  to the serial log is left out everywhere.

  \<^bold>\<open>Theories.\<close>
  \<^item> \<open>Arc_Prelude\<close>: machine types, error codes, checked arrays, loops with and without early exit and their
    invariant rules, little-endian fields.
  \<^item> \<open>Spinlock\<close>: the lock word and the saved interrupt flag (\<^verbatim>\<open>proc/spinlock.h\<close>).
  \<^item> \<open>Pmm\<close>: the bitmap as the set of free frames.  Initialisation establishes the invariant, every operation
    refines an operation on the set, and the interface \<open>page_source\<close> is what the next layers rely on.
  \<^item> \<open>Vmm\<close>: page tables in physical memory, \<open>translate\<close> as their meaning.  Mapping, unmapping, lookup, new address
    spaces, fork and teardown are stated over \<open>translate\<close> and over the set of frames an address space owns.
  \<^item> \<open>Kmalloc\<close>: the block list, related by \<open>heap_rep\<close> to a list of disjoint blocks; allocation, release and
    resizing, and the interface \<open>block_allocator\<close>.
  \<^item> \<open>Elf\<close>: the loader of executables, down to the byte a program reads at each of its addresses.
  \<^item> \<open>Lib\<close>: byte and string routines against list functions.
  \<^item> \<open>Kstate\<close>: the structures that the remaining parts share, one store per structure type.
  \<^item> \<open>Sched\<close>: run queue, choice of the next thread and switch of stacks and registers; the queue is an
    instance of \<open>fifo_queue\<close>, round robin is a theorem.
  \<^item> \<open>Sync\<close>: wait queues (again \<open>fifo_queue\<close>), mutexes, semaphores and condition variables.  The interleavings
    of the passes of several threads are inductive step relations; exclusion, conservation of tokens and the absence
    of lost wake-ups are invariants of them.
  \<^item> \<open>Pipe\<close>: the ring with wrapping positions as a byte stream (\<open>byte_ring\<close>), blocking reads and writes.
  \<^item> \<open>Process\<close>, \<open>Signal\<close>: descriptor tables, the process list, creation, fork and reaping; sending and delivering
    signals, handler frames and the signal system calls of \<^verbatim>\<open>arch/x86_64/syscall.c\<close>.
  \<^item> \<open>Path\<close>, \<open>Ramfs\<close>, \<open>Vfs\<close>: path normalisation, the RAM file system (files as byte lists, directories as finite
    maps), the path walk, mounts, permissions and open files; also the device nodes of \<^verbatim>\<open>fs/devfs.c\<close>.
  \<^item> \<open>Fat32\<close>, \<open>Fat32_Chain\<close>: the FAT32 file system (\<^verbatim>\<open>fs/fat32.c\<close>) over a disk of sectors: the cached table, clusters,
    8.3 names, directories, mounting.  A chain of clusters is a list of bytes; reading takes a slice of it and writing
    replaces a range, with the other chains untouched.  A request to the disk succeeds as a whole or fails as a whole.
    The path walk of \<open>Vfs\<close> covers the RAM and device file systems, not the nodes of \<open>Fat32\<close>.
  \<^item> \<open>Tty\<close>: the line discipline as operations on the edited line and the queue of finished lines.
  \<^item> \<open>Font\<close>, \<open>Console\<close>, \<open>Vt\<close>: the glyph table, pixels, cursor and scrolling, the escape-sequence parser, the virtual
    terminals and the keyboard.
  \<^item> \<open>Net\<close>, \<open>Socket\<close>: checksums, ARP, Ethernet, IPv4, ICMP, UDP and TCP packets as byte lists; the socket table,
    connections, datagrams and the TCP state machine.  A frame that is sent is appended to \<open>wire\<close>.
  \<^item> \<open>Syscall\<close>, \<open>Exec_Args\<close>, \<open>Privileges\<close>: the system calls and their table (\<^verbatim>\<open>arch/x86_64/syscall.c\<close>), over the parts above
    and the memory the caller sees; the arguments of \<^verbatim>\<open>exec\<close>, from the caller's array to the stack of the new program; and
    what each part of the kernel does to user ids and file modes, up to the runs of processes that are not the superuser.

  \<^bold>\<open>Loops and bounds.\<close>  Counting loops are \<open>for_each\<close> and \<open>for_ret\<close> over the list of their indices.  Loops whose end
  depends on data (list walks, coalescing, doubling a capacity, the scan of a string) are \<open>partial_function\<close>s;
  the theorems about their callers show that they return.  The recursion of the path walk is on the length of the
  path, that of the checksum on the sum.  There is no fuel.

  \<^bold>\<open>Interfaces.\<close>  \<open>page_source\<close> is interpreted as \<open>pages\<close> (bitmap), \<open>block_allocator\<close> as \<open>kmem\<close> (heap), \<open>fifo_queue\<close> as
  \<open>run_queue\<close> and \<open>wait_queue\<close>, \<open>byte_ring\<close> as \<open>pipe_ring\<close>.

  \<^bold>\<open>Not modelled.\<close>  Code whose effect is that of hardware registers (descriptor tables, interrupt controllers, timers,
  start of further processors, PCI, ACPI and virtio drivers, serial output) and the boot loader's protocol: their
  meaning is outside of the sources.  One processor is assumed throughout, so nothing is said about
  concurrent access by several processors.  Output formatting (\<^verbatim>\<open>kprintf\<close>, \<^verbatim>\<open>procfs\<close>), the password file,
  the C library and the user programs are not covered.  System calls that touch an unmapped user address would fault,
  and the faults are not modelled.
\<close>

end
